(* ===== verification/Prelude.thy ===== *)
theory Prelude
  imports Main "HOL-Library.Word" "HOL-Library.Monad_Syntax"
    "HOL-Library.Char_ord" "HOL-Library.List_Lexorder"
begin

text \<open>
  Shared vocabulary of the gredis development: the byte and integer types of the C++ sources, the
  part of the C++ standard library that every component uses (decimal printing and scanning,
  ASCII lower-casing, signed 64-bit bounds), and the generic list and option lemmas.

  Conventions. A \<^verbatim>\<open>std::string\<close> is a \<^typ>\<open>string\<close> (a list of 8-bit characters); \<^verbatim>\<open>size_t\<close> counters that
  count objects in memory are \<^typ>\<open>nat\<close>; \<^verbatim>\<open>int64_t\<close> values are \<^typ>\<open>int\<close> with the range written out by
  \<open>in_i64\<close>; hashes, checksums and codec words are \<^verbatim>\<open>'n word\<close>. A computation that the C++ standard
  leaves undefined (a null or dangling dereference, \<^verbatim>\<open>front()\<close> of an empty deque, signed overflow)
  is \<^term>\<open>None\<close> of \<open>'a ub\<close>, so that absence of undefined behaviour is a provable statement.
\<close>

unbundle bit_operations_syntax

named_theorems ub_simps \<open>unfolding rules of the undefined-behaviour monad\<close>
named_theorems inv_intro \<open>introduction rules: an operation keeps its component's invariant\<close>
named_theorems view_simps \<open>abstraction of an operation as an operation on the abstract state\<close>

type_synonym 'a ub = "'a option"
type_synonym u8 = "8 word"
type_synonym u16 = "16 word"
type_synonym u32 = "32 word"
type_synonym u64 = "64 word"

lemmas bind_ub [ub_simps] = Option.bind_eq_Some_conv Option.bind_eq_None_conv

section \<open>Signed 64-bit integers\<close>

definition INT64_MAX :: int where "INT64_MAX = 9223372036854775807"
definition INT64_MIN :: int where "INT64_MIN = - 9223372036854775808"

definition in_i64 :: "int \<Rightarrow> bool" where
  "in_i64 x \<longleftrightarrow> INT64_MIN \<le> x \<and> x \<le> INT64_MAX"

text \<open>C++ integer division truncates towards zero.\<close>

definition cdiv :: "int \<Rightarrow> int \<Rightarrow> int" where
  "cdiv a b = sgn a * sgn b * (\<bar>a\<bar> div \<bar>b\<bar>)"

lemmas i64_defs = INT64_MAX_def INT64_MIN_def in_i64_def

lemma cdiv_nonneg: "0 \<le> a \<Longrightarrow> 0 < b \<Longrightarrow> cdiv a b = a div b"
  by (cases "a = 0") (simp_all add: cdiv_def sgn_if)

section \<open>Characters and decimal numbers\<close>

definition CR :: char where "CR = CHR 0x0D"
definition LF :: char where "LF = CHR 0x0A"
definition CRLF :: string where "CRLF = [CR, LF]"

definition is_digit :: "char \<Rightarrow> bool" where
  "is_digit c \<longleftrightarrow> 48 \<le> (of_char c :: nat) \<and> (of_char c :: nat) \<le> 57"

definition digit_val :: "char \<Rightarrow> nat" where
  "digit_val c = of_char c - 48"

definition digit_char :: "nat \<Rightarrow> char" where
  "digit_char d = char_of (48 + d)"

text \<open>\<^verbatim>\<open>std::tolower\<close> on an \<^verbatim>\<open>unsigned char\<close> in the "C" locale.\<close>

definition tolower :: "char \<Rightarrow> char" where
  "tolower c = (if 65 \<le> (of_char c :: nat) \<and> (of_char c :: nat) \<le> 90
                then char_of (of_char c + 32 :: nat) else c)"

text \<open>\<^verbatim>\<open>std::to_string\<close> on unsigned and signed integers.\<close>

fun nat_to_string :: "nat \<Rightarrow> string" where
  "nat_to_string n = (if n < 10 then [digit_char n]
                      else nat_to_string (n div 10) @ [digit_char (n mod 10)])"

declare nat_to_string.simps [simp del]

definition int_to_string :: "int \<Rightarrow> string" where
  "int_to_string i = (if i < 0 then CHR ''-'' # nat_to_string (nat (- i)) else nat_to_string (nat i))"

text \<open>The value of a digit string, most significant digit first.\<close>

definition digits_val :: "string \<Rightarrow> nat" where
  "digits_val ds = foldl (\<lambda>acc c. 10 * acc + digit_val c) 0 ds"

text \<open>
  \<^verbatim>\<open>std::from_chars\<close> for a signed 64-bit integer in base 10: an optional minus sign, then the
  longest run of digits. No digit is \<^verbatim>\<open>invalid_argument\<close>, a value that does not fit is
  \<^verbatim>\<open>result_out_of_range\<close>; otherwise the value and the unread rest of the input.
\<close>

datatype from_chars_errc = Invalid_argument | Result_out_of_range

definition from_chars_i64 :: "string \<Rightarrow> from_chars_errc + (int \<times> string)" where
  "from_chars_i64 s =
    (let neg = (case s of c # _ \<Rightarrow> c = CHR ''-'' | [] \<Rightarrow> False);
         body = (if neg then tl s else s);
         ds = takeWhile is_digit body;
         rest = dropWhile is_digit body;
         v = (if neg then - int (digits_val ds) else int (digits_val ds))
     in if ds = [] then Inl Invalid_argument
        else if in_i64 v then Inr (v, rest)
        else Inl Result_out_of_range)"

lemma is_digit_digit_char [simp]: "d < 10 \<Longrightarrow> is_digit (digit_char d)"
  by (simp add: is_digit_def digit_char_def)

lemma digit_val_digit_char [simp]: "d < 10 \<Longrightarrow> digit_val (digit_char d) = d"
  by (simp add: digit_val_def digit_char_def)

lemma digits_val_snoc [simp]: "digits_val (ds @ [c]) = 10 * digits_val ds + digit_val c"
  by (simp add: digits_val_def)

lemma nat_to_string_digits: "list_all is_digit (nat_to_string n)"
proof (induction n rule: nat_to_string.induct)
  case (1 n)
  then show ?case by (subst nat_to_string.simps) auto
qed

lemma nat_to_string_nonempty [simp]: "nat_to_string n \<noteq> []"
  by (subst nat_to_string.simps) simp

lemma digits_val_nat_to_string [simp]: "digits_val (nat_to_string n) = n"
proof (induction n rule: nat_to_string.induct)
  case (1 n)
  show ?case
  proof (cases "n < 10")
    case True
    then show ?thesis by (subst nat_to_string.simps) (simp add: digits_val_def)
  next
    case False
    with 1 have "digits_val (nat_to_string (n div 10)) = n div 10" by simp
    with False show ?thesis by (subst nat_to_string.simps) simp
  qed
qed

lemma nat_to_string_inject [simp]: "nat_to_string m = nat_to_string n \<longleftrightarrow> m = n"
  by (metis digits_val_nat_to_string)

lemma takeWhile_all_append:
  "list_all P xs \<Longrightarrow> (case ys of y # _ \<Rightarrow> \<not> P y | [] \<Rightarrow> True) \<Longrightarrow>
   takeWhile P (xs @ ys) = xs \<and> dropWhile P (xs @ ys) = ys"
  by (induction xs) (auto split: list.splits)

lemma is_digit_neq [simp]:
  "is_digit c \<Longrightarrow> c \<noteq> CHR ''-''" "is_digit c \<Longrightarrow> c \<noteq> CR" "is_digit c \<Longrightarrow> c \<noteq> LF"
  by (auto simp: is_digit_def CR_def LF_def)

lemma nat_to_string_hd: "is_digit (hd (nat_to_string n))"
  using nat_to_string_digits [of n] by (cases "nat_to_string n") auto

text \<open>Scanning what was printed gives the number back and stops right after it.\<close>

lemma from_chars_int_to_string:
  assumes "in_i64 i" and "case rest of c # _ \<Rightarrow> \<not> is_digit c | [] \<Rightarrow> True"
  shows "from_chars_i64 (int_to_string i @ rest) = Inr (i, rest)"
proof (cases "i < 0")
  case True
  with assms show ?thesis
    using takeWhile_all_append [OF nat_to_string_digits, of rest "nat (- i)"]
    by (simp add: from_chars_i64_def int_to_string_def Let_def)
next
  case False
  obtain c cs where cs: "nat_to_string (nat i) = c # cs"
    using nat_to_string_nonempty by (cases "nat_to_string (nat i)") auto
  then have "is_digit c" using nat_to_string_hd [of "nat i"] by simp
  then have "c \<noteq> CHR ''-''" by simp
  with False assms cs show ?thesis
    using takeWhile_all_append [OF nat_to_string_digits, of rest "nat i"]
          digits_val_nat_to_string [of "nat i"]
    by (simp add: from_chars_i64_def int_to_string_def Let_def)
qed

lemma from_chars_i64_range: "from_chars_i64 s = Inr (v, rest) \<Longrightarrow> in_i64 v"
  by (auto simp: from_chars_i64_def Let_def split: if_splits)

section \<open>Lists\<close>

lemma map_of_distinct_mem: "distinct (map fst xs) \<Longrightarrow> (k, v) \<in> set xs \<Longrightarrow> map_of xs k = Some v"
  by simp

lemma length_filter_neq_distinct:
  "distinct (map f xs) \<Longrightarrow> x \<in> set xs \<Longrightarrow> length (filter (\<lambda>y. f y \<noteq> f x) xs) + 1 = length xs"
proof (induction xs)
  case Nil
  then show ?case by simp
next
  case (Cons a xs)
  show ?case
  proof (cases "x = a")
    case True
    with Cons.prems have "\<forall>y \<in> set xs. f y \<noteq> f x" by (force simp: image_iff)
    then have "filter (\<lambda>y. f y \<noteq> f x) xs = xs" by (simp add: filter_id_conv)
    with True show ?thesis by simp
  next
    case False
    with Cons.prems have "f a \<noteq> f x" "x \<in> set xs" by auto
    with Cons show ?thesis by simp
  qed
qed

section \<open>Lines\<close>

text \<open>\<^verbatim>\<open>find("\r\n")\<close>: the position of the first line end.\<close>

fun find_crlf :: "string \<Rightarrow> nat option" where
  "find_crlf (c # d # cs) = (if c = CR \<and> d = LF then Some 0 else map_option Suc (find_crlf (d # cs)))"
| "find_crlf _ = None"

lemma find_crlf_append: "find_crlf w = Some i \<Longrightarrow> find_crlf (w @ u) = Some i"
  by (induction w arbitrary: i rule: find_crlf.induct) (auto split: if_splits)

lemma find_crlf_line: "CR \<notin> set s \<Longrightarrow> find_crlf (s @ CRLF @ u) = Some (length s)"
proof (induction s)
  case Nil
  then show ?case by (simp add: CRLF_def)
next
  case (Cons c s)
  then show ?case by (cases s) (auto simp: CRLF_def)
qed

lemma find_crlf_bound: "find_crlf w = Some i \<Longrightarrow> i + 2 \<le> length w"
  by (induction w arbitrary: i rule: find_crlf.induct) (auto split: if_splits)

lemma nat_to_string_no_cr [simp]: "CR \<notin> set (nat_to_string n)" "LF \<notin> set (nat_to_string n)"
  using nat_to_string_digits [of n] unfolding list_all_iff by (blast dest: is_digit_neq)+

lemma minus_neq: "CR \<noteq> CHR ''-''" "LF \<noteq> CHR ''-''"
  by (simp_all add: CR_def LF_def)

lemma int_to_string_no_cr [simp]: "CR \<notin> set (int_to_string n)" "LF \<notin> set (int_to_string n)"
  by (auto simp: int_to_string_def minus_neq)

end
