(* ===== verification/Hash_Table.thy ===== *)
theory Hash_Table
  imports Prelude "HOL-Library.Multiset"
begin

text \<open>
  The chained hash table with incremental rehashing of \<^verbatim>\<open>storage/hash_table.h\<close>, which holds the
  keyspace, the TTL index, hash values, set values and the member index of sorted sets. A chain of
  heap nodes is the list of its nodes from the head; a pointer to a value that \<^verbatim>\<open>find\<close> returns and the
  caller later writes through is modelled by the key it was found under (\<open>ht_write\<close>).

  The theory shows that every operation keeps the structural invariant (which is what
  \<^verbatim>\<open>check_invariants\<close> tests) and refines the obvious operation on a finite map, whatever the state
  of a rehash in progress, and that a rehash does bounded work per step and finishes.
\<close>

section \<open>Data\<close>

record 'v hnode =
  nkey :: string
  nval :: 'v
  nhash :: u64

record 'v table =
  buckets :: "'v hnode list list"
  tcount :: nat

record 'v hash_table =
  old_table :: "'v table"
  new_table :: "'v table"
  rehash_idx :: int

definition kInitialBuckets :: nat where "kInitialBuckets = 4"

definition fnv_hash :: "string \<Rightarrow> u64" where
  "fnv_hash s = foldl (\<lambda>h c. (h XOR of_nat (of_char c)) * 0x100000001b3) 0xcbf29ce484222325 s"

definition bucket_index :: "u64 \<Rightarrow> nat \<Rightarrow> nat" where
  "bucket_index h n = unat (h AND (of_nat n - 1))"

definition empty_table :: "'v table" where
  "empty_table = \<lparr>buckets = [], tcount = 0\<rparr>"

definition is_rehashing :: "'v hash_table \<Rightarrow> bool" where
  "is_rehashing t \<longleftrightarrow> rehash_idx t \<ge> 0"

definition reset_to_empty :: "'v hash_table" where
  "reset_to_empty =
     \<lparr>old_table = \<lparr>buckets = replicate kInitialBuckets [], tcount = 0\<rparr>,
      new_table = empty_table, rehash_idx = -1\<rparr>"

section \<open>Private helpers\<close>

definition node_matches :: "string \<Rightarrow> u64 \<Rightarrow> 'v hnode \<Rightarrow> bool" where
  "node_matches key h n \<longleftrightarrow> nhash n = h \<and> nkey n = key"

definition find_in :: "'v table \<Rightarrow> string \<Rightarrow> u64 \<Rightarrow> 'v hnode option" where
  "find_in t key h =
    (if buckets t = [] then None
     else List.find (node_matches key h) (buckets t ! bucket_index h (length (buckets t))))"

fun unlink_chain :: "string \<Rightarrow> u64 \<Rightarrow> 'v hnode list \<Rightarrow> 'v hnode option \<times> 'v hnode list" where
  "unlink_chain key h [] = (None, [])"
| "unlink_chain key h (n # ns) =
     (if node_matches key h n then (Some n, ns)
      else let (r, ns') = unlink_chain key h ns in (r, n # ns'))"

definition unlink_from :: "'v table \<Rightarrow> string \<Rightarrow> u64 \<Rightarrow> 'v hnode option \<times> 'v table" where
  "unlink_from t key h =
    (if buckets t = [] then (None, t)
     else let i = bucket_index h (length (buckets t));
              (r, chain) = unlink_chain key h (buckets t ! i)
          in case r of
               None \<Rightarrow> (None, t)
             | Some n \<Rightarrow> (Some n, \<lparr>buckets = (buckets t)[i := chain], tcount = tcount t - 1\<rparr>))"

definition assign_in :: "'v table \<Rightarrow> string \<Rightarrow> u64 \<Rightarrow> 'v \<Rightarrow> 'v table" where
  "assign_in t key h v =
    (let i = bucket_index h (length (buckets t)) in
     t\<lparr>buckets := (buckets t)[i := map (\<lambda>n. if node_matches key h n then n\<lparr>nval := v\<rparr> else n)
                                       (buckets t ! i)]\<rparr>)"

definition push_node :: "'v hnode \<Rightarrow> 'v hnode list list \<Rightarrow> 'v hnode list list" where
  "push_node n bs = (let i = bucket_index (nhash n) (length bs) in bs[i := n # bs ! i])"

definition start_rehash :: "nat \<Rightarrow> 'v hash_table \<Rightarrow> 'v hash_table" where
  "start_rehash new_bucket_count t =
     t\<lparr>new_table := \<lparr>buckets = replicate (max new_bucket_count kInitialBuckets) [], tcount = 0\<rparr>,
       rehash_idx := 0\<rparr>"

definition maybe_start_shrink :: "'v hash_table \<Rightarrow> 'v hash_table" where
  "maybe_start_shrink t =
    (let n = length (buckets (old_table t)) in
     if is_rehashing t then t
     else if n \<le> kInitialBuckets then t
     else if tcount (old_table t) * 10 < n then
       (let target = max (n div 2) kInitialBuckets in
        if target < n then start_rehash target t else t)
     else t)"

section \<open>Incremental rehashing\<close>

text \<open>The loop of \<^verbatim>\<open>rehash_step\<close>: \<open>i\<close> is \<^verbatim>\<open>rehash_idx_\<close>, which is non-negative inside it.\<close>

function rehash_loop ::
  "nat \<Rightarrow> nat \<Rightarrow> nat \<Rightarrow> nat \<Rightarrow> 'v table \<Rightarrow> 'v table \<Rightarrow> nat \<times> 'v table \<times> 'v table" where
  "rehash_loop budget migrated empty_skipped i old new =
    (if migrated < budget \<and> empty_skipped < 10 * budget \<and> i < length (buckets old) then
       (let head = buckets old ! i in
        if head = [] then rehash_loop budget migrated (empty_skipped + 1) (i + 1) old new
        else rehash_loop budget (migrated + 1) empty_skipped (i + 1)
               \<lparr>buckets = (buckets old)[i := []], tcount = tcount old - length head\<rparr>
               \<lparr>buckets = fold push_node head (buckets new), tcount = tcount new + length head\<rparr>)
     else (i, old, new))"
  by pat_completeness auto
termination
  by (relation "measure (\<lambda>(b, m, e, i, old, new). length (buckets old) - i)") auto

declare rehash_loop.simps [simp del]

definition rehash_step :: "nat \<Rightarrow> 'v hash_table \<Rightarrow> 'v hash_table" where
  "rehash_step budget t =
    (if \<not> is_rehashing t \<or> budget = 0 then t
     else let (i, old, new) =
                rehash_loop budget 0 0 (nat (rehash_idx t)) (old_table t) (new_table t)
          in if i \<ge> length (buckets old)
             then \<lparr>old_table = new, new_table = empty_table, rehash_idx = -1\<rparr>
             else \<lparr>old_table = old, new_table = new, rehash_idx = int i\<rparr>)"

definition maybe_rehash_step :: "'v hash_table \<Rightarrow> 'v hash_table" where
  "maybe_rehash_step t = (if is_rehashing t then rehash_step 1 t else t)"

section \<open>Public operations\<close>

definition ht_find_const :: "'v hash_table \<Rightarrow> string \<Rightarrow> 'v option" where
  "ht_find_const t key =
    (let h = fnv_hash key in
     case find_in (old_table t) key h of
       Some n \<Rightarrow> Some (nval n)
     | None \<Rightarrow> if is_rehashing t then map_option nval (find_in (new_table t) key h) else None)"

definition ht_find :: "'v hash_table \<Rightarrow> string \<Rightarrow> 'v option \<times> 'v hash_table" where
  "ht_find t0 key = (let t = maybe_rehash_step t0 in (ht_find_const t key, t))"

text \<open>A store through the pointer returned by \<^verbatim>\<open>find(key)\<close>.\<close>

definition ht_write :: "'v hash_table \<Rightarrow> string \<Rightarrow> 'v \<Rightarrow> 'v hash_table" where
  "ht_write t key v =
    (let h = fnv_hash key in
     case find_in (old_table t) key h of
       Some _ \<Rightarrow> t\<lparr>old_table := assign_in (old_table t) key h v\<rparr>
     | None \<Rightarrow> if is_rehashing t \<and> find_in (new_table t) key h \<noteq> None
               then t\<lparr>new_table := assign_in (new_table t) key h v\<rparr> else t)"

definition insert_fresh :: "'v hash_table \<Rightarrow> 'v hnode \<Rightarrow> 'v hash_table" where
  "insert_fresh t node =
    (let push = (\<lambda>d. \<lparr>buckets = push_node node (buckets d), tcount = tcount d + 1\<rparr>) in
     if is_rehashing t then t\<lparr>new_table := push (new_table t)\<rparr>
     else t\<lparr>old_table := push (old_table t)\<rparr>)"

definition ht_insert_or_assign ::
  "'v hash_table \<Rightarrow> string \<Rightarrow> 'v \<Rightarrow> bool \<times> 'v hash_table" where
  "ht_insert_or_assign t0 key v =
    (let t = maybe_rehash_step t0; h = fnv_hash key in
     case find_in (old_table t) key h of
       Some _ \<Rightarrow> (False, t\<lparr>old_table := assign_in (old_table t) key h v\<rparr>)
     | None \<Rightarrow>
         if is_rehashing t \<and> find_in (new_table t) key h \<noteq> None
         then (False, t\<lparr>new_table := assign_in (new_table t) key h v\<rparr>)
         else
           let t' = (if \<not> is_rehashing t \<and>
                        tcount (old_table t) + 1 \<ge> length (buckets (old_table t))
                     then start_rehash (length (buckets (old_table t)) * 2) t else t)
           in (True, insert_fresh t' \<lparr>nkey = key, nval = v, nhash = h\<rparr>))"

definition ht_unlink :: "'v hash_table \<Rightarrow> string \<Rightarrow> 'v hnode option \<times> 'v hash_table" where
  "ht_unlink t key =
    (let h = fnv_hash key; (n, old) = unlink_from (old_table t) key h in
     if n = None \<and> is_rehashing t
     then (let (m, new) = unlink_from (new_table t) key h
           in (m, t\<lparr>old_table := old, new_table := new\<rparr>))
     else (n, t\<lparr>old_table := old\<rparr>))"

definition ht_take :: "'v hash_table \<Rightarrow> string \<Rightarrow> 'v option \<times> 'v hash_table" where
  "ht_take t key =
    (case ht_unlink (maybe_rehash_step t) key of
       (None, t') \<Rightarrow> (None, t')
     | (Some n, t') \<Rightarrow> (Some (nval n), maybe_start_shrink t'))"

definition ht_erase :: "'v hash_table \<Rightarrow> string \<Rightarrow> bool \<times> 'v hash_table" where
  "ht_erase t key =
    (case ht_unlink (maybe_rehash_step t) key of
       (None, t') \<Rightarrow> (False, t')
     | (Some n, t') \<Rightarrow> (True, maybe_start_shrink t'))"

definition ht_size :: "'v hash_table \<Rightarrow> nat" where
  "ht_size t = tcount (old_table t) + tcount (new_table t)"

definition ht_empty :: "'v hash_table \<Rightarrow> bool" where
  "ht_empty t \<longleftrightarrow> ht_size t = 0"

definition ht_clear :: "'v hash_table \<Rightarrow> 'v hash_table" where
  "ht_clear t = reset_to_empty"

definition bucket_count :: "'v hash_table \<Rightarrow> nat" where
  "bucket_count t = length (buckets (old_table t)) +
     (if is_rehashing t then length (buckets (new_table t)) else 0)"

text \<open>The nodes in the order in which \<^verbatim>\<open>for_each\<close> visits them.\<close>

definition ht_nodes :: "'v hash_table \<Rightarrow> 'v hnode list" where
  "ht_nodes t = concat (buckets (old_table t)) @
     (if is_rehashing t then concat (buckets (new_table t)) else [])"

definition ht_for_each :: "'v hash_table \<Rightarrow> (string \<times> 'v) list" where
  "ht_for_each t = map (\<lambda>n. (nkey n, nval n)) (ht_nodes t)"

section \<open>Random entry\<close>

text \<open>
  The process-wide \<^verbatim>\<open>std::mt19937\<close> is seeded from \<^verbatim>\<open>std::random_device\<close>, so its output is an input of
  the program: \<open>draws\<close> is the sequence it produces and \<open>dpos\<close> the next position.
\<close>

record rng =
  draws :: "nat \<Rightarrow> nat"
  dpos :: nat

definition rng_pick :: "rng \<Rightarrow> nat \<Rightarrow> nat \<times> rng" where
  "rng_pick r n = (draws r (dpos r) mod n, r\<lparr>dpos := dpos r + 1\<rparr>)"

partial_function (option) pick_nonempty ::
  "'v hnode list list \<Rightarrow> rng \<Rightarrow> ('v hnode list \<times> rng) option" where
  "pick_nonempty bs r =
    (if bs ! fst (rng_pick r (length bs)) = [] then pick_nonempty bs (snd (rng_pick r (length bs)))
     else Some (bs ! fst (rng_pick r (length bs)), snd (rng_pick r (length bs))))"

definition random_entry :: "'v hash_table \<Rightarrow> rng \<Rightarrow> ((string \<times> 'v) option \<times> rng) ub" where
  "random_entry t r0 =
    (if ht_size t = 0 then Some (None, r0)
     else
       let (tab, r1) =
             (if is_rehashing t then
                (let (x, r) = rng_pick r0 (ht_size t);
                     c = (if x < tcount (old_table t) then old_table t else new_table t);
                     d = (if x < tcount (old_table t) then new_table t else old_table t)
                 in (if tcount c = 0 then d else c, r))
              else (old_table t, r0))
       in if buckets tab = [] \<or> tcount tab = 0 then Some (None, r1)
          else do {
            (chain, r2) \<leftarrow> pick_nonempty (buckets tab) r1;
            let (steps, r3) = rng_pick r2 (length chain);
            let n = chain ! steps;
            Some (Some (nkey n, nval n), r3)
          })"

section \<open>The self-check of the tests\<close>

function dup_free_runs :: "'v hnode list \<Rightarrow> bool" where
  "dup_free_runs [] = True"
| "dup_free_runs (a # ns) =
     (distinct (map nkey (a # takeWhile (\<lambda>b. nhash b = nhash a) ns)) \<and>
      dup_free_runs (dropWhile (\<lambda>b. nhash b = nhash a) ns))"
  by pat_completeness auto
termination
  by (relation "measure length") (auto simp: less_Suc_eq_le length_dropWhile_le)

definition check_table :: "'v table \<Rightarrow> bool" where
  "check_table t \<longleftrightarrow>
     list_all (\<lambda>i. list_all (\<lambda>n. bucket_index (nhash n) (length (buckets t)) = i) (buckets t ! i))
       [0..<length (buckets t)] \<and>
     length (concat (buckets t)) = tcount t"

definition check_invariants :: "'v hash_table \<Rightarrow> bool" where
  "check_invariants t \<longleftrightarrow>
     (if \<not> is_rehashing t then buckets (new_table t) = [] \<and> tcount (new_table t) = 0
      else list_all (\<lambda>i. buckets (old_table t) ! i = [])
             [0..<min (nat (rehash_idx t)) (length (buckets (old_table t)))]) \<and>
     check_table (old_table t) \<and>
     (is_rehashing t \<longrightarrow> check_table (new_table t)) \<and>
     dup_free_runs (sort_key nhash (ht_nodes t))"

section \<open>Invariant and abstraction\<close>

definition chain_ok :: "nat \<Rightarrow> nat \<Rightarrow> 'v hnode list \<Rightarrow> bool" where
  "chain_ok n i chain \<longleftrightarrow>
     (\<forall>x \<in> set chain. bucket_index (fnv_hash (nkey x)) n = i \<and> nhash x = fnv_hash (nkey x))"

definition buckets_ok :: "'v hnode list list \<Rightarrow> bool" where
  "buckets_ok bs \<longleftrightarrow> (\<forall>i < length bs. chain_ok (length bs) i (bs ! i))"

definition table_ok :: "'v table \<Rightarrow> bool" where
  "table_ok t \<longleftrightarrow> buckets_ok (buckets t) \<and> tcount t = length (concat (buckets t))"

definition pow2_buckets :: "'v table \<Rightarrow> bool" where
  "pow2_buckets t \<longleftrightarrow> (\<exists>k. length (buckets t) = kInitialBuckets * 2 ^ k)"

definition all_nodes :: "'v hash_table \<Rightarrow> 'v hnode list" where
  "all_nodes t = concat (buckets (old_table t)) @ concat (buckets (new_table t))"

definition ht_invar :: "'v hash_table \<Rightarrow> bool" where
  "ht_invar t \<longleftrightarrow>
     table_ok (old_table t) \<and> pow2_buckets (old_table t) \<and>
     distinct (map nkey (all_nodes t)) \<and>
     (if is_rehashing t
      then table_ok (new_table t) \<and> pow2_buckets (new_table t) \<and>
           nat (rehash_idx t) < length (buckets (old_table t)) \<and>
           (\<forall>i < nat (rehash_idx t). buckets (old_table t) ! i = [])
      else rehash_idx t = -1 \<and> new_table t = empty_table)"

abbreviation kv :: "'v hnode \<Rightarrow> string \<times> 'v" where
  "kv n \<equiv> (nkey n, nval n)"

definition ht_map :: "'v hash_table \<Rightarrow> (string \<rightharpoonup> 'v)" where
  "ht_map t = map_of (map kv (all_nodes t))"

section \<open>Buckets\<close>

lemma bucket_index_less: "0 < n \<Longrightarrow> bucket_index h n < n"
proof -
  assume "0 < n"
  then have eq: "(of_nat n :: u64) - 1 = of_nat (n - 1)" by (simp add: of_nat_diff)
  have "h AND (of_nat n - 1) \<le> of_nat n - 1" by (rule word_and_le1)
  then have "bucket_index h n \<le> unat (of_nat (n - 1) :: u64)"
    by (simp add: bucket_index_def eq word_le_nat_alt)
  also have "\<dots> \<le> n - 1" by (simp add: unat_of_nat)
  finally show ?thesis using \<open>0 < n\<close> by simp
qed

lemma mset_concat_update:
  "i < length bs \<Longrightarrow> mset (concat (bs[i := c])) + mset (bs ! i) = mset (concat bs) + mset c"
  by (induction bs arbitrary: i) (auto split: nat.splits)

lemma length_push_node [simp]: "length (push_node n bs) = length bs"
  by (simp add: push_node_def Let_def)

lemma mset_push_node: "bs \<noteq> [] \<Longrightarrow> mset (concat (push_node n bs)) = add_mset n (mset (concat bs))"
proof -
  assume "bs \<noteq> []"
  then have i: "bucket_index (nhash n) (length bs) < length bs"
    by (simp add: bucket_index_less)
  show ?thesis
    using mset_concat_update [OF i, of "n # bs ! bucket_index (nhash n) (length bs)"]
    by (simp add: push_node_def Let_def)
qed

lemma buckets_ok_update:
  assumes "buckets_ok bs" "i < length bs \<Longrightarrow> chain_ok (length bs) i c"
  shows "buckets_ok (bs[i := c])"
proof (cases "i < length bs")
  case True
  with assms show ?thesis by (auto simp: buckets_ok_def nth_list_update)
next
  case False
  with assms show ?thesis by (simp add: list_update_beyond)
qed

lemma buckets_ok_push_node:
  assumes "buckets_ok bs" "bs \<noteq> []" "nhash n = fnv_hash (nkey n)"
  shows "buckets_ok (push_node n bs)"
  unfolding push_node_def Let_def
  by (rule buckets_ok_update) (use assms in \<open>auto simp: buckets_ok_def chain_ok_def\<close>)

lemma fold_push_node:
  assumes "buckets_ok bs" "bs \<noteq> []" "\<forall>n \<in> set ns. nhash n = fnv_hash (nkey n)"
  shows "buckets_ok (fold push_node ns bs) \<and> length (fold push_node ns bs) = length bs \<and>
         mset (concat (fold push_node ns bs)) = mset ns + mset (concat bs)"
  using assms
proof (induction ns arbitrary: bs)
  case Nil
  then show ?case by simp
next
  case (Cons n ns)
  have ne: "push_node n bs \<noteq> []" using Cons.prems by (metis length_push_node length_0_conv)
  with Cons show ?case by (auto simp: buckets_ok_push_node mset_push_node)
qed

lemma buckets_ok_clear: "buckets_ok bs \<Longrightarrow> buckets_ok (bs[i := []])"
  by (rule buckets_ok_update) (auto simp: chain_ok_def)

lemma size_mset_concat: "mset (concat bs) = m \<Longrightarrow> length (concat bs) = size m"
  by (metis size_mset)

lemma buckets_ok_mem:
  assumes "buckets_ok bs" "n \<in> set (concat bs)"
  shows "nhash n = fnv_hash (nkey n) \<and> n \<in> set (bs ! bucket_index (fnv_hash (nkey n)) (length bs))"
proof -
  from assms(2) obtain i where i: "i < length bs" "n \<in> set (bs ! i)"
    by (auto simp: in_set_conv_nth [where xs = bs])
  with assms(1) have "bucket_index (fnv_hash (nkey n)) (length bs) = i \<and> nhash n = fnv_hash (nkey n)"
    by (simp add: buckets_ok_def chain_ok_def)
  with i show ?thesis by auto
qed

lemma buckets_ok_replicate [simp]: "buckets_ok (replicate n [])"
  by (simp add: buckets_ok_def chain_ok_def)

lemma concat_replicate_Nil [simp]: "concat (replicate n []) = []"
  by simp

lemma pow2_buckets_nonempty [simp]: "pow2_buckets t \<Longrightarrow> buckets t \<noteq> []"
  by (auto simp: pow2_buckets_def kInitialBuckets_def)

section \<open>The rehash loop\<close>

text \<open>What one run of the loop keeps: both tables stay well formed, no node is lost or duplicated,
  the sizes do not change and the old buckets below the cursor are empty.\<close>

definition mig_inv :: "nat \<Rightarrow> 'v table \<Rightarrow> 'v table \<Rightarrow> bool" where
  "mig_inv i old new \<longleftrightarrow> table_ok old \<and> table_ok new \<and> buckets new \<noteq> [] \<and>
     i \<le> length (buckets old) \<and> (\<forall>j < i. buckets old ! j = [])"

definition nodes_of :: "'v table \<Rightarrow> 'v hnode multiset" where
  "nodes_of t = mset (concat (buckets t))"

lemma size_nodes_of [simp]: "size (nodes_of t) = length (concat (buckets t))"
  by (simp add: nodes_of_def)

lemma table_okI:
  "buckets_ok (buckets t) \<Longrightarrow> tcount t = size (nodes_of t) \<Longrightarrow> table_ok t"
  by (simp add: table_ok_def)

lemma table_okD:
  "table_ok t \<Longrightarrow> buckets_ok (buckets t)" "table_ok t \<Longrightarrow> tcount t = size (nodes_of t)"
  by (simp_all add: table_ok_def)

lemma migrate_bucket:
  fixes old new :: "'v table"
  assumes inv: "mig_inv i old new" and i: "i < length (buckets old)"
  defines "head \<equiv> buckets old ! i"
  defines "old' \<equiv> \<lparr>buckets = (buckets old)[i := []], tcount = tcount old - length head\<rparr>"
  defines "new' \<equiv> \<lparr>buckets = fold push_node head (buckets new), tcount = tcount new + length head\<rparr>"
  shows "mig_inv (i + 1) old' new' \<and> nodes_of old' + nodes_of new' = nodes_of old + nodes_of new \<and>
         length (buckets new') = length (buckets new)"
proof -
  from inv have ok: "buckets_ok (buckets old)" "buckets_ok (buckets new)" "buckets new \<noteq> []"
    and cnt: "tcount old = size (nodes_of old)" "tcount new = size (nodes_of new)"
    by (simp_all add: mig_inv_def table_ok_def)
  from ok(1) i have "\<forall>n \<in> set head. nhash n = fnv_hash (nkey n)"
    by (auto simp: head_def buckets_ok_def chain_ok_def)
  note fp = fold_push_node [OF ok(2,3) this]
  have old: "nodes_of old' + mset head = nodes_of old"
    using mset_concat_update [OF i, of "[]"] by (simp add: nodes_of_def old'_def head_def)
  have new: "nodes_of new' = mset head + nodes_of new"
    using fp by (simp add: nodes_of_def new'_def)
  have len: "length (buckets new') = length (buckets new)"
    using fp by (simp add: new'_def)
  then have "buckets new' \<noteq> []" using ok(3) by (metis length_0_conv)
  moreover have "tcount old' = size (nodes_of old')"
    using arg_cong [OF old, of size] cnt(1) by (simp add: old'_def)
  moreover have "tcount new' = size (nodes_of new')"
    using arg_cong [OF new, of size] cnt(2) by (simp add: new'_def)
  moreover have "buckets_ok (buckets new')" "buckets_ok (buckets old')"
    using fp ok(1) by (simp_all add: new'_def old'_def buckets_ok_clear)
  moreover have "\<forall>j < i + 1. buckets old' ! j = []"
    using inv i by (auto simp: mig_inv_def old'_def nth_list_update less_Suc_eq)
  ultimately have "mig_inv (i + 1) old' new'"
    using i by (simp add: mig_inv_def table_okI) (simp add: old'_def)
  with old new len show ?thesis by (metis add.assoc add.commute)
qed

lemma rehash_loop_inv:
  assumes "mig_inv i old new" "rehash_loop b m e i old new = (i', old', new')"
  shows "mig_inv i' old' new' \<and> nodes_of old' + nodes_of new' = nodes_of old + nodes_of new \<and>
         length (buckets old') = length (buckets old) \<and>
         length (buckets new') = length (buckets new) \<and> i \<le> i'"
  using assms
proof (induction b m e i old new rule: rehash_loop.induct)
  case (1 b m e i old new)
  let ?go = "m < b \<and> e < 10 * b \<and> i < length (buckets old)"
  let ?head = "buckets old ! i"
  consider "\<not> ?go" | "?go" "?head = []" | "?go" "?head \<noteq> []" by blast
  then show ?case
  proof cases
    case 1
    with "1.prems" show ?thesis by (subst (asm) rehash_loop.simps) auto
  next
    case 2
    with "1.prems"(1) have "mig_inv (i + 1) old new"
      by (auto simp: mig_inv_def less_Suc_eq)
    moreover from 2 "1.prems"(2) have "rehash_loop b m (e + 1) (i + 1) old new = (i', old', new')"
      by (subst (asm) rehash_loop.simps) (simp add: Let_def)
    ultimately show ?thesis using "1.IH"(1) [OF 2(1) refl 2(2)] by simp
  next
    case 3
    let ?old = "\<lparr>buckets = (buckets old)[i := []], tcount = tcount old - length ?head\<rparr>"
    let ?new = "\<lparr>buckets = fold push_node ?head (buckets new), tcount = tcount new + length ?head\<rparr>"
    from 3 have mig: "mig_inv (i + 1) ?old ?new \<and>
        nodes_of ?old + nodes_of ?new = nodes_of old + nodes_of new \<and>
        length (buckets ?new) = length (buckets new)"
      using migrate_bucket [OF "1.prems"(1)] by blast
    from 3 "1.prems"(2) have "rehash_loop b (m + 1) e (i + 1) ?old ?new = (i', old', new')"
      by (subst (asm) rehash_loop.simps) (simp add: Let_def)
    from "1.IH"(2) [OF 3(1) refl 3(2) conjunct1 [OF mig] this] mig show ?thesis by simp
  qed
qed

lemma all_nodes_mset:
  "mset (all_nodes t) = nodes_of (old_table t) + nodes_of (new_table t)"
  by (simp add: all_nodes_def nodes_of_def)

lemma concat_all_Nil: "\<forall>j < length bs. bs ! j = [] \<Longrightarrow> concat bs = []"
  by (auto simp: in_set_conv_nth)

lemma distinct_keys_mset:
  "mset xs = mset ys \<Longrightarrow> distinct (map f xs) \<longleftrightarrow> distinct (map f ys)"
  by (metis mset_eq_imp_distinct_iff mset_map)

lemma map_of_kv_mset:
  assumes "mset xs = mset ys" "distinct (map nkey xs)"
  shows "map_of (map kv xs) = map_of (map kv ys)"
proof -
  have "distinct (map nkey ys)" using assms distinct_keys_mset by blast
  moreover have "set (map kv xs) = set (map kv ys)"
    using mset_eq_setD [OF assms(1)] by simp
  ultimately show ?thesis
    using assms(2) by (intro map_of_inject_set [THEN iffD2]) (simp_all add: comp_def)
qed

lemma rehash_step_spec:
  assumes "ht_invar t"
  shows "ht_invar (rehash_step b t)" "mset (all_nodes (rehash_step b t)) = mset (all_nodes t)"
proof -
  have "ht_invar (rehash_step b t) \<and> mset (all_nodes (rehash_step b t)) = mset (all_nodes t)"
  proof (cases "\<not> is_rehashing t \<or> b = 0")
    case True
    with assms show ?thesis by (auto simp: rehash_step_def)
  next
    case False
    obtain i old new where
      loop: "rehash_loop b 0 0 (nat (rehash_idx t)) (old_table t) (new_table t) = (i, old, new)"
      by (metis prod_cases3)
    from False assms have "mig_inv (nat (rehash_idx t)) (old_table t) (new_table t)"
      by (auto simp: mig_inv_def ht_invar_def)
    from rehash_loop_inv [OF this loop]
    have mig: "mig_inv i old new"
      and nodes: "nodes_of old + nodes_of new = mset (all_nodes t)"
      and len: "length (buckets old) = length (buckets (old_table t))"
               "length (buckets new) = length (buckets (new_table t))"
      by (simp_all add: all_nodes_mset)
    have pow: "pow2_buckets old" "pow2_buckets new"
      using assms False len by (simp_all add: ht_invar_def pow2_buckets_def)
    have dist: "distinct (map nkey xs)" if "mset xs = nodes_of old + nodes_of new" for xs
      using assms that nodes distinct_keys_mset by (metis ht_invar_def)
    show ?thesis
    proof (cases "i \<ge> length (buckets old)")
      case True
      with mig have "nodes_of old = {#}"
        using concat_all_Nil [of "buckets old"] by (auto simp: mig_inv_def nodes_of_def)
      with nodes have "nodes_of new = mset (all_nodes t)" by simp
      then have new: "mset (concat (buckets new)) = mset (all_nodes t)"
        by (simp add: nodes_of_def)
      with nodes dist have "distinct (map nkey (concat (buckets new)))" by simp
      with new True False loop mig pow show ?thesis
        by (simp add: rehash_step_def ht_invar_def is_rehashing_def mig_inv_def empty_table_def
              all_nodes_def [of "\<lparr>old_table = new, new_table = _, rehash_idx = _\<rparr>"])
    next
      case i: False
      with False loop mig nodes pow dist [of "concat (buckets old) @ concat (buckets new)"]
      show ?thesis
        by (simp add: rehash_step_def ht_invar_def is_rehashing_def mig_inv_def all_nodes_def
              nodes_of_def)
    qed
  qed
  then show "ht_invar (rehash_step b t)" "mset (all_nodes (rehash_step b t)) = mset (all_nodes t)"
    by auto
qed

lemma ht_map_mset: "ht_invar t \<Longrightarrow> mset (all_nodes t') = mset (all_nodes t) \<Longrightarrow> ht_map t' = ht_map t"
  unfolding ht_map_def by (rule map_of_kv_mset) (auto simp: ht_invar_def dest: distinct_keys_mset)

lemma ht_map_rehash_step [simp]: "ht_invar t \<Longrightarrow> ht_map (rehash_step b t) = ht_map t"
  by (rule ht_map_mset) (simp_all add: rehash_step_spec)

lemma maybe_rehash_step_spec [simp]:
  "ht_invar t \<Longrightarrow> ht_invar (maybe_rehash_step t)"
  "ht_invar t \<Longrightarrow> ht_map (maybe_rehash_step t) = ht_map t"
  by (simp_all add: maybe_rehash_step_def rehash_step_spec)

section \<open>Lookup, assignment and unlinking in one table\<close>

lemma find_in_Some:
  assumes "find_in t k h = Some n" "buckets_ok (buckets t)"
  shows "n \<in> set (concat (buckets t)) \<and> nkey n = k"
proof -
  from assms(1) have "buckets t \<noteq> []"
    and n: "n \<in> set (buckets t ! bucket_index h (length (buckets t)))" "nkey n = k"
    by (auto simp: find_in_def node_matches_def find_Some_iff in_set_conv_nth split: if_splits)
  then have "bucket_index h (length (buckets t)) < length (buckets t)"
    by (simp add: bucket_index_less)
  with n show ?thesis by (auto intro: nth_mem)
qed

lemma find_in_None:
  assumes "find_in t k (fnv_hash k) = None" "buckets_ok (buckets t)" "n \<in> set (concat (buckets t))"
  shows "nkey n \<noteq> k"
proof
  assume "nkey n = k"
  with assms buckets_ok_mem [OF assms(2,3)] show False
    by (auto simp: find_in_def node_matches_def find_None_iff split: if_splits)
qed

text \<open>The contents of one table as a map, and what lookup in one table returns.\<close>

definition table_map :: "'v table \<Rightarrow> (string \<rightharpoonup> 'v)" where
  "table_map t = map_of (map kv (concat (buckets t)))"

lemma map_of_kv_Some:
  "distinct (map nkey xs) \<Longrightarrow> n \<in> set xs \<Longrightarrow> map_of (map kv xs) (nkey n) = Some (nval n)"
  by (rule map_of_is_SomeI) (auto simp: comp_def)

lemma map_of_kv_None: "map_of (map kv xs) k = None \<longleftrightarrow> (\<forall>n \<in> set xs. nkey n \<noteq> k)"
  by (auto simp: map_of_eq_None_iff image_image)

lemma find_in_map:
  assumes "table_ok t" "distinct (map nkey (concat (buckets t)))"
  shows "map_option nval (find_in t k (fnv_hash k)) = table_map t k"
proof (cases "find_in t k (fnv_hash k)")
  case None
  then have "\<forall>n \<in> set (concat (buckets t)). nkey n \<noteq> k"
    using find_in_None assms(1) by (metis table_okD(1))
  then have "table_map t k = None"
    by (simp only: table_map_def map_of_kv_None)
  with None show ?thesis by simp
next
  case (Some n)
  then have "n \<in> set (concat (buckets t)) \<and> nkey n = k"
    using find_in_Some table_okD(1) [OF assms(1)] by blast
  then have "table_map t k = Some (nval n)"
    using map_of_kv_Some [OF assms(2)] by (auto simp only: table_map_def)
  with Some show ?thesis by simp
qed

definition set_val :: "string \<Rightarrow> 'v \<Rightarrow> 'v hnode \<Rightarrow> 'v hnode" where
  "set_val k v n = (if nkey n = k then n\<lparr>nval := v\<rparr> else n)"

lemma nkey_set_val [simp]: "nkey (set_val k v n) = nkey n"
  and nhash_set_val [simp]: "nhash (set_val k v n) = nhash n"
  by (simp_all add: set_val_def)

lemma map_nkey_set_val [simp]: "map nkey (map (set_val k v) ns) = map nkey ns"
  by simp

lemma chain_map_id:
  assumes "buckets_ok bs" "j < length bs" "j \<noteq> bucket_index (fnv_hash k) (length bs)" "n \<in> set (bs ! j)"
  shows "nkey n \<noteq> k"
  using assms by (auto simp: buckets_ok_def chain_ok_def)

lemma assign_in_buckets:
  assumes "buckets_ok (buckets t)"
  shows "buckets (assign_in t k (fnv_hash k) v) = map (map (set_val k v)) (buckets t)"
proof (rule nth_equalityI)
  show "length (buckets (assign_in t k (fnv_hash k) v)) = length (map (map (set_val k v)) (buckets t))"
    by (simp add: assign_in_def Let_def)
next
  fix j
  assume "j < length (buckets (assign_in t k (fnv_hash k) v))"
  then have j: "j < length (buckets t)" by (simp add: assign_in_def Let_def)
  show "buckets (assign_in t k (fnv_hash k) v) ! j = map (map (set_val k v)) (buckets t) ! j"
  proof (cases "j = bucket_index (fnv_hash k) (length (buckets t))")
    case True
    with j assms show ?thesis
      by (auto simp: assign_in_def Let_def set_val_def node_matches_def buckets_ok_def chain_ok_def)
  next
    case False
    with j chain_map_id [OF assms j] show ?thesis
      by (auto simp: assign_in_def Let_def set_val_def intro!: nth_equalityI)
  qed
qed

lemma buckets_ok_map:
  assumes "buckets_ok bs" "\<And>c. nkey ` set (f c) \<subseteq> nkey ` set c"
    "\<And>c n. n \<in> set (f c) \<Longrightarrow> \<exists>m \<in> set c. nkey m = nkey n \<and> nhash m = nhash n"
  shows "buckets_ok (map f bs)"
  using assms(1,3) unfolding buckets_ok_def chain_ok_def by (simp, metis)

lemma assign_in_ok:
  assumes "table_ok t"
  shows "table_ok (assign_in t k (fnv_hash k) v)"
proof (rule table_okI)
  note eq = assign_in_buckets [OF table_okD(1) [OF assms], of k v]
  show "buckets_ok (buckets (assign_in t k (fnv_hash k) v))"
    unfolding eq by (rule buckets_ok_map) (use table_okD(1) [OF assms] in auto)
  have "tcount (assign_in t k (fnv_hash k) v) = tcount t"
    by (simp add: assign_in_def Let_def)
  also have "\<dots> = length (concat (buckets t))" using assms by (simp add: table_ok_def)
  finally show "tcount (assign_in t k (fnv_hash k) v) = size (nodes_of (assign_in t k (fnv_hash k) v))"
    by (simp add: eq length_concat comp_def)
qed

lemma map_of_set_val:
  "map_of (map kv (map (set_val k v) ns)) =
   (if k \<in> nkey ` set ns then (map_of (map kv ns))(k \<mapsto> v) else map_of (map kv ns))"
  by (induction ns) (auto simp: set_val_def fun_eq_iff)

lemma unlink_chain_spec:
  assumes "distinct (map nkey ns)" "\<forall>n \<in> set ns. nhash n = fnv_hash (nkey n)"
  shows "unlink_chain k (fnv_hash k) ns =
    (List.find (\<lambda>n. nkey n = k) ns, filter (\<lambda>n. nkey n \<noteq> k) ns)"
  using assms
proof (induction ns)
  case Nil
  then show ?case by simp
next
  case (Cons n ns)
  have "filter (\<lambda>n. nkey n \<noteq> k) ns = ns" if "nkey n = k"
    using Cons.prems(1) that by (force simp: filter_id_conv image_iff)
  with Cons show ?case by (auto simp: node_matches_def)
qed

lemma distinct_concat_nth: "distinct (map f (concat bs)) \<Longrightarrow> i < length bs \<Longrightarrow> distinct (map f (bs ! i))"
  by (induction bs arbitrary: i) (auto simp: nth_Cons split: nat.splits)

lemma unlink_from_spec:
  assumes ok: "table_ok t" and dist: "distinct (map nkey (concat (buckets t)))"
    and res: "unlink_from t k (fnv_hash k) = (r, t')"
  shows "r = find_in t k (fnv_hash k) \<and> table_ok t' \<and>
         buckets t' = map (filter (\<lambda>n. nkey n \<noteq> k)) (buckets t)"
proof (cases "buckets t = []")
  case True
  with res ok show ?thesis by (simp add: unlink_from_def find_in_def)
next
  case False
  let ?i = "bucket_index (fnv_hash k) (length (buckets t))"
  have i: "?i < length (buckets t)" using False by (simp add: bucket_index_less)
  have hs: "\<forall>n \<in> set (buckets t ! ?i). nhash n = fnv_hash (nkey n)"
    using table_okD(1) [OF ok] i by (simp add: buckets_ok_def chain_ok_def)
  have r: "List.find (\<lambda>n. nkey n = k) (buckets t ! ?i) = find_in t k (fnv_hash k)"
    using hs False by (auto simp: find_in_def node_matches_def intro!: find_cong)
  note u = unlink_chain_spec [OF distinct_concat_nth [OF dist i] hs, of k, unfolded r]
  have other: "filter (\<lambda>n. nkey n \<noteq> k) (buckets t ! j) = buckets t ! j"
    if "j < length (buckets t)" "j \<noteq> ?i" for j
    using chain_map_id [OF table_okD(1) [OF ok] that] by (simp add: filter_id_conv)
  have upd: "(buckets t)[?i := filter (\<lambda>n. nkey n \<noteq> k) (buckets t ! ?i)] =
             map (filter (\<lambda>n. nkey n \<noteq> k)) (buckets t)"
    by (rule nth_equalityI) (use i in \<open>auto simp: nth_list_update other\<close>)
  show ?thesis
  proof (cases "find_in t k (fnv_hash k)")
    case None
    then have "\<forall>n \<in> set (buckets t ! ?i). nkey n \<noteq> k"
      using find_in_None [OF None table_okD(1) [OF ok]] i by (metis UnionI nth_mem set_concat imageI)
    then have "(buckets t)[?i := filter (\<lambda>n. nkey n \<noteq> k) (buckets t ! ?i)] = buckets t"
      by (simp add: filter_id_conv [THEN iffD2])
    with None res ok u upd False show ?thesis by (simp add: unlink_from_def Let_def)
  next
    case (Some n)
    then have n: "n \<in> set (concat (buckets t))" "nkey n = k"
      using find_in_Some table_okD(1) [OF ok] by blast+
    have bs: "buckets t' = map (filter (\<lambda>n. nkey n \<noteq> k)) (buckets t)"
      and cnt: "tcount t' = tcount t - 1" and rn: "r = Some n"
      using Some res u False upd by (auto simp: unlink_from_def Let_def)
    have conc: "concat (buckets t') = filter (\<lambda>m. nkey m \<noteq> nkey n) (concat (buckets t))"
      by (simp add: bs filter_concat n(2))
    have "tcount t' = size (nodes_of t')"
      using length_filter_neq_distinct [OF dist n(1)] table_okD(2) [OF ok] by (simp add: cnt conc)
    moreover have "buckets_ok (buckets t')"
      unfolding bs by (rule buckets_ok_map) (use table_okD(1) [OF ok] in auto)
    ultimately show ?thesis using bs rn Some by (simp add: table_okI)
  qed
qed

section \<open>Every operation keeps the invariant and refines a map operation\<close>

lemma ht_invarD:
  assumes "ht_invar t"
  shows "table_ok (old_table t)" "table_ok (new_table t)"
    "distinct (map nkey (concat (buckets (old_table t))))"
    "distinct (map nkey (concat (buckets (new_table t))))"
    "pow2_buckets (old_table t)" "is_rehashing t \<Longrightarrow> pow2_buckets (new_table t)"
    "\<not> is_rehashing t \<Longrightarrow> new_table t = empty_table"
    "distinct (map nkey (all_nodes t))"
  using assms by (auto simp: ht_invar_def all_nodes_def table_ok_def empty_table_def buckets_ok_def
      split: if_splits)

lemma ht_invarD2:
  assumes "ht_invar t"
  shows "is_rehashing t \<Longrightarrow> nat (rehash_idx t) < length (buckets (old_table t))"
    "is_rehashing t \<Longrightarrow> i < nat (rehash_idx t) \<Longrightarrow> buckets (old_table t) ! i = []"
    "\<not> is_rehashing t \<Longrightarrow> rehash_idx t = -1"
  using assms by (auto simp: ht_invar_def split: if_splits)

lemma is_rehashing_update [simp]:
  "is_rehashing (t\<lparr>old_table := a\<rparr>) = is_rehashing t" "is_rehashing (t\<lparr>new_table := a\<rparr>) = is_rehashing t"
  by (simp_all add: is_rehashing_def)

lemma pow2_buckets_cong: "pow2_buckets t \<Longrightarrow> length (buckets s) = length (buckets t) \<Longrightarrow> pow2_buckets s"
  by (simp add: pow2_buckets_def)

lemma ht_invarI:
  assumes "table_ok (old_table t)" "pow2_buckets (old_table t)" "distinct (map nkey (all_nodes t))"
    "is_rehashing t \<Longrightarrow> table_ok (new_table t) \<and> pow2_buckets (new_table t)"
    "is_rehashing t \<Longrightarrow> nat (rehash_idx t) < length (buckets (old_table t))"
    "\<And>i. is_rehashing t \<Longrightarrow> i < nat (rehash_idx t) \<Longrightarrow> buckets (old_table t) ! i = []"
    "\<not> is_rehashing t \<Longrightarrow> rehash_idx t = -1 \<and> new_table t = empty_table"
  shows "ht_invar t"
  using assms by (simp add: ht_invar_def)

lemma ht_map_split:
  "ht_map t k = (case table_map (old_table t) k of Some v \<Rightarrow> Some v | None \<Rightarrow> table_map (new_table t) k)"
  by (simp add: ht_map_def all_nodes_def table_map_def map_add_def split: option.splits)

lemma find_in_old: "ht_invar t \<Longrightarrow>
    map_option nval (find_in (old_table t) k (fnv_hash k)) = table_map (old_table t) k"
  and find_in_new: "ht_invar t \<Longrightarrow>
    map_option nval (find_in (new_table t) k (fnv_hash k)) = table_map (new_table t) k"
  by (simp_all add: find_in_map ht_invarD)

lemma table_map_empty [simp]: "table_map empty_table = Map.empty"
  by (simp add: table_map_def empty_table_def)

lemma ht_find_const_map: "ht_invar t \<Longrightarrow> ht_find_const t k = ht_map t k"
proof -
  assume inv: "ht_invar t"
  show ?thesis
    using find_in_old [OF inv, of k] find_in_new [OF inv, of k] ht_invarD(7) [OF inv]
    by (auto simp: ht_find_const_def ht_map_split Let_def split: option.splits)
qed

lemma ht_find_spec:
  assumes "ht_invar t"
  shows "fst (ht_find t k) = ht_map t k" "ht_invar (snd (ht_find t k))"
    "ht_map (snd (ht_find t k)) = ht_map t"
  using assms by (simp_all add: ht_find_def Let_def ht_find_const_map)

lemma dom_table_map: "dom (table_map t) = nkey ` set (concat (buckets t))"
  by (auto simp: table_map_def dom_map_of_conv_image_fst image_image)

lemma dom_ht_map: "dom (ht_map t) = nkey ` set (all_nodes t)"
  by (auto simp: ht_map_def dom_map_of_conv_image_fst image_image)

lemma set_val_absent: "k \<notin> nkey ` set ns \<Longrightarrow> map (set_val k v) ns = ns"
  by (induction ns) (auto simp: set_val_def)

lemma find_in_mem: "table_ok t \<Longrightarrow> find_in t k (fnv_hash k) = None \<longleftrightarrow> k \<notin> nkey ` set (concat (buckets t))"
  using find_in_None [OF _ table_okD(1)] find_in_Some [OF _ table_okD(1)]
  by (metis (no_types, opaque_lifting) image_iff not_Some_eq)

lemma ht_write_spec:
  assumes inv: "ht_invar t"
  shows "ht_invar (ht_write t k v)" "all_nodes (ht_write t k v) = map (set_val k v) (all_nodes t)"
proof -
  let ?O = "concat (buckets (old_table t))" and ?N = "concat (buckets (new_table t))"
  note D = ht_invarD [OF inv]
  have conc: "concat (buckets (assign_in s k (fnv_hash k) v)) = map (set_val k v) (concat (buckets s))"
    and len: "length (buckets (assign_in s k (fnv_hash k) v)) = length (buckets s)"
    if "table_ok s" for s
    using assign_in_buckets [OF table_okD(1) [OF that]] by (simp_all add: map_concat)
  consider (old) "k \<in> nkey ` set ?O" | (new) "k \<notin> nkey ` set ?O" "k \<in> nkey ` set ?N" "is_rehashing t"
    | (none) "k \<notin> nkey ` set ?O" "k \<notin> nkey ` set ?N"
    using D(7) by (fastforce simp: empty_table_def)
  then have "ht_invar (ht_write t k v) \<and> all_nodes (ht_write t k v) = map (set_val k v) (all_nodes t)"
  proof cases
    case old
    then have "find_in (old_table t) k (fnv_hash k) \<noteq> None"
      by (simp only: find_in_mem [OF D(1)] simp_thms)
    then have w: "ht_write t k v = t\<lparr>old_table := assign_in (old_table t) k (fnv_hash k) v\<rparr>"
      by (auto simp: ht_write_def Let_def)
    have "k \<notin> nkey ` set ?N" using old D(8) by (auto simp: all_nodes_def)
    then have an: "all_nodes (ht_write t k v) = map (set_val k v) (all_nodes t)"
      by (simp add: w all_nodes_def conc D(1) set_val_absent)
    have "ht_invar (ht_write t k v)"
    proof (rule ht_invarI)
      show "distinct (map nkey (all_nodes (ht_write t k v)))"
        using an D(8) by (metis map_nkey_set_val)
      show "pow2_buckets (old_table (ht_write t k v))"
        using pow2_buckets_cong [OF D(5) len [OF D(1)]] by (simp add: w)
      show "buckets (old_table (ht_write t k v)) ! i = []"
        if "is_rehashing (ht_write t k v)" "i < nat (rehash_idx (ht_write t k v))" for i
        using that ht_invarD2(1) [OF inv] ht_invarD2(2) [OF inv, of i]
        by (simp add: w assign_in_buckets [OF table_okD(1) [OF D(1)]])
    qed (simp_all add: w D assign_in_ok len [OF D(1)] ht_invarD2 [OF inv])
    with an show ?thesis by simp
  next
    case new
    then have "find_in (old_table t) k (fnv_hash k) = None" "find_in (new_table t) k (fnv_hash k) \<noteq> None"
      by (simp_all only: find_in_mem [OF D(1)] find_in_mem [OF D(2)] simp_thms)
    then have w: "ht_write t k v = t\<lparr>new_table := assign_in (new_table t) k (fnv_hash k) v\<rparr>"
      using new(3) by (auto simp: ht_write_def Let_def)
    have an: "all_nodes (ht_write t k v) = map (set_val k v) (all_nodes t)"
      using new by (simp add: w all_nodes_def conc D(2) set_val_absent)
    from an D(8) have "distinct (map nkey (all_nodes (ht_write t k v)))" by (metis map_nkey_set_val)
    then have "ht_invar (ht_write t k v)"
      unfolding w using D(1,5) new(3) ht_invarD2 [OF inv] assign_in_ok [OF D(2)]
        pow2_buckets_cong [OF D(6) [OF new(3)] len [OF D(2)]]
      by (intro ht_invarI) simp_all
    with an show ?thesis by simp
  next
    case none
    then have "find_in (old_table t) k (fnv_hash k) = None" "find_in (new_table t) k (fnv_hash k) = None"
      by (simp_all only: find_in_mem [OF D(1)] find_in_mem [OF D(2)] simp_thms)
    with none inv show ?thesis
      by (simp add: ht_write_def Let_def all_nodes_def set_val_absent)
  qed
  then show "ht_invar (ht_write t k v)" "all_nodes (ht_write t k v) = map (set_val k v) (all_nodes t)"
    by auto
qed

lemma ht_map_write:
  "ht_invar t \<Longrightarrow>
   ht_map (ht_write t k v) = (if k \<in> dom (ht_map t) then (ht_map t)(k \<mapsto> v) else ht_map t)"
  using ht_write_spec(2) [of t k v] by (simp only: ht_map_def map_of_set_val dom_ht_map [unfolded ht_map_def])

lemma start_rehash_spec:
  assumes "ht_invar t" "\<not> is_rehashing t" "n = kInitialBuckets * 2 ^ j"
  shows "ht_invar (start_rehash n t)" "all_nodes (start_rehash n t) = all_nodes t"
    "is_rehashing (start_rehash n t)"
proof -
  have "max n kInitialBuckets = n" using assms(3) by (simp add: kInitialBuckets_def)
  with assms ht_invarD [OF assms(1)]
  show "ht_invar (start_rehash n t)" "all_nodes (start_rehash n t) = all_nodes t"
    "is_rehashing (start_rehash n t)"
    by (auto simp: start_rehash_def ht_invar_def is_rehashing_def all_nodes_def empty_table_def
        pow2_buckets_def table_ok_def kInitialBuckets_def)
qed

lemma insert_fresh_spec:
  fixes t :: "'v hash_table"
  assumes inv: "ht_invar t" and k: "nkey n \<notin> nkey ` set (all_nodes t)"
    and h: "nhash n = fnv_hash (nkey n)"
  shows "ht_invar (insert_fresh t n)"
    "mset (all_nodes (insert_fresh t n)) = add_mset n (mset (all_nodes t))"
proof -
  note D = ht_invarD [OF inv]
  define push where "push d = \<lparr>buckets = push_node n (buckets d), tcount = tcount d + 1\<rparr>" for d :: "'v table"
  have ms: "mset (concat (buckets (push d))) = add_mset n (mset (concat (buckets d)))"
    and ok: "table_ok (push d)" and pow: "pow2_buckets (push d)"
    if "table_ok d" "pow2_buckets d" for d
  proof -
    show ms: "mset (concat (buckets (push d))) = add_mset n (mset (concat (buckets d)))"
      using that by (simp add: push_def mset_push_node)
    show "table_ok (push d)"
      using that h arg_cong [OF ms, of size]
      by (intro table_okI) (simp_all add: push_def buckets_ok_push_node table_ok_def)
    show "pow2_buckets (push d)" using that(2) by (simp add: pow2_buckets_def push_def)
  qed
  have eq: "insert_fresh t n = (if is_rehashing t then t\<lparr>new_table := push (new_table t)\<rparr>
                                else t\<lparr>old_table := push (old_table t)\<rparr>)"
    by (simp add: insert_fresh_def push_def Let_def)
  show nodes: "mset (all_nodes (insert_fresh t n)) = add_mset n (mset (all_nodes t))"
    by (simp add: eq all_nodes_def ms D)
  have "distinct (map nkey (n # all_nodes t))" using k D(8) by simp
  then have "distinct (map nkey (all_nodes (insert_fresh t n)))"
    using nodes distinct_keys_mset by (metis mset.simps(2))
  then show "ht_invar (insert_fresh t n)"
    using inv ok pow D by (auto simp: ht_invar_def eq is_rehashing_def)
qed

lemma pow2_double: "pow2_buckets t \<Longrightarrow> \<exists>j. length (buckets t) * 2 = kInitialBuckets * 2 ^ j"
proof -
  assume "pow2_buckets t"
  then obtain k where "length (buckets t) = kInitialBuckets * 2 ^ k" by (auto simp: pow2_buckets_def)
  then have "length (buckets t) * 2 = kInitialBuckets * 2 ^ Suc k" by simp
  then show ?thesis by blast
qed

lemma pow2_halve:
  "pow2_buckets t \<Longrightarrow> kInitialBuckets < length (buckets t) \<Longrightarrow>
   \<exists>j. length (buckets t) div 2 = kInitialBuckets * 2 ^ j"
proof -
  assume "pow2_buckets t" and gt: "kInitialBuckets < length (buckets t)"
  then obtain k where k: "length (buckets t) = kInitialBuckets * 2 ^ k" by (auto simp: pow2_buckets_def)
  with gt have "k \<noteq> 0" by (metis mult.right_neutral nat_less_le power_0)
  then obtain j where "k = Suc j" by (cases k) auto
  with k have "length (buckets t) div 2 = kInitialBuckets * 2 ^ j" by simp
  then show ?thesis by blast
qed

lemma insert_or_assign_present:
  assumes "ht_invar t" "k \<in> dom (ht_map t)"
  shows "ht_insert_or_assign t k v = (False, ht_write (maybe_rehash_step t) k v)"
proof -
  let ?t = "maybe_rehash_step t"
  from assms have inv: "ht_invar ?t" and "ht_find_const ?t k \<noteq> None"
    by (auto simp: ht_find_const_map)
  then show ?thesis
    by (auto simp: ht_insert_or_assign_def ht_write_def ht_find_const_def Let_def
        split: option.splits if_splits)
qed

lemma insert_or_assign_absent:
  assumes inv0: "ht_invar t" and k: "ht_map t k = None"
  shows "fst (ht_insert_or_assign t k v)"
    "ht_invar (snd (ht_insert_or_assign t k v))"
    "mset (all_nodes (snd (ht_insert_or_assign t k v))) =
     add_mset \<lparr>nkey = k, nval = v, nhash = fnv_hash k\<rparr> (mset (all_nodes t))"
proof -
  let ?n = "\<lparr>nkey = k, nval = v, nhash = fnv_hash k\<rparr>"
  define s where "s = maybe_rehash_step t"
  have inv: "ht_invar s" and "ht_map s k = None" and nodes: "mset (all_nodes s) = mset (all_nodes t)"
    using inv0 k by (simp_all add: s_def maybe_rehash_step_def rehash_step_spec)
  then have nf: "find_in (old_table s) k (fnv_hash k) = None"
    "is_rehashing s \<Longrightarrow> find_in (new_table s) k (fnv_hash k) = None"
    using ht_find_const_map [OF inv, of k]
    by (auto simp: ht_find_const_def Let_def split: option.splits)
  define s' where "s' = (if \<not> is_rehashing s \<and>
        tcount (old_table s) + 1 \<ge> length (buckets (old_table s))
      then start_rehash (length (buckets (old_table s)) * 2) s else s)"
  have s': "ht_invar s' \<and> all_nodes s' = all_nodes s"
    using pow2_double [OF ht_invarD(5) [OF inv]] start_rehash_spec [OF inv] inv
    by (auto simp: s'_def)
  have eq: "ht_insert_or_assign t k v = (True, insert_fresh s' ?n)"
    using nf by (auto simp: ht_insert_or_assign_def s_def [symmetric] s'_def Let_def)
  have "nkey ?n \<notin> nkey ` set (all_nodes s')"
    using \<open>ht_map s k = None\<close> s' dom_ht_map [of s] by auto
  from insert_fresh_spec [OF conjunct1 [OF s'] this] s' nodes
  show "fst (ht_insert_or_assign t k v)" "ht_invar (snd (ht_insert_or_assign t k v))"
    "mset (all_nodes (snd (ht_insert_or_assign t k v))) = add_mset ?n (mset (all_nodes t))"
    by (simp_all add: eq)
qed

lemma ht_insert_spec:
  assumes inv: "ht_invar t"
  shows "fst (ht_insert_or_assign t k v) \<longleftrightarrow> ht_map t k = None"
    "ht_invar (snd (ht_insert_or_assign t k v))"
    "ht_map (snd (ht_insert_or_assign t k v)) = (ht_map t)(k \<mapsto> v)"
proof -
  have "(fst (ht_insert_or_assign t k v) \<longleftrightarrow> ht_map t k = None) \<and>
    ht_invar (snd (ht_insert_or_assign t k v)) \<and>
    ht_map (snd (ht_insert_or_assign t k v)) = (ht_map t)(k \<mapsto> v)"
  proof (cases "ht_map t k")
    case None
    note I = insert_or_assign_absent [OF inv None, of v]
    have "map_of (map kv (all_nodes (snd (ht_insert_or_assign t k v)))) =
          map_of (map kv (\<lparr>nkey = k, nval = v, nhash = fnv_hash k\<rparr> # all_nodes t))"
      by (rule map_of_kv_mset) (use I(2,3) in \<open>simp_all add: ht_invarD(8)\<close>)
    with I None show ?thesis by (simp add: ht_map_def)
  next
    case (Some w)
    then have k: "k \<in> dom (ht_map t)" by auto
    show ?thesis
      using inv Some k
      by (simp add: insert_or_assign_present [OF inv k] ht_write_spec ht_map_write)
  qed
  then show "fst (ht_insert_or_assign t k v) \<longleftrightarrow> ht_map t k = None"
    "ht_invar (snd (ht_insert_or_assign t k v))"
    "ht_map (snd (ht_insert_or_assign t k v)) = (ht_map t)(k \<mapsto> v)"
    by auto
qed

lemma ht_invar_filter:
  assumes inv: "ht_invar t"
    and old: "table_ok old" "buckets old = map (filter P) (buckets (old_table t))"
    and new: "table_ok new" "buckets new = map (filter P) (buckets (new_table t))"
      "\<not> is_rehashing t \<Longrightarrow> new = empty_table"
  shows "ht_invar (t\<lparr>old_table := old, new_table := new\<rparr>)"
    "all_nodes (t\<lparr>old_table := old, new_table := new\<rparr>) = filter P (all_nodes t)"
proof -
  let ?t = "t\<lparr>old_table := old, new_table := new\<rparr>"
  show an: "all_nodes ?t = filter P (all_nodes t)"
    by (simp add: all_nodes_def old new filter_concat)
  show "ht_invar ?t"
  proof (rule ht_invarI)
    show "distinct (map nkey (all_nodes ?t))"
      using ht_invarD(8) [OF inv] by (simp add: an distinct_map_filter)
    show "pow2_buckets (old_table ?t)"
      by (simp add: pow2_buckets_cong [OF ht_invarD(5) [OF inv]] old(2))
    show "table_ok (new_table ?t) \<and> pow2_buckets (new_table ?t)" if "is_rehashing ?t"
      using that new(1) pow2_buckets_cong [OF ht_invarD(6) [OF inv], of new] by (simp add: new(2))
    show "buckets (old_table ?t) ! i = []" if "is_rehashing ?t" "i < nat (rehash_idx ?t)" for i
      using that ht_invarD2(1) [OF inv] ht_invarD2(2) [OF inv, of i] by (simp add: old(2))
    show "nat (rehash_idx ?t) < length (buckets (old_table ?t))" if "is_rehashing ?t"
      using that ht_invarD2(1) [OF inv] by (simp add: old(2))
  qed (simp_all add: old(1) new(3) ht_invarD2(3) [OF inv])
qed

lemma ht_unlink_spec:
  assumes inv: "ht_invar t" and res: "ht_unlink t k = (r, t')"
  shows "map_option nval r = ht_map t k" "ht_invar t'"
    "all_nodes t' = filter (\<lambda>n. nkey n \<noteq> k) (all_nodes t)"
proof -
  note D = ht_invarD [OF inv]
  obtain n old where u: "unlink_from (old_table t) k (fnv_hash k) = (n, old)" by force
  obtain m new where u': "unlink_from (new_table t) k (fnv_hash k) = (m, new)" by force
  note U = unlink_from_spec [OF D(1,3) u] and U' = unlink_from_spec [OF D(2,4) u']
  have "map_option nval r = ht_map t k \<and> ht_invar t' \<and>
    all_nodes t' = filter (\<lambda>n. nkey n \<noteq> k) (all_nodes t)"
  proof (cases "n = None \<and> is_rehashing t")
    case True
    then have t': "t' = t\<lparr>old_table := old, new_table := new\<rparr>" "r = m"
      using res u u' by (auto simp: ht_unlink_def Let_def)
    have "map_option nval r = ht_map t k"
      using True U U' find_in_old [OF inv, of k] find_in_new [OF inv, of k]
      by (simp add: t' ht_map_split)
    then show ?thesis
      using ht_invar_filter [OF inv, of old "\<lambda>n. nkey n \<noteq> k" new] U U' True by (simp add: t')
  next
    case False
    then have t': "t' = t\<lparr>old_table := old, new_table := new_table t\<rparr>" "r = n"
      using res u by (auto simp: ht_unlink_def Let_def)
    have absent: "\<forall>n \<in> set (concat (buckets (new_table t))). nkey n \<noteq> k"
    proof (cases "is_rehashing t")
      case True
      with False U have "find_in (old_table t) k (fnv_hash k) \<noteq> None" by auto
      then have "k \<in> nkey ` set (concat (buckets (old_table t)))"
        by (simp only: find_in_mem [OF D(1)] not_not)
      with D(8) show ?thesis unfolding all_nodes_def by (metis (no_types, lifting) disjoint_iff
          distinct_append image_eqI list.set_map map_append)
    next
      case False
      then show ?thesis using D(7) by (simp add: empty_table_def)
    qed
    then have new: "buckets (new_table t) = map (filter (\<lambda>n. nkey n \<noteq> k)) (buckets (new_table t))"
      by (intro map_idI [symmetric]) (simp add: filter_id_conv)
    have "map_option nval r = ht_map t k"
      using False U find_in_old [OF inv, of k] D(7)
      by (cases "is_rehashing t") (auto simp: t' ht_map_split split: option.splits)
    then show ?thesis
      using ht_invar_filter [OF inv _ _ D(2) new D(7), of old] U by (simp add: t')
  qed
  then show "map_option nval r = ht_map t k" "ht_invar t'"
    "all_nodes t' = filter (\<lambda>n. nkey n \<noteq> k) (all_nodes t)" by auto
qed

lemma maybe_start_shrink_spec:
  assumes "ht_invar t"
  shows "ht_invar (maybe_start_shrink t)" "all_nodes (maybe_start_shrink t) = all_nodes t"
proof -
  let ?n = "length (buckets (old_table t))"
  have "ht_invar (maybe_start_shrink t) \<and> all_nodes (maybe_start_shrink t) = all_nodes t"
  proof (cases "\<not> is_rehashing t \<and> kInitialBuckets < ?n \<and> tcount (old_table t) * 10 < ?n")
    case True
    obtain j where j: "?n div 2 = kInitialBuckets * 2 ^ j"
      using pow2_halve [OF ht_invarD(5) [OF assms]] True by blast
    then have "max (?n div 2) kInitialBuckets = kInitialBuckets * 2 ^ j"
      by (simp add: kInitialBuckets_def)
    with True start_rehash_spec [OF assms _ refl, of j] assms show ?thesis
      by (simp add: maybe_start_shrink_def Let_def)
  next
    case False
    with assms show ?thesis by (auto simp: maybe_start_shrink_def Let_def)
  qed
  then show "ht_invar (maybe_start_shrink t)" "all_nodes (maybe_start_shrink t) = all_nodes t"
    by auto
qed

lemma map_of_filter_key:
  "map_of (map kv (filter (\<lambda>n. nkey n \<noteq> k) ns)) = (map_of (map kv ns))(k := None)"
  by (induction ns) (auto simp: fun_eq_iff)

lemma ht_take_spec:
  assumes inv: "ht_invar t"
  shows "fst (ht_take t k) = ht_map t k" "ht_invar (snd (ht_take t k))"
    "ht_map (snd (ht_take t k)) = (ht_map t)(k := None)"
proof -
  obtain r t' where u: "ht_unlink (maybe_rehash_step t) k = (r, t')" by force
  note U = ht_unlink_spec [OF maybe_rehash_step_spec(1) [OF inv] u]
  have m: "ht_map t' = (ht_map t)(k := None)"
    using U maybe_rehash_step_spec(2) [OF inv] by (simp add: ht_map_def map_of_filter_key)
  have s: "ht_map (maybe_start_shrink t') = ht_map t'"
    using U by (simp add: ht_map_def maybe_start_shrink_spec)
  show "fst (ht_take t k) = ht_map t k" "ht_invar (snd (ht_take t k))"
    "ht_map (snd (ht_take t k)) = (ht_map t)(k := None)"
    using U m s maybe_rehash_step_spec(2) [OF inv]
    by (auto simp: ht_take_def u maybe_start_shrink_spec split: option.splits)
qed

lemma ht_erase_take: "ht_erase t k = (fst (ht_take t k) \<noteq> None, snd (ht_take t k))"
  by (simp add: ht_erase_def ht_take_def split: prod.splits option.splits)

lemma ht_erase_spec:
  assumes inv: "ht_invar t"
  shows "fst (ht_erase t k) \<longleftrightarrow> ht_map t k \<noteq> None" "ht_invar (snd (ht_erase t k))"
    "ht_map (snd (ht_erase t k)) = (ht_map t)(k := None)"
  using ht_take_spec [OF inv] by (simp_all add: ht_erase_take)

lemma ht_nodes_all: "ht_invar t \<Longrightarrow> ht_nodes t = all_nodes t"
  using ht_invarD(7) [of t] by (auto simp: ht_nodes_def all_nodes_def empty_table_def)

lemma ht_for_each_spec:
  assumes "ht_invar t"
  shows "map_of (ht_for_each t) = ht_map t" "distinct (map fst (ht_for_each t))"
    "length (ht_for_each t) = ht_size t"
proof -
  show "map_of (ht_for_each t) = ht_map t"
    by (simp add: ht_for_each_def ht_map_def ht_nodes_all [OF assms])
  show "distinct (map fst (ht_for_each t))"
    using ht_invarD(8) [OF assms] by (simp add: ht_for_each_def ht_nodes_all [OF assms] comp_def)
  show "length (ht_for_each t) = ht_size t"
    using ht_invarD(1,2) [OF assms]
    by (simp add: ht_for_each_def ht_nodes_all [OF assms] ht_size_def all_nodes_def table_ok_def)
qed

lemma reset_to_empty_spec: "ht_invar reset_to_empty" "ht_map reset_to_empty = Map.empty"
proof -
  have "\<exists>k. kInitialBuckets = kInitialBuckets * 2 ^ k" by (rule exI [of _ 0]) simp
  then show "ht_invar reset_to_empty"
    by (simp add: ht_invar_def reset_to_empty_def is_rehashing_def table_ok_def pow2_buckets_def
        all_nodes_def empty_table_def)
  show "ht_map reset_to_empty = Map.empty"
    by (simp add: reset_to_empty_def ht_map_def all_nodes_def empty_table_def)
qed

lemmas [inv_intro] = ht_find_spec(2) ht_insert_spec(2) ht_erase_spec(2) ht_take_spec(2)
  rehash_step_spec(1) ht_write_spec(1) reset_to_empty_spec(1)
lemmas [view_simps] = ht_find_spec(1,3) ht_insert_spec(1,3) ht_erase_spec(1,3) ht_take_spec(1,3)
  ht_map_write reset_to_empty_spec(2)

section \<open>The dictionary interface\<close>

text \<open>
  What the rest of the program relies on: a dictionary with an invariant and a map it stands for.
  The loops that HSET, SADD, HDEL, SREM, HMGET and the snapshot decoder run over a table are
  verified once here, over the interface.
\<close>

fun insert_all :: "('t \<Rightarrow> string \<Rightarrow> 'v \<Rightarrow> bool \<times> 't) \<Rightarrow> int \<Rightarrow> 't \<Rightarrow> (string \<times> 'v) list \<Rightarrow> int \<times> 't" where
  "insert_all ins added t [] = (added, t)"
| "insert_all ins added t ((k, v) # kvs) =
     (case ins t k v of (inserted, t') \<Rightarrow> insert_all ins (if inserted then added + 1 else added) t' kvs)"

fun erase_all :: "('t \<Rightarrow> string \<Rightarrow> bool \<times> 't) \<Rightarrow> int \<Rightarrow> 't \<Rightarrow> string list \<Rightarrow> int \<times> 't" where
  "erase_all er removed t [] = (removed, t)"
| "erase_all er removed t (k # ks) =
     (case er t k of (b, t') \<Rightarrow> erase_all er (if b then removed + 1 else removed) t' ks)"

fun find_all :: "('t \<Rightarrow> string \<Rightarrow> 'v option \<times> 't) \<Rightarrow> 't \<Rightarrow> string list \<Rightarrow> 'v option list \<times> 't" where
  "find_all fnd t [] = ([], t)"
| "find_all fnd t (k # ks) =
     (case fnd t k of (r, t') \<Rightarrow> case find_all fnd t' ks of (rs, t'') \<Rightarrow> (r # rs, t''))"

locale dict =
  fixes invar :: "'t \<Rightarrow> bool"
    and amap :: "'t \<Rightarrow> (string \<rightharpoonup> 'v)"
    and dempty :: 't
    and dfind :: "'t \<Rightarrow> string \<Rightarrow> 'v option \<times> 't"
    and dinsert :: "'t \<Rightarrow> string \<Rightarrow> 'v \<Rightarrow> bool \<times> 't"
    and derase :: "'t \<Rightarrow> string \<Rightarrow> bool \<times> 't"
    and dsize :: "'t \<Rightarrow> nat"
    and dentries :: "'t \<Rightarrow> (string \<times> 'v) list"
  assumes d_empty: "invar dempty" "amap dempty = Map.empty"
    and d_find: "invar t \<Longrightarrow> fst (dfind t k) = amap t k" "invar t \<Longrightarrow> invar (snd (dfind t k))"
      "invar t \<Longrightarrow> amap (snd (dfind t k)) = amap t"
    and d_insert: "invar t \<Longrightarrow> fst (dinsert t k v) \<longleftrightarrow> amap t k = None"
      "invar t \<Longrightarrow> invar (snd (dinsert t k v))"
      "invar t \<Longrightarrow> amap (snd (dinsert t k v)) = (amap t)(k \<mapsto> v)"
    and d_erase: "invar t \<Longrightarrow> fst (derase t k) \<longleftrightarrow> amap t k \<noteq> None"
      "invar t \<Longrightarrow> invar (snd (derase t k))"
      "invar t \<Longrightarrow> amap (snd (derase t k)) = (amap t)(k := None)"
    and d_entries: "invar t \<Longrightarrow> map_of (dentries t) = amap t"
      "invar t \<Longrightarrow> distinct (map fst (dentries t))" "invar t \<Longrightarrow> length (dentries t) = dsize t"
begin

lemma dom_entries: "invar t \<Longrightarrow> dom (amap t) = fst ` set (dentries t)"
  by (simp add: d_entries(1) [symmetric] dom_map_of_conv_image_fst)

lemma finite_dom_amap: "invar t \<Longrightarrow> finite (dom (amap t))"
  by (simp add: dom_entries)

lemma size_card: "invar t \<Longrightarrow> dsize t = card (dom (amap t))"
  by (metis d_entries(2,3) dom_entries distinct_card length_map list.set_map)

lemma size_zero: "invar t \<Longrightarrow> dsize t = 0 \<longleftrightarrow> amap t = Map.empty"
  by (simp add: size_card finite_dom_amap card_0_eq)

lemma entries_mem: "invar t \<Longrightarrow> (k, v) \<in> set (dentries t) \<longleftrightarrow> amap t k = Some v"
  by (metis d_entries(1,2) map_of_eq_Some_iff)

lemma insert_all_spec:
  assumes "invar t" "insert_all dinsert a t kvs = (a', t')"
  shows "invar t' \<and> amap t' = amap t ++ map_of (rev kvs) \<and>
         a' = a + int (card (fst ` set kvs - dom (amap t)))"
  using assms
proof (induction kvs arbitrary: a t)
  case Nil
  then show ?case by simp
next
  case (Cons kv kvs)
  obtain k v where kv: "kv = (k, v)" by force
  obtain b s where ins: "dinsert t k v = (b, s)" by force
  have s: "invar s" "amap s = (amap t)(k \<mapsto> v)" "b \<longleftrightarrow> amap t k = None"
    using d_insert [OF Cons.prems(1), of k v] ins by simp_all
  from Cons.prems(2) have "insert_all dinsert (if b then a + 1 else a) s kvs = (a', t')"
    by (simp add: kv ins)
  from Cons.IH [OF s(1) this]
  have IH: "invar t'" "amap t' = amap s ++ map_of (rev kvs)"
    "a' = (if b then a + 1 else a) + int (card (fst ` set kvs - dom (amap s)))" by auto
  have "fst ` set (kv # kvs) - dom (amap t) =
      (if b then insert k (fst ` set kvs - dom (amap s)) else fst ` set kvs - dom (amap s))"
    using s(3) by (auto simp: kv s(2))
  then have "int (card (fst ` set (kv # kvs) - dom (amap t))) =
      (if b then 1 else 0) + int (card (fst ` set kvs - dom (amap s)))"
    by (simp add: s(2) card_insert_if)
  with IH show ?case by (simp add: kv s(2) map_add_assoc)
qed

lemma erase_all_spec:
  assumes "invar t" "erase_all derase a t ks = (a', t')"
  shows "invar t' \<and> amap t' = amap t |` (- set ks) \<and>
         a' = a + int (card (set ks \<inter> dom (amap t)))"
  using assms
proof (induction ks arbitrary: a t)
  case Nil
  then show ?case by simp
next
  case (Cons k ks)
  obtain b s where er: "derase t k = (b, s)" by force
  have s: "invar s" "amap s = (amap t)(k := None)" "b \<longleftrightarrow> amap t k \<noteq> None"
    using d_erase [OF Cons.prems(1), of k] er by simp_all
  from Cons.prems(2) have "erase_all derase (if b then a + 1 else a) s ks = (a', t')"
    by (simp add: er)
  from Cons.IH [OF s(1) this]
  have IH: "invar t'" "amap t' = amap s |` (- set ks)"
    "a' = (if b then a + 1 else a) + int (card (set ks \<inter> dom (amap s)))" by auto
  have "set (k # ks) \<inter> dom (amap t) =
      (if b then insert k (set ks \<inter> dom (amap s)) else set ks \<inter> dom (amap s))"
    using s(3) by (auto simp: s(2))
  then have "int (card (set (k # ks) \<inter> dom (amap t))) =
      (if b then 1 else 0) + int (card (set ks \<inter> dom (amap s)))"
    by (simp add: s(2) card_insert_if)
  moreover have "amap t' = amap t |` (- set (k # ks))"
    using IH(2) by (auto simp: s(2) restrict_map_def fun_eq_iff)
  ultimately show ?case using IH by simp
qed

lemma find_all_spec:
  assumes "invar t" "find_all dfind t ks = (rs, t')"
  shows "invar t' \<and> amap t' = amap t \<and> rs = map (amap t) ks"
  using assms
proof (induction ks arbitrary: t rs)
  case Nil
  then show ?case by simp
next
  case (Cons k ks)
  obtain r s where f: "dfind t k = (r, s)" by force
  obtain rs' where r: "find_all dfind s ks = (rs', t')" "rs = r # rs'"
    using Cons.prems(2) f by (auto split: prod.splits)
  have "invar s" "amap s = amap t" "r = amap t k"
    using d_find [OF Cons.prems(1), of k] f by simp_all
  with Cons.IH [OF _ r(1)] r(2) show ?case by simp
qed

end

interpretation ht: dict ht_invar ht_map reset_to_empty ht_find ht_insert_or_assign ht_erase
  ht_size ht_for_each
  by unfold_locales
    (simp_all add: reset_to_empty_spec ht_find_spec ht_insert_spec ht_erase_spec ht_for_each_spec)

section \<open>Work per step, and that a rehash finishes\<close>

lemma rehash_loop_bound:
  assumes "rehash_loop b m e i old new = (i', old', new')" "m \<le> b" "e \<le> 10 * b"
  shows "i' \<le> i + (b - m) + (10 * b - e)"
  using assms
proof (induction b m e i old new rule: rehash_loop.induct)
  case (1 b m e i old new)
  let ?go = "m < b \<and> e < 10 * b \<and> i < length (buckets old)"
  show ?case
  proof (cases ?go)
    case False
    with "1.prems" show ?thesis by (subst (asm) rehash_loop.simps) auto
  next
    case go: True
    show ?thesis
    proof (cases "buckets old ! i = []")
      case True
      with go "1.prems"(1) have "rehash_loop b m (e + 1) (i + 1) old new = (i', old', new')"
        by (subst (asm) rehash_loop.simps) (simp add: Let_def)
      from "1.IH"(1) [OF go refl True this] go have "i' \<le> i + 1 + (b - m) + (10 * b - (e + 1))"
        by linarith
      with go show ?thesis by linarith
    next
      case False
      with go "1.prems"(1) have "rehash_loop b (m + 1) e (i + 1)
          \<lparr>buckets = (buckets old)[i := []], tcount = tcount old - length (buckets old ! i)\<rparr>
          \<lparr>buckets = fold push_node (buckets old ! i) (buckets new),
           tcount = tcount new + length (buckets old ! i)\<rparr> = (i', old', new')"
        by (subst (asm) rehash_loop.simps) (simp add: Let_def)
      from "1.IH"(2) [OF go refl False this] go have "i' \<le> i + 1 + (b - (m + 1)) + (10 * b - e)"
        by linarith
      with go show ?thesis by linarith
    qed
  qed
qed

lemma rehash_loop_progress:
  assumes "rehash_loop b 0 0 i old new = (i', old', new')" "0 < b" "i < length (buckets old)"
    "mig_inv i old new"
  shows "i < i'"
proof (cases "buckets old ! i = []")
  case True
  with assms have "rehash_loop b 0 1 (i + 1) old new = (i', old', new')"
    by (subst (asm) rehash_loop.simps) (simp add: Let_def)
  moreover have "mig_inv (i + 1) old new"
    using assms(3,4) True by (auto simp: mig_inv_def less_Suc_eq)
  ultimately show ?thesis using rehash_loop_inv by fastforce
next
  case False
  with assms have "rehash_loop b 1 0 (i + 1)
      \<lparr>buckets = (buckets old)[i := []], tcount = tcount old - length (buckets old ! i)\<rparr>
      \<lparr>buckets = fold push_node (buckets old ! i) (buckets new),
       tcount = tcount new + length (buckets old ! i)\<rparr> = (i', old', new')"
    by (subst (asm) rehash_loop.simps) (simp add: Let_def)
  then show ?thesis using rehash_loop_inv migrate_bucket [OF assms(4,3)] by fastforce
qed

text \<open>The number of old buckets a rehash still has to visit; 0 when none is in progress.\<close>

definition rehash_remaining :: "'v hash_table \<Rightarrow> nat" where
  "rehash_remaining t =
     (if is_rehashing t then length (buckets (old_table t)) - nat (rehash_idx t) else 0)"

lemma rehash_step_remaining:
  assumes inv: "ht_invar t" and re: "is_rehashing t" and b: "0 < b"
  shows "rehash_remaining (rehash_step b t) < rehash_remaining t"
    "rehash_remaining t \<le> rehash_remaining (rehash_step b t) + 11 * b"
proof -
  let ?i = "nat (rehash_idx t)"
  obtain i old new where loop: "rehash_loop b 0 0 ?i (old_table t) (new_table t) = (i, old, new)"
    by (metis prod_cases3)
  have mig: "mig_inv ?i (old_table t) (new_table t)"
    using inv re by (auto simp: mig_inv_def ht_invar_def)
  have lt: "?i < length (buckets (old_table t))" by (rule ht_invarD2(1) [OF inv re])
  note L = rehash_loop_inv [OF mig loop] and B = rehash_loop_bound [OF loop]
    and P = rehash_loop_progress [OF loop b lt mig]
  have step: "rehash_step b t = (if i \<ge> length (buckets old)
      then \<lparr>old_table = new, new_table = empty_table, rehash_idx = -1\<rparr>
      else \<lparr>old_table = old, new_table = new, rehash_idx = int i\<rparr>)"
    using re b loop by (simp add: rehash_step_def)
  show "rehash_remaining (rehash_step b t) < rehash_remaining t"
    "rehash_remaining t \<le> rehash_remaining (rehash_step b t) + 11 * b"
    using L B P lt re unfolding step by (auto simp: rehash_remaining_def is_rehashing_def mig_inv_def)
qed

lemma rehash_remaining_0: "ht_invar t \<Longrightarrow> rehash_remaining t = 0 \<longleftrightarrow> \<not> is_rehashing t"
  using ht_invarD2(1) [of t] by (auto simp: rehash_remaining_def)

lemma rehash_step_iterate:
  assumes "ht_invar t" "0 < b" "rehash_remaining t \<le> n"
  shows "\<not> is_rehashing ((rehash_step b ^^ n) t)"
  using assms
proof (induction n arbitrary: t)
  case 0
  then show ?case by (simp add: rehash_remaining_0)
next
  case (Suc n)
  have "rehash_remaining (rehash_step b t) \<le> n"
  proof (cases "is_rehashing t")
    case True
    then show ?thesis using rehash_step_remaining(1) [OF Suc.prems(1) _ Suc.prems(2)] Suc.prems(3) by simp
  next
    case False
    then show ?thesis by (simp add: rehash_step_def rehash_remaining_def)
  qed
  with Suc.IH [OF rehash_step_spec(1) [OF Suc.prems(1)] Suc.prems(2)] show ?case
    by (simp add: funpow_swap1)
qed

section \<open>The self-check accepts every well-formed table\<close>

lemma dup_free_runs_distinct: "distinct (map nkey ns) \<Longrightarrow> dup_free_runs ns"
proof (induction ns rule: dup_free_runs.induct)
  case 1
  then show ?case by simp
next
  case (2 a ns)
  have "distinct (map nkey (takeWhile (\<lambda>b. nhash b = nhash a) ns) @
                  map nkey (dropWhile (\<lambda>b. nhash b = nhash a) ns))"
    using "2.prems" by (simp flip: map_append)
  moreover have "nkey a \<notin> nkey ` set (takeWhile (\<lambda>b. nhash b = nhash a) ns)"
    using "2.prems" by (auto dest: set_takeWhileD)
  ultimately show ?case using "2.IH" by (auto simp: distinct_append)
qed

lemma check_table_ok: "table_ok t \<Longrightarrow> check_table t"
  by (auto simp: check_table_def table_ok_def buckets_ok_def chain_ok_def list_all_iff)

lemma check_invariants_ok:
  assumes "ht_invar t"
  shows "check_invariants t"
proof -
  have "distinct (map nkey (sort_key nhash (all_nodes t)))"
    using ht_invarD(8) [OF assms] by (metis distinct_keys_mset mset_sort)
  then have "dup_free_runs (sort_key nhash (ht_nodes t))"
    by (simp add: ht_nodes_all [OF assms] dup_free_runs_distinct)
  with ht_invarD [OF assms] ht_invarD2 [OF assms] show ?thesis
    by (auto simp: check_invariants_def check_table_ok list_all_iff empty_table_def)
qed

section \<open>Random entries\<close>

text \<open>A generator is fair when every residue keeps coming up; the loop that looks for a non-empty
  bucket ends for a fair generator.\<close>

definition rng_fair :: "rng \<Rightarrow> bool" where
  "rng_fair r \<longleftrightarrow> (\<forall>n > 0. \<forall>b < n. \<forall>p. \<exists>q \<ge> p. draws r q mod n = b)"

lemma pick_nonempty_hits:
  assumes "bs \<noteq> []" "dpos r \<le> q" "q < dpos r + n" "bs ! (draws r q mod length bs) \<noteq> []"
  shows "\<exists>chain r'. pick_nonempty bs r = Some (chain, r') \<and> chain \<in> set bs \<and> chain \<noteq> [] \<and>
           draws r' = draws r"
  using assms
proof (induction n arbitrary: r)
  case 0
  then show ?case by simp
next
  case (Suc n)
  let ?i = "draws r (dpos r) mod length bs"
  show ?case
  proof (cases "bs ! ?i = []")
    case False
    then show ?thesis using Suc.prems(1)
      by (subst pick_nonempty.simps) (auto simp: rng_pick_def)
  next
    case True
    with Suc.prems have "dpos r \<noteq> q" by auto
    with Suc.prems have "\<exists>chain r'. pick_nonempty bs (r\<lparr>dpos := dpos r + 1\<rparr>) = Some (chain, r') \<and>
        chain \<in> set bs \<and> chain \<noteq> [] \<and> draws r' = draws r"
      using Suc.IH [of "r\<lparr>dpos := dpos r + 1\<rparr>"] by simp
    with True show ?thesis by (subst pick_nonempty.simps) (simp add: rng_pick_def)
  qed
qed

lemma pick_nonempty_fair:
  assumes "rng_fair r" "bs \<noteq> []" "concat bs \<noteq> []"
  shows "\<exists>chain r'. pick_nonempty bs r = Some (chain, r') \<and> chain \<in> set bs \<and> chain \<noteq> [] \<and>
           draws r' = draws r"
proof -
  from assms(3) obtain j where j: "j < length bs" "bs ! j \<noteq> []"
    by (auto simp: in_set_conv_nth)
  with assms(1) obtain q where "dpos r \<le> q" "draws r q mod length bs = j"
    unfolding rng_fair_def by (metis length_greater_0_conv assms(2))
  with j show ?thesis
    using pick_nonempty_hits [OF assms(2), of r q "Suc (q - dpos r)"] by auto
qed

lemma rng_fair_cong: "draws r' = draws r \<Longrightarrow> rng_fair r' \<longleftrightarrow> rng_fair r"
  by (simp add: rng_fair_def)

lemma random_entry_empty: "ht_size t = 0 \<Longrightarrow> random_entry t r = Some (None, r)"
  by (simp add: random_entry_def)

lemma random_entry_from:
  assumes "rng_fair r1" "table_ok tab" "tcount tab \<noteq> 0"
  shows "\<exists>n r'. (do { (chain, r2) \<leftarrow> pick_nonempty (buckets tab) r1;
                     let (steps, r3) = rng_pick r2 (length chain);
                     let n = chain ! steps;
                     Some (Some (nkey n, nval n), r3) }) = Some (Some (nkey n, nval n), r') \<and>
           n \<in> set (concat (buckets tab)) \<and> draws r' = draws r1"
proof -
  from assms(2,3) have ne: "concat (buckets tab) \<noteq> []" by (auto simp: table_ok_def)
  then have "buckets tab \<noteq> []" by auto
  from pick_nonempty_fair [OF assms(1) this ne] obtain chain r2 where
    p: "pick_nonempty (buckets tab) r1 = Some (chain, r2)" "chain \<in> set (buckets tab)" "chain \<noteq> []"
       "draws r2 = draws r1" by blast
  then have "chain ! (draws r2 (dpos r2) mod length chain) \<in> set chain" by simp
  with p(2) have "chain ! (draws r2 (dpos r2) mod length chain) \<in> set (concat (buckets tab))" by auto
  with p show ?thesis
    by (intro exI [of _ "chain ! (draws r2 (dpos r2) mod length chain)"]
        exI [of _ "r2\<lparr>dpos := dpos r2 + 1\<rparr>"]) (simp add: rng_pick_def Let_def)
qed

lemma random_entry_spec:
  assumes inv: "ht_invar t" and fair: "rng_fair r" and ne: "ht_size t \<noteq> 0"
  shows "\<exists>k v r'. random_entry t r = Some (Some (k, v), r') \<and> ht_map t k = Some v \<and> rng_fair r'"
proof -
  note D = ht_invarD [OF inv]
  obtain tab r1 where tab: "(if is_rehashing t then
                (let (x, r) = rng_pick r (ht_size t);
                     c = (if x < tcount (old_table t) then old_table t else new_table t);
                     d = (if x < tcount (old_table t) then new_table t else old_table t)
                 in (if tcount c = 0 then d else c, r))
              else (old_table t, r)) = (tab, r1)" by force
  have t1: "tab \<in> {old_table t, new_table t}" "tcount tab \<noteq> 0" "draws r1 = draws r"
    using tab ne D(7) by (auto simp: Let_def rng_pick_def ht_size_def empty_table_def split: if_splits)
  then have ok: "table_ok tab" and "buckets tab \<noteq> []" using D(1,2) by (auto simp: table_ok_def)
  from fair t1(3) have "rng_fair r1" by (simp add: rng_fair_def)
  from random_entry_from [OF this ok t1(2)] obtain n r' where
    n: "(do { (chain, r2) \<leftarrow> pick_nonempty (buckets tab) r1;
              let (steps, r3) = rng_pick r2 (length chain);
              let n = chain ! steps;
              Some (Some (nkey n, nval n), r3) }) = Some (Some (nkey n, nval n), r')"
       "n \<in> set (concat (buckets tab))" "draws r' = draws r1" by blast
  have "random_entry t r = Some (Some (nkey n, nval n), r')"
    using ne t1(2) \<open>buckets tab \<noteq> []\<close> n(1) by (simp only: random_entry_def tab) simp
  moreover have "ht_map t (nkey n) = Some (nval n)"
    using t1(1) n(2) unfolding ht_map_def
    by (intro map_of_kv_Some [OF D(8)]) (auto simp: all_nodes_def)
  moreover have "rng_fair r'" using n(3) t1(3) fair by (simp add: rng_fair_def)
  ultimately show ?thesis by blast
qed

section \<open>Histories\<close>

text \<open>A client's history of calls on one table, and the same history on a plain map.\<close>

datatype 'v ht_op = OpFind string | OpInsert string 'v | OpErase string | OpTake string
  | OpRehash nat | OpClear

datatype 'v ht_out = OutVal "'v option" | OutFlag bool | OutUnit

fun ht_exec :: "'v ht_op \<Rightarrow> 'v hash_table \<Rightarrow> 'v ht_out \<times> 'v hash_table" where
  "ht_exec (OpFind k) t = apfst OutVal (ht_find t k)"
| "ht_exec (OpInsert k v) t = apfst OutFlag (ht_insert_or_assign t k v)"
| "ht_exec (OpErase k) t = apfst OutFlag (ht_erase t k)"
| "ht_exec (OpTake k) t = apfst OutVal (ht_take t k)"
| "ht_exec (OpRehash b) t = (OutUnit, rehash_step b t)"
| "ht_exec OpClear t = (OutUnit, ht_clear t)"

fun map_exec :: "'v ht_op \<Rightarrow> (string \<rightharpoonup> 'v) \<Rightarrow> 'v ht_out \<times> (string \<rightharpoonup> 'v)" where
  "map_exec (OpFind k) m = (OutVal (m k), m)"
| "map_exec (OpInsert k v) m = (OutFlag (m k = None), m(k \<mapsto> v))"
| "map_exec (OpErase k) m = (OutFlag (m k \<noteq> None), m(k := None))"
| "map_exec (OpTake k) m = (OutVal (m k), m(k := None))"
| "map_exec (OpRehash b) m = (OutUnit, m)"
| "map_exec OpClear m = (OutUnit, Map.empty)"

fun run_ops :: "('o \<Rightarrow> 's \<Rightarrow> 'r \<times> 's) \<Rightarrow> 's \<Rightarrow> 'o list \<Rightarrow> 'r list \<times> 's" where
  "run_ops ex s [] = ([], s)"
| "run_ops ex s (c # cs) = (case ex c s of (r, s') \<Rightarrow> apfst (Cons r) (run_ops ex s' cs))"

lemma ht_exec_refines:
  assumes "ht_invar t"
  shows "ht_invar (snd (ht_exec c t)) \<and> fst (ht_exec c t) = fst (map_exec c (ht_map t)) \<and>
         ht_map (snd (ht_exec c t)) = snd (map_exec c (ht_map t))"
  using assms
  by (cases c) (simp_all add: ht_clear_def ht_find_spec ht_insert_spec ht_erase_spec ht_take_spec
      rehash_step_spec reset_to_empty_spec)

lemma run_ops_refines:
  assumes "ht_invar t"
  shows "ht_invar (snd (run_ops ht_exec t cs)) \<and>
         fst (run_ops ht_exec t cs) = fst (run_ops map_exec (ht_map t) cs) \<and>
         ht_map (snd (run_ops ht_exec t cs)) = snd (run_ops map_exec (ht_map t) cs)"
  using assms
proof (induction cs arbitrary: t)
  case Nil
  then show ?case by simp
next
  case (Cons c cs)
  note E = ht_exec_refines [OF Cons.prems, of c]
  from Cons.IH [OF conjunct1 [OF E]] E show ?case
    by (simp add: prod.case_eq_if)
qed

section \<open>Properties\<close>

text \<open>C5: any history of finds, inserts, erases, takes, cron-driven rehash steps and clears on a fresh
  table returns exactly what the same history returns on a plain map, and leaves a table that passes
  the code's own \<^verbatim>\<open>check_invariants\<close> and holds exactly that map, however far an incremental rehash
  has progressed at each call.\<close>

theorem hash_table_refines_map:
  fixes cs :: "'v ht_op list"
  shows "fst (run_ops ht_exec reset_to_empty cs) = fst (run_ops map_exec Map.empty cs) \<and>
         ht_map (snd (run_ops ht_exec reset_to_empty cs)) = snd (run_ops map_exec Map.empty cs) \<and>
         check_invariants (snd (run_ops ht_exec reset_to_empty cs))"
  using run_ops_refines [OF reset_to_empty_spec(1), of cs]
  by (simp add: check_invariants_ok reset_to_empty_spec(2))

text \<open>C6: a rehash does bounded work and finishes: one call of \<^verbatim>\<open>rehash_step\<close> with budget \<open>b\<close> visits at
  least one and at most \<open>11 * b\<close> of the old buckets, and as many calls as old buckets are left end
  the rehash, without changing the contents of the table.\<close>

theorem rehash_bounded_and_finishes:
  assumes "ht_invar t" "is_rehashing t" "0 < b"
  shows "rehash_remaining (rehash_step b t) < rehash_remaining t \<and>
         rehash_remaining t \<le> rehash_remaining (rehash_step b t) + 11 * b \<and>
         \<not> is_rehashing ((rehash_step b ^^ rehash_remaining t) t) \<and>
         ht_map (rehash_step b t) = ht_map t"
  using assms rehash_step_remaining [OF assms] rehash_step_iterate [OF assms(1,3) order_refl]
  by simp

definition example_table :: "nat hash_table" where
  "example_table = snd (run_ops ht_exec reset_to_empty
     [OpInsert ''a'' 1, OpInsert ''b'' 2, OpInsert ''c'' 3, OpInsert ''d'' 4])"

lemma example_table_rehashing: "ht_invar example_table \<and> is_rehashing example_table"
proof -
  have "ht_invar example_table"
    unfolding example_table_def by (rule run_ops_refines [OF reset_to_empty_spec(1), THEN conjunct1])
  moreover have "is_rehashing example_table" by code_simp
  ultimately show ?thesis by blast
qed

theorem rehash_bounded_and_finishes_witness:
  "is_rehashing example_table \<and>
   rehash_remaining (rehash_step 1 example_table) < rehash_remaining example_table"
  using rehash_bounded_and_finishes [of example_table 1] example_table_rehashing by simp

text \<open>C7: on a non-empty table and a fair generator, \<^verbatim>\<open>random_entry\<close> returns (its search for a
  non-empty bucket ends) and what it returns is a live entry of the table.\<close>

theorem random_entry_live:
  assumes "ht_invar t" "rng_fair r" "ht_size t \<noteq> 0"
  shows "\<exists>k v r'. random_entry t r = Some (Some (k, v), r') \<and> ht_map t k = Some v"
  using random_entry_spec [OF assms] by blast

lemma rng_fair_id: "rng_fair \<lparr>draws = \<lambda>q. q, dpos = p\<rparr>"
proof -
  have "\<exists>q \<ge> p. q mod n = b" if "b < n" for n b p :: nat
    using that by (intro exI [of _ "p * n + b"]) (auto intro: trans_le_add1)
  then show ?thesis by (simp add: rng_fair_def)
qed

theorem random_entry_live_witness:
  "\<exists>k v r'. random_entry example_table \<lparr>draws = \<lambda>q. q, dpos = 0\<rparr> = Some (Some (k, v), r') \<and>
            ht_map example_table k = Some v"
proof (rule random_entry_live)
  show "ht_size example_table \<noteq> 0" by code_simp
qed (simp_all add: example_table_rehashing rng_fair_id)

end
