(* ===== verification/Avl_Tree.thy ===== *)
theory Avl_Tree
  imports Prelude
begin

text \<open>
  The AVL tree with subtree sizes of \<^verbatim>\<open>storage/avl_tree.h\<close>. A heap node is a constructor \<open>Nd\<close> that
  carries its own address, so that pointers into the tree (which \<^verbatim>\<open>ZSet\<close> keeps) have an identity; a
  null child is \<open>Lf\<close>. The chain of parent pointers above a node is a list of frames (the node's
  path to the root, innermost parent first): following \<^verbatim>\<open>parent\<close> is taking the next frame, and
  \<open>plug\<close> puts a subtree back in place. Heights and sizes are the stored fields, so a node whose
  children were relinked carries stale values until \<open>update_node\<close> runs, as in the code.

  Every operation is a translation of the code's loop over such a node and path; \<open>nodes\<close> lists
  (address, key) in order and is the abstract value of a tree.
\<close>

section \<open>Nodes, paths and the tree\<close>

datatype 'k avl = Lf | Nd nat 'k int nat "'k avl" "'k avl"

datatype 'k frame =
    LFrame nat 'k int nat "'k avl"
  | RFrame "'k avl" nat 'k int nat

record 'k avl_tree =
  root :: "'k avl"
  acount :: nat
  next_addr :: nat

definition avl_empty_tree :: "'k avl_tree" where
  "avl_empty_tree = \<lparr>root = Lf, acount = 0, next_addr = 0\<rparr>"

fun plug1 :: "'k frame \<Rightarrow> 'k avl \<Rightarrow> 'k avl" where
  "plug1 (LFrame a k h s r) t = Nd a k h s t r"
| "plug1 (RFrame l a k h s) t = Nd a k h s l t"

fun plug :: "'k frame list \<Rightarrow> 'k avl \<Rightarrow> 'k avl" where
  "plug [] t = t"
| "plug (f # fs) t = plug fs (plug1 f t)"

fun nodes :: "'k avl \<Rightarrow> (nat \<times> 'k) list" where
  "nodes Lf = []"
| "nodes (Nd a k h s l r) = nodes l @ (a, k) # nodes r"

text \<open>The path of the node with a given address: what its chain of parent pointers is.\<close>

fun locate :: "nat \<Rightarrow> 'k avl \<Rightarrow> 'k frame list \<Rightarrow> ('k avl \<times> 'k frame list) option" where
  "locate n Lf fs = None"
| "locate n (Nd a k h s l r) fs =
     (if a = n then Some (Nd a k h s l r, fs)
      else case locate n l (LFrame a k h s r # fs) of
             Some z \<Rightarrow> Some z
           | None \<Rightarrow> locate n r (RFrame l a k h s # fs))"

section \<open>Heights, sizes, rotations\<close>

fun height_of :: "'k avl \<Rightarrow> int" where
  "height_of Lf = 0"
| "height_of (Nd a k h s l r) = h"

fun subtree_size :: "'k avl \<Rightarrow> nat" where
  "subtree_size Lf = 0"
| "subtree_size (Nd a k h s l r) = s"

fun balance_factor :: "'k avl \<Rightarrow> int" where
  "balance_factor (Nd a k h s l r) = height_of l - height_of r"
| "balance_factor Lf = 0"

fun update_node :: "'k avl \<Rightarrow> 'k avl" where
  "update_node (Nd a k h s l r) =
     Nd a k (1 + max (height_of l) (height_of r)) (1 + subtree_size l + subtree_size r) l r"
| "update_node Lf = Lf"

text \<open>A rotation is only called on a node whose rotated child exists (\<open>rebalance_rotates\<close>).\<close>

fun rotate_left :: "'k avl \<Rightarrow> 'k avl" where
  "rotate_left (Nd x kx hx sx xl (Nd y ky hy sy yl yr)) =
     update_node (Nd y ky hy sy (update_node (Nd x kx hx sx xl yl)) yr)"
| "rotate_left t = t"

fun rotate_right :: "'k avl \<Rightarrow> 'k avl" where
  "rotate_right (Nd x kx hx sx (Nd y ky hy sy yl yr) xr) =
     update_node (Nd y ky hy sy yl (update_node (Nd x kx hx sx yr xr)))"
| "rotate_right t = t"

fun rebalance_node :: "'k avl \<Rightarrow> 'k avl" where
  "rebalance_node Lf = Lf"
| "rebalance_node (Nd a k h s l r) =
    (case update_node (Nd a k h s l r) of
       Lf \<Rightarrow> Lf
     | Nd a k h s l r \<Rightarrow>
         let bf = height_of l - height_of r in
         if bf > 1 then
           rotate_right (Nd a k h s (if balance_factor l < 0 then rotate_left l else l) r)
         else if bf < -1 then
           rotate_left (Nd a k h s l (if balance_factor r > 0 then rotate_right r else r))
         else Nd a k h s l r)"

fun rebalance_up :: "'k avl \<Rightarrow> 'k frame list \<Rightarrow> 'k avl" where
  "rebalance_up cur [] = rebalance_node cur"
| "rebalance_up cur (f # fs) = rebalance_up (plug1 f (rebalance_node cur)) fs"

text \<open>Put \<open>t\<close> into the hole of a path and rebalance from its parent; a null parent is a no-op.\<close>

fun up_from :: "'k avl \<Rightarrow> 'k frame list \<Rightarrow> 'k avl" where
  "up_from t [] = t"
| "up_from t (f # fs) = rebalance_up (plug1 f t) fs"

fun leftmost :: "'k avl \<Rightarrow> 'k frame list \<Rightarrow> 'k avl \<times> 'k frame list" where
  "leftmost (Nd a k h s l r) fs =
     (if l \<noteq> Lf then leftmost l (LFrame a k h s r # fs) else (Nd a k h s l r, fs))"
| "leftmost Lf fs = (Lf, fs)"

fun rightmost :: "'k avl \<Rightarrow> 'k frame list \<Rightarrow> 'k avl \<times> 'k frame list" where
  "rightmost (Nd a k h s l r) fs =
     (if r \<noteq> Lf then rightmost r (RFrame l a k h s # fs) else (Nd a k h s l r, fs))"
| "rightmost Lf fs = (Lf, fs)"

section \<open>Public operations\<close>

text \<open>The descent of \<^verbatim>\<open>insert\<close>: the path of the null link where the key belongs, \<^term>\<open>None\<close> if an
  equivalent key is met.\<close>

fun insert_descend :: "('k \<Rightarrow> 'k \<Rightarrow> bool) \<Rightarrow> 'k \<Rightarrow> 'k avl \<Rightarrow> 'k frame list \<Rightarrow> 'k frame list option" where
  "insert_descend lt key Lf fs = Some fs"
| "insert_descend lt key (Nd a k h s l r) fs =
     (if lt key k then insert_descend lt key l (LFrame a k h s r # fs)
      else if lt k key then insert_descend lt key r (RFrame l a k h s # fs)
      else None)"

definition avl_insert :: "('k \<Rightarrow> 'k \<Rightarrow> bool) \<Rightarrow> 'k \<Rightarrow> 'k avl_tree \<Rightarrow> nat option \<times> 'k avl_tree" where
  "avl_insert lt key t =
    (let node = Nd (next_addr t) key 1 1 Lf Lf;
         grown = (\<lambda>r. \<lparr>root = r, acount = acount t + 1, next_addr = next_addr t + 1\<rparr>) in
     if root t = Lf then (Some (next_addr t), grown node)
     else case insert_descend lt key (root t) [] of
            None \<Rightarrow> (None, t)
          | Some fs \<Rightarrow> (Some (next_addr t), grown (up_from node fs)))"

text \<open>The relinking of \<^verbatim>\<open>erase\<close> at the node found, with the path above it: the three cases of the code,
  the last one moving the successor into the erased node's place.\<close>

fun erase_at :: "'k avl \<Rightarrow> 'k frame list \<Rightarrow> 'k avl ub" where
  "erase_at Lf fs = None"
| "erase_at (Nd a k h s l r) fs =
    (if l = Lf then Some (up_from r fs)
     else if r = Lf then Some (up_from l fs)
     else case leftmost r [] of
            (Nd sa sk sh ss sl sr, ps) \<Rightarrow>
              (if ps = [] then Some (rebalance_up (Nd sa sk sh ss l sr) fs)
               else Some (up_from sr (ps @ RFrame l sa sk sh ss # fs)))
          | (Lf, ps) \<Rightarrow> None)"

definition avl_erase :: "nat \<Rightarrow> 'k avl_tree \<Rightarrow> 'k avl_tree ub" where
  "avl_erase n t = do {
     (cur, fs) \<leftarrow> locate n (root t) [];
     r \<leftarrow> erase_at cur fs;
     Some (t\<lparr>root := r, acount := acount t - 1\<rparr>)
   }"

fun find_from :: "('k \<Rightarrow> 'k \<Rightarrow> bool) \<Rightarrow> 'k \<Rightarrow> 'k avl \<Rightarrow> (nat \<times> 'k) option" where
  "find_from lt key Lf = None"
| "find_from lt key (Nd a k h s l r) =
     (if lt key k then find_from lt key l
      else if lt k key then find_from lt key r
      else Some (a, k))"

definition avl_find :: "('k \<Rightarrow> 'k \<Rightarrow> bool) \<Rightarrow> 'k \<Rightarrow> 'k avl_tree \<Rightarrow> (nat \<times> 'k) option" where
  "avl_find lt key t = find_from lt key (root t)"

text \<open>A root-to-leaf descent for the first key that satisfies an upward closed predicate.\<close>

fun descend_first :: "('k \<Rightarrow> bool) \<Rightarrow> 'k avl \<Rightarrow> (nat \<times> 'k) option \<Rightarrow> (nat \<times> 'k) option" where
  "descend_first P Lf result = result"
| "descend_first P (Nd a k h s l r) result =
     (if P k then descend_first P l (Some (a, k)) else descend_first P r result)"

definition avl_lower_bound :: "('k \<Rightarrow> 'k \<Rightarrow> bool) \<Rightarrow> 'k \<Rightarrow> 'k avl_tree \<Rightarrow> (nat \<times> 'k) option" where
  "avl_lower_bound lt key t = descend_first (\<lambda>k. \<not> lt k key) (root t) None"

fun rank_up :: "'k frame list \<Rightarrow> nat" where
  "rank_up [] = 0"
| "rank_up (LFrame a k h s r # fs) = rank_up fs"
| "rank_up (RFrame l a k h s # fs) = subtree_size l + 1 + rank_up fs"

definition avl_rank :: "nat \<Rightarrow> 'k avl_tree \<Rightarrow> nat ub" where
  "avl_rank n t =
    (case locate n (root t) [] of
       Some (Nd a k h s l r, fs) \<Rightarrow> Some (subtree_size l + rank_up fs)
     | _ \<Rightarrow> None)"

fun select_from :: "nat \<Rightarrow> 'k avl \<Rightarrow> (nat \<times> 'k) option" where
  "select_from i Lf = None"
| "select_from i (Nd a k h s l r) =
     (let left_size = subtree_size l in
      if i < left_size then select_from i l
      else if i = left_size then Some (a, k)
      else select_from (i - (left_size + 1)) r)"

definition avl_select :: "nat \<Rightarrow> 'k avl_tree \<Rightarrow> (nat \<times> 'k) option" where
  "avl_select i t = select_from i (root t)"

text \<open>The climb of \<^verbatim>\<open>next\<close> and \<^verbatim>\<open>prev\<close> when there is no child on that side.\<close>

fun climb_next :: "'k frame list \<Rightarrow> (nat \<times> 'k) option" where
  "climb_next [] = None"
| "climb_next (RFrame l a k h s # fs) = climb_next fs"
| "climb_next (LFrame a k h s r # fs) = Some (a, k)"

fun climb_prev :: "'k frame list \<Rightarrow> (nat \<times> 'k) option" where
  "climb_prev [] = None"
| "climb_prev (LFrame a k h s r # fs) = climb_prev fs"
| "climb_prev (RFrame l a k h s # fs) = Some (a, k)"

fun node_of :: "'k avl \<Rightarrow> (nat \<times> 'k) option" where
  "node_of Lf = None"
| "node_of (Nd a k h s l r) = Some (a, k)"

definition avl_next :: "nat \<Rightarrow> 'k avl_tree \<Rightarrow> (nat \<times> 'k) option ub" where
  "avl_next n t =
    (case locate n (root t) [] of
       Some (Nd a k h s l r, fs) \<Rightarrow>
         Some (if r \<noteq> Lf then node_of (fst (leftmost r [])) else climb_next fs)
     | _ \<Rightarrow> None)"

definition avl_prev :: "nat \<Rightarrow> 'k avl_tree \<Rightarrow> (nat \<times> 'k) option ub" where
  "avl_prev n t =
    (case locate n (root t) [] of
       Some (Nd a k h s l r, fs) \<Rightarrow>
         Some (if l \<noteq> Lf then node_of (fst (rightmost l [])) else climb_prev fs)
     | _ \<Rightarrow> None)"

definition avl_size :: "'k avl_tree \<Rightarrow> nat" where
  "avl_size t = acount t"

text \<open>The tests' self-check: in-order keys strictly increasing, stored heights and sizes right,
  balance within one. (The parent-pointer tests hold by construction of paths.)\<close>

fun check_node :: "('k \<Rightarrow> 'k \<Rightarrow> bool) \<Rightarrow> 'k avl \<Rightarrow> 'k option \<times> nat \<Rightarrow> ('k option \<times> nat) option" where
  "check_node lt Lf st = Some st"
| "check_node lt (Nd a k h s l r) st = do {
     (prev_key, visited) \<leftarrow> check_node lt l st;
     if prev_key \<noteq> None \<and> \<not> lt (the prev_key) k then None
     else if h \<noteq> 1 + max (height_of l) (height_of r) then None
     else if height_of l - height_of r > 1 \<or> height_of l - height_of r < -1 then None
     else if s \<noteq> 1 + subtree_size l + subtree_size r then None
     else check_node lt r (Some k, visited + 1)
   }"

definition avl_check_invariants :: "('k \<Rightarrow> 'k \<Rightarrow> bool) \<Rightarrow> 'k avl_tree \<Rightarrow> bool" where
  "avl_check_invariants lt t =
    (case check_node lt (root t) (None, 0) of
       None \<Rightarrow> False | Some (_, visited) \<Rightarrow> visited = acount t)"

section \<open>Balance\<close>

fun avl_ok :: "'k avl \<Rightarrow> bool" where
  "avl_ok Lf = True"
| "avl_ok (Nd a k h s l r) \<longleftrightarrow>
     avl_ok l \<and> avl_ok r \<and> h = 1 + max (height_of l) (height_of r) \<and>
     \<bar>height_of l - height_of r\<bar> \<le> 1 \<and> s = 1 + subtree_size l + subtree_size r"

lemma height_nonneg: "avl_ok t \<Longrightarrow> 0 \<le> height_of t"
  by (induction t) auto

lemma height_0: "avl_ok t \<Longrightarrow> height_of t \<le> 0 \<longleftrightarrow> t = Lf"
proof (cases t)
  case (Nd a k h s l r)
  assume "avl_ok t"
  with Nd height_nonneg [of l] show ?thesis by auto
qed simp

lemma subtree_size_nodes: "avl_ok t \<Longrightarrow> subtree_size t = length (nodes t)"
  by (induction t) auto

text \<open>Rebalancing a node whose subtrees are sound and differ in height by at most two.\<close>

lemma rebalance_node_ok:
  fixes a k h s and l r :: "'k avl"
  assumes "avl_ok l" "avl_ok r" "\<bar>height_of l - height_of r\<bar> \<le> 2"
  defines "t \<equiv> rebalance_node (Nd a k h s l r)"
  shows "avl_ok t \<and> nodes t = nodes l @ (a, k) # nodes r \<and>
         (height_of t = 1 + max (height_of l) (height_of r) \<or>
          2 \<le> \<bar>height_of l - height_of r\<bar> \<and> height_of t = max (height_of l) (height_of r))"
proof -
  consider (left) "height_of l - height_of r = 2" | (right) "height_of r - height_of l = 2"
    | (bal) "\<bar>height_of l - height_of r\<bar> \<le> 1" using assms(3) by linarith
  then show ?thesis
  proof cases
    case bal
    with assms show ?thesis by (auto simp: t_def Let_def)
  next
    case left
    then obtain la lk lh ls ll lr where l: "l = Nd la lk lh ls ll lr"
      using height_nonneg [OF assms(2)] by (cases l) auto
    show ?thesis
    proof (cases "height_of ll < height_of lr")
      case True
      then obtain b bk bh bs bl br where "lr = Nd b bk bh bs bl br"
        using assms(1) l height_nonneg [of ll] by (cases lr) auto
      with True left assms(1,2) l show ?thesis
        using height_nonneg [of bl] height_nonneg [of br]
        by (auto simp: t_def Let_def max_def split: if_splits)
    next
      case False
      with left assms(1,2) l show ?thesis
        by (auto simp: t_def Let_def max_def split: if_splits)
    qed
  next
    case right
    then obtain ra rk rh rs rl rr where r: "r = Nd ra rk rh rs rl rr"
      using height_nonneg [OF assms(1)] by (cases r) auto
    show ?thesis
    proof (cases "height_of rr < height_of rl")
      case True
      then obtain b bk bh bs bl br where "rl = Nd b bk bh bs bl br"
        using assms(2) r height_nonneg [of rr] by (cases rl) auto
      with True right assms(1,2) r show ?thesis
        using height_nonneg [of bl] height_nonneg [of br]
        by (auto simp: t_def Let_def max_def split: if_splits)
    next
      case False
      with right assms(1,2) r show ?thesis
        by (auto simp: t_def Let_def max_def split: if_splits)
    qed
  qed
qed

section \<open>Paths\<close>

text \<open>What stands before and after the hole of a path, and when a hole of height \<open>h\<close> is in balance
  with the rest of the path.\<close>

fun before :: "'k frame list \<Rightarrow> (nat \<times> 'k) list" where
  "before [] = []"
| "before (LFrame a k h s r # fs) = before fs"
| "before (RFrame l a k h s # fs) = before fs @ nodes l @ [(a, k)]"

fun after :: "'k frame list \<Rightarrow> (nat \<times> 'k) list" where
  "after [] = []"
| "after (LFrame a k h s r # fs) = (a, k) # nodes r @ after fs"
| "after (RFrame l a k h s # fs) = after fs"

fun path_ok :: "'k frame list \<Rightarrow> int \<Rightarrow> bool" where
  "path_ok [] h = True"
| "path_ok (LFrame a k hh s r # fs) h \<longleftrightarrow>
     avl_ok r \<and> \<bar>h - height_of r\<bar> \<le> 1 \<and> path_ok fs (1 + max h (height_of r))"
| "path_ok (RFrame l a k hh s # fs) h \<longleftrightarrow>
     avl_ok l \<and> \<bar>height_of l - h\<bar> \<le> 1 \<and> path_ok fs (1 + max (height_of l) h)"

lemma nodes_plug: "nodes (plug fs t) = before fs @ nodes t @ after fs"
proof (induction fs arbitrary: t)
  case Nil
  then show ?case by simp
next
  case (Cons f fs)
  then show ?case by (cases f) auto
qed

lemma avl_ok_plug: "avl_ok (plug fs t) \<Longrightarrow> avl_ok t \<and> path_ok fs (height_of t)"
proof (induction fs arbitrary: t)
  case Nil
  then show ?case by simp
next
  case (Cons f fs)
  then show ?case by (cases f) fastforce+
qed

lemma before_append: "before (ps @ fs) = before fs @ before ps"
proof (induction ps)
  case (Cons p ps)
  then show ?case by (cases p) auto
qed simp

lemma after_append: "after (ps @ fs) = after ps @ after fs"
proof (induction ps)
  case (Cons p ps)
  then show ?case by (cases p) auto
qed simp

lemma plug_append: "plug (ps @ fs) t = plug fs (plug ps t)"
  by (induction ps arbitrary: t) auto

lemma path_ok_append:
  assumes "avl_ok (plug ps t)" "path_ok fs (height_of (plug ps t))"
  shows "path_ok (ps @ fs) (height_of t)"
  using assms
proof (induction ps arbitrary: t)
  case Nil
  then show ?case by simp
next
  case (Cons p ps)
  from Cons.IH [of "plug1 p t"] Cons.prems avl_ok_plug [of "p # ps" t] avl_ok_plug [of ps "plug1 p t"]
  show ?case by (cases p) auto
qed

text \<open>The loop of \<^verbatim>\<open>rebalance_up\<close>: if the subtree in the hole grew or shrank by at most one, climbing to
  the root restores the balance and changes neither the order nor the identity of any node.\<close>

lemma rebalance_up_up_from: "rebalance_up cur fs = up_from (rebalance_node cur) fs"
  by (cases fs) simp_all

lemma up_from_ok:
  assumes "avl_ok t" "path_ok fs h" "\<bar>height_of t - h\<bar> \<le> 1"
  shows "avl_ok (up_from t fs) \<and> nodes (up_from t fs) = before fs @ nodes t @ after fs"
  using assms
proof (induction fs arbitrary: t h)
  case Nil
  then show ?case by simp
next
  case (Cons f fs)
  show ?case
  proof (cases f)
    case (LFrame a k hh s r)
    let ?t = "rebalance_node (Nd a k hh s t r)"
    from LFrame Cons.prems have r: "avl_ok r" "\<bar>h - height_of r\<bar> \<le> 1"
      "path_ok fs (1 + max h (height_of r))" by auto
    have R: "avl_ok ?t \<and> nodes ?t = nodes t @ (a, k) # nodes r \<and>
         (height_of ?t = 1 + max (height_of t) (height_of r) \<or>
          2 \<le> \<bar>height_of t - height_of r\<bar> \<and> height_of ?t = max (height_of t) (height_of r))"
      by (rule rebalance_node_ok) (use Cons.prems r in auto)
    then have "\<bar>height_of ?t - (1 + max h (height_of r))\<bar> \<le> 1" using r(2) Cons.prems(3) by linarith
    from Cons.IH [OF _ r(3) this] R LFrame show ?thesis by (simp add: rebalance_up_up_from)
  next
    case (RFrame l a k hh s)
    let ?t = "rebalance_node (Nd a k hh s l t)"
    from RFrame Cons.prems have l: "avl_ok l" "\<bar>height_of l - h\<bar> \<le> 1"
      "path_ok fs (1 + max (height_of l) h)" by auto
    have R: "avl_ok ?t \<and> nodes ?t = nodes l @ (a, k) # nodes t \<and>
         (height_of ?t = 1 + max (height_of l) (height_of t) \<or>
          2 \<le> \<bar>height_of l - height_of t\<bar> \<and> height_of ?t = max (height_of l) (height_of t))"
      by (rule rebalance_node_ok) (use Cons.prems l in auto)
    then have "\<bar>height_of ?t - (1 + max (height_of l) h)\<bar> \<le> 1" using l(2) Cons.prems(3) by linarith
    from Cons.IH [OF _ l(3) this] R RFrame show ?thesis by (simp add: rebalance_up_up_from)
  qed
qed

section \<open>Locating a node\<close>

lemma locate_Some: "locate n t fs = Some (cur, gs) \<Longrightarrow>
    plug gs cur = plug fs t \<and> (\<exists>k h s l r. cur = Nd n k h s l r)"
proof (induction n t fs rule: locate.induct)
  case (1 n fs)
  then show ?case by simp
next
  case (2 n a k h s l r fs)
  then show ?case by (auto split: if_splits option.splits)
qed

lemma locate_None: "locate n t fs = None \<longleftrightarrow> n \<notin> fst ` set (nodes t)"
proof (induction n t fs rule: locate.induct)
  case (1 n fs)
  then show ?case by simp
next
  case (2 n a k h s l r fs)
  then show ?case by (auto split: option.splits)
qed

lemma locate_root:
  assumes "n \<in> fst ` set (nodes t)"
  obtains k h s l r fs where "locate n t [] = Some (Nd n k h s l r, fs)"
    "plug fs (Nd n k h s l r) = t"
    "nodes t = (before fs @ nodes l) @ (n, k) # nodes r @ after fs"
proof -
  obtain cur fs where L: "locate n t [] = Some (cur, fs)"
    using assms locate_None [of n t "[]"] by fastforce
  then obtain k h s l r where c: "cur = Nd n k h s l r" and p: "plug fs (Nd n k h s l r) = t"
    using locate_Some [OF L] by auto
  have "nodes t = (before fs @ nodes l) @ (n, k) # nodes r @ after fs"
    using nodes_plug [of fs "Nd n k h s l r"] p by simp
  with L c p that show ?thesis by blast
qed

lemma leftmost_plug: "t \<noteq> Lf \<Longrightarrow> leftmost t ps = (cur, qs) \<Longrightarrow>
    plug qs cur = plug ps t \<and> (\<exists>a k h s r. cur = Nd a k h s Lf r) \<and> before qs = before ps"
proof (induction t ps rule: leftmost.induct)
  case (1 a k h s l r fs)
  then show ?case by (cases "l = Lf") auto
qed simp

lemma rightmost_plug: "t \<noteq> Lf \<Longrightarrow> rightmost t ps = (cur, qs) \<Longrightarrow>
    plug qs cur = plug ps t \<and> (\<exists>a k h s l. cur = Nd a k h s l Lf) \<and> after qs = after ps"
proof (induction t ps rule: rightmost.induct)
  case (1 a k h s l r fs)
  then show ?case by (cases "r = Lf") auto
qed simp

section \<open>Erase\<close>

lemma erase_at_ok:
  assumes ok: "avl_ok (plug fs (Nd a k h s l r))"
  shows "\<exists>t. erase_at (Nd a k h s l r) fs = Some t \<and> avl_ok t \<and>
             nodes t = before fs @ nodes l @ nodes r @ after fs"
proof -
  from avl_ok_plug [OF ok] have n: "avl_ok l" "avl_ok r" "h = 1 + max (height_of l) (height_of r)"
    "\<bar>height_of l - height_of r\<bar> \<le> 1" and path: "path_ok fs h" by auto
  have nn: "0 \<le> height_of l" "0 \<le> height_of r" using n height_nonneg by auto
  show ?thesis
  proof (cases "l = Lf \<or> r = Lf")
    case True
    then have "\<bar>height_of r - h\<bar> \<le> 1" if "l = Lf" using n nn that by auto
    moreover have "\<bar>height_of l - h\<bar> \<le> 1" if "r = Lf" using n nn that by auto
    ultimately show ?thesis
      using True up_from_ok [OF n(2) path] up_from_ok [OF n(1) path] by auto
  next
    case False
    obtain sc ps where lm: "leftmost r [] = (sc, ps)" by force
    from leftmost_plug [OF _ lm] False obtain sa sk sh ss sr where
      sc: "sc = Nd sa sk sh ss Lf sr" and pl: "plug ps (Nd sa sk sh ss Lf sr) = r" and
      bf: "before ps = []" by auto
    have sok: "avl_ok (Nd sa sk sh ss Lf sr)" using avl_ok_plug [of ps] pl n(2) by blast
    then have sr: "avl_ok sr" "\<bar>height_of sr - sh\<bar> \<le> 1" using height_nonneg [of sr] by auto
    have nr: "nodes r = (sa, sk) # nodes sr @ after ps"
      using nodes_plug [of ps "Nd sa sk sh ss Lf sr"] pl bf by simp
    have "path_ok (RFrame l sa sk sh ss # fs) (height_of r)" using n path by simp
    then have "path_ok (ps @ RFrame l sa sk sh ss # fs) (height_of (Nd sa sk sh ss Lf sr))"
      using pl n(2) by (intro path_ok_append) auto
    then have pk: "path_ok (ps @ RFrame l sa sk sh ss # fs) sh" by simp
    have er: "erase_at (Nd a k h s l r) fs = Some (up_from sr (ps @ RFrame l sa sk sh ss # fs))"
      using False lm sc by (cases ps) auto
    show ?thesis
      using up_from_ok [OF sr(1) pk sr(2)] er nr bf by (simp add: before_append after_append)
  qed
qed

section \<open>The tree invariant and the operations that do not compare keys\<close>

definition seq :: "'k avl_tree \<Rightarrow> (nat \<times> 'k) list" where
  "seq t = nodes (root t)"

definition avl_invar :: "'k avl_tree \<Rightarrow> bool" where
  "avl_invar t \<longleftrightarrow> avl_ok (root t) \<and> acount t = length (seq t) \<and>
     distinct (map fst (seq t)) \<and> (\<forall>a \<in> fst ` set (seq t). a < next_addr t)"

lemma avl_invarD:
  assumes "avl_invar t"
  shows "avl_ok (root t)" "acount t = length (seq t)" "distinct (map fst (seq t))"
    "a \<in> fst ` set (seq t) \<Longrightarrow> a < next_addr t"
  using assms by (auto simp: avl_invar_def)

lemma avl_empty_tree_ok [simp]: "avl_invar avl_empty_tree" "seq avl_empty_tree = []"
  by (simp_all add: avl_invar_def avl_empty_tree_def seq_def)

lemma filter_addr_id: "n \<notin> fst ` set xs \<Longrightarrow> filter (\<lambda>x. fst x \<noteq> n) xs = xs"
  by (induction xs) auto

lemma filter_addr_split:
  "distinct (map fst (xs @ (n, k) # ys)) \<Longrightarrow> filter (\<lambda>x. fst x \<noteq> n) (xs @ (n, k) # ys) = xs @ ys"
  by (simp add: filter_addr_id)

lemma split_unique:
  assumes "distinct (map fst (xs @ (n, k) # ys))" "xs @ (n, k) # ys = us @ (n, k') # vs"
  shows "xs = us \<and> k = k' \<and> ys = vs"
  using assms by (auto simp: append_eq_append_conv2 append_eq_Cons_conv Cons_eq_append_conv)

lemma locate_seq:
  assumes inv: "avl_invar t" and n: "seq t = xs @ (n, k) # ys"
  obtains h s l r fs where "locate n (root t) [] = Some (Nd n k h s l r, fs)"
    "xs = before fs @ nodes l" "ys = nodes r @ after fs" "avl_ok (Nd n k h s l r)" "path_ok fs h"
proof -
  have "n \<in> fst ` set (nodes (root t))" using n by (simp add: seq_def)
  then obtain k' h s l r fs where L: "locate n (root t) [] = Some (Nd n k' h s l r, fs)"
    "plug fs (Nd n k' h s l r) = root t"
    "nodes (root t) = (before fs @ nodes l) @ (n, k') # nodes r @ after fs"
    by (rule locate_root)
  have "xs @ (n, k) # ys = (before fs @ nodes l) @ (n, k') # nodes r @ after fs"
    using n L(3) by (simp add: seq_def)
  moreover have "distinct (map fst (xs @ (n, k) # ys))" using avl_invarD(3) [OF inv] n by simp
  ultimately have "xs = before fs @ nodes l \<and> k = k' \<and> ys = nodes r @ after fs"
    by (rule split_unique [rotated])
  moreover have "avl_ok (plug fs (Nd n k' h s l r))" using L(2) avl_invarD(1) [OF inv] by simp
  from avl_ok_plug [OF this] have "avl_ok (Nd n k' h s l r)" "path_ok fs h"
    by (simp_all only: height_of.simps)
  ultimately show ?thesis using L(1) that by blast
qed

lemma avl_erase_spec:
  assumes inv: "avl_invar t" and n: "n \<in> fst ` set (seq t)"
  shows "\<exists>t'. avl_erase n t = Some t' \<and> avl_invar t' \<and>
              seq t' = filter (\<lambda>x. fst x \<noteq> n) (seq t) \<and> next_addr t' = next_addr t"
proof -
  from n have "n \<in> fst ` set (nodes (root t))" by (simp add: seq_def)
  then obtain k h s l r fs where L: "locate n (root t) [] = Some (Nd n k h s l r, fs)"
    "plug fs (Nd n k h s l r) = root t"
    "nodes (root t) = (before fs @ nodes l) @ (n, k) # nodes r @ after fs"
    by (rule locate_root)
  from erase_at_ok [of fs n k h s l r] L(2) avl_invarD(1) [OF inv] obtain u where
    u: "erase_at (Nd n k h s l r) fs = Some u" "avl_ok u"
       "nodes u = (before fs @ nodes l) @ nodes r @ after fs" by auto
  have dist: "distinct (map fst (nodes (root t)))" using avl_invarD(3) [OF inv] by (simp add: seq_def)
  have eq: "nodes u = filter (\<lambda>x. fst x \<noteq> n) (nodes (root t))"
    unfolding L(3) u(3) using dist by (intro filter_addr_split [symmetric]) (simp add: L(3))
  have len: "length (nodes u) = length (nodes (root t)) - 1" by (simp add: L(3) u(3))
  let ?t = "t\<lparr>root := u, acount := acount t - 1\<rparr>"
  have "avl_invar ?t"
    using u(2) len eq dist avl_invarD [OF inv]
    by (auto simp: avl_invar_def seq_def distinct_map_filter)
  then show ?thesis using L(1) u(1) eq by (auto simp: avl_erase_def seq_def)
qed

lemma avl_erase_None: "n \<notin> fst ` set (seq t) \<Longrightarrow> avl_erase n t = None"
  using locate_None [of n "root t" "[]"] by (simp add: avl_erase_def seq_def)

lemma rank_up_before:
  "path_ok fs h \<Longrightarrow> rank_up fs = length (before fs)"
proof (induction fs arbitrary: h)
  case Nil
  then show ?case by simp
next
  case (Cons f fs)
  then show ?case by (cases f) (auto simp: subtree_size_nodes)
qed

lemma avl_rank_spec:
  assumes inv: "avl_invar t" and n: "seq t = xs @ (n, k) # ys"
  shows "avl_rank n t = Some (length xs)"
proof -
  obtain h s l r fs where "locate n (root t) [] = Some (Nd n k h s l r, fs)"
    "xs = before fs @ nodes l" "avl_ok (Nd n k h s l r)" "path_ok fs h"
    by (rule locate_seq [OF inv n])
  then show ?thesis by (simp add: avl_rank_def rank_up_before subtree_size_nodes)
qed

lemma select_from_nodes:
  "avl_ok t \<Longrightarrow> select_from i t = (if i < length (nodes t) then Some (nodes t ! i) else None)"
proof (induction t arbitrary: i)
  case Lf
  then show ?case by simp
next
  case (Nd a k h s l r)
  then show ?case by (auto simp: Let_def subtree_size_nodes nth_append nth_Cons' not_less)
qed

lemma avl_select_spec:
  "avl_invar t \<Longrightarrow> avl_select i t = (if i < length (seq t) then Some (seq t ! i) else None)"
  by (simp add: avl_select_def select_from_nodes seq_def avl_invar_def)

definition first_of :: "'a list \<Rightarrow> 'a option" where
  "first_of xs = (case xs of [] \<Rightarrow> None | x # _ \<Rightarrow> Some x)"

definition last_of :: "'a list \<Rightarrow> 'a option" where
  "last_of xs = (if xs = [] then None else Some (last xs))"

lemma climb_next_after: "climb_next fs = first_of (after fs)"
  by (induction fs rule: climb_next.induct) (auto simp: first_of_def)

lemma climb_prev_before: "climb_prev fs = last_of (before fs)"
  by (induction fs rule: climb_prev.induct) (auto simp: last_of_def)

lemma node_of_leftmost:
  assumes "t \<noteq> Lf" shows "node_of (fst (leftmost t [])) = first_of (nodes t)"
proof -
  obtain cur qs where lm: "leftmost t [] = (cur, qs)" by force
  from leftmost_plug [OF assms lm] obtain a k h s r where
    "cur = Nd a k h s Lf r" "plug qs cur = t" "before qs = []" by auto
  with nodes_plug [of qs cur] lm show ?thesis by (simp add: first_of_def)
qed

lemma node_of_rightmost:
  assumes "t \<noteq> Lf" shows "node_of (fst (rightmost t [])) = last_of (nodes t)"
proof -
  obtain cur qs where rm: "rightmost t [] = (cur, qs)" by force
  from rightmost_plug [OF assms rm] obtain a k h s l where
    "cur = Nd a k h s l Lf" "plug qs cur = t" "after qs = []" by auto
  with nodes_plug [of qs cur] rm show ?thesis by (simp add: last_of_def)
qed

lemma nodes_Nil: "nodes t = [] \<longleftrightarrow> t = Lf"
  by (cases t) auto

lemma avl_next_spec:
  assumes inv: "avl_invar t" and n: "seq t = xs @ (n, k) # ys"
  shows "avl_next n t = Some (first_of ys)" "avl_prev n t = Some (last_of xs)"
proof -
  obtain h s l r fs where L: "locate n (root t) [] = Some (Nd n k h s l r, fs)"
    "xs = before fs @ nodes l" "ys = nodes r @ after fs"
    by (rule locate_seq [OF inv n])
  show "avl_next n t = Some (first_of ys)"
    using L(1,3) nodes_Nil [of r]
    by (auto simp: avl_next_def node_of_leftmost climb_next_after first_of_def split: list.splits)
  show "avl_prev n t = Some (last_of xs)"
    using L(1,2) nodes_Nil [of l]
    by (auto simp: avl_prev_def node_of_rightmost climb_prev_before last_of_def)
qed

section \<open>The operations that compare keys\<close>

text \<open>The comparator contract: a strict weak order on the keys that satisfy \<open>ok\<close> (all but NaN scores
  for sorted sets).\<close>

definition avl_sorted :: "('k \<Rightarrow> 'k \<Rightarrow> bool) \<Rightarrow> ('k \<Rightarrow> bool) \<Rightarrow> 'k avl_tree \<Rightarrow> bool" where
  "avl_sorted lt ok t \<longleftrightarrow> avl_invar t \<and> sorted_wrt lt (map snd (seq t)) \<and> (\<forall>x \<in> set (seq t). ok (snd x))"

lemma descend_first_spec:
  assumes "sorted_wrt (\<lambda>x y. P x \<longrightarrow> P y) (map snd (nodes t))"
  shows "descend_first P t result =
    (case first_of (dropWhile (\<lambda>x. \<not> P (snd x)) (nodes t)) of None \<Rightarrow> result | Some x \<Rightarrow> Some x)"
  using assms
proof (induction t arbitrary: result)
  case Lf
  then show ?case by (simp add: first_of_def)
next
  case (Nd a k h s l r)
  have s: "sorted_wrt (\<lambda>x y. P x \<longrightarrow> P y) (map snd (nodes l))"
    "sorted_wrt (\<lambda>x y. P x \<longrightarrow> P y) (map snd (nodes r))"
    "\<forall>x \<in> set (nodes l). P (snd x) \<longrightarrow> P k"
    using Nd.prems by (simp_all add: sorted_wrt_append)
  show ?case
  proof (cases "P k")
    case True
    have "dropWhile (\<lambda>x. \<not> P (snd x)) (nodes (Nd a k h s l r)) =
          dropWhile (\<lambda>x. \<not> P (snd x)) (nodes l) @ (a, k) # nodes r"
      using True by (cases "\<exists>x \<in> set (nodes l). P (snd x)") (auto simp: dropWhile_append)
    with True Nd.IH(1) [OF s(1)] show ?thesis
      by (auto simp: first_of_def split: list.splits)
  next
    case False
    with s(3) have "\<forall>x \<in> set (nodes l). \<not> P (snd x)" by blast
    then have "dropWhile (\<lambda>x. \<not> P (snd x)) (nodes (Nd a k h s l r)) =
               dropWhile (\<lambda>x. \<not> P (snd x)) (nodes r)"
      using False by (simp add: dropWhile_append2)
    with False Nd.IH(2) [OF s(2)] show ?thesis by simp
  qed
qed

locale key_order =
  fixes lt :: "'k \<Rightarrow> 'k \<Rightarrow> bool" and ok :: "'k \<Rightarrow> bool"
  assumes lt_irrefl: "ok x \<Longrightarrow> \<not> lt x x"
    and lt_trans: "ok x \<Longrightarrow> ok y \<Longrightarrow> ok z \<Longrightarrow> lt x y \<Longrightarrow> lt y z \<Longrightarrow> lt x z"
    and lt_incomp: "ok x \<Longrightarrow> ok y \<Longrightarrow> ok z \<Longrightarrow> \<not> lt x y \<Longrightarrow> \<not> lt y z \<Longrightarrow> \<not> lt x z"
begin

lemma lt_asym: "ok x \<Longrightarrow> ok y \<Longrightarrow> lt x y \<Longrightarrow> \<not> lt y x"
  using lt_trans lt_irrefl by blast

lemma insert_descend_Some:
  assumes "insert_descend lt key t fs = Some gs" "ok key"
    "sorted_wrt lt (map snd (nodes t))" "\<forall>x \<in> set (nodes t). ok (snd x)"
    "\<forall>x \<in> set (before fs). lt (snd x) key" "\<forall>x \<in> set (after fs). lt key (snd x)"
  shows "plug gs Lf = plug fs t \<and> (\<forall>x \<in> set (before gs). lt (snd x) key) \<and>
         (\<forall>x \<in> set (after gs). lt key (snd x))"
  using assms
proof (induction t arbitrary: fs)
  case Lf
  then show ?case by simp
next
  case (Nd a k h s l r)
  have okk: "ok k" "\<forall>x \<in> set (nodes l). ok (snd x)" "\<forall>x \<in> set (nodes r). ok (snd x)"
    using Nd.prems(4) by auto
  have srt: "sorted_wrt lt (map snd (nodes l))" "sorted_wrt lt (map snd (nodes r))"
    "\<forall>x \<in> set (nodes l). lt (snd x) k" "\<forall>x \<in> set (nodes r). lt k (snd x)"
    using Nd.prems(3) by (auto simp: sorted_wrt_append)
  consider "lt key k" | "\<not> lt key k" "lt k key" | "\<not> lt key k" "\<not> lt k key" by blast
  then show ?case
  proof cases
    case 1
    have hi: "lt key (snd x)" if "x \<in> set (nodes r)" for x
      using lt_trans [OF Nd.prems(2) okk(1) _ 1] srt(4) okk(3) that by blast
    have "insert_descend lt key l (LFrame a k h s r # fs) = Some gs" using Nd.prems(1) 1 by simp
    from Nd.IH(1) [OF this Nd.prems(2) srt(1) okk(2)] Nd.prems(5,6) hi 1 show ?thesis
      by (simp add: ball_Un)
  next
    case 2
    have lo: "lt (snd x) key" if "x \<in> set (nodes l)" for x
      using lt_trans [OF _ okk(1) Nd.prems(2) _ 2(2)] srt(3) okk(2) that by blast
    have "insert_descend lt key r (RFrame l a k h s # fs) = Some gs" using Nd.prems(1) 2 by simp
    from Nd.IH(2) [OF this Nd.prems(2) srt(2) okk(3)] Nd.prems(5,6) lo 2 show ?thesis
      by (simp add: ball_Un)
  next
    case 3
    with Nd.prems(1) show ?thesis by simp
  qed
qed

lemma insert_descend_None:
  assumes "insert_descend lt key t fs = None"
  shows "\<exists>x \<in> set (nodes t). \<not> lt key (snd x) \<and> \<not> lt (snd x) key"
  using assms
  by (induction lt key t fs rule: insert_descend.induct) (auto split: if_splits)

text \<open>Insertion: a null result and no change when an equivalent key is present, otherwise the new node
  stands exactly between the smaller and the larger keys, and no other node changes its address.\<close>

lemma avl_insert_spec:
  assumes srt: "avl_sorted lt ok t" and key: "ok key"
    and res: "avl_insert lt key t = (p, t')"
  shows "if \<exists>x \<in> set (seq t). \<not> lt key (snd x) \<and> \<not> lt (snd x) key then p = None \<and> t' = t
    else p = Some (next_addr t) \<and> avl_sorted lt ok t' \<and> next_addr t' = next_addr t + 1 \<and>
      (\<exists>xs ys. seq t = xs @ ys \<and> seq t' = xs @ (next_addr t, key) # ys \<and>
         (\<forall>x \<in> set xs. lt (snd x) key) \<and> (\<forall>x \<in> set ys. lt key (snd x)))"
proof (cases "insert_descend lt key (root t) []")
  case None
  then have "root t \<noteq> Lf" by auto
  with None res insert_descend_None [OF None] show ?thesis
    by (auto simp: avl_insert_def Let_def seq_def)
next
  case (Some fs)
  let ?n = "next_addr t" and ?node = "Nd (next_addr t) key 1 1 Lf Lf :: 'k avl"
  from srt have inv: "avl_invar t" and so: "sorted_wrt lt (map snd (nodes (root t)))"
    "\<forall>x \<in> set (nodes (root t)). ok (snd x)" by (auto simp: avl_sorted_def seq_def)
  from insert_descend_Some [OF Some key so] have
    pl: "plug fs Lf = root t" and lo: "\<forall>x \<in> set (before fs). lt (snd x) key"
    and hi: "\<forall>x \<in> set (after fs). lt key (snd x)" by auto
  have sq: "seq t = before fs @ after fs" using nodes_plug [of fs Lf] pl by (simp add: seq_def)
  have t': "p = Some ?n \<and> t' = \<lparr>root = up_from ?node fs, acount = acount t + 1, next_addr = ?n + 1\<rparr>"
    using res Some by (cases "root t = Lf") (auto simp: avl_insert_def Let_def)
  have "path_ok fs 0" using avl_ok_plug [of fs Lf] pl avl_invarD(1) [OF inv] by simp
  from up_from_ok [OF _ this, of ?node]
  have up: "avl_ok (up_from ?node fs)" "nodes (up_from ?node fs) = before fs @ (?n, key) # after fs"
    by auto
  have okall: "\<forall>x \<in> set (before fs @ after fs). ok (snd x)" using so(2) sq by (simp add: seq_def)
  have no_eq: "\<not> (\<exists>x \<in> set (seq t). \<not> lt key (snd x) \<and> \<not> lt (snd x) key)"
    using lo hi sq by auto
  have "avl_invar t'"
    using t' up avl_invarD [OF inv] sq by (auto simp: avl_invar_def seq_def less_Suc_eq)
  moreover have "sorted_wrt lt (map snd (seq t'))"
    using t' up so(1) lo hi sq by (auto simp: seq_def sorted_wrt_append)
  ultimately have "avl_sorted lt ok t'" using t' up okall key by (auto simp: avl_sorted_def seq_def)
  with no_eq t' up sq lo hi show ?thesis by (auto simp: seq_def)
qed

lemma lower_bound_spec:
  assumes "avl_sorted lt ok t" "ok key"
  shows "avl_lower_bound lt key t = first_of (dropWhile (\<lambda>x. lt (snd x) key) (seq t))"
proof -
  have "sorted_wrt (\<lambda>x y. \<not> lt x key \<longrightarrow> \<not> lt y key) (map snd (nodes (root t)))"
    using assms(1) unfolding avl_sorted_def seq_def
    by (elim conjE sorted_wrt_mono_rel [rotated]) (use assms(2) in \<open>auto intro: lt_trans\<close>)
  from descend_first_spec [OF this] show ?thesis
    by (simp add: avl_lower_bound_def seq_def split: option.splits)
qed

lemma find_from_spec:
  assumes "sorted_wrt lt (map snd (nodes t))" "\<forall>x \<in> set (nodes t). ok (snd x)" "ok key"
    "x \<in> set (nodes t)" "\<not> lt key (snd x)" "\<not> lt (snd x) key"
  shows "find_from lt key t = Some x"
  using assms
proof (induction t)
  case Lf
  then show ?case by simp
next
  case (Nd a k h s l r)
  have o: "ok k" "ok (snd x)" using Nd.prems(2,4) by auto
  consider "x \<in> set (nodes l)" "lt (snd x) k" | "x = (a, k)" | "x \<in> set (nodes r)" "lt k (snd x)"
    using Nd.prems(1,4) by (auto simp: sorted_wrt_append)
  then show ?case
  proof cases
    case 1
    then have "lt key k" using o Nd.prems(3,6) lt_incomp [of "snd x" key k] by blast
    with 1 Nd show ?thesis by (auto simp: sorted_wrt_append)
  next
    case 2
    with Nd.prems show ?thesis by simp
  next
    case 3
    then have "lt k key" using o Nd.prems(3,5) lt_incomp [of k key "snd x"] by blast
    moreover have "\<not> lt key k" using calculation o Nd.prems(3) lt_asym by blast
    ultimately show ?thesis using 3 Nd by (auto simp: sorted_wrt_append)
  qed
qed

end

section \<open>The interface of an ordered index\<close>

text \<open>
  What \<^verbatim>\<open>ZSet\<close> and the snapshot encoder use of the tree once its order is fixed: erase by pointer, rank,
  select and next, all explained by the in-order sequence. The loop
  \<^verbatim>\<open>for (n = start; n != nullptr && !stop(n); n = next(n))\<close> is \<open>walk\<close>; it takes as fuel the size of the
  index, which \<open>walk_suffix\<close> shows to be enough.
\<close>

fun walk :: "(nat \<Rightarrow> 't \<Rightarrow> (nat \<times> 'k) option ub) \<Rightarrow> ('k \<Rightarrow> bool) \<Rightarrow> 't \<Rightarrow> nat \<Rightarrow> (nat \<times> 'k) option \<Rightarrow>
    (nat \<times> 'k) list ub" where
  "walk nxt stop t fuel None = Some []"
| "walk nxt stop t 0 (Some x) = None"
| "walk nxt stop t (Suc fuel) (Some x) =
     (if stop (snd x) then Some []
      else do { m \<leftarrow> nxt (fst x) t; rest \<leftarrow> walk nxt stop t fuel m; Some (x # rest) })"

locale ordered_index =
  fixes invar :: "'t \<Rightarrow> bool" and sq :: "'t \<Rightarrow> (nat \<times> 'k) list"
    and era :: "nat \<Rightarrow> 't \<Rightarrow> 't ub" and rnk :: "nat \<Rightarrow> 't \<Rightarrow> nat ub"
    and sel :: "nat \<Rightarrow> 't \<Rightarrow> (nat \<times> 'k) option" and nxt :: "nat \<Rightarrow> 't \<Rightarrow> (nat \<times> 'k) option ub"
  assumes i_distinct: "invar t \<Longrightarrow> distinct (map fst (sq t))"
    and i_erase: "invar t \<Longrightarrow> n \<in> fst ` set (sq t) \<Longrightarrow>
      \<exists>t'. era n t = Some t' \<and> invar t' \<and> sq t' = filter (\<lambda>x. fst x \<noteq> n) (sq t)"
    and i_rank: "invar t \<Longrightarrow> sq t = xs @ (n, k) # ys \<Longrightarrow> rnk n t = Some (length xs)"
    and i_select: "invar t \<Longrightarrow> sel i t = (if i < length (sq t) then Some (sq t ! i) else None)"
    and i_next: "invar t \<Longrightarrow> sq t = xs @ (n, k) # ys \<Longrightarrow> nxt n t = Some (first_of ys)"
begin

lemma select_0: "invar t \<Longrightarrow> sel 0 t = first_of (sq t)"
  by (cases "sq t") (simp_all add: i_select first_of_def)

lemma walk_suffix:
  assumes "invar t" "sq t = xs @ ys" "length ys \<le> fuel"
  shows "walk nxt stop t fuel (first_of ys) = Some (takeWhile (\<lambda>x. \<not> stop (snd x)) ys)"
  using assms
proof (induction ys arbitrary: xs fuel)
  case Nil
  then show ?case by (simp add: first_of_def)
next
  case (Cons y ys)
  obtain n k where y: "y = (n, k)" by force
  obtain f where f: "fuel = Suc f" using Cons.prems(3) by (cases fuel) auto
  have "nxt n t = Some (first_of ys)" using i_next [OF Cons.prems(1)] Cons.prems(2) y by simp
  moreover have "walk nxt stop t f (first_of ys) = Some (takeWhile (\<lambda>x. \<not> stop (snd x)) ys)"
    using Cons.IH [OF Cons.prems(1), of "xs @ [y]" f] Cons.prems(2,3) f by simp
  ultimately show ?case by (simp add: f y first_of_def)
qed

lemma walk_all:
  assumes "invar t" "length (sq t) \<le> fuel"
  shows "walk nxt (\<lambda>_. False) t fuel (sel 0 t) = Some (sq t)"
  using walk_suffix [OF assms(1), of "[]" "sq t" fuel "\<lambda>_. False"] assms(2)
  by (simp add: select_0 [OF assms(1)])

lemma erase_first:
  assumes "invar t" "sq t = (n, k) # ys"
  shows "\<exists>t'. era n t = Some t' \<and> invar t' \<and> sq t' = ys"
proof -
  have "n \<notin> fst ` set ys" using i_distinct [OF assms(1)] assms(2) by simp
  then have "filter (\<lambda>x. fst x \<noteq> n) (sq t) = ys" using assms(2) by (simp add: filter_addr_id)
  with i_erase [OF assms(1), of n] assms(2) show ?thesis by simp
qed

end

interpretation avl: ordered_index avl_invar seq avl_erase avl_rank avl_select avl_next
proof unfold_locales
  fix t :: "'a avl_tree" and n
  assume "avl_invar t" "n \<in> fst ` set (seq t)"
  from avl_erase_spec [OF this]
  show "\<exists>t'. avl_erase n t = Some t' \<and> avl_invar t' \<and> seq t' = filter (\<lambda>x. fst x \<noteq> n) (seq t)"
    by blast
qed (simp_all add: avl_invarD(3) avl_rank_spec avl_select_spec avl_next_spec(1))

section \<open>The self-check, and the height bound\<close>

lemma check_node_ok:
  assumes "avl_ok t" "sorted_wrt lt (map snd (nodes t))"
    "\<forall>p x. fst st = Some p \<longrightarrow> x \<in> set (nodes t) \<longrightarrow> lt p (snd x)"
  shows "check_node lt t st = Some (if nodes t = [] then st
      else (Some (snd (last (nodes t))), snd st + length (nodes t)))"
  using assms
proof (induction t arbitrary: st)
  case Lf
  then show ?case by simp
next
  case (Nd a k h s l r)
  have srt: "sorted_wrt lt (map snd (nodes l))" "sorted_wrt lt (map snd (nodes r))"
    "\<forall>x \<in> set (nodes l). lt (snd x) k" "\<forall>x \<in> set (nodes r). lt k (snd x)"
    using Nd.prems(2) by (simp_all add: sorted_wrt_append)
  let ?st = "if nodes l = [] then st else (Some (snd (last (nodes l))), snd st + length (nodes l))"
  have L: "check_node lt l st = Some ?st"
    using Nd.IH(1) [of st] Nd.prems srt(1) by simp
  have prev: "\<not> (fst ?st \<noteq> None \<and> \<not> lt (the (fst ?st)) k)"
  proof (cases "nodes l = []")
    case True
    then show ?thesis using Nd.prems(3) by (cases "fst st") auto
  next
    case False
    then show ?thesis using srt(3) by (simp add: last_in_set)
  qed
  define w where "w = snd st + length (nodes l) + 1"
  obtain pk v where pv: "?st = (pk, v)" by force
  have v: "v + 1 = w" using arg_cong [OF pv, of snd] by (simp add: w_def split: if_splits)
  have pk: "\<not> (pk \<noteq> None \<and> \<not> lt (the pk) k)" using prev unfolding pv by simp
  have bal: "\<not> (height_of l - height_of r > 1 \<or> height_of l - height_of r < -1)"
    using Nd.prems(1) by auto
  have "check_node lt (Nd a k h s l r) st = check_node lt r (Some k, w)"
    using L [unfolded pv] Nd.prems(1) by (simp only: check_node.simps bind.bind_lunit prod.case pk bal
        avl_ok.simps if_False simp_thms v)
  also have "\<dots> = Some (if nodes r = [] then (Some k, w)
      else (Some (snd (last (nodes r))), w + length (nodes r)))"
    by (subst Nd.IH(2)) (use Nd.prems(1) srt(2,4) in auto)
  finally show ?case by (simp add: w_def)
qed

lemma avl_check_invariants_ok: "avl_sorted lt ok t \<Longrightarrow> avl_check_invariants lt t"
  using check_node_ok [of "root t" lt "(None, 0)"]
  by (auto simp: avl_check_invariants_def avl_sorted_def avl_invar_def seq_def)

lemma avl_height_bound: "avl_ok t \<Longrightarrow> 2 ^ (nat (height_of t) div 2) \<le> length (nodes t) + 1"
proof (induction t)
  case Lf
  then show ?case by simp
next
  case (Nd a k h s l r)
  define x where "x = nat (height_of l)"
  define y where "y = nat (height_of r)"
  have nn: "0 \<le> height_of l" "0 \<le> height_of r" using Nd.prems height_nonneg by auto
  have hm: "nat h = 1 + max x y" "x \<le> y + 1" "y \<le> x + 1"
    using Nd.prems nn by (auto simp: x_def y_def)
  have IH: "2 ^ (x div 2) \<le> length (nodes l) + 1" "2 ^ (y div 2) \<le> length (nodes r) + 1"
    using Nd by (simp_all add: x_def y_def)
  have "2 ^ (nat h div 2) \<le> (2::nat) ^ (x div 2) + 2 ^ (y div 2)"
  proof (cases "nat h < 2")
    case True
    then have "nat h div 2 = 0" by simp
    then show ?thesis by (simp add: le_SucI Suc_leI trans_le_add1)
  next
    case False
    define m where "m = nat h div 2 - 1"
    have h: "nat h div 2 = Suc m" and "m \<le> x div 2" "m \<le> y div 2"
      using False hm by (auto simp: m_def)
    then have "(2::nat) ^ m \<le> 2 ^ (x div 2)" "(2::nat) ^ m \<le> 2 ^ (y div 2)" by simp_all
    then have "2 * (2::nat) ^ m \<le> 2 ^ (x div 2) + 2 ^ (y div 2)" by linarith
    with h show ?thesis by simp
  qed
  with IH show ?case by simp
qed

section \<open>Properties\<close>

lemma rebalance_rotates:
  assumes "avl_ok l" "avl_ok r"
  shows "height_of l - height_of r > 1 \<Longrightarrow> l \<noteq> Lf" "height_of l - height_of r < -1 \<Longrightarrow> r \<noteq> Lf"
    "l \<noteq> Lf \<Longrightarrow> balance_factor l < 0 \<Longrightarrow> \<exists>a k h s ll a' k' h' s' lr rr. l = Nd a k h s ll (Nd a' k' h' s' lr rr)"
    "r \<noteq> Lf \<Longrightarrow> balance_factor r > 0 \<Longrightarrow> \<exists>a k h s rl a' k' h' s' ll rr. r = Nd a k h s (Nd a' k' h' s' ll rr) rl"
proof -
  show "height_of l - height_of r > 1 \<Longrightarrow> l \<noteq> Lf" "height_of l - height_of r < -1 \<Longrightarrow> r \<noteq> Lf"
    using height_nonneg [OF assms(1)] height_nonneg [OF assms(2)] by auto
  show "\<exists>a k h s ll a' k' h' s' lr rr. l = Nd a k h s ll (Nd a' k' h' s' lr rr)"
    if "l \<noteq> Lf" "balance_factor l < 0"
  proof -
    obtain a k h s ll lr where l: "l = Nd a k h s ll lr" using \<open>l \<noteq> Lf\<close> by (cases l) auto
    then have "lr \<noteq> Lf" using assms(1) that(2) height_nonneg [of ll] by auto
    then show ?thesis using l by (cases lr) auto
  qed
  show "\<exists>a k h s rl a' k' h' s' ll rr. r = Nd a k h s (Nd a' k' h' s' ll rr) rl"
    if "r \<noteq> Lf" "balance_factor r > 0"
  proof -
    obtain a k h s ll lr where l: "r = Nd a k h s ll lr" using \<open>r \<noteq> Lf\<close> by (cases r) auto
    then have "ll \<noteq> Lf" using assms(2) that(2) height_nonneg [of lr] by auto
    then show ?thesis using l by (cases ll) auto
  qed
qed

text \<open>C8: on a well-formed tree the three ways to reach a node agree. \<^verbatim>\<open>select(i)\<close> finds the node at
  position \<open>i\<close> of the in-order sequence, \<^verbatim>\<open>rank\<close> of that node (computed from the stored sizes along
  its parent chain) is \<open>i\<close> again, and \<^verbatim>\<open>next\<close> of it is \<^verbatim>\<open>select(i + 1)\<close>, the null pointer at the end.\<close>

theorem select_rank_next_agree:
  assumes inv: "avl_invar t" and i: "i < avl_size t"
  shows "\<exists>n k. avl_select i t = Some (n, k) \<and> avl_rank n t = Some i \<and>
    avl_next n t = Some (avl_select (i + 1) t)"
proof -
  have l: "i < length (seq t)"
    using i avl_invarD(2) [OF inv] by (simp add: avl_size_def)
  obtain n k where nk: "seq t ! i = (n, k)" by force
  have s: "seq t = take i (seq t) @ (n, k) # drop (i + 1) (seq t)"
    using id_take_nth_drop [OF l] nk by simp
  have "first_of (drop (i + 1) (seq t)) = avl_select (i + 1) t"
    using l by (auto simp: avl_select_spec [OF inv] first_of_def hd_drop_conv_nth split: list.splits
        dest: hd_drop_conv_nth [of "Suc i" "seq t"])
  then show ?thesis
    using avl_rank_spec [OF inv s] avl_next_spec(1) [OF inv s] l nk
    by (simp add: avl_select_spec [OF inv])
qed

text \<open>C9: erasing a node by pointer never disturbs another node. The erased node leaves the in-order
  sequence, every other node keeps its address and its key (also the successor that the code moves
  into the erased node's place), so pointers held elsewhere stay valid; and the tree stays balanced:
  the stored height \<open>h\<close> of a tree of \<open>n\<close> nodes satisfies \<open>2 ^ (h div 2) \<le> n + 1\<close>.\<close>

theorem erase_keeps_other_nodes:
  assumes inv: "avl_invar t" and n: "n \<in> fst ` set (seq t)"
  shows "\<exists>t'. avl_erase n t = Some t' \<and> avl_invar t' \<and> avl_size t' = avl_size t - 1 \<and>
    seq t' = filter (\<lambda>x. fst x \<noteq> n) (seq t) \<and> 2 ^ (nat (height_of (root t')) div 2) \<le> avl_size t' + 1"
proof -
  obtain t' where t': "avl_erase n t = Some t'" "avl_invar t'" "seq t' = filter (\<lambda>x. fst x \<noteq> n) (seq t)"
    using avl_erase_spec [OF inv n] by blast
  have "acount t' = acount t - 1"
    using t'(1) by (auto simp: avl_erase_def bind_eq_Some_conv)
  then show ?thesis
    using t' avl_height_bound [OF avl_invarD(1) [OF t'(2)]] avl_invarD(2) [OF t'(2)]
    by (simp add: avl_size_def seq_def)
qed

definition example_tree :: "nat avl_tree" where
  "example_tree = fold (\<lambda>k t. snd (avl_insert (<) k t)) [5, 3, 8, 1, 4, 7, 9, 2, 6] avl_empty_tree"

lemma example_tree_invar: "avl_invar example_tree"
  by (simp add: avl_invar_def) code_simp

theorem select_rank_next_agree_witness:
  "2 < avl_size example_tree \<and>
   (\<exists>n k. avl_select 2 example_tree = Some (n, k) \<and> avl_rank n example_tree = Some 2 \<and>
     avl_next n example_tree = Some (avl_select (2 + 1) example_tree))"
proof -
  have "2 < avl_size example_tree" by code_simp
  with select_rank_next_agree [OF example_tree_invar this] show ?thesis by blast
qed

theorem erase_keeps_other_nodes_witness:
  "\<exists>t'. avl_erase 0 example_tree = Some t' \<and> avl_invar t' \<and> avl_size t' = avl_size example_tree - 1 \<and>
    seq t' = filter (\<lambda>x. fst x \<noteq> 0) (seq example_tree) \<and>
    2 ^ (nat (height_of (root t')) div 2) \<le> avl_size t' + 1"
  by (rule erase_keeps_other_nodes [OF example_tree_invar]) code_simp

end
