(* ===== verification/Parse.thy ===== *)
theory Parse
  imports Prelude
begin

text \<open>
  Strict argument parsing and the overflow guards of the command handlers: \<^verbatim>\<open>parse_int64\<close> and
  \<^verbatim>\<open>ieq\<close> of \<^verbatim>\<open>util/parse.cpp\<close>, \<^verbatim>\<open>add_would_overflow\<close>, \<^verbatim>\<open>sub_would_overflow\<close> of
  \<^verbatim>\<open>storage/database.cpp\<close> (repeated verbatim in the command files) and \<^verbatim>\<open>seconds_to_ms\<close> of
  \<^verbatim>\<open>commands/cmd_keys.cpp\<close>. The guards are shown to be exact: they reject precisely the sums,
  differences and products that do not fit a signed 64-bit integer, and computing the guard itself
  never overflows.
\<close>

definition parse_int64 :: "string \<Rightarrow> int option" where
  "parse_int64 s =
    (if s = [] then None
     else case from_chars_i64 s of
       Inl _ \<Rightarrow> None
     | Inr (value, rest) \<Rightarrow> if rest \<noteq> [] then None else Some value)"

definition ieq :: "string \<Rightarrow> string \<Rightarrow> bool" where
  "ieq a b \<longleftrightarrow> length a = length b \<and> list_all2 (\<lambda>x y. tolower x = tolower y) a b"

definition add_would_overflow :: "int \<Rightarrow> int \<Rightarrow> bool" where
  "add_would_overflow a b \<longleftrightarrow>
     (b > 0 \<and> a > INT64_MAX - b) \<or> (b < 0 \<and> a < INT64_MIN - b)"

definition sub_would_overflow :: "int \<Rightarrow> int \<Rightarrow> bool" where
  "sub_would_overflow a b \<longleftrightarrow>
     (b > 0 \<and> a < INT64_MIN + b) \<or> (b < 0 \<and> a > INT64_MAX + b)"

definition seconds_to_ms :: "int \<Rightarrow> int option" where
  "seconds_to_ms seconds =
     (if seconds > cdiv INT64_MAX 1000 \<or> seconds < cdiv INT64_MIN 1000 then None
      else Some (seconds * 1000))"

lemma parse_int64_range: "parse_int64 s = Some v \<Longrightarrow> in_i64 v"
  by (auto simp: parse_int64_def dest: from_chars_i64_range split: if_splits sum.splits)

lemma parse_int64_to_string: "in_i64 i \<Longrightarrow> parse_int64 (int_to_string i) = Some i"
  using from_chars_int_to_string [of i "[]"]
  by (auto simp: parse_int64_def int_to_string_def)

lemma add_would_overflow_iff:
  "in_i64 a \<Longrightarrow> in_i64 b \<Longrightarrow> add_would_overflow a b \<longleftrightarrow> \<not> in_i64 (a + b)"
  by (auto simp: add_would_overflow_def i64_defs)

lemma add_guard_no_overflow:
  "in_i64 b \<Longrightarrow> (b > 0 \<longrightarrow> in_i64 (INT64_MAX - b)) \<and> (b < 0 \<longrightarrow> in_i64 (INT64_MIN - b))"
  by (auto simp: i64_defs)

lemma sub_would_overflow_iff:
  "in_i64 a \<Longrightarrow> in_i64 b \<Longrightarrow> sub_would_overflow a b \<longleftrightarrow> \<not> in_i64 (a - b)"
  by (auto simp: sub_would_overflow_def i64_defs)

lemma sub_guard_no_overflow:
  "in_i64 b \<Longrightarrow> (b > 0 \<longrightarrow> in_i64 (INT64_MIN + b)) \<and> (b < 0 \<longrightarrow> in_i64 (INT64_MAX + b))"
  by (auto simp: i64_defs)

lemma seconds_to_ms_Some: "seconds_to_ms s = Some ms \<Longrightarrow> ms = s * 1000 \<and> in_i64 ms"
  by (auto simp: seconds_to_ms_def cdiv_def i64_defs split: if_splits)

lemma seconds_to_ms_None: "seconds_to_ms s = None \<longleftrightarrow> \<not> in_i64 (s * 1000)"
  by (auto simp: seconds_to_ms_def cdiv_def i64_defs)

lemma ieq_refl [simp]: "ieq s s"
  by (simp add: ieq_def list_all2_same)

lemma ieq_iff_map_tolower: "ieq a b \<longleftrightarrow> map tolower a = map tolower b"
  by (auto simp: ieq_def list_all2_conv_all_nth list_eq_iff_nth_eq)

end
