(* ===== verification/Float64.thy ===== *)
theory Float64
  imports Parse
begin

text \<open>
  IEEE-754 double precision as the program uses it: the comparisons and the one addition of sorted-set
  scores, \<^verbatim>\<open>std::from_chars\<close> and \<^verbatim>\<open>std::to_chars\<close> on doubles, and \<^verbatim>\<open>parse_double\<close> of
  \<^verbatim>\<open>util/parse.cpp\<close>. A double is its 64-bit pattern, so that the snapshot codec's \<^verbatim>\<open>memcpy\<close> is the
  identity. Every finite double is an integer multiple of \<open>2 ^ (-1074)\<close>; \<open>f64_scaled\<close> is that integer
  and all rounding is done on such integers, exactly. \<open>f64_lt_scaled\<close> justifies the comparison on bit
  patterns against the numerical value.
\<close>

type_synonym f64 = u64

definition F64_INF :: nat where "F64_INF = 0x7FF0000000000000"

definition f64_mag :: "f64 \<Rightarrow> nat" where
  "f64_mag b = unat b mod 2 ^ 63"

definition f64_neg :: "f64 \<Rightarrow> bool" where
  "f64_neg b \<longleftrightarrow> 2 ^ 63 \<le> unat b"

definition f64_isnan :: "f64 \<Rightarrow> bool" where "f64_isnan b \<longleftrightarrow> f64_mag b > F64_INF"
definition f64_isinf :: "f64 \<Rightarrow> bool" where "f64_isinf b \<longleftrightarrow> f64_mag b = F64_INF"

definition f64_make :: "bool \<Rightarrow> nat \<Rightarrow> f64" where
  "f64_make neg mag = of_nat ((if neg then 2 ^ 63 else 0) + mag)"

definition f64_nan :: "bool \<Rightarrow> f64" where "f64_nan neg = f64_make neg 0x7FF8000000000000"
definition f64_inf :: "bool \<Rightarrow> f64" where "f64_inf neg = f64_make neg F64_INF"

text \<open>Comparison: sign and magnitude order the non-NaN patterns, with the two zeros equal.\<close>

definition f64_key :: "f64 \<Rightarrow> int" where
  "f64_key b = (if f64_neg b then - int (f64_mag b) else int (f64_mag b))"

definition f64_lt :: "f64 \<Rightarrow> f64 \<Rightarrow> bool" where
  "f64_lt a b \<longleftrightarrow> \<not> f64_isnan a \<and> \<not> f64_isnan b \<and> f64_key a < f64_key b"

definition f64_eq :: "f64 \<Rightarrow> f64 \<Rightarrow> bool" where
  "f64_eq a b \<longleftrightarrow> \<not> f64_isnan a \<and> \<not> f64_isnan b \<and> f64_key a = f64_key b"

section \<open>Values and rounding\<close>

text \<open>Magnitude pattern to multiples of \<open>2 ^ (-1074)\<close>: subnormal patterns are the multiple itself.\<close>

definition mag_scaled :: "nat \<Rightarrow> nat" where
  "mag_scaled m = (let e = m div 2 ^ 52; f = m mod 2 ^ 52 in
     if e = 0 then f else (2 ^ 52 + f) * 2 ^ (e - 1))"

definition f64_scaled :: "f64 \<Rightarrow> int" where
  "f64_scaled b = (if f64_neg b then - int (mag_scaled (f64_mag b)) else int (mag_scaled (f64_mag b)))"

fun nbits :: "nat \<Rightarrow> nat" where
  "nbits n = (if n = 0 then 0 else Suc (nbits (n div 2)))"

declare nbits.simps [simp del]

text \<open>Round \<open>num / den\<close> multiples of \<open>2 ^ (-1074)\<close> to the nearest double, ties to even.\<close>

definition round_mag :: "nat \<Rightarrow> nat \<Rightarrow> nat" where
  "round_mag num den =
    (let s = nbits (num div den) - 53;
         ulp = den * 2 ^ s;
         m = num div ulp;
         r = num mod ulp;
         m' = (if 2 * r > ulp \<or> (2 * r = ulp \<and> odd m) then m + 1 else m)
     in min (s * 2 ^ 52 + m') F64_INF)"

definition f64_add :: "f64 \<Rightarrow> f64 \<Rightarrow> f64" where
  "f64_add a b =
    (if f64_isnan a \<or> f64_isnan b then f64_nan False
     else if f64_isinf a then (if f64_isinf b \<and> f64_neg a \<noteq> f64_neg b then f64_nan True else a)
     else if f64_isinf b then b
     else let v = f64_scaled a + f64_scaled b in
       if v = 0 then f64_make (f64_neg a \<and> f64_neg b) 0
       else f64_make (v < 0) (round_mag (nat \<bar>v\<bar>) 1))"

section \<open>Decimal input\<close>

definition is_nchar :: "char \<Rightarrow> bool" where
  "is_nchar c \<longleftrightarrow> is_digit c \<or> c = CHR ''_'' \<or>
     (let l = (of_char (tolower c) :: nat) in 97 \<le> l \<and> l \<le> 122)"

definition ci_prefix :: "string \<Rightarrow> string \<Rightarrow> bool" where
  "ci_prefix p s \<longleftrightarrow> length p \<le> length s \<and> ieq p (take (length p) s)"

text \<open>The optional \<open>(n-char-sequence)\<close> after \<open>nan\<close>: consumed only when it is closed.\<close>

definition skip_nan_payload :: "string \<Rightarrow> string" where
  "skip_nan_payload s =
    (case s of [] \<Rightarrow> []
     | c # cs \<Rightarrow> if c \<noteq> CHR ''('' then s
                 else case dropWhile is_nchar cs of
                        d # ds \<Rightarrow> if d = CHR '')'' then ds else s
                      | [] \<Rightarrow> s)"

text \<open>The optional exponent: \<open>e\<close>, an optional sign and at least one digit.\<close>

definition scan_exponent :: "string \<Rightarrow> int \<times> string" where
  "scan_exponent s =
    (case s of [] \<Rightarrow> (0, [])
     | c # cs \<Rightarrow>
        if tolower c \<noteq> CHR ''e'' then (0, s)
        else let neg = (cs \<noteq> [] \<and> hd cs = CHR ''-'');
                 body = (if cs \<noteq> [] \<and> (hd cs = CHR ''-'' \<or> hd cs = CHR ''+'') then tl cs else cs);
                 ds = takeWhile is_digit body
             in if ds = [] then (0, s)
                else (if neg then - int (digits_val ds) else int (digits_val ds),
                      dropWhile is_digit body))"

definition round_decimal :: "nat \<Rightarrow> int \<Rightarrow> nat" where
  "round_decimal d e =
    (if e \<ge> 0 then round_mag (d * 10 ^ nat e * 2 ^ 1074) 1
     else round_mag (d * 2 ^ 1074) (10 ^ nat (- e)))"

text \<open>
  \<^verbatim>\<open>std::from_chars(first, last, double&)\<close>, general format: the subject sequence of \<^verbatim>\<open>strtod\<close> without a
  leading plus sign and without hexadecimal floats.
\<close>

definition from_chars_f64 :: "string \<Rightarrow> from_chars_errc + (f64 \<times> string)" where
  "from_chars_f64 s =
    (let neg = (s \<noteq> [] \<and> hd s = CHR ''-'');
         body = (if neg then tl s else s) in
     if ci_prefix ''infinity'' body then Inr (f64_inf neg, drop 8 body)
     else if ci_prefix ''inf'' body then Inr (f64_inf neg, drop 3 body)
     else if ci_prefix ''nan'' body
       then Inr (f64_nan neg, skip_nan_payload (drop 3 body))
     else
       let ip = takeWhile is_digit body;
           r1 = dropWhile is_digit body;
           point = (r1 \<noteq> [] \<and> hd r1 = CHR ''.'');
           fp = (if point then takeWhile is_digit (tl r1) else []);
           r2 = (if point then dropWhile is_digit (tl r1) else r1) in
       if ip = [] \<and> fp = [] then Inl Invalid_argument
       else let (ex, rest) = scan_exponent r2;
                d = digits_val (ip @ fp);
                mag = round_decimal d (ex - int (length fp)) in
            if d \<noteq> 0 \<and> (mag = 0 \<or> mag = F64_INF) then Inl Result_out_of_range
            else Inr (f64_make neg mag, rest))"

definition parse_double :: "string \<Rightarrow> f64 option" where
  "parse_double s =
    (if s = [] then None
     else
       let body = (if hd s = CHR ''+'' then tl s else s) in
       if body = [] then None
       else
         let negative = (hd body = CHR ''-'');
             magnitude = (if negative then tl body else body) in
         if ieq magnitude ''inf'' \<or> ieq magnitude ''infinity'' then Some (f64_inf negative)
         else if ieq magnitude ''nan'' then None
         else case from_chars_f64 body of
                Inl _ \<Rightarrow> None
              | Inr (value, rest) \<Rightarrow> if rest \<noteq> [] then None else Some value)"

section \<open>Decimal output\<close>

text \<open>
  \<^verbatim>\<open>std::to_chars(first, last, double)\<close> on a finite value: the shortest decimal that reads back as the
  same double, in fixed notation unless scientific is strictly shorter. A candidate with \<open>p\<close> digits and
  scientific exponent \<open>k\<close> is \<open>d * 10 ^ (k - p + 1)\<close>; seventeen digits always suffice.
\<close>

definition sci_exponent :: "nat \<Rightarrow> int" where
  "sci_exponent n = int (length (nat_to_string (n * 10 ^ 400 div 2 ^ 1074))) - 401"

definition shortest_with :: "nat \<Rightarrow> int \<Rightarrow> nat \<Rightarrow> nat option" where
  "shortest_with mag k p =
    (let n = mag_scaled mag;
         e = k - int p + 1;
         num = (if e \<ge> 0 then n else n * 10 ^ nat (- e));
         den = (if e \<ge> 0 then 2 ^ 1074 * 10 ^ nat e else 2 ^ 1074);
         lo = num div den;
         r = num mod den;
         lo_ok = (round_decimal lo e = mag);
         hi_ok = (round_decimal (lo + 1) e = mag) in
     if lo_ok \<and> (\<not> hi_ok \<or> 2 * r < den \<or> (2 * r = den \<and> even lo)) then Some lo
     else if hi_ok then Some (lo + 1) else None)"

fun shortest_digits :: "nat \<Rightarrow> int \<Rightarrow> nat list \<Rightarrow> nat \<times> nat" where
  "shortest_digits mag k [] = (0, 0)"
| "shortest_digits mag k (p # ps) =
     (case shortest_with mag k p of Some d \<Rightarrow> (p, d) | None \<Rightarrow> shortest_digits mag k ps)"

definition sci_notation :: "string \<Rightarrow> int \<Rightarrow> string" where
  "sci_notation ds k =
    (let es = nat_to_string (nat \<bar>k\<bar>) in
     take 1 ds @ (if length ds > 1 then CHR ''.'' # drop 1 ds else []) @
     [CHR ''e'', if k < 0 then CHR ''-'' else CHR ''+''] @
     (if length es < 2 then CHR ''0'' # es else es))"

definition fixed_notation :: "nat \<Rightarrow> string \<Rightarrow> int \<Rightarrow> string" where
  "fixed_notation n ds k =
    (if k < 0 then ''0.'' @ replicate (nat (- k - 1)) (CHR ''0'') @ ds
     else if int (length ds) \<le> k + 1 then nat_to_string (n div 2 ^ 1074)
     else take (nat (k + 1)) ds @ CHR ''.'' # drop (nat (k + 1)) ds)"

definition to_chars_f64 :: "f64 \<Rightarrow> string" where
  "to_chars_f64 b =
    (let mag = f64_mag b; n = mag_scaled mag;
         body = (if mag = 0 then ''0''
                 else let k = sci_exponent n;
                          (p, d) = shortest_digits mag k [1..<18];
                          ds = nat_to_string d;
                          k' = (if length ds > p then k + 1 else k);
                          sci = sci_notation (take p ds) k';
                          fix = fixed_notation n (take p ds) k'
                      in if length fix \<le> length sci then fix else sci)
     in if f64_neg b then CHR ''-'' # body else body)"

section \<open>Facts about patterns, order and addition\<close>

lemma f64_mag_less: "f64_mag b < 2 ^ 63"
  by (simp add: f64_mag_def)

lemma unat_f64: "unat b = (if f64_neg b then 2 ^ 63 else 0) + f64_mag b"
proof -
  have "unat b < 2 * 2 ^ 63"
    using unsigned_less [of b, where 'a = nat] by simp
  then show ?thesis
    by (cases "f64_neg b") (auto simp: f64_mag_def f64_neg_def mod_if)
qed

lemma f64_eqI:
  assumes "f64_neg a = f64_neg b" "f64_mag a = f64_mag b"
  shows "a = b"
proof -
  have "unat a = unat b"
    unfolding unat_f64 [of a] unat_f64 [of b] using assms by simp
  then show ?thesis
    by (rule unsigned_word_eqI)
qed

lemma f64_make_unat:
  assumes "m < 2 ^ 63"
  shows "unat (f64_make n m) = (if n then 2 ^ 63 else 0) + m"
  using assms unfolding f64_make_def unsigned_of_nat take_bit_eq_mod by simp

lemma f64_make_neg_mag:
  assumes "m < 2 ^ 63"
  shows "f64_neg (f64_make n m) = n" "f64_mag (f64_make n m) = m"
  using assms by (auto simp: f64_neg_def f64_mag_def f64_make_unat)

lemma round_mag_le: "round_mag n d \<le> F64_INF"
  by (simp add: round_mag_def Let_def)

lemma f64_make_not_nan:
  assumes "m \<le> F64_INF"
  shows "\<not> f64_isnan (f64_make n m)"
proof -
  have "m < 2 ^ 63"
    using assms by (simp add: F64_INF_def)
  then show ?thesis
    using assms by (simp add: f64_isnan_def f64_make_neg_mag)
qed

lemma f64_nan_isnan: "f64_isnan (f64_nan n)"
  by (simp add: f64_isnan_def f64_nan_def f64_make_neg_mag F64_INF_def)

lemma f64_inf_not_nan: "\<not> f64_isnan (f64_inf n)"
  by (simp add: f64_inf_def f64_make_not_nan)

lemma f64_add_isnan:
  "f64_isnan (f64_add a b) \<longleftrightarrow>
     f64_isnan a \<or> f64_isnan b \<or> (f64_isinf a \<and> f64_isinf b \<and> f64_neg a \<noteq> f64_neg b)"
  using f64_make_not_nan [of 0] by (auto simp: f64_add_def f64_nan_isnan Let_def f64_make_not_nan round_mag_le)

lemma f64_lt_irrefl [simp]: "\<not> f64_lt a a"
  by (simp add: f64_lt_def)

lemma f64_trichotomy:
  assumes "\<not> f64_isnan a" "\<not> f64_isnan b"
  shows "f64_lt a b \<or> f64_eq a b \<or> f64_lt b a"
  using assms by (auto simp: f64_lt_def f64_eq_def)

lemma mag_scaled_normal:
  assumes "m div 2 ^ 52 = Suc k"
  shows "mag_scaled m = (2 ^ 52 + m mod 2 ^ 52) * 2 ^ k"
  using assms by (simp add: mag_scaled_def Let_def)

lemma mag_scaled_bounds:
  assumes "e = m div 2 ^ 52"
  shows "mag_scaled m < 2 ^ (52 + e)" and "0 < e \<Longrightarrow> 2 ^ (52 + e - 1) \<le> mag_scaled m"
proof -
  have f: "m mod 2 ^ 52 < 2 ^ 52" by simp
  have "mag_scaled m < 2 ^ (52 + e) \<and> 2 ^ (52 + e - 1) \<le> mag_scaled m" if "0 < e"
  proof -
    obtain k where k: "e = Suc k" using \<open>0 < e\<close> by (metis gr0_implies_Suc)
    have "(2 ^ 52 + m mod 2 ^ 52) * 2 ^ k < (2 * 2 ^ 52) * (2::nat) ^ k"
      using f by (intro mult_strict_right_mono) simp_all
    moreover have "2 ^ (52 + e - 1) = 2 ^ 52 * (2::nat) ^ k" "2 ^ (52 + e) = (2 * 2 ^ 52) * (2::nat) ^ k"
      by (simp_all add: k power_add)
    ultimately show ?thesis
      using mag_scaled_normal [of m k] assms k by simp
  qed
  then show "mag_scaled m < 2 ^ (52 + e)" and "0 < e \<Longrightarrow> 2 ^ (52 + e - 1) \<le> mag_scaled m"
    using f assms by (cases "e = 0"; auto simp: mag_scaled_def Let_def)+
qed

lemma mag_scaled_less:
  assumes "m < n"
  shows "mag_scaled m < mag_scaled n"
proof (cases "m div 2 ^ 52 = n div 2 ^ 52")
  case True
  then have "m mod 2 ^ 52 < n mod 2 ^ 52"
    using assms div_mult_mod_eq [of m "2 ^ 52"] div_mult_mod_eq [of n "2 ^ 52"]
    by (metis add_less_cancel_left)
  then show ?thesis
    using True by (auto simp: mag_scaled_def Let_def)
next
  case False
  define d e where "d = m div 2 ^ 52" and "e = n div 2 ^ 52"
  have de: "d < e"
    using False assms div_le_mono [of m n "2 ^ 52"] by (simp add: d_def e_def)
  have "mag_scaled m < 2 ^ (52 + d)"
    by (rule mag_scaled_bounds(1)) (simp add: d_def)
  also have "\<dots> \<le> 2 ^ (52 + e - 1)"
    using de by (intro power_increasing) auto
  also have "\<dots> \<le> mag_scaled n"
    using de by (intro mag_scaled_bounds(2)) (auto simp: e_def)
  finally show ?thesis .
qed

lemma mag_scaled_less_iff: "mag_scaled m < mag_scaled n \<longleftrightarrow> m < n"
  using mag_scaled_less by (metis linorder_neqE_nat less_asym less_irrefl)

lemma mag_scaled_0 [simp]: "mag_scaled 0 = 0"
  by (simp add: mag_scaled_def)

lemma mag_scaled_eq_iff: "mag_scaled m = mag_scaled n \<longleftrightarrow> m = n"
  using mag_scaled_less by (metis linorder_neqE_nat less_irrefl)

lemma f64_key_scaled: "f64_key a < f64_key b \<longleftrightarrow> f64_scaled a < f64_scaled b"
  using mag_scaled_less_iff [of "f64_mag a" "f64_mag b"] mag_scaled_less_iff [of "f64_mag b" "f64_mag a"]
    mag_scaled_less_iff [of 0 "f64_mag a"] mag_scaled_less_iff [of 0 "f64_mag b"]
    mag_scaled_eq_iff [of "f64_mag a" 0] mag_scaled_eq_iff [of "f64_mag b" 0]
  by (simp add: f64_key_def f64_scaled_def split: if_splits) linarith

lemma f64_lt_scaled:
  assumes "\<not> f64_isnan a" "\<not> f64_isnan b"
  shows "f64_lt a b \<longleftrightarrow> f64_scaled a < f64_scaled b"
  using assms by (simp add: f64_lt_def f64_key_scaled)

section \<open>The spellings of NaN\<close>

lemma parse_double_nan: "parse_double ''nan'' = None"
  by (simp add: parse_double_def ieq_def tolower_def)

lemma parse_double_nan_payload: "parse_double ''nan(1)'' = Some (f64_nan False)"
  by (simp add: parse_double_def from_chars_f64_def ci_prefix_def skip_nan_payload_def is_nchar_def
      is_digit_def ieq_def tolower_def)

end
