(* ===== verification/Zset.thy ===== *)
theory Zset
  imports Hash_Table Avl_Tree Float64
begin

text \<open>
  The sorted set of \<^verbatim>\<open>storage/zset.h\<close>: a hash table from members to nodes of a score-ordered tree. The
  dictionary's \<^verbatim>\<open>Node*\<close> values are addresses of tree nodes, \<^term>\<open>None\<close> standing for the null pointer;
  following a null pointer or the address of a node the tree does not own is undefined behaviour and
  makes the operation \<^term>\<open>None\<close>. The invariant says that the two structures describe one relation,
  and \<open>zset_map\<close> (member to score) and \<open>zset_list\<close> (the entries in order) are the abstract views.
\<close>

section \<open>Entries and their order\<close>

record entry =
  escore :: f64
  emember :: string

definition entry_less :: "entry \<Rightarrow> entry \<Rightarrow> bool" where
  "entry_less a b =
    (if \<not> f64_eq (escore a) (escore b) then f64_lt (escore a) (escore b) else emember a < emember b)"

definition entry_ok :: "entry \<Rightarrow> bool" where
  "entry_ok e \<longleftrightarrow> \<not> f64_isnan (escore e)"

lemma entry_less_key:
  assumes "entry_ok a" "entry_ok b"
  shows "entry_less a b \<longleftrightarrow> f64_key (escore a) < f64_key (escore b) \<or>
    f64_key (escore a) = f64_key (escore b) \<and> emember a < emember b"
  using assms by (auto simp: entry_less_def entry_ok_def f64_eq_def f64_lt_def)

interpretation zorder: key_order entry_less entry_ok
proof unfold_locales
  fix x y z :: entry
  assume ok: "entry_ok x" "entry_ok y" "entry_ok z"
  show "\<not> entry_less x z" if "\<not> entry_less x y" "\<not> entry_less y z"
    using that ok by (auto simp: entry_less_key)
  show "entry_less x z" if "entry_less x y" "entry_less y z"
    using that ok by (auto simp: entry_less_key)
qed (simp add: entry_less_key)

lemma entry_equiv_member:
  assumes "entry_ok a" "entry_ok b" "\<not> entry_less a b" "\<not> entry_less b a"
  shows "emember a = emember b"
  using assms by (auto simp: entry_less_key)

text \<open>A NaN score is equivalent to every entry, which is how it slips past the tree's insertion.\<close>

lemma nan_incomparable:
  assumes "f64_isnan (escore a)"
  shows "\<not> entry_less a b" "\<not> entry_less b a"
  using assms by (auto simp: entry_less_def f64_eq_def f64_lt_def)

section \<open>State and operations\<close>

record zset =
  zdict :: "nat option hash_table"
  ztree :: "entry avl_tree"

definition zset_empty :: zset where
  "zset_empty = \<lparr>zdict = reset_to_empty, ztree = avl_empty_tree\<rparr>"

text \<open>Reading the key of the node at an address.\<close>

definition avl_deref :: "nat \<Rightarrow> 'k avl_tree \<Rightarrow> 'k ub" where
  "avl_deref n t = do { (cur, fs) \<leftarrow> locate n (root t) []; map_option snd (node_of cur) }"

definition zset_upsert :: "string \<Rightarrow> f64 \<Rightarrow> zset \<Rightarrow> ((f64 \<times> bool) \<times> zset) ub" where
  "zset_upsert mem sc z =
    (let (existing, d) = ht_find (zdict z) mem in
     case existing of
       Some ptr \<Rightarrow> do {
         old_node \<leftarrow> ptr;
         e \<leftarrow> avl_deref old_node (ztree z);
         if f64_eq (escore e) sc then Some ((sc, False), z\<lparr>zdict := d\<rparr>)
         else do {
           t \<leftarrow> avl_erase old_node (ztree z);
           let (new_node, t') = avl_insert entry_less \<lparr>escore = sc, emember = mem\<rparr> t;
           Some ((sc, False), \<lparr>zdict = ht_write d mem new_node, ztree = t'\<rparr>)
         }
       }
     | None \<Rightarrow>
         let (node, t') = avl_insert entry_less \<lparr>escore = sc, emember = mem\<rparr> (ztree z);
             (_, d') = ht_insert_or_assign d mem node
         in Some ((sc, True), \<lparr>zdict = d', ztree = t'\<rparr>))"

definition zset_erase :: "string \<Rightarrow> zset \<Rightarrow> (bool \<times> zset) ub" where
  "zset_erase mem z =
    (let (existing, d) = ht_find (zdict z) mem in
     case existing of
       None \<Rightarrow> Some (False, z\<lparr>zdict := d\<rparr>)
     | Some ptr \<Rightarrow> do {
         n \<leftarrow> ptr;
         t \<leftarrow> avl_erase n (ztree z);
         let (_, d') = ht_erase d mem;
         Some (True, \<lparr>zdict = d', ztree = t\<rparr>)
       })"

definition zset_score_of :: "string \<Rightarrow> zset \<Rightarrow> (f64 option \<times> zset) ub" where
  "zset_score_of mem z =
    (let (existing, d) = ht_find (zdict z) mem; z' = z\<lparr>zdict := d\<rparr> in
     case existing of
       None \<Rightarrow> Some (None, z')
     | Some ptr \<Rightarrow> do { n \<leftarrow> ptr; e \<leftarrow> avl_deref n (ztree z); Some (Some (escore e), z') })"

definition zset_rank :: "string \<Rightarrow> zset \<Rightarrow> (nat option \<times> zset) ub" where
  "zset_rank mem z =
    (let (existing, d) = ht_find (zdict z) mem; z' = z\<lparr>zdict := d\<rparr> in
     case existing of
       None \<Rightarrow> Some (None, z')
     | Some ptr \<Rightarrow> do { n \<leftarrow> ptr; i \<leftarrow> avl_rank n (ztree z); Some (Some i, z') })"

definition zset_size :: "zset \<Rightarrow> nat" where "zset_size z = ht_size (zdict z)"
definition zset_is_empty :: "zset \<Rightarrow> bool" where "zset_is_empty z = ht_empty (zdict z)"

definition zset_check_invariants :: "zset \<Rightarrow> bool ub" where
  "zset_check_invariants z =
    (if \<not> avl_check_invariants entry_less (ztree z) then Some False
     else if avl_size (ztree z) \<noteq> ht_size (zdict z) then Some False
     else foldr (\<lambda>(m, ptr) acc. do {
            ok \<leftarrow> acc;
            case ptr of None \<Rightarrow> Some False
            | Some n \<Rightarrow> do { e \<leftarrow> avl_deref n (ztree z); Some (ok \<and> emember e = m) } })
          (ht_for_each (zdict z)) (Some True))"

section \<open>Invariant and abstract views\<close>

definition linked :: "(string \<rightharpoonup> nat option) \<Rightarrow> (nat \<times> entry) set \<Rightarrow> bool" where
  "linked M S \<longleftrightarrow> (\<forall>m p. M m = Some p \<longleftrightarrow> (\<exists>n e. p = Some n \<and> (n, e) \<in> S \<and> emember e = m))"

definition zset_invar :: "zset \<Rightarrow> bool" where
  "zset_invar z \<longleftrightarrow> ht_invar (zdict z) \<and> avl_sorted entry_less entry_ok (ztree z) \<and>
     linked (ht_map (zdict z)) (set (seq (ztree z)))"

definition zset_list :: "zset \<Rightarrow> entry list" where
  "zset_list z = map snd (seq (ztree z))"

definition entry_pair :: "entry \<Rightarrow> string \<times> f64" where
  "entry_pair e = (emember e, escore e)"

definition zset_map :: "zset \<Rightarrow> (string \<rightharpoonup> f64)" where
  "zset_map z = map_of (map entry_pair (zset_list z))"

section \<open>Facts about the linking of the two structures\<close>

lemma linkedD:
  assumes "linked M S"
  shows "(n, e) \<in> S \<Longrightarrow> M (emember e) = Some (Some n)"
    and "M m = Some p \<Longrightarrow> \<exists>n e. p = Some n \<and> (n, e) \<in> S \<and> emember e = m"
    and "M m = None \<Longrightarrow> (n, e) \<in> S \<Longrightarrow> emember e \<noteq> m"
  using assms unfolding linked_def by (blast, blast, metis option.distinct(1))

lemma linked_insert:
  assumes "linked M S" "M (emember e) = None"
  shows "linked (M(emember e \<mapsto> Some n)) (insert (n, e) S)"
  using linkedD(3) [OF assms] assms(1) unfolding linked_def by (fastforce split: if_splits)

lemma linked_remove:
  assumes "linked M S"
  shows "linked (M(m := None)) {x \<in> S. emember (snd x) \<noteq> m}"
  using assms unfolding linked_def by (fastforce split: if_splits)

lemma linked_addr:
  assumes "linked M S" "(n, e) \<in> S" "inj_on fst S"
  shows "{x \<in> S. fst x \<noteq> n} = {x \<in> S. emember (snd x) \<noteq> emember e}"
proof -
  have "fst x = n \<longleftrightarrow> emember (snd x) = emember e" if "x \<in> S" for x
  proof
    assume "fst x = n"
    then have "x = (n, e)"
      using inj_onD [OF assms(3), of x "(n, e)"] assms(2) that by simp
    then show "emember (snd x) = emember e" by simp
  next
    assume "emember (snd x) = emember e"
    then show "fst x = n"
      using linkedD(1) [OF assms(1), of "fst x" "snd x"] linkedD(1) [OF assms(1,2)] that by simp
  qed
  then show ?thesis by blast
qed

lemma zset_invarD:
  assumes "zset_invar z"
  shows "ht_invar (zdict z)" "avl_sorted entry_less entry_ok (ztree z)" "avl_invar (ztree z)"
    "linked (ht_map (zdict z)) (set (seq (ztree z)))"
  using assms by (auto simp: zset_invar_def avl_sorted_def)

lemma avl_invar_inj: "avl_invar t \<Longrightarrow> inj_on fst (set (seq t))"
  by (simp add: avl_invar_def distinct_map)

lemma avl_deref_spec:
  assumes "avl_invar t" "(n, k) \<in> set (seq t)"
  shows "avl_deref n t = Some k"
proof -
  obtain xs ys where "seq t = xs @ (n, k) # ys"
    using assms(2) by (meson split_list)
  then obtain h s l r fs where "locate n (root t) [] = Some (Nd n k h s l r, fs)"
    by (rule locate_seq [OF assms(1)])
  then show ?thesis
    by (simp add: avl_deref_def)
qed

lemma zset_members_distinct:
  assumes "zset_invar z"
  shows "distinct (map emember (zset_list z))"
proof -
  note D = zset_invarD [OF assms]
  have "inj_on (emember \<circ> snd) (set (seq (ztree z)))"
  proof (rule inj_onI)
    fix x y
    assume "x \<in> set (seq (ztree z))" "y \<in> set (seq (ztree z))" "(emember \<circ> snd) x = (emember \<circ> snd) y"
    then have "fst x = fst y"
      using linkedD(1) [OF D(4), of "fst x" "snd x"] linkedD(1) [OF D(4), of "fst y" "snd y"] by simp
    then show "x = y"
      using inj_onD [OF avl_invar_inj [OF D(3)], of x y] \<open>x \<in> _\<close> \<open>y \<in> _\<close> by simp
  qed
  moreover have "distinct (seq (ztree z))"
    using avl_invarD(3) [OF D(3)] by (simp add: distinct_map)
  ultimately show ?thesis
    by (simp add: zset_list_def distinct_map)
qed

lemma zset_map_iff:
  assumes "zset_invar z"
  shows "zset_map z m = Some s \<longleftrightarrow> (\<exists>n e. (n, e) \<in> set (seq (ztree z)) \<and> emember e = m \<and> escore e = s)"
proof -
  have "distinct (map fst (map entry_pair (zset_list z)))"
    using zset_members_distinct [OF assms] by (simp add: entry_pair_def comp_def)
  then have "zset_map z m = Some s \<longleftrightarrow> (m, s) \<in> set (map entry_pair (zset_list z))"
    by (simp only: zset_map_def map_of_eq_Some_iff)
  then show ?thesis
    by (auto simp: zset_list_def entry_pair_def image_iff Bex_def)
qed

lemma zset_map_None:
  assumes "zset_invar z"
  shows "zset_map z m = None \<longleftrightarrow> ht_map (zdict z) m = None"
proof -
  note D = zset_invarD [OF assms]
  have "zset_map z m \<noteq> None \<longleftrightarrow> (\<exists>n e. (n, e) \<in> set (seq (ztree z)) \<and> emember e = m)"
    using zset_map_iff [OF assms] by blast
  also have "\<dots> \<longleftrightarrow> ht_map (zdict z) m \<noteq> None"
    using linkedD(1,2) [OF D(4)] by blast
  finally show ?thesis by blast
qed

lemma zset_find:
  assumes "zset_invar z" "ht_find (zdict z) m = (p, d)"
  shows "p = ht_map (zdict z) m" "ht_invar d" "ht_map d = ht_map (zdict z)" "zset_invar (z\<lparr>zdict := d\<rparr>)"
    "zset_map (z\<lparr>zdict := d\<rparr>) = zset_map z" "zset_list (z\<lparr>zdict := d\<rparr>) = zset_list z"
  using ht_find_spec [OF zset_invarD(1) [OF assms(1)], of m] assms
  by (auto simp: zset_invar_def zset_map_def zset_list_def)

text \<open>A member that is present has a live node, whose entry carries the member and its score.\<close>

lemma zset_present:
  assumes "zset_invar z" "ht_map (zdict z) m = Some p"
  obtains n e where "p = Some n" "(n, e) \<in> set (seq (ztree z))" "emember e = m" "entry_ok e"
    "avl_deref n (ztree z) = Some e" "zset_map z m = Some (escore e)"
proof -
  note D = zset_invarD [OF assms(1)]
  obtain n e where ne: "p = Some n" "(n, e) \<in> set (seq (ztree z))" "emember e = m"
    using linkedD(2) [OF D(4) assms(2)] by blast
  moreover have "zset_map z m = Some (escore e)"
    using zset_map_iff [OF assms(1)] ne by blast
  moreover have "entry_ok e"
    using D(2) ne(2) by (auto simp: avl_sorted_def)
  ultimately show ?thesis
    using that avl_deref_spec [OF D(3) ne(2)] by blast
qed

section \<open>What the operations do\<close>

lemma zset_empty_spec [simp]: "zset_invar zset_empty" "zset_map zset_empty = Map.empty" "zset_list zset_empty = []"
  by (auto simp: reset_to_empty_spec zset_empty_def zset_invar_def avl_sorted_def linked_def zset_map_def
      zset_list_def)

text \<open>Inserting an entry whose member is not linked puts it at its place in the order.\<close>

lemma tree_insert_fresh:
  assumes srt: "avl_sorted entry_less entry_ok t" and ok: "entry_ok e"
    and new: "\<forall>x \<in> set (seq t). emember (snd x) \<noteq> emember e"
    and res: "avl_insert entry_less e t = (p, t')"
  shows "\<exists>n. p = Some n \<and> avl_sorted entry_less entry_ok t' \<and> set (seq t') = insert (n, e) (set (seq t))"
proof -
  have "\<not> (\<exists>x \<in> set (seq t). \<not> entry_less e (snd x) \<and> \<not> entry_less (snd x) e)"
    using new ok srt entry_equiv_member [of e] unfolding avl_sorted_def by metis
  with zorder.avl_insert_spec [OF srt ok res] show ?thesis
    by (auto simp: Ball_def)
qed

lemma tree_erase_member:
  assumes inv: "zset_invar z" and x: "(n, e) \<in> set (seq (ztree z))"
  shows "\<exists>t. avl_erase n (ztree z) = Some t \<and> avl_sorted entry_less entry_ok t \<and>
    seq t = filter (\<lambda>x. emember (snd x) \<noteq> emember e) (seq (ztree z))"
proof -
  note D = zset_invarD [OF inv]
  have "n \<in> fst ` set (seq (ztree z))"
    using x by force
  from avl_erase_spec [OF D(3) this] obtain t where t: "avl_erase n (ztree z) = Some t"
    "avl_invar t" "seq t = filter (\<lambda>x. fst x \<noteq> n) (seq (ztree z))" by blast
  have "seq t = filter (\<lambda>x. emember (snd x) \<noteq> emember e) (seq (ztree z))"
    unfolding t(3) using linked_addr [OF D(4) x avl_invar_inj [OF D(3)]] by (intro filter_cong) auto
  moreover from this have "avl_sorted entry_less entry_ok t"
    using t(2) D(2) by (auto simp: avl_sorted_def sorted_wrt_map sorted_wrt_filter)
  ultimately show ?thesis
    using t(1) by blast
qed

lemma zset_map_put:
  assumes "zset_invar z" "zset_invar z'"
    "set (seq (ztree z')) = insert (n, e) {x \<in> set (seq (ztree z)). emember (snd x) \<noteq> emember e}"
  shows "zset_map z' = (zset_map z)(emember e \<mapsto> escore e)"
proof
  fix m
  have "zset_map z' m = Some s \<longleftrightarrow> ((zset_map z)(emember e \<mapsto> escore e)) m = Some s" for s
    by (auto simp: zset_map_iff [OF assms(1)] zset_map_iff [OF assms(2)] assms(3))
  then show "zset_map z' m = ((zset_map z)(emember e \<mapsto> escore e)) m"
    by (metis option.exhaust)
qed

lemma zset_map_drop:
  assumes "zset_invar z" "zset_invar z'"
    "set (seq (ztree z')) = {x \<in> set (seq (ztree z)). emember (snd x) \<noteq> m}"
  shows "zset_map z' = (zset_map z)(m := None)"
proof
  fix k
  have "zset_map z' k = Some s \<longleftrightarrow> ((zset_map z)(m := None)) k = Some s" for s
    by (auto simp: zset_map_iff [OF assms(1)] zset_map_iff [OF assms(2)] assms(3))
  then show "zset_map z' k = ((zset_map z)(m := None)) k"
    by (metis option.exhaust)
qed

text \<open>The abstract effect of an upsert: an equal score leaves the stored one (so \<open>-0\<close> stays \<open>-0\<close>).\<close>

definition score_put :: "string \<Rightarrow> f64 \<Rightarrow> (string \<rightharpoonup> f64) \<Rightarrow> (string \<rightharpoonup> f64)" where
  "score_put m sc M =
    (case M m of Some s \<Rightarrow> if f64_eq s sc then M else M(m \<mapsto> sc) | None \<Rightarrow> M(m \<mapsto> sc))"

lemma zset_upsert_new:
  assumes inv: "zset_invar z" and ok: "\<not> f64_isnan sc" and none: "ht_map (zdict z) m = None"
  shows "\<exists>z'. zset_upsert m sc z = Some ((sc, True), z') \<and> zset_invar z' \<and>
    zset_map z' = (zset_map z)(m \<mapsto> sc)"
proof -
  let ?e = "\<lparr>escore = sc, emember = m\<rparr>"
  note D = zset_invarD [OF inv]
  obtain p d where f: "ht_find (zdict z) m = (p, d)" by force
  note F = zset_find [OF inv f]
  obtain q t' where q: "avl_insert entry_less ?e (ztree z) = (q, t')" by force
  obtain b d' where b: "ht_insert_or_assign d m q = (b, d')" by force
  have fresh: "\<forall>x \<in> set (seq (ztree z)). emember (snd x) \<noteq> m"
    using linkedD(3) [OF D(4) none] by force
  obtain n where n: "q = Some n" "avl_sorted entry_less entry_ok t'"
    "set (seq t') = insert (n, ?e) (set (seq (ztree z)))"
    using tree_insert_fresh [OF D(2) _ _ q] ok fresh by (auto simp: entry_ok_def)
  let ?z = "\<lparr>zdict = d', ztree = t'\<rparr>"
  have d': "ht_invar d'" "ht_map d' = (ht_map (zdict z))(m \<mapsto> q)"
    using ht_insert_spec [OF F(2), of m q] b F(3) by simp_all
  have inv': "zset_invar ?z"
    using d' n linked_insert [OF D(4), of ?e n] none by (simp add: zset_invar_def)
  moreover have "zset_map ?z = (zset_map z)(emember ?e \<mapsto> escore ?e)"
    using fresh n(3) by (intro zset_map_put [OF inv inv']) auto
  moreover have "zset_upsert m sc z = Some ((sc, True), ?z)"
    using f F(1) none q b by (simp add: zset_upsert_def)
  ultimately show ?thesis by simp
qed

lemma zset_upsert_old:
  assumes inv: "zset_invar z" and ok: "\<not> f64_isnan sc" and some: "ht_map (zdict z) m = Some p"
  shows "\<exists>z'. zset_upsert m sc z = Some ((sc, False), z') \<and> zset_invar z' \<and>
    zset_map z' = score_put m sc (zset_map z)"
proof -
  let ?e = "\<lparr>escore = sc, emember = m\<rparr>"
  note D = zset_invarD [OF inv]
  obtain d where f: "ht_find (zdict z) m = (Some p, d)"
    using zset_find(1) [OF inv, of m] some by (metis surj_pair)
  note F = zset_find [OF inv f]
  obtain n e where e: "p = Some n" "(n, e) \<in> set (seq (ztree z))" "emember e = m"
    "avl_deref n (ztree z) = Some e" "zset_map z m = Some (escore e)"
    by (rule zset_present [OF inv some])
  show ?thesis
  proof (cases "f64_eq (escore e) sc")
    case True
    then show ?thesis
      using f e F(4,5) by (simp add: zset_upsert_def score_put_def)
  next
    case False
    obtain t where t: "avl_erase n (ztree z) = Some t" "avl_sorted entry_less entry_ok t"
      "seq t = filter (\<lambda>x. emember (snd x) \<noteq> m) (seq (ztree z))"
      using tree_erase_member [OF inv e(2)] e(3) by auto
    obtain q t' where q: "avl_insert entry_less ?e t = (q, t')" by force
    obtain n' where n': "q = Some n'" "avl_sorted entry_less entry_ok t'"
      "set (seq t') = insert (n', ?e) (set (seq t))"
      using tree_insert_fresh [OF t(2) _ _ q] ok t(3) by (auto simp: entry_ok_def)
    let ?z = "\<lparr>zdict = ht_write d m q, ztree = t'\<rparr>"
    have "ht_map (ht_write d m q) = ((ht_map (zdict z))(m := None))(m \<mapsto> Some n')"
      using some F(2,3) n'(1) by (simp add: ht_map_write domI)
    then have inv': "zset_invar ?z"
      using n' t(3) ht_write_spec(1) [OF F(2)] linked_insert [OF linked_remove [OF D(4), of m], of ?e n']
      by (simp add: zset_invar_def)
    moreover have "zset_map ?z = (zset_map z)(emember ?e \<mapsto> escore ?e)"
      using n'(3) t(3) by (intro zset_map_put [OF inv inv']) auto
    moreover have "zset_upsert m sc z = Some ((sc, False), ?z)"
      using f e False t(1) q by (simp add: zset_upsert_def)
    ultimately show ?thesis
      using e(5) False by (simp add: score_put_def)
  qed
qed

lemma zset_upsert_spec:
  assumes inv: "zset_invar z" and ok: "\<not> f64_isnan sc"
  shows "\<exists>z'. zset_upsert m sc z = Some ((sc, zset_map z m = None), z') \<and> zset_invar z' \<and>
    zset_map z' = score_put m sc (zset_map z)"
proof (cases "ht_map (zdict z) m")
  case None
  then show ?thesis
    using zset_upsert_new [OF inv ok None] zset_map_None [OF inv, of m] by (auto simp: score_put_def)
next
  case (Some p)
  then show ?thesis
    using zset_upsert_old [OF inv ok Some] zset_map_None [OF inv, of m] by auto
qed

lemma zset_erase_spec:
  assumes inv: "zset_invar z"
  shows "\<exists>z'. zset_erase m z = Some (zset_map z m \<noteq> None, z') \<and> zset_invar z' \<and>
    zset_map z' = (zset_map z)(m := None) \<and>
    zset_list z' = filter (\<lambda>e. emember e \<noteq> m) (zset_list z)"
proof -
  note D = zset_invarD [OF inv]
  obtain p d where f: "ht_find (zdict z) m = (p, d)" by force
  note F = zset_find [OF inv f]
  show ?thesis
  proof (cases p)
    case None
    then have "\<forall>x \<in> set (seq (ztree z)). emember (snd x) \<noteq> m"
      using linkedD(3) [OF D(4), of m] F(1) by force
    then have "filter (\<lambda>e. emember e \<noteq> m) (zset_list z) = zset_list z"
      by (simp add: zset_list_def)
    moreover have "(zset_map z)(m := None) = zset_map z" "zset_map z m = None"
      using zset_map_None [OF inv, of m] None F(1) by (auto simp: fun_upd_idem)
    ultimately show ?thesis
      using f None F by (auto simp: zset_erase_def)
  next
    case (Some ptr)
    obtain n e where e: "ptr = Some n" "(n, e) \<in> set (seq (ztree z))" "emember e = m"
      "zset_map z m = Some (escore e)"
      by (rule zset_present [OF inv F(1) [unfolded Some, symmetric]])
    obtain t where t: "avl_erase n (ztree z) = Some t" "avl_sorted entry_less entry_ok t"
      "seq t = filter (\<lambda>x. emember (snd x) \<noteq> m) (seq (ztree z))"
      using tree_erase_member [OF inv e(2)] e(3) by auto
    obtain b d' where b: "ht_erase d m = (b, d')" by force
    let ?z = "\<lparr>zdict = d', ztree = t\<rparr>"
    have d': "ht_invar d'" "ht_map d' = (ht_map (zdict z))(m := None)"
      using ht_erase_spec [OF F(2), of m] b F(3) by simp_all
    then have inv': "zset_invar ?z"
      using t linked_remove [OF D(4), of m] by (simp add: zset_invar_def)
    moreover have "zset_map ?z = (zset_map z)(m := None)"
      using t(3) by (intro zset_map_drop [OF inv inv']) simp
    moreover have "zset_list ?z = filter (\<lambda>e. emember e \<noteq> m) (zset_list z)"
      by (simp add: zset_list_def t(3) filter_map comp_def)
    moreover have "zset_erase m z = Some (True, ?z)"
      using f Some e t(1) b by (simp add: zset_erase_def)
    ultimately show ?thesis
      using e(4) by simp
  qed
qed

lemma zset_score_of_spec:
  assumes inv: "zset_invar z"
  shows "\<exists>z'. zset_score_of m z = Some (zset_map z m, z') \<and> zset_invar z' \<and>
    zset_map z' = zset_map z \<and> zset_list z' = zset_list z"
proof -
  obtain p d where f: "ht_find (zdict z) m = (p, d)" by force
  note F = zset_find [OF inv f]
  show ?thesis
  proof (cases p)
    case None
    then show ?thesis
      using f F zset_map_None [OF inv, of m] by (simp add: zset_score_of_def)
  next
    case (Some ptr)
    obtain n e where "ptr = Some n" "avl_deref n (ztree z) = Some e" "zset_map z m = Some (escore e)"
      by (rule zset_present [OF inv F(1) [unfolded Some, symmetric]])
    then show ?thesis
      using f Some F by (simp add: zset_score_of_def)
  qed
qed

lemma zset_rank_spec:
  assumes inv: "zset_invar z"
  shows "\<exists>z' r. zset_rank m z = Some (r, z') \<and> zset_invar z' \<and> zset_map z' = zset_map z \<and>
    zset_list z' = zset_list z \<and> (r = None \<longleftrightarrow> zset_map z m = None) \<and>
    (\<forall>i. r = Some i \<longrightarrow> i < length (zset_list z) \<and> emember (zset_list z ! i) = m)"
proof -
  note D = zset_invarD [OF inv]
  obtain p d where f: "ht_find (zdict z) m = (p, d)" by force
  note F = zset_find [OF inv f]
  show ?thesis
  proof (cases p)
    case None
    then show ?thesis
      using f F zset_map_None [OF inv, of m] by (simp add: zset_rank_def)
  next
    case (Some ptr)
    obtain n e where e: "ptr = Some n" "(n, e) \<in> set (seq (ztree z))" "emember e = m"
      "zset_map z m = Some (escore e)"
      by (rule zset_present [OF inv F(1) [unfolded Some, symmetric]])
    obtain xs ys where s: "seq (ztree z) = xs @ (n, e) # ys"
      using e(2) by (meson split_list)
    then have "zset_list z ! length xs = e" "length xs < length (zset_list z)"
      by (simp_all add: zset_list_def nth_append)
    moreover have "zset_rank m z = Some (Some (length xs), z\<lparr>zdict := d\<rparr>)"
      using f Some e(1) avl_rank_spec [OF D(3) s] by (simp add: zset_rank_def)
    ultimately show ?thesis
      using F(4-6) e(3,4) by simp
  qed
qed

lemma zset_size_spec:
  assumes inv: "zset_invar z"
  shows "zset_size z = length (zset_list z)" "zset_size z = card (dom (zset_map z))"
    "avl_size (ztree z) = zset_size z"
proof -
  note D = zset_invarD [OF inv]
  have dom: "dom (zset_map z) = dom (ht_map (zdict z))"
    by (simp add: set_eq_iff domIff zset_map_None [OF inv])
  show c: "zset_size z = card (dom (zset_map z))"
    by (simp add: zset_size_def ht.size_card [OF D(1)] dom)
  have "dom (zset_map z) = set (map emember (zset_list z))"
    by (simp add: zset_map_def dom_map_of_conv_image_fst image_image entry_pair_def)
  then show l: "zset_size z = length (zset_list z)"
    using c distinct_card [OF zset_members_distinct [OF inv]] by simp
  show "avl_size (ztree z) = zset_size z"
    using l avl_invarD(2) [OF D(3)] by (simp add: avl_size_def zset_list_def)
qed

lemma zset_check_loop:
  assumes "\<forall>(m, p) \<in> set xs. \<exists>n e. p = Some n \<and> avl_deref n t = Some e \<and> emember e = m"
  shows "foldr (\<lambda>(m, ptr) acc. do {
            ok \<leftarrow> acc;
            case ptr of None \<Rightarrow> Some False
            | Some n \<Rightarrow> do { e \<leftarrow> avl_deref n t; Some (ok \<and> emember e = m) } }) xs (Some True) = Some True"
  using assms by (induction xs) auto

lemma zset_check_invariants_ok:
  assumes inv: "zset_invar z"
  shows "zset_check_invariants z = Some True"
proof -
  note D = zset_invarD [OF inv]
  have "\<forall>(m, p) \<in> set (ht_for_each (zdict z)).
    \<exists>n e. p = Some n \<and> avl_deref n (ztree z) = Some e \<and> emember e = m"
    using ht.entries_mem [OF D(1)] linkedD(2) [OF D(4)] avl_deref_spec [OF D(3)] by blast
  from zset_check_loop [OF this] show ?thesis
    using avl_check_invariants_ok [OF D(2)] zset_size_spec(3) [OF inv]
    by (simp add: zset_check_invariants_def zset_size_def)
qed

lemma zset_list_sorted:
  assumes "zset_invar z"
  shows "sorted_wrt entry_less (zset_list z)" "\<forall>e \<in> set (zset_list z). entry_ok e"
  using zset_invarD(2) [OF assms] by (auto simp: avl_sorted_def zset_list_def)

lemma zset_list_mem:
  assumes "zset_invar z"
  shows "e \<in> set (zset_list z) \<longleftrightarrow> zset_map z (emember e) = Some (escore e)"
proof
  assume "e \<in> set (zset_list z)"
  then obtain n where "(n, e) \<in> set (seq (ztree z))"
    by (auto simp: zset_list_def)
  then show "zset_map z (emember e) = Some (escore e)"
    using zset_map_iff [OF assms, of "emember e" "escore e"] by blast
next
  assume "zset_map z (emember e) = Some (escore e)"
  then obtain n e' where e': "(n, e') \<in> set (seq (ztree z))" "emember e' = emember e" "escore e' = escore e"
    using zset_map_iff [OF assms] by blast
  then have "e' = e" by simp
  with e'(1) show "e \<in> set (zset_list z)"
    by (force simp: zset_list_def)
qed

section \<open>Refinement of the map from members to scores\<close>

definition entry_of :: "string \<Rightarrow> f64 \<Rightarrow> entry" where
  "entry_of m s = \<lparr>escore = s, emember = m\<rparr>"

lemma entry_of_id [simp]: "entry_of (emember e) (escore e) = e"
  by (simp add: entry_of_def)

text \<open>The rank of a member: how many entries the order puts before it.\<close>

definition spec_rank :: "(string \<rightharpoonup> f64) \<Rightarrow> string \<Rightarrow> nat option" where
  "spec_rank M m = map_option (\<lambda>s.
     card {k \<in> dom M. entry_less (entry_of k (the (M k))) (entry_of m s)}) (M m)"

lemma card_sorted_prefix:
  assumes "sorted_wrt lt xs" "distinct xs" "i < length xs"
    and asym: "\<And>x y. x \<in> set xs \<Longrightarrow> y \<in> set xs \<Longrightarrow> lt x y \<Longrightarrow> \<not> lt y x"
  shows "card {x \<in> set xs. lt x (xs ! i)} = i"
proof -
  have "{x \<in> set xs. lt x (xs ! i)} = set (take i xs)"
  proof (intro set_eqI iffI)
    fix x assume "x \<in> set (take i xs)"
    then obtain j where "j < i" "x = xs ! j"
      using assms(3) by (auto simp: in_set_conv_nth)
    then show "x \<in> {x \<in> set xs. lt x (xs ! i)}"
      using assms(1,3) by (auto simp: sorted_wrt_iff_nth_less)
  next
    fix x assume "x \<in> {x \<in> set xs. lt x (xs ! i)}"
    then obtain j where j: "j < length xs" "x = xs ! j" "lt (xs ! j) (xs ! i)"
      by (auto simp: in_set_conv_nth)
    have "\<not> i \<le> j"
    proof
      assume "i \<le> j"
      then consider "i = j" | "i < j" by linarith
      then show False
        using j asym [of "xs ! j" "xs ! i"] assms(1,3) by cases (auto simp: sorted_wrt_iff_nth_less)
    qed
    then show "x \<in> set (take i xs)"
      using j assms(3) by (auto simp: in_set_conv_nth intro!: exI [of _ j])
  qed
  then show ?thesis
    using assms(2,3) by (simp add: distinct_card)
qed

lemma zset_rank_card:
  assumes inv: "zset_invar z" and i: "i < length (zset_list z)" and m: "emember (zset_list z ! i) = m"
  shows "spec_rank (zset_map z) m = Some i"
proof -
  let ?M = "zset_map z" and ?xs = "zset_list z"
  let ?e = "?xs ! i"
  have d: "distinct ?xs"
    using zset_members_distinct [OF inv] by (simp add: distinct_map)
  have "?M m = Some (escore ?e)"
    using zset_list_mem [OF inv, of ?e] i m by auto
  moreover have eqe: "entry_of m (escore ?e) = ?e"
    using m by auto
  moreover have "{k \<in> dom ?M. entry_less (entry_of k (the (?M k))) ?e} =
      emember ` {x \<in> set ?xs. entry_less x ?e}" (is "?L = ?R")
  proof (intro set_eqI iffI)
    fix k assume "k \<in> ?L"
    then obtain s where "?M k = Some s" "entry_less (entry_of k s) ?e" by auto
    then have "entry_of k s \<in> {x \<in> set ?xs. entry_less x ?e}"
      by (simp add: zset_list_mem [OF inv] entry_of_def)
    then show "k \<in> ?R" by (force simp: entry_of_def)
  next
    fix k assume "k \<in> ?R"
    then obtain x where "x \<in> set ?xs" "entry_less x ?e" "k = emember x" by auto
    then show "k \<in> ?L"
      using zset_list_mem [OF inv, of x] by auto
  qed
  moreover have "card (emember ` {x \<in> set ?xs. entry_less x ?e}) = card {x \<in> set ?xs. entry_less x ?e}"
    using zset_members_distinct [OF inv] by (intro card_image) (auto simp: distinct_map inj_on_def)
  moreover have "card {x \<in> set ?xs. entry_less x ?e} = i"
    using zset_list_sorted [OF inv] d i zorder.lt_asym by (intro card_sorted_prefix) auto
  ultimately show ?thesis
    by (simp add: spec_rank_def)
qed

datatype zset_op = ZUpsert string f64 | ZErase string | ZScore string | ZRank string | ZSize

datatype zset_out = ZAdded bool | ZErased bool | ZScoreIs "f64 option" | ZRankIs "nat option" | ZSizeIs nat

fun zset_exec :: "zset_op \<Rightarrow> zset \<Rightarrow> (zset_out \<times> zset) ub" where
  "zset_exec (ZUpsert m s) z = do { ((_, b), z') \<leftarrow> zset_upsert m s z; Some (ZAdded b, z') }"
| "zset_exec (ZErase m) z = do { (b, z') \<leftarrow> zset_erase m z; Some (ZErased b, z') }"
| "zset_exec (ZScore m) z = do { (s, z') \<leftarrow> zset_score_of m z; Some (ZScoreIs s, z') }"
| "zset_exec (ZRank m) z = do { (r, z') \<leftarrow> zset_rank m z; Some (ZRankIs r, z') }"
| "zset_exec ZSize z = Some (ZSizeIs (zset_size z), z)"

fun score_exec :: "zset_op \<Rightarrow> (string \<rightharpoonup> f64) \<Rightarrow> zset_out \<times> (string \<rightharpoonup> f64)" where
  "score_exec (ZUpsert m s) M = (ZAdded (M m = None), score_put m s M)"
| "score_exec (ZErase m) M = (ZErased (M m \<noteq> None), M(m := None))"
| "score_exec (ZScore m) M = (ZScoreIs (M m), M)"
| "score_exec (ZRank m) M = (ZRankIs (spec_rank M m), M)"
| "score_exec ZSize M = (ZSizeIs (card (dom M)), M)"

fun run_ub :: "('o \<Rightarrow> 's \<Rightarrow> ('r \<times> 's) ub) \<Rightarrow> 's \<Rightarrow> 'o list \<Rightarrow> ('r list \<times> 's) ub" where
  "run_ub step s [] = Some ([], s)"
| "run_ub step s (x # xs) = do { (r, s') \<leftarrow> step x s; (rs, s'') \<leftarrow> run_ub step s' xs; Some (r # rs, s'') }"

fun op_not_nan :: "zset_op \<Rightarrow> bool" where
  "op_not_nan (ZUpsert m s) = (\<not> f64_isnan s)"
| "op_not_nan _ = True"

lemma zset_exec_refines:
  assumes inv: "zset_invar z" and ok: "op_not_nan x"
  shows "\<exists>z'. zset_exec x z = Some (fst (score_exec x (zset_map z)), z') \<and> zset_invar z' \<and>
    zset_map z' = snd (score_exec x (zset_map z))"
proof (cases x)
  case (ZUpsert m s)
  then show ?thesis
    using zset_upsert_spec [OF inv, of s m] ok by auto
next
  case (ZErase m)
  then show ?thesis
    using zset_erase_spec [OF inv, of m] by auto
next
  case (ZScore m)
  then show ?thesis
    using zset_score_of_spec [OF inv, of m] by auto
next
  case (ZRank m)
  obtain z' r where r: "zset_rank m z = Some (r, z')" "zset_invar z'" "zset_map z' = zset_map z"
    "r = None \<longleftrightarrow> zset_map z m = None"
    "\<And>i. r = Some i \<Longrightarrow> i < length (zset_list z) \<and> emember (zset_list z ! i) = m"
    using zset_rank_spec [OF inv, of m] by auto
  have "r = spec_rank (zset_map z) m"
    using r(4,5) zset_rank_card [OF inv, of _ m] by (cases r) (auto simp: spec_rank_def)
  then show ?thesis
    using r ZRank by simp
next
  case ZSize
  then show ?thesis
    using inv zset_size_spec(2) [OF inv] by simp
qed

lemma run_zset_refines:
  assumes "zset_invar z" "list_all op_not_nan xs"
  shows "\<exists>z'. run_ub zset_exec z xs = Some (fst (run_ops score_exec (zset_map z) xs), z') \<and> zset_invar z' \<and>
    zset_map z' = snd (run_ops score_exec (zset_map z) xs)"
  using assms
proof (induction xs arbitrary: z)
  case Nil
  then show ?case by simp
next
  case (Cons x xs)
  obtain z1 where z1: "zset_exec x z = Some (fst (score_exec x (zset_map z)), z1)" "zset_invar z1"
    "zset_map z1 = snd (score_exec x (zset_map z))"
    using zset_exec_refines [OF Cons.prems(1), of x] Cons.prems(2) by auto
  show ?case
    using Cons.IH [OF z1(2)] Cons.prems(2) z1 by (auto simp: split_beta Let_def)
qed

section \<open>Properties\<close>

text \<open>C10: any history of upserts (with scores that are numbers), erases, score and rank queries on a
  fresh sorted set runs without following a null or dangling node pointer, answers exactly as a plain
  map from members to scores does (the rank of a member being the number of entries that the order by
  score, then member bytes, puts before it), and leaves a structure that passes the code's own
  \<^verbatim>\<open>check_invariants\<close>, lists its entries in that order and holds exactly that map.\<close>

theorem zset_refines_scores:
  assumes "list_all op_not_nan xs"
  shows "\<exists>z. run_ub zset_exec zset_empty xs = Some (fst (run_ops score_exec Map.empty xs), z) \<and>
    zset_map z = snd (run_ops score_exec Map.empty xs) \<and>
    sorted_wrt entry_less (zset_list z) \<and> zset_check_invariants z = Some True"
  using run_zset_refines [OF zset_empty_spec(1) assms] zset_list_sorted(1) zset_check_invariants_ok by force

lemma f64_zero_one_not_nan: "\<not> f64_isnan 0" "\<not> f64_isnan 0x3FF0000000000000"
  by (simp_all add: f64_isnan_def f64_mag_def F64_INF_def)

definition example_history :: "zset_op list" where
  "example_history = [ZUpsert ''b'' 0x3FF0000000000000, ZUpsert ''a'' 0, ZUpsert ''a'' (f64_inf False),
     ZRank ''a'', ZErase ''b'', ZRank ''a'', ZScore ''b'', ZSize]"

theorem zset_refines_scores_witness:
  "\<exists>z. run_ub zset_exec zset_empty example_history =
      Some (fst (run_ops score_exec Map.empty example_history), z) \<and>
    zset_map z = snd (run_ops score_exec Map.empty example_history) \<and>
    sorted_wrt entry_less (zset_list z) \<and> zset_check_invariants z = Some True"
  by (rule zset_refines_scores) (simp add: example_history_def f64_inf_not_nan f64_zero_one_not_nan)

lemma insert_descend_nan:
  assumes "f64_isnan (escore e)" "t \<noteq> Lf"
  shows "insert_descend entry_less e t fs = None"
  using assms by (cases t) (auto simp: nan_incomparable)

text \<open>C11: a NaN score breaks the sorted set. On a well-formed non-empty set, adding a new member
  with a NaN score stores a null node pointer for it: the next read of its score follows the null
  pointer, and the structure no longer passes \<^verbatim>\<open>check_invariants\<close>. The parser lets such a score in:
  \<^verbatim>\<open>parse_double\<close> refuses the spelling \<^verbatim>\<open>nan\<close> only, and takes \<^verbatim>\<open>nan(1)\<close>.\<close>

theorem nan_score_breaks_zset:
  assumes inv: "zset_invar z" and ne: "zset_size z \<noteq> 0" and nan: "f64_isnan sc" and new: "zset_map z m = None"
  shows "\<exists>z'. zset_upsert m sc z = Some ((sc, True), z') \<and> zset_score_of m z' = None \<and>
    zset_check_invariants z' = Some False \<and> parse_double ''nan'' = None \<and>
    map_option f64_isnan (parse_double ''nan(1)'') = Some True"
proof -
  let ?e = "\<lparr>escore = sc, emember = m\<rparr>"
  note D = zset_invarD [OF inv]
  obtain p d where f: "ht_find (zdict z) m = (p, d)" by force
  note F = zset_find [OF inv f]
  have none: "ht_map (zdict z) m = None"
    using new zset_map_None [OF inv] by simp
  have "root (ztree z) \<noteq> Lf"
    using ne zset_size_spec(1) [OF inv] by (auto simp: zset_list_def seq_def)
  then have ins: "avl_insert entry_less ?e (ztree z) = (None, ztree z)"
    using insert_descend_nan [of ?e "root (ztree z)" "[]"] nan by (simp add: avl_insert_def)
  obtain b d' where b: "ht_insert_or_assign d m None = (b, d')" by force
  have d': "ht_invar d'" "ht_map d' = (ht_map (zdict z))(m \<mapsto> None)"
    using ht_insert_spec [OF F(2), of m None] b F(3) by simp_all
  let ?z = "\<lparr>zdict = d', ztree = ztree z\<rparr>"
  have "zset_upsert m sc z = Some ((sc, True), ?z)"
    using f F(1) none ins b by (simp add: zset_upsert_def)
  moreover have "zset_score_of m ?z = None"
    using ht_find_spec [OF d'(1), of m] d'(2) by (simp add: zset_score_of_def split_beta Let_def)
  moreover have "ht_size d' = zset_size z + 1"
    using none ht.size_card [OF d'(1)] ht.size_card [OF D(1)] d'(2) ht.finite_dom_amap [OF D(1)]
    by (simp add: zset_size_def domIff)
  then have "zset_check_invariants ?z = Some False"
    using zset_size_spec(3) [OF inv] by (simp add: zset_check_invariants_def)
  moreover have "map_option f64_isnan (parse_double ''nan(1)'') = Some True"
    by (simp add: parse_double_nan_payload f64_nan_isnan)
  ultimately show ?thesis using parse_double_nan by blast
qed

definition example_zset :: zset where
  "example_zset = snd (the (zset_upsert ''b'' 0 zset_empty))"

lemma example_zset_spec: "zset_invar example_zset" "zset_map example_zset = [''b'' \<mapsto> 0]" "zset_size example_zset = 1"
proof -
  from zset_upsert_spec [OF zset_empty_spec(1) f64_zero_one_not_nan(1), of "''b''"]
  show i: "zset_invar example_zset" and m: "zset_map example_zset = [''b'' \<mapsto> 0]"
    by (auto simp: example_zset_def score_put_def)
  show "zset_size example_zset = 1"
    using zset_size_spec(2) [OF i] m by simp
qed

theorem nan_score_breaks_zset_witness:
  "\<exists>z'. zset_upsert ''m'' (f64_nan False) example_zset = Some ((f64_nan False, True), z') \<and>
    zset_score_of ''m'' z' = None \<and> zset_check_invariants z' = Some False \<and>
    parse_double ''nan'' = None \<and> map_option f64_isnan (parse_double ''nan(1)'') = Some True"
  by (rule nan_score_breaks_zset) (simp_all add: example_zset_spec f64_nan_isnan)

end
