(* ===== verification/Value.thy ===== *)
theory Value
  imports Zset
begin

text \<open>
  The tagged union of \<^verbatim>\<open>storage/value.h\<close> with \<^verbatim>\<open>type_name\<close> and \<^verbatim>\<open>value_element_count\<close>, its
  well-formedness, and the abstract value it stands for: maps, sets and lists without any trace of
  buckets, rehashing or tree shape.
\<close>

datatype val =
    VString string
  | VHash "string hash_table"
  | VList "string list"
  | VSet "unit hash_table"
  | VZSet zset

fun value_element_count :: "val \<Rightarrow> nat" where
  "value_element_count (VString s) = 1"
| "value_element_count (VHash h) = ht_size h"
| "value_element_count (VList l) = length l"
| "value_element_count (VSet s) = ht_size s"
| "value_element_count (VZSet z) = zset_size z"

fun type_name :: "val \<Rightarrow> string" where
  "type_name (VString s) = ''string''"
| "type_name (VHash h) = ''hash''"
| "type_name (VList l) = ''list''"
| "type_name (VSet s) = ''set''"
| "type_name (VZSet z) = ''zset''"

fun val_invar :: "val \<Rightarrow> bool" where
  "val_invar (VString s) = True"
| "val_invar (VHash h) = ht_invar h"
| "val_invar (VList l) = True"
| "val_invar (VSet s) = ht_invar s"
| "val_invar (VZSet z) = zset_invar z"

text \<open>Redis never keeps an empty aggregate; the handlers restore this after every removal.\<close>

definition val_nonempty :: "val \<Rightarrow> bool" where
  "val_nonempty v \<longleftrightarrow> value_element_count v \<noteq> 0"

datatype aval =
    AString string
  | AHash "string \<rightharpoonup> string"
  | AList "string list"
  | ASet "string set"
  | AZSet "string \<rightharpoonup> f64"

fun val_abs :: "val \<Rightarrow> aval" where
  "val_abs (VString s) = AString s"
| "val_abs (VHash h) = AHash (ht_map h)"
| "val_abs (VList l) = AList l"
| "val_abs (VSet s) = ASet (dom (ht_map s))"
| "val_abs (VZSet z) = AZSet (zset_map z)"

fun aval_count :: "aval \<Rightarrow> nat" where
  "aval_count (AString s) = 1"
| "aval_count (AHash h) = card (dom h)"
| "aval_count (AList l) = length l"
| "aval_count (ASet s) = card s"
| "aval_count (AZSet z) = card (dom z)"

lemma element_count_abs: "val_invar v \<Longrightarrow> value_element_count v = aval_count (val_abs v)"
  by (cases v) (simp_all add: ht.size_card zset_size_spec(2))

lemma val_nonempty_string [simp]: "val_nonempty (VString s)"
  by (simp add: val_nonempty_def)

lemma val_nonempty_list [simp]: "val_nonempty (VList l) \<longleftrightarrow> l \<noteq> []"
  by (simp add: val_nonempty_def)

lemma val_nonempty_hash: "ht_invar h \<Longrightarrow> val_nonempty (VHash h) \<longleftrightarrow> ht_map h \<noteq> Map.empty"
  by (simp add: val_nonempty_def ht.size_zero)

lemma val_nonempty_set: "ht_invar h \<Longrightarrow> val_nonempty (VSet h) \<longleftrightarrow> ht_map h \<noteq> Map.empty"
  by (simp add: val_nonempty_def ht.size_zero)

lemma val_nonempty_zset:
  assumes "zset_invar z"
  shows "val_nonempty (VZSet z) \<longleftrightarrow> zset_map z \<noteq> Map.empty"
proof -
  have "finite (dom (zset_map z))"
    by (simp add: zset_map_def finite_dom_map_of)
  then show ?thesis
    using zset_size_spec(2) [OF assms] by (simp add: val_nonempty_def card_eq_0_iff)
qed

end
