(* ===== verification/Prio_Queue.thy ===== *)
theory Prio_Queue
  imports Prelude "HOL-Library.Multiset"
begin

text \<open>
  \<^verbatim>\<open>std::priority_queue\<close> with a comparator that makes it a min-heap on an integer key, as the expiry
  heap and the timer queue use it. The interface is the locale \<open>prio_queue\<close>: a bag of elements
  whose top has a least key; \<^verbatim>\<open>top()\<close> and \<^verbatim>\<open>pop()\<close> on an empty queue are undefined behaviour. The
  standard leaves the order of equal keys open; nothing below the interface depends on it. The
  instance keeps the elements in key order, equal keys in order of insertion.
\<close>

definition pq_push :: "('a \<Rightarrow> int) \<Rightarrow> 'a \<Rightarrow> 'a list \<Rightarrow> 'a list" where
  "pq_push key x q = takeWhile (\<lambda>y. key y \<le> key x) q @ x # dropWhile (\<lambda>y. key y \<le> key x) q"

definition pq_top :: "'a list \<Rightarrow> 'a ub" where
  "pq_top q = (case q of [] \<Rightarrow> None | x # _ \<Rightarrow> Some x)"

definition pq_pop :: "'a list \<Rightarrow> 'a list ub" where
  "pq_pop q = (case q of [] \<Rightarrow> None | _ # q' \<Rightarrow> Some q')"

definition pq_ordered :: "('a \<Rightarrow> int) \<Rightarrow> 'a list \<Rightarrow> bool" where
  "pq_ordered key q \<longleftrightarrow> sorted_wrt (\<lambda>x y. key x \<le> key y) q"

locale prio_queue =
  fixes key :: "'a \<Rightarrow> int" and invar :: "'q \<Rightarrow> bool" and bag :: "'q \<Rightarrow> 'a multiset" and qnil :: 'q
    and qpush :: "'a \<Rightarrow> 'q \<Rightarrow> 'q" and qtop :: "'q \<Rightarrow> 'a ub" and qpop :: "'q \<Rightarrow> 'q ub"
  assumes q_nil: "invar qnil" "bag qnil = {#}"
    and q_push: "invar q \<Longrightarrow> invar (qpush x q)" "invar q \<Longrightarrow> bag (qpush x q) = add_mset x (bag q)"
    and q_top: "invar q \<Longrightarrow> bag q \<noteq> {#} \<Longrightarrow>
      \<exists>x q'. qtop q = Some x \<and> qpop q = Some q' \<and> invar q' \<and> bag q = add_mset x (bag q') \<and>
        (\<forall>y \<in># bag q. key x \<le> key y)"
    and q_empty: "invar q \<Longrightarrow> bag q = {#} \<Longrightarrow> qtop q = None \<and> qpop q = None"
begin

lemma top_Some:
  assumes "invar q" "qtop q = Some x"
  obtains q' where "qpop q = Some q'" "invar q'" "bag q = add_mset x (bag q')" "\<forall>y \<in># bag q. key x \<le> key y"
  using q_top [OF assms(1)] q_empty [OF assms(1)] assms(2) that
  by (metis option.distinct(1) option.sel)

text \<open>When the top is not due, nothing is: the early exit of both loops over a queue.\<close>

lemma head_not_due:
  assumes "invar q" "qtop q = Some x" "now < key x" "y \<in># bag q"
  shows "now < key y"
  using top_Some [OF assms(1,2)] assms(3,4) by (metis order_less_le_trans)

text \<open>Rebuilding a queue from a list of elements.\<close>

lemma push_all:
  assumes "invar q"
  shows "invar (fold qpush xs q) \<and> bag (fold qpush xs q) = bag q + mset xs"
  using assms by (induction xs arbitrary: q) (simp_all add: q_push)

end

lemma mset_takeWhile_dropWhile: "mset (takeWhile P xs) + mset (dropWhile P xs) = mset xs"
  by (metis mset_append takeWhile_dropWhile_id)

lemma pq_push_mset: "mset (pq_push key x q) = add_mset x (mset q)"
  by (simp add: pq_push_def mset_takeWhile_dropWhile)

lemma pq_push_ordered:
  assumes "pq_ordered key q"
  shows "pq_ordered key (pq_push key x q)"
proof -
  let ?P = "\<lambda>y. key y \<le> key x"
  have "sorted_wrt (\<lambda>x y. key x \<le> key y) (takeWhile ?P q @ dropWhile ?P q)"
    using assms by (simp add: pq_ordered_def)
  moreover have "\<forall>y \<in> set (takeWhile ?P q). key y \<le> key x"
    by (auto dest: set_takeWhileD)
  moreover have "\<forall>y \<in> set (dropWhile ?P q). key x \<le> key y"
  proof (cases "dropWhile ?P q")
    case Nil
    then show ?thesis unfolding Nil by simp
  next
    case (Cons z zs)
    then have "\<not> ?P z"
      using hd_dropWhile [of ?P q] by simp
    then show ?thesis
      using calculation(1) unfolding Cons by (auto simp: sorted_wrt_append)
  qed
  ultimately show ?thesis
    unfolding pq_ordered_def pq_push_def sorted_wrt_append sorted_wrt.simps
    by (metis Un_iff list.set(2) insert_iff order_trans)
qed

interpretation pq: prio_queue key "pq_ordered key" mset "[]" "pq_push key" pq_top pq_pop for key
proof unfold_locales
  fix q :: "'a list"
  show "\<exists>x q'. pq_top q = Some x \<and> pq_pop q = Some q' \<and> pq_ordered key q' \<and> mset q = add_mset x (mset q') \<and>
      (\<forall>y \<in># mset q. key x \<le> key y)" if "pq_ordered key q" "mset q \<noteq> {#}"
    using that by (cases q) (auto simp: pq_top_def pq_pop_def pq_ordered_def)
qed (simp_all add: pq_ordered_def pq_push_mset pq_top_def pq_pop_def
      pq_push_ordered [unfolded pq_ordered_def])

end
