(* ===== verification/Expiry.thy ===== *)
theory Expiry
  imports Hash_Table Prio_Queue
begin

text \<open>The min-heap of deadlines of \<^verbatim>\<open>storage/expiry.h\<close>, on the priority queue of \<open>Prio_Queue\<close>.\<close>

record exp_entry =
  deadline_ms :: int
  ekey :: string

type_synonym expiry_heap = "exp_entry list"

definition heap_push :: "int \<Rightarrow> string \<Rightarrow> expiry_heap \<Rightarrow> expiry_heap" where
  "heap_push d k h = pq_push deadline_ms \<lparr>deadline_ms = d, ekey = k\<rparr> h"

definition heap_empty :: "expiry_heap \<Rightarrow> bool" where "heap_empty h \<longleftrightarrow> h = []"
definition heap_size :: "expiry_heap \<Rightarrow> nat" where "heap_size h = length h"
definition heap_top :: "expiry_heap \<Rightarrow> exp_entry ub" where "heap_top h = pq_top h"
definition heap_pop :: "expiry_heap \<Rightarrow> expiry_heap ub" where "heap_pop h = pq_pop h"
definition heap_clear :: "expiry_heap \<Rightarrow> expiry_heap" where "heap_clear h = []"

definition rebuild_from :: "int hash_table \<Rightarrow> expiry_heap" where
  "rebuild_from live_ttls = fold (\<lambda>(k, d) h. heap_push d k h) (ht_for_each live_ttls) []"

definition heap_ok :: "expiry_heap \<Rightarrow> bool" where
  "heap_ok h \<longleftrightarrow> pq_ordered deadline_ms h"

definition heap_has :: "expiry_heap \<Rightarrow> string \<Rightarrow> int \<Rightarrow> bool" where
  "heap_has h k d \<longleftrightarrow> \<lparr>deadline_ms = d, ekey = k\<rparr> \<in> set h"

lemma heap_push_ok [simp]: "heap_ok h \<Longrightarrow> heap_ok (heap_push d k h)"
  by (simp add: heap_ok_def heap_push_def pq.q_push)

lemma heap_push_set: "set (heap_push d k h) = insert \<lparr>deadline_ms = d, ekey = k\<rparr> (set h)"
  using pq_push_mset [of deadline_ms "\<lparr>deadline_ms = d, ekey = k\<rparr>" h] unfolding heap_push_def
  by (metis set_mset_add_mset_insert set_mset_mset)

lemma heap_push_has: "heap_has (heap_push d k h) k' d' \<longleftrightarrow> (k' = k \<and> d' = d) \<or> heap_has h k' d'"
  by (auto simp: heap_has_def heap_push_set)

lemma heap_nil [simp]: "heap_ok []" "\<not> heap_has [] k d"
  by (simp_all add: heap_ok_def pq_ordered_def heap_has_def)

text \<open>The top is a least deadline; popping removes just that entry.\<close>

lemma heap_top_pop:
  assumes "heap_ok h" "\<not> heap_empty h"
  obtains e h' where "heap_top h = Some e" "heap_pop h = Some h'" "heap_ok h'" "mset h = add_mset e (mset h')"
    "\<forall>x \<in> set h. deadline_ms e \<le> deadline_ms x"
  using pq.q_top [of deadline_ms h] assms that
  unfolding heap_ok_def heap_empty_def heap_top_def heap_pop_def by auto

lemma heap_pop_length: "heap_pop h = Some h' \<Longrightarrow> length h' < length h"
  by (auto simp: heap_pop_def pq_pop_def split: list.splits)

lemma rebuild_from_fold:
  "rebuild_from t = fold (pq_push deadline_ms) (map (\<lambda>(k, d). \<lparr>deadline_ms = d, ekey = k\<rparr>) (ht_for_each t)) []"
  by (simp add: rebuild_from_def heap_push_def fold_map comp_def case_prod_beta')

lemma rebuild_from_spec:
  assumes "ht_invar t"
  shows "heap_ok (rebuild_from t)" "heap_has (rebuild_from t) k d \<longleftrightarrow> ht_map t k = Some d"
    "heap_size (rebuild_from t) = ht_size t"
proof -
  let ?xs = "map (\<lambda>(k, d). \<lparr>deadline_ms = d, ekey = k\<rparr>) (ht_for_each t)"
  have P: "pq_ordered deadline_ms (rebuild_from t)" "mset (rebuild_from t) = mset ?xs"
    using pq.push_all [of deadline_ms "[]" ?xs] by (simp_all add: rebuild_from_fold pq_ordered_def)
  show "heap_ok (rebuild_from t)"
    using P(1) by (simp add: heap_ok_def)
  have "set (rebuild_from t) = set ?xs"
    using P(2) by (metis set_mset_mset)
  then show "heap_has (rebuild_from t) k d \<longleftrightarrow> ht_map t k = Some d"
    using ht.entries_mem [OF assms, of k d] by (force simp: heap_has_def)
  show "heap_size (rebuild_from t) = ht_size t"
    using mset_eq_length [OF P(2)] ht_for_each_spec(3) [OF assms] by (simp add: heap_size_def)
qed

end
