(* ===== verification/Database.thy ===== *)
theory Database
  imports Value Expiry
begin

text \<open>
  The keyspace of \<^verbatim>\<open>storage/database.cpp\<close>: values, deadlines and the expiry heap. The clock is an
  argument, as in the code. A \<^verbatim>\<open>Value*\<close> returned by a lookup is the value together with the right to
  store through it (\<open>db_write\<close>). The abstract state is \<open>db_live db now\<close>, the keys that a client can
  see at time \<open>now\<close> with their values and remaining deadlines; lazy deletion, the active expiration
  cycle, heap compaction and rehashing are invisible in it.
\<close>

section \<open>State and operations\<close>

record database =
  keyspace :: "val hash_table"
  expires :: "int hash_table"
  heap :: expiry_heap

record detached_keyspace =
  dkeyspace :: "val hash_table"
  dexpires :: "int hash_table"

definition db_empty_init :: database where
  "db_empty_init = \<lparr>keyspace = reset_to_empty, expires = reset_to_empty, heap = []\<rparr>"

definition lookup_and_expire :: "string \<Rightarrow> int \<Rightarrow> database \<Rightarrow> val option \<times> database" where
  "lookup_and_expire key now_ms db =
    (let (deadline, ex) = ht_find (expires db) key;
         expired = (case deadline of None \<Rightarrow> False | Some d \<Rightarrow> d \<le> now_ms) in
     if expired then
       (None, db\<lparr>keyspace := snd (ht_erase (keyspace db) key), expires := snd (ht_erase ex key)\<rparr>)
     else
       let (v, ks) = ht_find (keyspace db) key in (v, db\<lparr>keyspace := ks, expires := ex\<rparr>))"

definition lookup_read :: "string \<Rightarrow> int \<Rightarrow> database \<Rightarrow> val option \<times> database" where
  "lookup_read key now_ms db = lookup_and_expire key now_ms db"

definition lookup_write :: "string \<Rightarrow> int \<Rightarrow> database \<Rightarrow> val option \<times> database" where
  "lookup_write key now_ms db = lookup_and_expire key now_ms db"

text \<open>A store through the \<^verbatim>\<open>Value*\<close> that a lookup of \<open>key\<close> returned.\<close>

definition db_write :: "string \<Rightarrow> val \<Rightarrow> database \<Rightarrow> database" where
  "db_write key v db = db\<lparr>keyspace := ht_write (keyspace db) key v\<rparr>"

definition db_set :: "string \<Rightarrow> val \<Rightarrow> database \<Rightarrow> database" where
  "db_set key v db =
     db\<lparr>expires := snd (ht_erase (expires db) key), keyspace := snd (ht_insert_or_assign (keyspace db) key v)\<rparr>"

definition db_del :: "string \<Rightarrow> database \<Rightarrow> bool \<times> database" where
  "db_del key db =
    (let ex = snd (ht_erase (expires db) key); (b, ks) = ht_erase (keyspace db) key
     in (b, db\<lparr>expires := ex, keyspace := ks\<rparr>))"

definition db_take :: "string \<Rightarrow> int \<Rightarrow> database \<Rightarrow> val option \<times> database" where
  "db_take key now_ms db =
    (let (v, db1) = lookup_and_expire key now_ms db in
     if v = None then (None, db1)
     else let ex = snd (ht_erase (expires db1) key); (taken, ks) = ht_take (keyspace db1) key
          in (taken, db1\<lparr>expires := ex, keyspace := ks\<rparr>))"

definition db_take_all :: "database \<Rightarrow> detached_keyspace \<times> database" where
  "db_take_all db =
    (\<lparr>dkeyspace = keyspace db, dexpires = expires db\<rparr>,
     \<lparr>keyspace = reset_to_empty, expires = reset_to_empty, heap = heap_clear (heap db)\<rparr>)"

definition db_clear :: "database \<Rightarrow> database" where
  "db_clear db = db\<lparr>keyspace := ht_clear (keyspace db), expires := ht_clear (expires db)\<rparr>"

definition db_size :: "database \<Rightarrow> nat" where "db_size db = ht_size (keyspace db)"
definition db_is_empty :: "database \<Rightarrow> bool" where "db_is_empty db = ht_empty (keyspace db)"

definition db_rehash_step :: "nat \<Rightarrow> database \<Rightarrow> database" where
  "db_rehash_step budget db = db\<lparr>keyspace := rehash_step budget (keyspace db)\<rparr>"

definition expire_at :: "string \<Rightarrow> int \<Rightarrow> int \<Rightarrow> database \<Rightarrow> bool \<times> database" where
  "expire_at key deadline now_ms db =
    (let (v, db1) = lookup_and_expire key now_ms db in
     if v = None then (False, db1)
     else if deadline \<le> now_ms then
       (True, db1\<lparr>keyspace := snd (ht_erase (keyspace db1) key), expires := snd (ht_erase (expires db1) key)\<rparr>)
     else
       (True, db1\<lparr>expires := snd (ht_insert_or_assign (expires db1) key deadline),
                  heap := heap_push deadline key (heap db1)\<rparr>))"

definition db_persist :: "string \<Rightarrow> int \<Rightarrow> database \<Rightarrow> bool \<times> database" where
  "db_persist key now_ms db =
    (let (v, db1) = lookup_and_expire key now_ms db in
     if v = None then (False, db1)
     else let (b, ex) = ht_erase (expires db1) key in (b, db1\<lparr>expires := ex\<rparr>))"

text \<open>Signed subtraction that must not leave the 64-bit range.\<close>

definition i64_checked :: "int \<Rightarrow> int ub" where
  "i64_checked x = (if in_i64 x then Some x else None)"

definition db_pttl :: "string \<Rightarrow> int \<Rightarrow> database \<Rightarrow> (int \<times> database) ub" where
  "db_pttl key now_ms db =
    (let (v, db1) = lookup_and_expire key now_ms db in
     if v = None then Some (-2, db1)
     else let (deadline, ex) = ht_find (expires db1) key; db2 = db1\<lparr>expires := ex\<rparr> in
       case deadline of
         None \<Rightarrow> Some (-1, db2)
       | Some d \<Rightarrow> do { remaining \<leftarrow> i64_checked (d - now_ms);
                       Some (if remaining > 0 then remaining else 0, db2) })"

definition maybe_compact_expiry_heap :: "database \<Rightarrow> database" where
  "maybe_compact_expiry_heap db =
    (if heap_size (heap db) > 2 * (ht_size (expires db) + 1024)
     then db\<lparr>heap := rebuild_from (expires db)\<rparr> else db)"

text \<open>
  The loop of the active expiration cycle. \<open>late i\<close> is the answer of the \<open>i\<close>-th reading of the steady
  clock: has the wall-time budget been used up?
\<close>

function expire_loop :: "int \<Rightarrow> nat \<Rightarrow> (nat \<Rightarrow> bool) \<Rightarrow> nat \<Rightarrow> nat \<Rightarrow> database \<Rightarrow> (nat \<times> database) ub" where
  "expire_loop now_ms max_keys late i expired db =
    (if \<not> (expired < max_keys \<and> \<not> heap_empty (heap db)) then Some (expired, db)
     else case heap_top (heap db) of
       None \<Rightarrow> None
     | Some top_entry \<Rightarrow>
         if deadline_ms top_entry > now_ms then Some (expired, db)
         else case heap_pop (heap db) of
           None \<Rightarrow> None
         | Some h \<Rightarrow>
             let key = ekey top_entry;
                 (live_deadline, ex) = ht_find (expires db) key;
                 is_live = (live_deadline = Some (deadline_ms top_entry));
                 db' = (if is_live
                        then db\<lparr>heap := h, keyspace := snd (ht_erase (keyspace db) key), expires := snd (ht_erase ex key)\<rparr>
                        else db\<lparr>heap := h, expires := ex\<rparr>);
                 expired' = (if is_live then expired + 1 else expired) in
             if late i then Some (expired', db')
             else expire_loop now_ms max_keys late (i + 1) expired' db')"
  by pat_completeness auto
termination
  by (relation "measure (\<lambda>(_, _, _, _, _, db). length (heap db))") (auto dest: heap_pop_length)

declare expire_loop.simps [simp del]

definition run_active_expiration_cycle :: "int \<Rightarrow> nat \<Rightarrow> (nat \<Rightarrow> bool) \<Rightarrow> database \<Rightarrow> (nat \<times> database) ub" where
  "run_active_expiration_cycle now_ms max_keys late db = do {
     (expired, db') \<leftarrow> expire_loop now_ms max_keys late 0 0 db;
     Some (expired, maybe_compact_expiry_heap db')
   }"

text \<open>
  The visit of \<^verbatim>\<open>for_each_for_snapshot\<close>: the calls of the callback in order. Each visit searches the
  deadline table, which may migrate buckets of that table (never of the one being iterated).
\<close>

fun snapshot_visit :: "int \<Rightarrow> int \<Rightarrow> int hash_table \<Rightarrow> (string \<times> val) list \<Rightarrow>
    ((string \<times> val \<times> int option) list \<times> int hash_table) ub" where
  "snapshot_visit now_mono now_unix ex [] = Some ([], ex)"
| "snapshot_visit now_mono now_unix ex ((key, v) # kvs) =
    (case ht_find ex key of
       (None, ex') \<Rightarrow> do {
         (rest, ex'') \<leftarrow> snapshot_visit now_mono now_unix ex' kvs;
         Some ((key, v, None) # rest, ex'') }
     | (Some deadline, ex') \<Rightarrow>
         if deadline \<le> now_mono then snapshot_visit now_mono now_unix ex' kvs
         else do {
           remaining \<leftarrow> i64_checked (deadline - now_mono);
           unix \<leftarrow> i64_checked (now_unix + remaining);
           (rest, ex'') \<leftarrow> snapshot_visit now_mono now_unix ex' kvs;
           Some ((key, v, Some unix) # rest, ex'') })"

definition for_each_for_snapshot :: "int \<Rightarrow> int \<Rightarrow> database \<Rightarrow>
    ((string \<times> val \<times> int option) list \<times> database) ub" where
  "for_each_for_snapshot now_mono now_unix db = do {
     (calls, ex) \<leftarrow> snapshot_visit now_mono now_unix (expires db) (ht_for_each (keyspace db));
     Some (calls, db\<lparr>expires := ex\<rparr>)
   }"

definition load_key :: "string \<Rightarrow> val \<Rightarrow> int option \<Rightarrow> int \<Rightarrow> int \<Rightarrow> database \<Rightarrow> database" where
  "load_key key v expire_unix_ms now_mono now_unix db =
    (case expire_unix_ms of
       None \<Rightarrow> db\<lparr>keyspace := snd (ht_insert_or_assign (keyspace db) key v)\<rparr>
     | Some e \<Rightarrow>
         if sub_would_overflow e now_unix \<or> add_would_overflow now_mono (e - now_unix) then db
         else let deadline_mono = now_mono + (e - now_unix) in
           if deadline_mono \<le> now_mono then db
           else db\<lparr>expires := snd (ht_insert_or_assign (expires db) key deadline_mono),
                   heap := heap_push deadline_mono key (heap db),
                   keyspace := snd (ht_insert_or_assign (keyspace db) key v)\<rparr>)"

section \<open>Invariant and abstract state\<close>

definition db_wf :: "database \<Rightarrow> bool" where
  "db_wf db \<longleftrightarrow> ht_invar (keyspace db) \<and> ht_invar (expires db) \<and>
     dom (ht_map (expires db)) \<subseteq> dom (ht_map (keyspace db)) \<and> heap_ok (heap db) \<and>
     (\<forall>k d. ht_map (expires db) k = Some d \<longrightarrow> in_i64 d \<and> heap_has (heap db) k d) \<and>
     (\<forall>k v. ht_map (keyspace db) k = Some v \<longrightarrow> val_invar v)"

definition db_full :: "database \<Rightarrow> bool" where
  "db_full db \<longleftrightarrow> (\<forall>k v. ht_map (keyspace db) k = Some v \<longrightarrow> val_nonempty v)"

definition db_invar :: "database \<Rightarrow> bool" where
  "db_invar db \<longleftrightarrow> db_wf db \<and> db_full db"

definition live :: "(string \<rightharpoonup> 'v) \<Rightarrow> (string \<rightharpoonup> int) \<Rightarrow> int \<Rightarrow> (string \<rightharpoonup> 'v \<times> int option)" where
  "live K E now k =
    (case K k of None \<Rightarrow> None
     | Some v \<Rightarrow> (case E k of None \<Rightarrow> Some (v, None)
                  | Some d \<Rightarrow> if d \<le> now then None else Some (v, Some d)))"

definition db_live :: "database \<Rightarrow> int \<Rightarrow> (string \<rightharpoonup> val \<times> int option)" where
  "db_live db now = live (ht_map (keyspace db)) (ht_map (expires db)) now"

definition db_view :: "database \<Rightarrow> int \<Rightarrow> (string \<rightharpoonup> aval \<times> int option)" where
  "db_view db now = (\<lambda>k. map_option (apfst val_abs) (db_live db now k))"

lemma live_drop: "live (K(k := None)) (E(k := None)) t = (live K E t)(k := None)"
  by (rule ext) (auto simp: live_def split: option.splits)

lemma live_set: "live (K(k \<mapsto> v)) (E(k := None)) t = (live K E t)(k \<mapsto> (v, None))"
  by (rule ext) (auto simp: live_def split: option.splits)

lemma live_write: "live (K(k \<mapsto> v)) E t = (live K E t)(k :=
    (case E k of None \<Rightarrow> Some (v, None) | Some d \<Rightarrow> if d \<le> t then None else Some (v, Some d)))"
  by (rule ext) (auto simp: live_def split: option.splits)

lemma live_ttl: "K k = Some v \<Longrightarrow>
    live K (E(k \<mapsto> d)) t = (live K E t)(k := if d \<le> t then None else Some (v, Some d))"
  by (rule ext) (auto simp: live_def split: option.splits)

lemma live_persist: "K k = Some v \<Longrightarrow> live K (E(k := None)) t = (live K E t)(k \<mapsto> (v, None))"
  by (rule ext) (auto simp: live_def split: option.splits)

lemma db_wfD:
  assumes "db_wf db"
  shows "ht_invar (keyspace db)" "ht_invar (expires db)" "heap_ok (heap db)"
    "ht_map (expires db) k = Some d \<Longrightarrow> in_i64 d \<and> heap_has (heap db) k d \<and> ht_map (keyspace db) k \<noteq> None"
    "ht_map (keyspace db) k = Some v \<Longrightarrow> val_invar v"
    "ht_map (keyspace db) k = None \<Longrightarrow> ht_map (expires db) k = None"
  using assms unfolding db_wf_def by (blast, blast, blast, blast, blast, metis domIff subsetD)

lemma db_wfI:
  assumes "ht_invar (keyspace db)" "ht_invar (expires db)" "heap_ok (heap db)"
    "\<And>k d. ht_map (expires db) k = Some d \<Longrightarrow> in_i64 d \<and> heap_has (heap db) k d \<and> ht_map (keyspace db) k \<noteq> None"
    "\<And>k v. ht_map (keyspace db) k = Some v \<Longrightarrow> val_invar v"
  shows "db_wf db"
  using assms unfolding db_wf_def by blast

lemma db_live_cong:
  assumes "ht_map (keyspace db') = ht_map (keyspace db)" "ht_map (expires db') = ht_map (expires db)"
  shows "db_live db' t = db_live db t" "db_full db' = db_full db"
  using assms by (simp_all add: db_live_def db_full_def)

lemma db_wf_cong:
  assumes "db_wf db" "ht_invar (keyspace db')" "ht_invar (expires db')" "heap db' = heap db"
    "ht_map (keyspace db') = ht_map (keyspace db)" "ht_map (expires db') = ht_map (expires db)"
  shows "db_wf db'"
  using assms by (auto simp: db_wf_def)

text \<open>Removing a key from both tables, the step that every form of deletion shares.\<close>

lemma drop_key:
  assumes "db_wf db" "ht_invar (keyspace db')" "ht_invar (expires db')" "heap_ok (heap db')"
    "\<And>k' d'. k' \<noteq> k \<Longrightarrow> ht_map (expires db) k' = Some d' \<Longrightarrow> heap_has (heap db') k' d'"
    "ht_map (keyspace db') = (ht_map (keyspace db))(k := None)"
    "ht_map (expires db') = (ht_map (expires db))(k := None)"
  shows "db_wf db'" "db_live db' t = (db_live db t)(k := None)" "db_full db \<Longrightarrow> db_full db'"
proof -
  show "db_wf db'"
  proof (rule db_wfI)
    fix k' d'
    assume "ht_map (expires db') k' = Some d'"
    then have "k' \<noteq> k" "ht_map (expires db) k' = Some d'"
      using assms(7) by (simp_all split: if_splits)
    then show "in_i64 d' \<and> heap_has (heap db') k' d' \<and> ht_map (keyspace db') k' \<noteq> None"
      using assms(5,6) db_wfD(4) [OF assms(1), of k' d'] by simp
  next
    fix k' v
    assume "ht_map (keyspace db') k' = Some v"
    then show "val_invar v"
      using db_wfD(5) [OF assms(1), of k' v] assms(6) by (simp split: if_splits)
  qed (use assms in simp_all)
  show "db_live db' t = (db_live db t)(k := None)"
    using assms(6,7) by (simp add: db_live_def live_drop)
  show "db_full db \<Longrightarrow> db_full db'"
    using assms(6) by (simp add: db_full_def)
qed

section \<open>What the operations do\<close>

lemma lookup_spec:
  assumes wf: "db_wf db" and res: "lookup_and_expire k now db = (v, db')"
  shows "v = map_option fst (db_live db now k)" "db_wf db'" "db_full db \<Longrightarrow> db_full db'"
    "\<And>t. now \<le> t \<Longrightarrow> db_live db' t = db_live db t" "ht_map (keyspace db') k = v"
    "\<And>d. ht_map (expires db') k = Some d \<Longrightarrow> now < d \<and> v \<noteq> None" "heap db' = heap db"
proof -
  note D = db_wfD [OF wf]
  obtain dl ex where f: "ht_find (expires db) k = (dl, ex)" by force
  have dl: "dl = ht_map (expires db) k" and ex: "ht_invar ex" "ht_map ex = ht_map (expires db)"
    using ht_find_spec [OF D(2), of k] f by simp_all
  let ?late = "case dl of None \<Rightarrow> False | Some d \<Rightarrow> d \<le> now"
  have all: "v = map_option fst (db_live db now k) \<and> db_wf db' \<and> (db_full db \<longrightarrow> db_full db') \<and>
    (\<forall>t \<ge> now. db_live db' t = db_live db t) \<and> ht_map (keyspace db') k = v \<and>
    (\<forall>d. ht_map (expires db') k = Some d \<longrightarrow> now < d \<and> v \<noteq> None) \<and> heap db' = heap db"
  proof (cases ?late)
    case True
    let ?ks = "snd (ht_erase (keyspace db) k)" and ?ex = "snd (ht_erase ex k)"
    from True obtain d where d: "ht_map (expires db) k = Some d" "d \<le> now"
      using dl by (auto split: option.splits)
    have db': "keyspace db' = ?ks" "expires db' = ?ex" "heap db' = heap db" "v = None"
      using res f True by (auto simp: lookup_and_expire_def)
    have m: "ht_map (keyspace db') = (ht_map (keyspace db))(k := None)"
      "ht_map (expires db') = (ht_map (expires db))(k := None)"
      using ht_erase_spec(3) [OF D(1)] ht_erase_spec(3) [OF ex(1)] ex(2) db' by simp_all
    have X: "db_wf db'" "\<And>t. db_live db' t = (db_live db t)(k := None)" "db_full db \<Longrightarrow> db_full db'"
      using drop_key [OF wf _ _ _ _ m] ht_erase_spec(2) [OF D(1)] ht_erase_spec(2) [OF ex(1)] D(3,4) db'
      by simp_all
    have "(db_live db t)(k := None) = db_live db t" if "now \<le> t" for t
      using d that by (intro fun_upd_idem) (auto simp: db_live_def live_def split: option.splits)
    then show ?thesis
      using X db' m d by (auto simp: db_live_def live_def split: option.splits)
  next
    case False
    obtain ks where ks: "ht_find (keyspace db) k = (v, ks)" "db' = db\<lparr>keyspace := ks, expires := ex\<rparr>"
      using res f False by (auto simp: lookup_and_expire_def split: prod.splits)
    have K: "v = ht_map (keyspace db) k" "ht_invar ks" "ht_map ks = ht_map (keyspace db)"
      using ht_find_spec [OF D(1), of k] ks(1) by simp_all
    have "\<And>t. db_live db' t = db_live db t" "db_full db' = db_full db" "db_wf db'"
      using K ex ks(2) by (auto intro!: db_live_cong db_wf_cong [OF wf])
    moreover have "v = map_option fst (db_live db now k)"
      using False K(1) dl by (auto simp: db_live_def live_def split: option.splits)
    moreover have "now < d \<and> v \<noteq> None" if "ht_map (expires db) k = Some d" for d
      using that False dl D(4) [OF that] K(1) by simp
    ultimately show ?thesis
      using K ex ks(2) by simp
  qed
  show "v = map_option fst (db_live db now k)" "db_wf db'" "db_full db \<Longrightarrow> db_full db'"
    "\<And>t. now \<le> t \<Longrightarrow> db_live db' t = db_live db t" "ht_map (keyspace db') k = v"
    "\<And>d. ht_map (expires db') k = Some d \<Longrightarrow> now < d \<and> v \<noteq> None" "heap db' = heap db"
    using all by blast+
qed

lemma db_write_spec:
  assumes wf: "db_wf db" and v: "val_invar v" and k: "ht_map (keyspace db) k = Some u"
  shows "db_wf (db_write k v db)" "db_full db \<Longrightarrow> val_nonempty v \<Longrightarrow> db_full (db_write k v db)"
    "\<And>t. db_live (db_write k v db) t = (db_live db t)(k := map_option (apfst (\<lambda>_. v)) (db_live db t k))"
    "ht_map (keyspace (db_write k v db)) = (ht_map (keyspace db))(k \<mapsto> v)"
    "expires (db_write k v db) = expires db"
proof -
  note D = db_wfD [OF wf]
  show m: "ht_map (keyspace (db_write k v db)) = (ht_map (keyspace db))(k \<mapsto> v)"
    using ht_map_write [OF D(1), of k v] k by (simp add: db_write_def domI)
  show e: "expires (db_write k v db) = expires db"
    by (simp add: db_write_def)
  show "db_wf (db_write k v db)"
    using wf v ht_write_spec(1) [OF D(1)] unfolding db_wf_def m e
    by (auto simp: db_write_def)
  show "db_full db \<Longrightarrow> val_nonempty v \<Longrightarrow> db_full (db_write k v db)"
    by (simp add: db_full_def m)
  show "db_live (db_write k v db) t = (db_live db t)(k := map_option (apfst (\<lambda>_. v)) (db_live db t k))" for t
    using k by (simp add: db_live_def m e live_write) (simp add: live_def split: option.splits)
qed

lemma db_set_spec:
  assumes wf: "db_wf db" and v: "val_invar v"
  shows "db_wf (db_set k v db)" "db_full db \<Longrightarrow> val_nonempty v \<Longrightarrow> db_full (db_set k v db)"
    "\<And>t. db_live (db_set k v db) t = (db_live db t)(k \<mapsto> (v, None))"
    "ht_map (keyspace (db_set k v db)) = (ht_map (keyspace db))(k \<mapsto> v)"
    "ht_map (expires (db_set k v db)) = (ht_map (expires db))(k := None)"
proof -
  note D = db_wfD [OF wf]
  show m: "ht_map (keyspace (db_set k v db)) = (ht_map (keyspace db))(k \<mapsto> v)"
    and e: "ht_map (expires (db_set k v db)) = (ht_map (expires db))(k := None)"
    using ht_insert_spec(3) [OF D(1)] ht_erase_spec(3) [OF D(2)] by (simp_all add: db_set_def)
  show "db_wf (db_set k v db)"
  proof (rule db_wfI)
    show "ht_invar (keyspace (db_set k v db))" "ht_invar (expires (db_set k v db))" "heap_ok (heap (db_set k v db))"
      using D(3) ht_insert_spec(2) [OF D(1)] ht_erase_spec(2) [OF D(2)] by (simp_all add: db_set_def)
    show "in_i64 d' \<and> heap_has (heap (db_set k v db)) k' d' \<and> ht_map (keyspace (db_set k v db)) k' \<noteq> None"
      if "ht_map (expires (db_set k v db)) k' = Some d'" for k' d'
    proof -
      have "k' \<noteq> k" "ht_map (expires db) k' = Some d'" "heap (db_set k v db) = heap db"
        using that by (simp_all add: e split: if_splits) (simp add: db_set_def)
      then show ?thesis
        using D(4) [of k' d'] by (simp add: m)
    qed
    show "val_invar u" if "ht_map (keyspace (db_set k v db)) k' = Some u" for k' u
      using that D(5) [of k' u] v by (auto simp: m split: if_splits)
  qed
  show "db_full db \<Longrightarrow> val_nonempty v \<Longrightarrow> db_full (db_set k v db)"
    by (simp add: db_full_def m)
  show "db_live (db_set k v db) t = (db_live db t)(k \<mapsto> (v, None))" for t
    by (simp add: db_live_def m e live_set)
qed

lemma drop_both:
  assumes wf: "db_wf db" and h: "heap db' = heap db"
    and K: "keyspace db' = snd (ht_erase (keyspace db) k)" and E: "expires db' = snd (ht_erase (expires db) k)"
  shows "db_wf db'" "db_live db' t = (db_live db t)(k := None)" "db_full db \<Longrightarrow> db_full db'"
  using drop_key [OF wf, of db' k] db_wfD(3,4) [OF wf] h K E ht_erase_spec [OF db_wfD(1) [OF wf], of k]
    ht_erase_spec [OF db_wfD(2) [OF wf], of k]
  by simp_all

lemma db_del_spec:
  assumes wf: "db_wf db" and res: "db_del k db = (b, db')"
  shows "b \<longleftrightarrow> ht_map (keyspace db) k \<noteq> None" "db_wf db'" "db_full db \<Longrightarrow> db_full db'"
    "\<And>t. db_live db' t = (db_live db t)(k := None)"
proof -
  have f: "heap db' = heap db" "keyspace db' = snd (ht_erase (keyspace db) k)"
    "expires db' = snd (ht_erase (expires db) k)" "b = fst (ht_erase (keyspace db) k)"
    using res by (auto simp: db_del_def split_beta Let_def)
  show "b \<longleftrightarrow> ht_map (keyspace db) k \<noteq> None"
    using f(4) ht_erase_spec(1) [OF db_wfD(1) [OF wf]] by simp
  show "db_wf db'" "db_full db \<Longrightarrow> db_full db'" "\<And>t. db_live db' t = (db_live db t)(k := None)"
    using drop_both [OF wf f(1-3)] by blast+
qed

text \<open>Handlers delete the key of an aggregate they have just emptied: only that key needs repair.\<close>

lemma db_del_repairs:
  assumes wf: "db_wf db" and res: "db_del k db = (b, db')"
    and others: "\<And>k' v. k' \<noteq> k \<Longrightarrow> ht_map (keyspace db) k' = Some v \<Longrightarrow> val_nonempty v"
  shows "db_full db'"
proof -
  have "keyspace db' = snd (ht_erase (keyspace db) k)"
    using res by (auto simp: db_del_def split_beta Let_def)
  then show ?thesis
    using others ht_erase_spec(3) [OF db_wfD(1) [OF wf], of k] by (auto simp: db_full_def split: if_splits)
qed

lemma db_take_spec:
  assumes wf: "db_wf db" and res: "db_take k now db = (v, db')"
  shows "v = map_option fst (db_live db now k)" "db_wf db'" "db_full db \<Longrightarrow> db_full db'"
    "\<And>t. now \<le> t \<Longrightarrow> db_live db' t = (db_live db t)(k := None)"
proof -
  obtain w db1 where l: "lookup_and_expire k now db = (w, db1)" by force
  note L = lookup_spec [OF wf l]
  have none: "db_live db t k = None" if "w = None" "now \<le> t" for t
    using that L(1) by (auto simp: db_live_def live_def split: option.splits if_splits)
  have *: "v = w \<and> db_wf db' \<and> (db_full db \<longrightarrow> db_full db') \<and>
      (\<forall>t \<ge> now. db_live db' t = (db_live db t)(k := None))"
  proof (cases w)
    case None
    then have "v = None" "db' = db1"
      using res l by (simp_all add: db_take_def)
    then show ?thesis
      using None L(2-4) none by (auto simp: fun_upd_idem)
  next
    case (Some u)
    have f: "heap db' = heap db1" "keyspace db' = snd (ht_erase (keyspace db1) k)"
      "expires db' = snd (ht_erase (expires db1) k)" "v = fst (ht_take (keyspace db1) k)"
      using res l Some by (auto simp: db_take_def ht_erase_take split_beta Let_def)
    then show ?thesis
      using drop_both [OF L(2) f(1-3)] L(3-5) ht_take_spec(1) [OF db_wfD(1) [OF L(2)]] by simp
  qed
  then show "v = map_option fst (db_live db now k)" "db_wf db'" "db_full db \<Longrightarrow> db_full db'"
    "\<And>t. now \<le> t \<Longrightarrow> db_live db' t = (db_live db t)(k := None)"
    using L(1) by blast+
qed

lemma db_reset_spec:
  "db_invar db_empty_init" "db_live db_empty_init t = Map.empty"
  "db_wf db \<Longrightarrow> db_invar (db_clear db)" "db_live (db_clear db) t = Map.empty"
  "db_invar (snd (db_take_all db))" "db_live (snd (db_take_all db)) t = Map.empty"
  by (simp_all add: db_invar_def db_wf_def db_full_def db_empty_init_def db_clear_def db_take_all_def ht_clear_def
      heap_clear_def reset_to_empty_spec db_live_def live_def fun_eq_iff)

lemma db_rehash_spec:
  assumes "db_wf db"
  shows "db_wf (db_rehash_step b db)" "db_live (db_rehash_step b db) t = db_live db t"
    "db_full (db_rehash_step b db) = db_full db"
  using db_wfD(1) [OF assms] assms rehash_step_spec(1)
  by (auto simp: db_rehash_step_def db_wf_def db_live_def db_full_def)

lemma expire_at_spec:
  assumes wf: "db_wf db" and d: "in_i64 d" and res: "expire_at k d now db = (b, db')"
  shows "b \<longleftrightarrow> db_live db now k \<noteq> None" "db_wf db'" "db_full db \<Longrightarrow> db_full db'"
    "\<And>t. now \<le> t \<Longrightarrow> db_live db' t = (db_live db t)(k :=
      (case db_live db now k of None \<Rightarrow> None | Some (v, _) \<Rightarrow> if d \<le> t then None else Some (v, Some d)))"
proof -
  obtain w db1 where l: "lookup_and_expire k now db = (w, db1)" by force
  note L = lookup_spec [OF wf l] and D = db_wfD [OF lookup_spec(2) [OF wf l]]
  have none: "db_live db t k = None" if "w = None" "now \<le> t" for t
    using that L(1) by (auto simp: db_live_def live_def split: option.splits if_splits)
  have *: "(b \<longleftrightarrow> w \<noteq> None) \<and> db_wf db' \<and> (db_full db \<longrightarrow> db_full db') \<and>
      (\<forall>t \<ge> now. db_live db' t = (db_live db t)(k :=
        (case w of None \<Rightarrow> None | Some v \<Rightarrow> if d \<le> t then None else Some (v, Some d))))"
  proof (cases w)
    case None
    then have "\<not> b" "db' = db1"
      using res l by (simp_all add: expire_at_def)
    then show ?thesis
      using None L(2-4) none by (auto simp: fun_upd_idem)
  next
    case (Some u)
    show ?thesis
    proof (cases "d \<le> now")
      case True
      have f: "heap db' = heap db1" "keyspace db' = snd (ht_erase (keyspace db1) k)"
        "expires db' = snd (ht_erase (expires db1) k)" "b"
        using res l Some True by (auto simp: expire_at_def)
      show ?thesis
        using drop_both [OF L(2) f(1-3)] L(3,4) f(4) Some True by simp
    next
      case False
      let ?ex = "snd (ht_insert_or_assign (expires db1) k d)"
      have db': "db' = db1\<lparr>expires := ?ex, heap := heap_push d k (heap db1)\<rparr>" "b"
        using res l Some False by (auto simp: expire_at_def)
      have ex: "ht_invar ?ex" "ht_map ?ex = (ht_map (expires db1))(k \<mapsto> d)"
        using ht_insert_spec [OF D(2)] by simp_all
      have "db_wf db'"
        using D L(5) Some d ex by (intro db_wfI) (auto simp: db'(1) heap_push_has split: if_splits)
      moreover have "db_live db' t = (db_live db1 t)(k := if d \<le> t then None else Some (u, Some d))" for t
        using L(5) Some ex(2) by (simp add: db_live_def db'(1) live_ttl)
      ultimately show ?thesis
        using L(3,4) db' Some by (simp add: db_full_def)
    qed
  qed
  moreover have "(case w of None \<Rightarrow> None | Some v \<Rightarrow> if d \<le> t then None else Some (v, Some d)) =
      (case db_live db now k of None \<Rightarrow> None | Some (v, _) \<Rightarrow> if d \<le> t then None else Some (v, Some d))" for t
    using L(1) by (auto split: option.splits)
  ultimately show "b \<longleftrightarrow> db_live db now k \<noteq> None" "db_wf db'" "db_full db \<Longrightarrow> db_full db'"
    "\<And>t. now \<le> t \<Longrightarrow> db_live db' t = (db_live db t)(k :=
      (case db_live db now k of None \<Rightarrow> None | Some (v, _) \<Rightarrow> if d \<le> t then None else Some (v, Some d)))"
    using L(1) by auto
qed

lemma db_persist_spec:
  assumes wf: "db_wf db" and res: "db_persist k now db = (b, db')"
  shows "b \<longleftrightarrow> (\<exists>v d. db_live db now k = Some (v, Some d))" "db_wf db'" "db_full db \<Longrightarrow> db_full db'"
    "\<And>t. now \<le> t \<Longrightarrow> db_live db' t = (db_live db t)(k :=
      map_option (apsnd (\<lambda>_. None)) (db_live db now k))"
proof -
  obtain w db1 where l: "lookup_and_expire k now db = (w, db1)" by force
  note L = lookup_spec [OF wf l] and D = db_wfD [OF lookup_spec(2) [OF wf l]]
  have none: "db_live db t k = None" if "w = None" "now \<le> t" for t
    using that L(1) by (auto simp: db_live_def live_def split: option.splits if_splits)
  have *: "(b \<longleftrightarrow> w \<noteq> None \<and> ht_map (expires db1) k \<noteq> None) \<and> db_wf db' \<and> (db_full db \<longrightarrow> db_full db') \<and>
      (\<forall>t \<ge> now. db_live db' t = (db_live db t)(k := map_option (\<lambda>v. (v, None)) w))"
  proof (cases w)
    case None
    then have "\<not> b" "db' = db1"
      using res l by (simp_all add: db_persist_def)
    then show ?thesis
      using None L(2-4) none by (auto simp: fun_upd_idem)
  next
    case (Some u)
    let ?ex = "snd (ht_erase (expires db1) k)"
    have db': "db' = db1\<lparr>expires := ?ex\<rparr>" "b = fst (ht_erase (expires db1) k)"
      using res l Some by (auto simp: db_persist_def split_beta Let_def)
    have ex: "ht_invar ?ex" "ht_map ?ex = (ht_map (expires db1))(k := None)"
      using ht_erase_spec [OF D(2)] by simp_all
    have "db_wf db'"
      using D L(5) Some ex by (intro db_wfI) (auto simp: db'(1) split: if_splits)
    moreover have "db_live db' t = (db_live db1 t)(k \<mapsto> (u, None))" for t
      using L(5) Some ex(2) by (simp add: db_live_def db'(1) live_persist)
    ultimately show ?thesis
      using L(3,4) db' Some ht_erase_spec(1) [OF D(2), of k] by (simp add: db_full_def)
  qed
  moreover have "map_option (\<lambda>v. (v, None)) w = map_option (apsnd (\<lambda>_. None)) (db_live db now k)"
    using L(1) by (cases "db_live db now k") auto
  moreover have "w \<noteq> None \<and> ht_map (expires db1) k \<noteq> None \<longleftrightarrow> (\<exists>v d. db_live db1 now k = Some (v, Some d))"
    using L(5,6) by (auto simp: db_live_def live_def split: option.splits)
  ultimately show "b \<longleftrightarrow> (\<exists>v d. db_live db now k = Some (v, Some d))" "db_wf db'" "db_full db \<Longrightarrow> db_full db'"
    "\<And>t. now \<le> t \<Longrightarrow> db_live db' t = (db_live db t)(k := map_option (apsnd (\<lambda>_. None)) (db_live db now k))"
    using L(4) [of now] by auto
qed

definition spec_pttl :: "('v \<times> int option) option \<Rightarrow> int \<Rightarrow> int" where
  "spec_pttl e now = (case e of None \<Rightarrow> -2 | Some (v, None) \<Rightarrow> -1 | Some (v, Some d) \<Rightarrow> d - now)"

lemma db_pttl_spec:
  assumes wf: "db_wf db" and now: "0 \<le> now" "in_i64 now"
  shows "\<exists>db'. db_pttl k now db = Some (spec_pttl (db_live db now k) now, db') \<and> db_wf db' \<and>
    (db_full db \<longrightarrow> db_full db') \<and> (\<forall>t \<ge> now. db_live db' t = db_live db t)"
proof -
  obtain w db1 where l: "lookup_and_expire k now db = (w, db1)" by force
  note L = lookup_spec [OF wf l] and D = db_wfD [OF lookup_spec(2) [OF wf l]]
  obtain dl ex where f: "ht_find (expires db1) k = (dl, ex)" by force
  have F: "dl = ht_map (expires db1) k" "ht_invar ex" "ht_map ex = ht_map (expires db1)"
    using ht_find_spec [OF D(2), of k] f by simp_all
  show ?thesis
  proof (cases w)
    case None
    then have "db_live db now k = None"
      using L(1) by simp
    then show ?thesis
      using None L l by (auto simp: db_pttl_def spec_pttl_def)
  next
    case (Some u)
    let ?db = "db1\<lparr>expires := ex\<rparr>"
    have db: "db_wf ?db" "\<And>t. db_live ?db t = db_live db1 t" "db_full ?db = db_full db1"
      using db_wf_cong [OF L(2), of ?db] db_live_cong [of ?db db1] D(1) F by simp_all
    have v: "db_live db1 now k = Some (u, dl)"
      using L(5,6) Some F(1) by (auto simp: db_live_def live_def split: option.splits)
    have "i64_checked (d - now) = Some (d - now) \<and> d - now > 0" if "dl = Some d" for d
      using D(4) [of k d] L(6) [of d] that F(1) now by (simp add: i64_checked_def i64_defs)
    then have "db_pttl k now db = Some (spec_pttl (Some (u, dl)) now, ?db)"
      using l f Some by (auto simp: db_pttl_def spec_pttl_def split: option.splits)
    then show ?thesis
      using db v L(3,4) by auto
  qed
qed

lemma compact_spec:
  assumes wf: "db_wf db"
  shows "db_wf (maybe_compact_expiry_heap db)" "db_live (maybe_compact_expiry_heap db) t = db_live db t"
    "db_full (maybe_compact_expiry_heap db) = db_full db" "expires (maybe_compact_expiry_heap db) = expires db"
    "heap_size (heap (maybe_compact_expiry_heap db)) \<le> 2 * (ht_size (expires db) + 1024)"
proof -
  note D = db_wfD [OF wf] and R = rebuild_from_spec [OF db_wfD(2) [OF wf]]
  show "db_wf (maybe_compact_expiry_heap db)"
    using D R(1,2) wf by (auto simp: maybe_compact_expiry_heap_def intro!: db_wfI)
  show "db_live (maybe_compact_expiry_heap db) t = db_live db t"
    "db_full (maybe_compact_expiry_heap db) = db_full db" "expires (maybe_compact_expiry_heap db) = expires db"
    "heap_size (heap (maybe_compact_expiry_heap db)) \<le> 2 * (ht_size (expires db) + 1024)"
    using R(3) by (simp_all add: maybe_compact_expiry_heap_def db_live_def db_full_def)
qed

lemma expire_loop_spec:
  assumes "db_wf db" "expired \<le> max_keys"
  shows "\<exists>n db'. expire_loop now max_keys late i expired db = Some (n, db') \<and> db_wf db' \<and>
    (db_full db \<longrightarrow> db_full db') \<and> (\<forall>t \<ge> now. db_live db' t = db_live db t) \<and> n \<le> max_keys \<and>
    ((\<forall>j. \<not> late j) \<and> n < max_keys \<longrightarrow> (\<forall>k d. ht_map (expires db') k = Some d \<longrightarrow> now < d))"
  using assms
proof (induction now max_keys late i expired db rule: expire_loop.induct)
  case (1 now max_keys late i expired db)
  note wf = 1(2) and le = 1(3) and D = db_wfD [OF 1(2)]
  show ?case
  proof (cases "expired < max_keys \<and> \<not> heap_empty (heap db)")
    case False
    have "now < d" if "expired < max_keys" "ht_map (expires db) k = Some d" for k d
      using False that D(4) [of k d] by (simp add: heap_empty_def)
    then show ?thesis
      using False wf le expire_loop.simps [of now max_keys late i expired db] by auto
  next
    case True
    obtain e h where e: "heap_top (heap db) = Some e" "heap_pop (heap db) = Some h" "heap_ok h"
      "mset (heap db) = add_mset e (mset h)" "\<forall>x \<in> set (heap db). deadline_ms e \<le> deadline_ms x"
      using heap_top_pop [OF D(3)] True by blast
    show ?thesis
    proof (cases "deadline_ms e > now")
      case late: True
      have "now < d" if "ht_map (expires db) k = Some d" for k d
        using e(5) D(4) [OF that] late unfolding heap_has_def by (fastforce dest: bspec)
      then show ?thesis
        using True late wf le e(1) expire_loop.simps [of now max_keys] by auto
    next
      case due: False
      let ?k = "ekey e"
      obtain ld ex where f: "ht_find (expires db) ?k = (ld, ex)" by force
      have F: "ld = ht_map (expires db) ?k" "ht_invar ex" "ht_map ex = ht_map (expires db)"
        using ht_find_spec [OF D(2), of ?k] f by simp_all
      define is_live where "is_live = (ld = Some (deadline_ms e))"
      define db' where "db' = (if is_live
        then db\<lparr>heap := h, keyspace := snd (ht_erase (keyspace db) ?k), expires := snd (ht_erase ex ?k)\<rparr>
        else db\<lparr>heap := h, expires := ex\<rparr>)"
      let ?n = "if is_live then expired + 1 else expired"
      have hs: "heap_has h k d" if "ht_map (expires db) k = Some d" "\<not> (k = ?k \<and> d = deadline_ms e)" for k d
      proof -
        have "\<lparr>deadline_ms = d, ekey = k\<rparr> \<in> set (heap db)" "\<lparr>deadline_ms = d, ekey = k\<rparr> \<noteq> e"
          using D(4) [OF that(1)] that(2) by (auto simp: heap_has_def)
        then show ?thesis
          using e(4) unfolding heap_has_def by (metis insert_iff set_mset_add_mset_insert set_mset_mset)
      qed
      have X: "db_wf db' \<and> (db_full db \<longrightarrow> db_full db') \<and> (\<forall>t \<ge> now. db_live db' t = db_live db t)"
      proof (cases is_live)
        case True
        then have k: "ht_map (expires db) ?k = Some (deadline_ms e)"
          using F(1) by (simp add: is_live_def)
        have "db_wf db'" "\<And>t. db_live db' t = (db_live db t)(?k := None)" "db_full db \<Longrightarrow> db_full db'"
          using drop_key [OF wf, of db' ?k] hs e(3) True F ht_erase_spec [OF D(1), of ?k] ht_erase_spec [OF F(2), of ?k]
          by (simp_all add: db'_def)
        moreover have "(db_live db t)(?k := None) = db_live db t" if "now \<le> t" for t
          using k due that by (intro fun_upd_idem) (auto simp: db_live_def live_def split: option.splits)
        ultimately show ?thesis by simp
      next
        case False
        then have "heap_has h k d" if "ht_map (expires db) k = Some d" for k d
          using hs [OF that] F(1) that by (auto simp: is_live_def)
        then have "db_wf db'"
          using False D F e(3) by (intro db_wfI) (auto simp: db'_def)
        then show ?thesis
          using False F db_live_cong [of db' db] by (simp add: db'_def)
      qed
      have step: "expire_loop now max_keys late i expired db =
        (if late i then Some (?n, db') else expire_loop now max_keys late (i + 1) ?n db')"
        using True e(1,2) due f
        by (subst expire_loop.simps) (simp add: is_live_def db'_def Let_def)
      have n: "?n \<le> max_keys"
        using True by simp
      show ?thesis
      proof (cases "late i")
        case True
        then show ?thesis using step X n by auto
      next
        case False
        have "\<exists>n db''. expire_loop now max_keys late (i + 1) ?n db' = Some (n, db'') \<and> db_wf db'' \<and>
          (db_full db' \<longrightarrow> db_full db'') \<and> (\<forall>t \<ge> now. db_live db'' t = db_live db' t) \<and> n \<le> max_keys \<and>
          ((\<forall>j. \<not> late j) \<and> n < max_keys \<longrightarrow> (\<forall>k d. ht_map (expires db'') k = Some d \<longrightarrow> now < d))"
          using "1.IH" [OF _ e(1) _ e(2) refl f [symmetric] refl is_live_def db'_def refl] True due False X n
          by (simp add: is_live_def)
        then show ?thesis using step False X by fastforce
      qed
    qed
  qed
qed

lemma expiration_cycle_spec:
  assumes "db_wf db"
  shows "\<exists>n db'. run_active_expiration_cycle now max_keys late db = Some (n, db') \<and> db_wf db' \<and>
    (db_full db \<longrightarrow> db_full db') \<and> (\<forall>t \<ge> now. db_live db' t = db_live db t) \<and> n \<le> max_keys \<and>
    heap_size (heap db') \<le> 2 * (ht_size (expires db') + 1024) \<and>
    ((\<forall>j. \<not> late j) \<and> n < max_keys \<longrightarrow> (\<forall>k d. ht_map (expires db') k = Some d \<longrightarrow> now < d))"
proof -
  obtain n db1 where L: "expire_loop now max_keys late 0 0 db = Some (n, db1)" "db_wf db1"
    "db_full db \<longrightarrow> db_full db1" "\<forall>t \<ge> now. db_live db1 t = db_live db t" "n \<le> max_keys"
    "(\<forall>j. \<not> late j) \<and> n < max_keys \<longrightarrow> (\<forall>k d. ht_map (expires db1) k = Some d \<longrightarrow> now < d)"
    using expire_loop_spec [OF assms, of 0 max_keys now late 0] by auto
  then show ?thesis
    using compact_spec [OF L(2)] by (simp add: run_active_expiration_cycle_def)
qed

section \<open>Snapshot visits and loading\<close>

definition unix_of :: "int \<Rightarrow> int \<Rightarrow> int \<Rightarrow> int" where
  "unix_of now_mono now_unix d = now_unix + (d - now_mono)"

text \<open>What the snapshot records of a visible key: the deadline moves from the monotonic clock to the
  wall clock.\<close>

definition on_disk :: "int \<Rightarrow> int \<Rightarrow> 'v \<times> int option \<Rightarrow> 'v \<times> int option" where
  "on_disk now_mono now_unix e = apsnd (map_option (unix_of now_mono now_unix)) e"

lemma snapshot_visit_spec:
  assumes inv: "ht_invar ex"
    and fits: "\<forall>k d. ht_map ex k = Some d \<and> now_mono < d \<longrightarrow>
      in_i64 (d - now_mono) \<and> in_i64 (unix_of now_mono now_unix d)"
  shows "\<exists>calls ex'. snapshot_visit now_mono now_unix ex kvs = Some (calls, ex') \<and> ht_invar ex' \<and>
    ht_map ex' = ht_map ex \<and>
    calls = concat (map (\<lambda>(k, v). case ht_map ex k of
        None \<Rightarrow> [(k, v, None)]
      | Some d \<Rightarrow> if d \<le> now_mono then [] else [(k, v, Some (unix_of now_mono now_unix d))]) kvs)"
  using assms
proof (induction kvs arbitrary: ex)
  case Nil
  then show ?case by simp
next
  case (Cons kv kvs)
  obtain k v where kv: "kv = (k, v)" by force
  obtain dl ex1 where f: "ht_find ex k = (dl, ex1)" by force
  have F: "dl = ht_map ex k" "ht_invar ex1" "ht_map ex1 = ht_map ex"
    using ht_find_spec [OF Cons.prems(1), of k] f by simp_all
  obtain calls ex' where I: "snapshot_visit now_mono now_unix ex1 kvs = Some (calls, ex')" "ht_invar ex'"
    "ht_map ex' = ht_map ex"
    "calls = concat (map (\<lambda>(k, v). case ht_map ex k of
        None \<Rightarrow> [(k, v, None)]
      | Some d \<Rightarrow> if d \<le> now_mono then [] else [(k, v, Some (unix_of now_mono now_unix d))]) kvs)"
    using Cons.IH [OF F(2)] Cons.prems(2) F(3) by auto
  show ?case
  proof (cases "ht_map ex k")
    case None
    then show ?thesis
      using f F(1) I by (simp add: kv)
  next
    case (Some d)
    then show ?thesis
      using f F(1) I Cons.prems(2) [rule_format, of k d]
      by (cases "d \<le> now_mono") (simp_all add: kv i64_checked_def unix_of_def)
  qed
qed

lemma map_of_concat_options:
  assumes "distinct (map fst xs)"
  shows "map_of (concat (map (\<lambda>(k, v). case f k v of None \<Rightarrow> [] | Some y \<Rightarrow> [(k, y)]) xs)) k =
    Option.bind (map_of xs k) (f k)"
  using assms
proof (induction xs)
  case Nil
  then show ?case by simp
next
  case (Cons x xs)
  obtain a b where x: "x = (a, b)" by force
  have "map_of xs k = None" if "k = a"
    using Cons.prems that by (simp add: x map_of_eq_None_iff)
  with Cons show ?case
    by (auto simp: x map_add_Some_iff map_add_def split: option.splits)
qed

lemma fst_concat_options:
  assumes "distinct (map fst xs)"
  shows "distinct (map fst (concat (map (\<lambda>(k, v). case f k v of None \<Rightarrow> [] | Some y \<Rightarrow> [(k, y)]) xs)))"
proof -
  have "map fst (concat (map (\<lambda>(k, v). case f k v of None \<Rightarrow> [] | Some y \<Rightarrow> [(k, y)]) xs)) =
      map fst (filter (\<lambda>(k, v). f k v \<noteq> None) xs)"
    by (induction xs) (auto split: option.splits)
  with assms show ?thesis
    by (simp add: distinct_map_filter)
qed

lemma for_each_for_snapshot_spec:
  assumes wf: "db_wf db"
    and fits: "\<forall>k d. ht_map (expires db) k = Some d \<and> now_mono < d \<longrightarrow>
      in_i64 (d - now_mono) \<and> in_i64 (unix_of now_mono now_unix d)"
  shows "\<exists>calls db'. for_each_for_snapshot now_mono now_unix db = Some (calls, db') \<and> db_wf db' \<and>
    (db_full db \<longrightarrow> db_full db') \<and> (\<forall>t. db_live db' t = db_live db t) \<and> distinct (map fst calls) \<and>
    map_of calls = (\<lambda>k. map_option (on_disk now_mono now_unix) (db_live db now_mono k))"
proof -
  note D = db_wfD [OF wf] and T = ht_for_each_spec [OF db_wfD(1) [OF wf]]
  let ?f = "\<lambda>k (v :: val). map_option (on_disk now_mono now_unix) (live (\<lambda>_. Some v) (ht_map (expires db)) now_mono k)"
  obtain calls ex where C: "snapshot_visit now_mono now_unix (expires db) (ht_for_each (keyspace db)) = Some (calls, ex)"
    "ht_invar ex" "ht_map ex = ht_map (expires db)"
    "calls = concat (map (\<lambda>(k, v). case ht_map (expires db) k of
        None \<Rightarrow> [(k, v, None)]
      | Some d \<Rightarrow> if d \<le> now_mono then [] else [(k, v, Some (unix_of now_mono now_unix d))]) (ht_for_each (keyspace db)))"
    using snapshot_visit_spec [OF D(2) fits] by blast
  have "(\<lambda>(k, v). case ht_map (expires db) k of
        None \<Rightarrow> [(k, v, None)]
      | Some d \<Rightarrow> if d \<le> now_mono then [] else [(k, v, Some (unix_of now_mono now_unix d))]) =
      (\<lambda>(k, v). case ?f k v of None \<Rightarrow> [] | Some y \<Rightarrow> [(k, y)])"
    by (auto simp: fun_eq_iff live_def on_disk_def split: option.splits)
  then have calls: "calls = concat (map (\<lambda>(k, v). case ?f k v of None \<Rightarrow> [] | Some y \<Rightarrow> [(k, y)]) (ht_for_each (keyspace db)))"
    by (simp only: C(4))
  have "map_of calls = (\<lambda>k. map_option (on_disk now_mono now_unix) (db_live db now_mono k))"
    using map_of_concat_options [OF T(2), of ?f] unfolding calls T(1)
    by (auto simp: fun_eq_iff db_live_def live_def split: option.splits Option.bind_splits)
  moreover have "distinct (map fst calls)"
    unfolding calls by (rule fst_concat_options [OF T(2)])
  moreover have "db_wf (db\<lparr>expires := ex\<rparr>)" "\<And>t. db_live (db\<lparr>expires := ex\<rparr>) t = db_live db t"
    "db_full (db\<lparr>expires := ex\<rparr>) = db_full db"
    using db_wf_cong [OF wf, of "db\<lparr>expires := ex\<rparr>"] db_live_cong [of "db\<lparr>expires := ex\<rparr>" db] C D(1) by simp_all
  ultimately show ?thesis
    using C(1) by (simp add: for_each_for_snapshot_def)
qed

lemma load_key_spec:
  assumes wf: "db_wf db" and v: "val_invar v" and fresh: "ht_map (keyspace db) k = None"
    and now: "in_i64 now_mono" "in_i64 now_unix" "\<And>u. e = Some u \<Longrightarrow> in_i64 u"
  defines "d \<equiv> map_option (\<lambda>u. now_mono + (u - now_unix)) e"
  defines "keep \<equiv> (\<forall>u. e = Some u \<longrightarrow> in_i64 (u - now_unix) \<and> in_i64 (now_mono + (u - now_unix)) \<and> now_unix < u)"
  shows "db_wf (load_key k v e now_mono now_unix db)"
    "db_full db \<Longrightarrow> val_nonempty v \<Longrightarrow> db_full (load_key k v e now_mono now_unix db)"
    "db_live (load_key k v e now_mono now_unix db) now_mono =
       (db_live db now_mono)(k := if keep then Some (v, d) else None)"
    "ht_map (keyspace (load_key k v e now_mono now_unix db)) =
       (ht_map (keyspace db))(k := if keep then Some v else None)"
proof -
  note D = db_wfD [OF wf]
  let ?ks = "snd (ht_insert_or_assign (keyspace db) k v)"
  have K: "ht_invar ?ks" "ht_map ?ks = (ht_map (keyspace db))(k \<mapsto> v)"
    using ht_insert_spec [OF D(1)] by simp_all
  have ek: "ht_map (expires db) k = None"
    using D(6) [OF fresh] .
  have lk: "db_live db t k = None" for t
    using fresh by (simp add: db_live_def live_def)
  have all: "db_wf (load_key k v e now_mono now_unix db) \<and>
    (db_full db \<longrightarrow> val_nonempty v \<longrightarrow> db_full (load_key k v e now_mono now_unix db)) \<and>
    db_live (load_key k v e now_mono now_unix db) now_mono =
       (db_live db now_mono)(k := if keep then Some (v, d) else None) \<and>
    ht_map (keyspace (load_key k v e now_mono now_unix db)) =
       (ht_map (keyspace db))(k := if keep then Some v else None)"
  proof (cases e)
    case None
    then have "db_wf (db\<lparr>keyspace := ?ks\<rparr>)" "d = None" keep
      using D K v ek by (auto intro!: db_wfI simp: d_def keep_def split: if_splits)
    then show ?thesis
      using None K ek by (auto simp: load_key_def db_live_def live_write db_full_def)
  next
    case (Some u)
    let ?d = "now_mono + (u - now_unix)"
    have keep: "keep \<longleftrightarrow> \<not> (sub_would_overflow u now_unix \<or> add_would_overflow now_mono (u - now_unix)) \<and> \<not> ?d \<le> now_mono"
      using sub_would_overflow_iff [of u now_unix] add_would_overflow_iff [of now_mono "u - now_unix"] now Some
      by (auto simp: keep_def)
    show ?thesis
    proof (cases keep)
      case False
      then have "load_key k v e now_mono now_unix db = db"
        using Some keep by (auto simp: load_key_def Let_def)
      then show ?thesis
        using False wf fresh lk by (simp add: fun_upd_idem)
    next
      case True
      let ?ex = "snd (ht_insert_or_assign (expires db) k ?d)"
      have E: "ht_invar ?ex" "ht_map ?ex = (ht_map (expires db))(k \<mapsto> ?d)"
        using ht_insert_spec [OF D(2)] by simp_all
      have eq: "load_key k v e now_mono now_unix db =
          db\<lparr>expires := ?ex, heap := heap_push ?d k (heap db), keyspace := ?ks\<rparr>" (is "_ = ?db")
        using Some keep True by (simp add: load_key_def Let_def)
      have "in_i64 ?d" "now_mono < ?d"
        using True Some keep by (auto simp: keep_def)
      moreover have "db_wf ?db"
        using D K E v calculation by (intro db_wfI) (auto simp: heap_push_has split: if_splits)
      ultimately show ?thesis
        unfolding eq using True K E Some
        by (auto simp: db_live_def live_write d_def db_full_def live_def fun_eq_iff split: option.splits)
    qed
  qed
  then show "db_wf (load_key k v e now_mono now_unix db)"
    "db_full db \<Longrightarrow> val_nonempty v \<Longrightarrow> db_full (load_key k v e now_mono now_unix db)"
    "db_live (load_key k v e now_mono now_unix db) now_mono =
       (db_live db now_mono)(k := if keep then Some (v, d) else None)"
    "ht_map (keyspace (load_key k v e now_mono now_unix db)) =
       (ht_map (keyspace db))(k := if keep then Some v else None)"
    by blast+
qed

section \<open>The keys in the table\<close>

text \<open>A key whose deadline has passed stays in the table until something removes it.\<close>

definition stored :: "database \<Rightarrow> string set" where
  "stored db = dom (ht_map (keyspace db))"

lemma stored_live: "dom (db_live db now) \<subseteq> stored db"
  by (auto simp: stored_def db_live_def live_def split: option.splits)

lemma stored_erase: "db_wf db \<Longrightarrow> keyspace db' = snd (ht_erase (keyspace db) k) \<Longrightarrow> stored db' = stored db - {k}"
  using ht_erase_spec(3) [OF db_wfD(1), of db k] by (simp add: stored_def)

lemma lookup_stored:
  assumes wf: "db_wf db" and res: "lookup_and_expire k now db = (v, db')"
  shows "stored db' \<subseteq> stored db" "v = None \<Longrightarrow> k \<notin> stored db'"
proof -
  show "v = None \<Longrightarrow> k \<notin> stored db'" using lookup_spec(5) [OF wf res] by (simp add: stored_def domIff)
  have "keyspace db' = snd (ht_erase (keyspace db) k) \<or> keyspace db' = snd (ht_find (keyspace db) k)"
    using res by (auto simp: lookup_and_expire_def Let_def split: prod.splits if_splits)
  then show "stored db' \<subseteq> stored db"
  proof
    assume "keyspace db' = snd (ht_erase (keyspace db) k)"
    then show ?thesis using stored_erase [OF wf] by blast
  next
    assume "keyspace db' = snd (ht_find (keyspace db) k)"
    then show ?thesis using ht_find_spec [OF db_wfD(1) [OF wf], of k] by (simp add: stored_def)
  qed
qed

lemma db_take_stored:
  assumes wf: "db_wf db" and res: "db_take k now db = (v, db')"
  shows "stored db' \<subseteq> stored db - {k}"
proof -
  obtain w db1 where l: "lookup_and_expire k now db = (w, db1)" by force
  note S = lookup_stored [OF wf l]
  show ?thesis
  proof (cases w)
    case None
    then show ?thesis using S res l by (auto simp: db_take_def)
  next
    case (Some u)
    then have "keyspace db' = snd (ht_erase (keyspace db1) k)"
      using res l by (auto simp: db_take_def ht_erase_take split_beta Let_def)
    then show ?thesis using S(1) stored_erase [OF lookup_spec(2) [OF wf l]] by blast
  qed
qed

lemma expire_at_stored:
  assumes wf: "db_wf db" and res: "expire_at k d now db = (b, db')"
  shows "stored db' \<subseteq> stored db" "\<not> b \<Longrightarrow> k \<notin> stored db'"
proof -
  obtain w db1 where l: "lookup_and_expire k now db = (w, db1)" by force
  note S = lookup_stored [OF wf l]
  have "keyspace db' = keyspace db1 \<or> keyspace db' = snd (ht_erase (keyspace db1) k)"
    using res l by (auto simp: expire_at_def split: if_splits)
  then have "stored db' = stored db1 \<or> stored db' = stored db1 - {k}"
    using stored_erase [OF lookup_spec(2) [OF wf l]] by (metis stored_def)
  then show "stored db' \<subseteq> stored db" using S(1) by blast
  show "\<not> b \<Longrightarrow> k \<notin> stored db'" using S(2) res l by (auto simp: expire_at_def split: if_splits)
qed

lemma db_persist_stored:
  assumes wf: "db_wf db" and res: "db_persist k now db = (b, db')"
  shows "stored db' \<subseteq> stored db" "db_live db now k = None \<Longrightarrow> k \<notin> stored db'"
proof -
  obtain w db1 where l: "lookup_and_expire k now db = (w, db1)" by force
  note S = lookup_stored [OF wf l] lookup_spec(1) [OF wf l]
  have "keyspace db' = keyspace db1" using res l by (auto simp: db_persist_def split_beta Let_def split: if_splits)
  then have "stored db' = stored db1" by (simp add: stored_def)
  then show "stored db' \<subseteq> stored db" "db_live db now k = None \<Longrightarrow> k \<notin> stored db'" using S by simp_all
qed

lemma db_pttl_stored:
  assumes wf: "db_wf db" and res: "db_pttl k now db = Some (r, db')"
  shows "stored db' \<subseteq> stored db" "db_live db now k = None \<Longrightarrow> k \<notin> stored db'"
proof -
  obtain w db1 where l: "lookup_and_expire k now db = (w, db1)" by force
  note S = lookup_stored [OF wf l] lookup_spec(1) [OF wf l]
  have "keyspace db' = keyspace db1"
    using res l by (auto simp: db_pttl_def split_beta Let_def split: if_splits option.splits Option.bind_splits)
  then have "stored db' = stored db1" by (simp add: stored_def)
  then show "stored db' \<subseteq> stored db" "db_live db now k = None \<Longrightarrow> k \<notin> stored db'" using S by simp_all
qed

lemma expire_loop_stored:
  assumes "db_wf db" "expire_loop now max_keys late i expired db = Some (n, db')"
  shows "stored db' \<subseteq> stored db"
proof -
  have "ht_invar (keyspace db) \<Longrightarrow> expire_loop now max_keys late i expired db = Some (n, db') \<Longrightarrow> stored db' \<subseteq> stored db"
  proof (induction now max_keys late i expired db rule: expire_loop.induct)
    case (1 now max_keys late i expired db)
    note step = 1(3) [unfolded expire_loop.simps [of now max_keys late i expired db]]
    show ?case
    proof (cases "\<not> (expired < max_keys \<and> \<not> heap_empty (heap db)) \<or> (\<exists>e. heap_top (heap db) = Some e \<and> now < deadline_ms e)")
      case True
      then have "db' = db" using step by (elim disjE exE conjE) (simp_all split: if_splits)
      then show ?thesis by simp
    next
      case False
      then obtain e h where e: "heap_top (heap db) = Some e" "heap_pop (heap db) = Some h" "\<not> now < deadline_ms e"
        "expired < max_keys \<and> \<not> heap_empty (heap db)"
        using step by (auto split: option.splits)
      obtain ld ex where f: "ht_find (expires db) (ekey e) = (ld, ex)" by force
      define is_live where "is_live = (ld = Some (deadline_ms e))"
      define db1 where "db1 = (if is_live
        then db\<lparr>heap := h, keyspace := snd (ht_erase (keyspace db) (ekey e)), expires := snd (ht_erase ex (ekey e))\<rparr>
        else db\<lparr>heap := h, expires := ex\<rparr>)"
      have d1: "ht_invar (keyspace db1)" "stored db1 \<subseteq> stored db"
        using ht_erase_spec(2,3) [OF 1(2), of "ekey e"] 1(2) by (auto simp: db1_def stored_def)
      have "(if late i then Some (if is_live then expired + 1 else expired, db1)
          else expire_loop now max_keys late (i + 1) (if is_live then expired + 1 else expired) db1) = Some (n, db')"
        unfolding is_live_def db1_def using step e f by (simp add: Let_def split del: if_split)
      then have "stored db' \<subseteq> stored db1"
        using "1.IH" [OF _ e(1) e(3) e(2) refl f [symmetric] refl is_live_def db1_def refl _ d1(1)] e(4) by (auto split: if_splits)
      then show ?thesis using d1(2) by blast
    qed
  qed
  then show ?thesis using assms db_wfD(1) by blast
qed

lemma cycle_stored: "db_wf db \<Longrightarrow> run_active_expiration_cycle now max_keys late db = Some (n, db') \<Longrightarrow> stored db' \<subseteq> stored db"
  using expire_loop_stored [of db now max_keys late 0 0 n]
  by (auto simp: run_active_expiration_cycle_def maybe_compact_expiry_heap_def stored_def split: Option.bind_splits if_splits; blast)

lemma reset_stored:
  "stored db_empty_init = {}" "stored (db_clear db) = {}" "stored (snd (db_take_all db)) = {}"
  by (simp_all add: stored_def db_empty_init_def db_clear_def db_take_all_def ht_clear_def reset_to_empty_spec)

lemma db_size_stored: "db_wf db \<Longrightarrow> db_size db = card (stored db) \<and> finite (stored db)"
  using ht.size_card [OF db_wfD(1)] ht.finite_dom_amap [OF db_wfD(1)] by (simp add: db_size_def stored_def)

section \<open>Histories of operations under an advancing clock\<close>

datatype db_op = DLookup string | DSet string val | DDel string | DTake string | DExpireAt string int
  | DPersist string | DPttl string | DCycle nat "nat \<Rightarrow> bool" | DRehash nat | DClear | DTakeAll | DSize

datatype db_out = DVal "val option" | DFlag bool | DInt int | DCount nat | DUnit

fun db_exec :: "int \<times> db_op \<Rightarrow> database \<Rightarrow> (db_out \<times> database) ub" where
  "db_exec (now, DLookup k) db = Some (apfst DVal (lookup_read k now db))"
| "db_exec (now, DSet k v) db = Some (DUnit, db_set k v db)"
| "db_exec (now, DDel k) db = Some (apfst DFlag (db_del k db))"
| "db_exec (now, DTake k) db = Some (apfst DVal (db_take k now db))"
| "db_exec (now, DExpireAt k d) db = Some (apfst DFlag (expire_at k d now db))"
| "db_exec (now, DPersist k) db = Some (apfst DFlag (db_persist k now db))"
| "db_exec (now, DPttl k) db = map_option (apfst DInt) (db_pttl k now db)"
| "db_exec (now, DCycle n late) db = map_option (apfst DCount) (run_active_expiration_cycle now n late db)"
| "db_exec (now, DRehash b) db = Some (DUnit, db_rehash_step b db)"
| "db_exec (now, DClear) db = Some (DUnit, db_clear db)"
| "db_exec (now, DTakeAll) db = Some (DUnit, snd (db_take_all db))"
| "db_exec (now, DSize) db = Some (DCount (db_size db), db)"

text \<open>The specification: a map with deadlines, from which due keys vanish as the clock advances. A due key that no operation has
  touched since its deadline may still be stored, so the map \<open>M\<close> keeps it; what can be seen of \<open>M\<close> at a time is what
  \<open>purge\<close> leaves. An operation determines its answer, with three exceptions that depend on whether due keys have been
  swept: a deletion may report a due key as deleted, the size may count due keys, and the cycle reports how many it has removed. So the
  specification gives, with the next map, the predicate of the answers it allows.\<close>

definition purge :: "int \<Rightarrow> (string \<rightharpoonup> 'v \<times> int option) \<Rightarrow> (string \<rightharpoonup> 'v \<times> int option)" where
  "purge now M k = (case M k of Some (v, Some d) \<Rightarrow> if d \<le> now then None else Some (v, Some d) | e \<Rightarrow> e)"

fun ttl_exec :: "int \<times> db_op \<Rightarrow> (string \<rightharpoonup> val \<times> int option) \<Rightarrow> (db_out \<Rightarrow> bool) \<times> (string \<rightharpoonup> val \<times> int option)" where
  "ttl_exec (now, x) M = (let L = purge now M in
    case x of
      DLookup k \<Rightarrow> (\<lambda>r. r = DVal (map_option fst (L k)), M(k := L k))
    | DSet k v \<Rightarrow> (\<lambda>r. r = DUnit, M(k \<mapsto> (v, None)))
    | DDel k \<Rightarrow> (\<lambda>r. r = DFlag (L k \<noteq> None) \<or> (r = DFlag True \<and> M k \<noteq> None), M(k := None))
    | DTake k \<Rightarrow> (\<lambda>r. r = DVal (map_option fst (L k)), M(k := None))
    | DExpireAt k d \<Rightarrow> (\<lambda>r. r = DFlag (L k \<noteq> None), M(k := map_option (apsnd (\<lambda>_. Some d)) (L k)))
    | DPersist k \<Rightarrow> (\<lambda>r. r = DFlag (\<exists>v d. L k = Some (v, Some d)), M(k := map_option (apsnd (\<lambda>_. None)) (L k)))
    | DPttl k \<Rightarrow> (\<lambda>r. r = DInt (spec_pttl (L k) now), M(k := L k))
    | DCycle n late \<Rightarrow> (\<lambda>r. case r of DCount m \<Rightarrow> m \<le> n | _ \<Rightarrow> False, M)
    | DRehash b \<Rightarrow> (\<lambda>r. r = DUnit, M)
    | DClear \<Rightarrow> (\<lambda>r. r = DUnit, Map.empty)
    | DTakeAll \<Rightarrow> (\<lambda>r. r = DUnit, Map.empty)
    | DSize \<Rightarrow> (\<lambda>r. case r of DCount m \<Rightarrow> card (dom L) \<le> m \<and> m \<le> card (dom M) | _ \<Rightarrow> False, M))"

fun op_ok :: "int \<times> db_op \<Rightarrow> bool" where
  "op_ok (now, DSet k v) = (0 \<le> now \<and> in_i64 now \<and> val_invar v)"
| "op_ok (now, DExpireAt k d) = (0 \<le> now \<and> in_i64 now \<and> in_i64 d)"
| "op_ok (now, _) = (0 \<le> now \<and> in_i64 now)"

lemma purge_live: "now \<le> t \<Longrightarrow> purge t (live K E now) = live K E t"
  by (rule ext) (auto simp: purge_def live_def split: option.splits)

lemma purge_db_live: "now \<le> t \<Longrightarrow> purge t (db_live db now) = db_live db t"
  by (simp add: db_live_def purge_live)

lemma purge_purge: "now \<le> t \<Longrightarrow> purge t (purge now M) = purge t M"
  by (rule ext) (auto simp: purge_def split: option.splits)

lemma purge_upd:
  "purge t (M(k := None)) = (purge t M)(k := None)"
  "purge t (M(k \<mapsto> (v, None))) = (purge t M)(k \<mapsto> (v, None))"
  "purge t (M(k \<mapsto> (v, Some d))) = (purge t M)(k := if d \<le> t then None else Some (v, Some d))"
  "purge t Map.empty = Map.empty"
  by (auto simp: fun_eq_iff purge_def)

lemma purge_touch: "now \<le> t \<Longrightarrow> purge t (M(k := purge now M k)) = purge t M"
  by (rule ext) (auto simp: purge_def split: option.splits)

text \<open>The database against the map at every time from \<open>now\<close> on: what is visible agrees, and every stored key is in the map.\<close>

definition shows_ttl :: "int \<Rightarrow> database \<Rightarrow> (string \<rightharpoonup> val \<times> int option) \<Rightarrow> bool" where
  "shows_ttl now db M \<longleftrightarrow> (\<forall>t \<ge> now. db_live db t = purge t M) \<and> stored db \<subseteq> dom M \<and> finite (dom M)"

lemma shows_ttlI:
  assumes "\<And>t. now \<le> t \<Longrightarrow> db_live db t = purge t M" "stored db \<subseteq> dom M" "finite (dom M)"
  shows "shows_ttl now db M"
  using assms by (simp add: shows_ttl_def)

lemma finite_dom_upd: "finite (dom M) \<Longrightarrow> finite (dom (M(k := e)))"
  by (rule finite_subset [of _ "insert k (dom M)"]) (auto split: if_splits)

text \<open>One operation at time \<open>now\<close>: it runs, answers as the specification allows and keeps the relation.\<close>

lemma db_exec_refines:
  assumes wf: "db_wf db" and ok: "op_ok (now, x)" and rel: "shows_ttl now db M"
  shows "\<exists>r db'. db_exec (now, x) db = Some (r, db') \<and> fst (ttl_exec (now, x) M) r \<and> db_wf db' \<and>
    shows_ttl now db' (snd (ttl_exec (now, x) M))"
proof -
  have live: "db_live db t = purge t M" if "now \<le> t" for t using rel that by (simp add: shows_ttl_def)
  have sub: "stored db \<subseteq> dom M" and fin: "finite (dom M)" using rel by (simp_all add: shows_ttl_def)
  note L = live [of now, simplified]
  have now: "0 \<le> now" "in_i64 now"
    using ok by (cases x; simp)+
  show ?thesis
  proof (cases x)
    case (DLookup k)
    obtain v db' where l: "lookup_and_expire k now db = (v, db')" by force
    have "shows_ttl now db' (M(k := purge now M k))"
      using lookup_spec(1,4) [OF wf l] lookup_stored [OF wf l] live sub fin
      by (intro shows_ttlI finite_dom_upd) (auto simp: purge_touch L)
    then show ?thesis
      using lookup_spec [OF wf l] l L DLookup by (simp add: lookup_read_def Let_def)
  next
    case (DSet k v)
    then have v: "val_invar v" using ok by simp
    have "shows_ttl now (db_set k v db) (M(k \<mapsto> (v, None)))"
      using db_set_spec(3,4) [OF wf v, of k] live sub fin by (intro shows_ttlI) (auto simp: purge_upd stored_def)
    then show ?thesis
      using db_set_spec(1) [OF wf v, of k] DSet by (simp add: Let_def)
  next
    case (DDel k)
    obtain b db' where l: "db_del k db = (b, db')" by force
    have "stored db' = stored db - {k}"
      using l by (intro stored_erase [OF wf]) (auto simp: db_del_def split_beta Let_def)
    then have "shows_ttl now db' (M(k := None))"
      using db_del_spec(4) [OF wf l] live sub fin by (intro shows_ttlI finite_dom_upd) (auto simp: purge_upd)
    moreover have "b \<Longrightarrow> M k \<noteq> None" "purge now M k \<noteq> None \<Longrightarrow> b"
      using db_del_spec(1) [OF wf l] sub stored_live [of db now] L by (auto simp: stored_def)
    ultimately show ?thesis
      using db_del_spec(2) [OF wf l] l DDel by (auto simp: Let_def)
  next
    case (DTake k)
    obtain v db' where l: "db_take k now db = (v, db')" by force
    have "shows_ttl now db' (M(k := None))"
      using db_take_spec(4) [OF wf l] db_take_stored [OF wf l] live sub fin
      by (intro shows_ttlI finite_dom_upd) (auto simp: purge_upd)
    then show ?thesis
      using db_take_spec [OF wf l] l L DTake by (simp add: Let_def)
  next
    case (DExpireAt k d)
    obtain b db' where l: "expire_at k d now db = (b, db')" by force
    have d: "in_i64 d" using ok DExpireAt by simp
    note E = expire_at_spec [OF wf d l]
    have "shows_ttl now db' (M(k := map_option (apsnd (\<lambda>_. Some d)) (purge now M k)))"
      using E(1,4) expire_at_stored [OF wf l] live sub fin L
      by (intro shows_ttlI finite_dom_upd) (cases "purge now M k"; auto simp: purge_upd)+
    then show ?thesis
      using E(1,2) l L DExpireAt by (simp add: Let_def)
  next
    case (DPersist k)
    obtain b db' where l: "db_persist k now db = (b, db')" by force
    note E = db_persist_spec [OF wf l]
    have "shows_ttl now db' (M(k := map_option (apsnd (\<lambda>_. None)) (purge now M k)))"
      using E(4) db_persist_stored [OF wf l] live sub fin L
      by (intro shows_ttlI finite_dom_upd) (cases "purge now M k"; auto simp: purge_upd)+
    then show ?thesis
      using E(1,2) l L DPersist by (simp add: Let_def)
  next
    case (DPttl k)
    obtain db' where E: "db_pttl k now db = Some (spec_pttl (db_live db now k) now, db')" "db_wf db'" "\<forall>t \<ge> now. db_live db' t = db_live db t"
      using db_pttl_spec [OF wf now, of k] by blast
    have "shows_ttl now db' (M(k := purge now M k))"
      using E(3) db_pttl_stored [OF wf E(1)] live sub fin L by (intro shows_ttlI finite_dom_upd) (auto simp: purge_touch)
    then show ?thesis using E L DPttl by (simp add: Let_def)
  next
    case (DCycle n late)
    obtain m db' where E: "run_active_expiration_cycle now n late db = Some (m, db')" "db_wf db'" "\<forall>t \<ge> now. db_live db' t = db_live db t" "m \<le> n"
      using expiration_cycle_spec [OF wf, of now n late] by blast
    then show ?thesis using cycle_stored [OF wf E(1)] live sub fin DCycle by (auto simp: Let_def shows_ttl_def)
  next
    case (DRehash b)
    have "stored (db_rehash_step b db) = stored db"
      using rehash_step_spec(1) db_wfD(1) [OF wf] by (simp add: stored_def db_rehash_step_def)
    then show ?thesis
      using db_rehash_spec [OF wf, of b] live sub fin DRehash by (simp add: Let_def shows_ttl_def)
  next
    case DClear
    then show ?thesis
      using db_reset_spec(3) [OF wf] db_reset_spec(4) [of db] by (simp add: db_invar_def purge_upd Let_def shows_ttl_def reset_stored)
  next
    case DTakeAll
    then show ?thesis
      using db_reset_spec(5,6) [of db] by (simp add: db_invar_def purge_upd Let_def shows_ttl_def reset_stored)
  next
    case DSize
    have "card (dom (purge now M)) \<le> card (stored db)" "card (stored db) \<le> card (dom M)"
      using stored_live [of db now] db_size_stored [OF wf] sub fin L by (simp_all add: card_mono)
    then show ?thesis using db_size_stored [OF wf] wf rel DSize by (simp add: Let_def)
  qed
qed

lemma run_db_refines:
  assumes "db_wf db" "list_all op_ok xs" "sorted (now # map fst xs)" "shows_ttl now db M"
  shows "\<exists>rs db'. run_ub db_exec db xs = Some (rs, db') \<and> list_all2 (\<lambda>r allowed. allowed r) rs (fst (run_ops ttl_exec M xs)) \<and>
    db_wf db' \<and> shows_ttl (last (now # map fst xs)) db' (snd (run_ops ttl_exec M xs))"
  using assms
proof (induction xs arbitrary: db M now)
  case Nil
  then show ?case by simp
next
  case (Cons x xs)
  obtain n y where x: "x = (n, y)" by force
  have "shows_ttl n db M" using Cons.prems(3,4) x by (auto simp: shows_ttl_def)
  then obtain r db1 where S: "db_exec x db = Some (r, db1)" "fst (ttl_exec x M) r" "db_wf db1" "shows_ttl n db1 (snd (ttl_exec x M))"
    using db_exec_refines [OF Cons.prems(1), of n y M] Cons.prems(2) x by auto
  obtain A M1 where r: "ttl_exec x M = (A, M1)" by force
  obtain As M2 where rs: "run_ops ttl_exec M1 xs = (As, M2)" by force
  have "list_all op_ok xs" "sorted (n # map fst xs)"
    using Cons.prems x by simp_all
  from Cons.IH [OF S(3) this, of M1] S(4) r obtain rs' db2 where
    "run_ub db_exec db1 xs = Some (rs', db2)" "list_all2 (\<lambda>r allowed. allowed r) rs' As" "db_wf db2"
    "shows_ttl (last (n # map fst xs)) db2 M2"
    using rs by auto
  then show ?case
    using S(1,2) r rs x by (simp del: ttl_exec.simps db_exec.simps)
qed

section \<open>Properties\<close>

text \<open>C12: the keyspace is a map with deadlines. Run any history of lookups, sets, deletions, takes,
  expirations, persists, TTL queries, active expiration cycles (with any budgets), rehash steps,
  flushes and size queries on an empty database under a clock that never goes back: no step has undefined behaviour,
  and at any later time the keys visible in the database are exactly those of a plain map from which keys vanish when
  their deadline is reached. The answers of lookups, takes, expirations, persists and TTL queries are that map's, whether a due
  key was removed by a lookup, by the cycle or not yet at all. Only three answers may tell: a deletion answers true for
  every visible key and false for every key that has never been set or has been removed, but for a due key that nothing has
  touched since it may answer either; the size lies between the number of visible keys and that number with
  the untouched due keys; and the cycle answers with at most its budget.\<close>

theorem database_refines_ttl_map:
  assumes "list_all op_ok xs" "sorted (map fst xs)" "\<forall>t \<in> set (map fst xs). t \<le> now"
  shows "\<exists>rs db. run_ub db_exec db_empty_init xs = Some (rs, db) \<and>
    list_all2 (\<lambda>r allowed. allowed r) rs (fst (run_ops ttl_exec Map.empty xs)) \<and>
    db_live db now = purge now (snd (run_ops ttl_exec Map.empty xs))"
proof -
  have "list_all (\<lambda>x. 0 \<le> fst x) xs"
    using assms(1) by (rule list.pred_mono_strong) (erule op_ok.elims; simp)+
  then have "sorted (min 0 now # map fst xs)"
    using assms(2) by (auto simp: list_all_iff)
  moreover have "shows_ttl (min 0 now) db_empty_init Map.empty"
    using db_reset_spec(2) by (simp add: purge_upd shows_ttl_def reset_stored)
  moreover have "last (min 0 now # map fst xs) \<le> now"
    using assms(3) by (cases xs rule: rev_cases) auto
  ultimately show ?thesis
    using run_db_refines [of db_empty_init xs "min 0 now" Map.empty] assms(1) db_reset_spec(1)
    by (auto simp: db_invar_def shows_ttl_def)
qed

text \<open>A history with a key that is due, is not visible and is still reported as deleted.\<close>

definition db_history :: "(int \<times> db_op) list" where
  "db_history = [(10, DSet ''a'' (VString ''x'')), (10, DExpireAt ''a'' 25), (20, DPttl ''a''),
     (30, DSize), (30, DDel ''a''), (30, DLookup ''a''), (40, DCycle 20 (\<lambda>_. False))]"

theorem database_refines_ttl_map_witness:
  "\<exists>rs db. run_ub db_exec db_empty_init db_history = Some (rs, db) \<and>
    list_all2 (\<lambda>r allowed. allowed r) rs (fst (run_ops ttl_exec Map.empty db_history)) \<and>
    db_live db 40 = purge 40 (snd (run_ops ttl_exec Map.empty db_history))"
  by (rule database_refines_ttl_map) (simp_all add: db_history_def i64_defs)

text \<open>C13: one active expiration cycle on a well-formed database always ends, removes at most
  \<^verbatim>\<open>max_keys\<close> keys, changes nothing that a client can see now or later, leaves a heap of at most
  twice the live deadlines plus 2048 entries, and, when neither budget stopped it, leaves no due
  deadline behind.\<close>

theorem expiration_cycle_sound_and_complete:
  assumes "db_invar db"
  shows "\<exists>n db'. run_active_expiration_cycle now max_keys late db = Some (n, db') \<and> db_invar db' \<and>
    n \<le> max_keys \<and> (\<forall>t \<ge> now. db_live db' t = db_live db t) \<and>
    heap_size (heap db') \<le> 2 * (ht_size (expires db') + 1024) \<and>
    ((\<forall>j. \<not> late j) \<and> n < max_keys \<longrightarrow> (\<forall>k d. ht_map (expires db') k = Some d \<longrightarrow> now < d))"
  using expiration_cycle_spec [of db now max_keys late] assms unfolding db_invar_def by blast

text \<open>A database with a key that has a deadline.\<close>

definition due_db :: database where
  "due_db = snd (expire_at ''k'' 3 1 (db_set ''k'' (VString ''v'') db_empty_init))"

lemma due_db_invar: "db_invar due_db"
proof -
  let ?db = "db_set ''k'' (VString ''v'') db_empty_init"
  have w: "db_wf ?db" "db_full ?db"
    using db_set_spec(1,2) [of db_empty_init "VString ''v''" "''k''"] db_reset_spec(1) by (simp_all add: db_invar_def)
  obtain b db' where e: "expire_at ''k'' 3 1 ?db = (b, db')" by force
  have "in_i64 3" by (simp add: i64_defs)
  from expire_at_spec(2,3) [OF w(1) this e] show ?thesis using w(2) by (simp add: due_db_def e db_invar_def)
qed

theorem expiration_cycle_sound_and_complete_witness:
  "\<exists>n db'. run_active_expiration_cycle 5 20 (\<lambda>_. False) due_db = Some (n, db') \<and> db_invar db' \<and>
    n \<le> 20 \<and> (\<forall>t \<ge> 5. db_live db' t = db_live due_db t) \<and>
    heap_size (heap db') \<le> 2 * (ht_size (expires db') + 1024) \<and>
    ((\<forall>j :: nat. \<not> False) \<and> n < 20 \<longrightarrow> (\<forall>k d. ht_map (expires db') k = Some d \<longrightarrow> 5 < d))"
  by (rule expiration_cycle_sound_and_complete) (rule due_db_invar)

lemma snapshot_visit_overflow:
  assumes "ht_invar ex" "ht_map ex k = Some d" "now_mono < d" "\<not> in_i64 (unix_of now_mono now_unix d)"
    "(k, v) \<in> set kvs"
  shows "snapshot_visit now_mono now_unix ex kvs = None"
  using assms
proof (induction kvs arbitrary: ex)
  case Nil
  then show ?case by simp
next
  case (Cons kv kvs)
  obtain k' v' where kv: "kv = (k', v')" by force
  obtain dl ex1 where f: "ht_find ex k' = (dl, ex1)" by force
  have F: "dl = ht_map ex k'" "ht_invar ex1" "ht_map ex1 = ht_map ex"
    using ht_find_spec [OF Cons.prems(1), of k'] f by simp_all
  show ?case
  proof (cases "kv = (k, v)")
    case True
    then show ?thesis
      using Cons.prems(2-4) f F kv by (auto simp: i64_checked_def unix_of_def split: Option.bind_splits)
  next
    case False
    then have "snapshot_visit now_mono now_unix ex1 kvs = None"
      using Cons.IH [OF F(2)] Cons.prems F(3) by auto
    then show ?thesis
      using f by (auto simp: kv split: option.splits Option.bind_splits)
  qed
qed

text \<open>The snapshot visit adds the time to live to the wall clock without a range check. A key
  whose deadline is the largest representable one (a TTL that EXPIRE and PEXPIRE accept) makes the
  sum overflow, undefined behaviour, at every snapshot taken while the wall clock is ahead of the
  monotonic clock.\<close>

theorem snapshot_deadline_overflow:
  assumes wf: "db_wf db" and d: "ht_map (expires db) k = Some INT64_MAX"
    and now: "0 \<le> now_mono" "now_mono < now_unix" "now_mono < INT64_MAX"
  shows "for_each_for_snapshot now_mono now_unix db = None"
proof -
  obtain v where "ht_map (keyspace db) k = Some v"
    using db_wfD(4) [OF wf d] by blast
  then have "(k, v) \<in> set (ht_for_each (keyspace db))"
    using ht.entries_mem [OF db_wfD(1) [OF wf]] by simp
  moreover have "\<not> in_i64 (unix_of now_mono now_unix INT64_MAX)"
    using now by (simp add: unix_of_def i64_defs)
  ultimately show ?thesis
    using snapshot_visit_overflow [OF db_wfD(2) [OF wf] d] now(3) by (simp add: for_each_for_snapshot_def)
qed

definition far_db :: database where
  "far_db = snd (expire_at ''k'' INT64_MAX 1000 (db_set ''k'' (VString ''v'') db_empty_init))"

lemma far_db_spec: "db_wf far_db" "ht_map (expires far_db) ''k'' = Some INT64_MAX"
proof -
  let ?db = "db_set ''k'' (VString ''v'') db_empty_init"
  have w: "db_wf ?db" and l: "db_live ?db t = [''k'' \<mapsto> (VString ''v'', None)]" for t
    using db_set_spec [of db_empty_init "VString ''v''" "''k''"] db_reset_spec(1,2) by (simp_all add: db_invar_def)
  obtain b db' where e: "expire_at ''k'' INT64_MAX 1000 ?db = (b, db')" by force
  have i: "in_i64 INT64_MAX" by (simp add: i64_defs)
  have f: "far_db = db'" by (simp add: far_db_def e)
  show "db_wf far_db"
    unfolding f by (rule expire_at_spec(2) [OF w i e])
  have "db_live far_db 1000 ''k'' = Some (VString ''v'', Some INT64_MAX)"
    using expire_at_spec(4) [OF w i e, of 1000] by (simp add: f l INT64_MAX_def)
  then show "ht_map (expires far_db) ''k'' = Some INT64_MAX"
    by (auto simp: db_live_def live_def split: option.splits if_splits)
qed

theorem snapshot_deadline_overflow_witness:
  "for_each_for_snapshot 2000 1700000000000 far_db = None"
  by (rule snapshot_deadline_overflow [OF far_db_spec]) (simp_all add: INT64_MAX_def)

end
