(* ===== verification/Buffer.thy ===== *)
theory Buffer
  imports Prelude
begin

text \<open>
  The byte buffer of \<^verbatim>\<open>net/buffer.cpp\<close>: a \<^verbatim>\<open>std::string\<close> with a read cursor that is compacted when the
  cursor passes half of the capacity. Capacities follow the string of libstdc++ (fifteen bytes
  inside the object, doubling growth, never shrinking). The locale \<open>byte_queue\<close> is what the writer
  and the server rely on: appending at the end and consuming at the front, whatever is compacted.
\<close>

record buffer =
  bdata :: string
  read_pos :: nat
  write_mark :: nat
  bcapacity :: nat

definition buf_init :: buffer where
  "buf_init = \<lparr>bdata = [], read_pos = 0, write_mark = 0, bcapacity = 15\<rparr>"

definition grow :: "nat \<Rightarrow> nat \<Rightarrow> nat" where
  "grow cap n = (if n \<le> cap then cap else max n (2 * cap))"

definition buf_readable :: "buffer \<Rightarrow> string" where
  "buf_readable b = drop (read_pos b) (bdata b)"

definition buf_empty :: "buffer \<Rightarrow> bool" where
  "buf_empty b \<longleftrightarrow> read_pos b = length (bdata b)"

definition buf_size :: "buffer \<Rightarrow> nat" where
  "buf_size b = length (bdata b) - read_pos b"

definition buf_clear :: "buffer \<Rightarrow> buffer" where
  "buf_clear b = b\<lparr>bdata := [], read_pos := 0\<rparr>"

definition maybe_compact :: "buffer \<Rightarrow> buffer" where
  "maybe_compact b =
    (if read_pos b = 0 then b
     else if read_pos b > bcapacity b div 2
     then b\<lparr>bdata := drop (read_pos b) (bdata b), read_pos := 0\<rparr> else b)"

definition buf_append :: "string \<Rightarrow> buffer \<Rightarrow> buffer" where
  "buf_append s b0 =
    (let b = maybe_compact b0; d = bdata b @ s in b\<lparr>bdata := d, bcapacity := grow (bcapacity b) (length d)\<rparr>)"

definition buf_consume :: "nat \<Rightarrow> buffer \<Rightarrow> buffer" where
  "buf_consume n b0 =
    (let b = b0\<lparr>read_pos := read_pos b0 + n\<rparr> in
     if read_pos b = length (bdata b) then buf_clear b else b)"

text \<open>\<^verbatim>\<open>std::string::resize\<close>: cut, or fill up with NUL.\<close>

definition str_resize :: "nat \<Rightarrow> string \<Rightarrow> string" where
  "str_resize n s = take n s @ replicate (n - length s) (CHR 0x00)"

definition prepare_write :: "nat \<Rightarrow> buffer \<Rightarrow> buffer" where
  "prepare_write n b0 =
    (let b = maybe_compact b0; m = length (bdata b) in
     b\<lparr>write_mark := m, bdata := str_resize (m + n) (bdata b), bcapacity := grow (bcapacity b) (m + n)\<rparr>)"

text \<open>The caller's store of \<open>bytes\<close> through the pointer that \<^verbatim>\<open>prepare_write\<close> returned.\<close>

definition fill_written :: "string \<Rightarrow> buffer \<Rightarrow> buffer" where
  "fill_written bytes b = b\<lparr>bdata := take (write_mark b) (bdata b) @ bytes @ drop (write_mark b + length bytes) (bdata b)\<rparr>"

definition commit_written :: "nat \<Rightarrow> buffer \<Rightarrow> buffer" where
  "commit_written actual_n b = b\<lparr>bdata := str_resize (write_mark b + actual_n) (bdata b)\<rparr>"

definition buf_invar :: "buffer \<Rightarrow> bool" where
  "buf_invar b \<longleftrightarrow> read_pos b \<le> length (bdata b) \<and> length (bdata b) \<le> bcapacity b \<and> 15 \<le> bcapacity b"

lemma maybe_compact_readable [simp]: "buf_readable (maybe_compact b) = buf_readable b"
  by (simp add: maybe_compact_def buf_readable_def)

lemma maybe_compact_invar: "buf_invar b \<Longrightarrow> buf_invar (maybe_compact b)"
  by (auto simp: maybe_compact_def buf_invar_def)

text \<open>After a compaction check the consumed prefix is at most half of the capacity.\<close>

lemma maybe_compact_bound: "2 * read_pos (maybe_compact b) \<le> bcapacity (maybe_compact b) + 1"
  by (auto simp: maybe_compact_def)

lemma buf_append_spec:
  assumes "buf_invar b"
  shows "buf_invar (buf_append s b)" "buf_readable (buf_append s b) = buf_readable b @ s"
proof -
  have c: "read_pos (maybe_compact b) \<le> length (bdata (maybe_compact b))"
    using maybe_compact_invar [OF assms] by (simp add: buf_invar_def)
  show "buf_invar (buf_append s b)"
    using maybe_compact_invar [OF assms] by (auto simp: buf_append_def Let_def buf_invar_def grow_def)
  show "buf_readable (buf_append s b) = buf_readable b @ s"
    using c maybe_compact_readable [of b] by (simp add: buf_append_def Let_def buf_readable_def)
qed

lemma buf_consume_spec:
  assumes "buf_invar b" "n \<le> buf_size b"
  shows "buf_invar (buf_consume n b)" "buf_readable (buf_consume n b) = drop n (buf_readable b)"
  using assms by (auto simp: buf_consume_def Let_def buf_invar_def buf_size_def buf_clear_def buf_readable_def add.commute)

lemma buf_size_readable: "buf_invar b \<Longrightarrow> buf_size b = length (buf_readable b)"
  by (simp add: buf_size_def buf_readable_def)

lemma buf_init_spec: "buf_invar buf_init" "buf_readable buf_init = []"
  by (simp_all add: buf_init_def buf_invar_def buf_readable_def)

lemma buf_clear_spec: "buf_invar b \<Longrightarrow> buf_invar (buf_clear b)" "buf_readable (buf_clear b) = []"
  by (simp_all add: buf_clear_def buf_invar_def buf_readable_def)

text \<open>The two-phase write of \<^verbatim>\<open>recv\<close>: reserve \<open>n\<close> bytes, receive at most that many, commit.\<close>

lemma prepare_commit:
  assumes inv: "buf_invar b" and le: "length bytes \<le> n"
  defines "b' \<equiv> commit_written (length bytes) (fill_written bytes (prepare_write n b))"
  shows "buf_invar b'" "buf_readable b' = buf_readable b @ bytes"
proof -
  let ?c = "maybe_compact b"
  have c: "read_pos ?c \<le> length (bdata ?c)" "length (bdata ?c) \<le> bcapacity ?c" "15 \<le> bcapacity ?c"
    using maybe_compact_invar [OF inv] by (simp_all add: buf_invar_def)
  have b': "bdata b' = bdata ?c @ bytes" "read_pos b' = read_pos ?c"
    "bcapacity b' = grow (bcapacity ?c) (length (bdata ?c) + n)"
    using le by (simp_all add: b'_def prepare_write_def fill_written_def commit_written_def str_resize_def Let_def)
  show "buf_invar b'"
    using c le by (auto simp: buf_invar_def b' grow_def)
  show "buf_readable b' = buf_readable b @ bytes"
    using c maybe_compact_readable [of b] by (simp add: buf_readable_def b')
qed

locale byte_queue =
  fixes invar :: "'b \<Rightarrow> bool" and content :: "'b \<Rightarrow> string" and bnil :: 'b
    and app :: "string \<Rightarrow> 'b \<Rightarrow> 'b" and cons :: "nat \<Rightarrow> 'b \<Rightarrow> 'b" and bsize :: "'b \<Rightarrow> nat"
  assumes b_nil: "invar bnil" "content bnil = []"
    and b_app: "invar b \<Longrightarrow> invar (app s b)" "invar b \<Longrightarrow> content (app s b) = content b @ s"
    and b_cons: "invar b \<Longrightarrow> n \<le> bsize b \<Longrightarrow> invar (cons n b)"
      "invar b \<Longrightarrow> n \<le> bsize b \<Longrightarrow> content (cons n b) = drop n (content b)"
    and b_size: "invar b \<Longrightarrow> bsize b = length (content b)"
begin

text \<open>Pieces appended one after the other arrive as their concatenation.\<close>

lemma app_fold: "invar b \<Longrightarrow> invar (fold app ss b) \<and> content (fold app ss b) = content b @ concat ss"
  by (induction ss arbitrary: b) (simp_all add: b_app)

text \<open>Sending a buffer in chunks: after consuming what each send took, the bytes sent and the
  bytes left are the original content.\<close>

lemma drain:
  assumes "invar b" "sum_list ns \<le> bsize b"
  shows "invar (fold cons ns b) \<and> content (fold cons ns b) = drop (sum_list ns) (content b)"
  using assms
proof (induction ns arbitrary: b)
  case Nil
  then show ?case by simp
next
  case (Cons n ns)
  have "invar (cons n b)" "content (cons n b) = drop n (content b)"
    using Cons.prems b_cons [of b n] by simp_all
  moreover from this have "sum_list ns \<le> bsize (cons n b)"
    using Cons.prems b_size by simp
  ultimately show ?case
    using Cons.IH [of "cons n b"] by (simp add: add.commute)
qed

end

interpretation buf: byte_queue buf_invar buf_readable buf_init buf_append buf_consume buf_size
  by unfold_locales (simp_all add: buf_init_spec buf_append_spec buf_consume_spec buf_size_readable)

lemmas [inv_intro] = buf_append_spec(1) buf_consume_spec(1)
lemmas [view_simps] = buf_append_spec(2) buf_consume_spec(2)

end
