(* ===== verification/Resp_Writer.thy ===== *)
theory Resp_Writer
  imports Buffer Float64
begin

text \<open>
  The reply writer of \<^verbatim>\<open>protocol/resp_writer.cpp\<close>. Each function appends to a buffer; \<open>reply\<close> is the
  tree of a RESP2 reply, \<open>encode\<close> its bytes, and \<open>decode\<close> a reader of one reply. Decoding what was
  encoded gives the reply back and stops exactly at its end, so a stream of replies can be split
  in one way only; error texts are sanitised, so that no client text can add a line.
\<close>

definition sanitize_error_text :: "string \<Rightarrow> string" where
  "sanitize_error_text s = map (\<lambda>c. if c = CR \<or> c = LF then CHR '' '' else c) s"

definition resp_simple :: "string \<Rightarrow> buffer \<Rightarrow> buffer" where
  "resp_simple s out = buf_append CRLF (buf_append s (buf_append ''+'' out))"

definition resp_error :: "string \<Rightarrow> buffer \<Rightarrow> buffer" where
  "resp_error s out = buf_append CRLF (buf_append (sanitize_error_text s) (buf_append ''-'' out))"

definition resp_integer :: "int \<Rightarrow> buffer \<Rightarrow> buffer" where
  "resp_integer n out = buf_append CRLF (buf_append (int_to_string n) (buf_append '':'' out))"

definition resp_bulk :: "string \<Rightarrow> buffer \<Rightarrow> buffer" where
  "resp_bulk s out =
     buf_append CRLF (buf_append s (buf_append CRLF (buf_append (nat_to_string (length s)) (buf_append ''$'' out))))"

definition resp_null_bulk :: "buffer \<Rightarrow> buffer" where
  "resp_null_bulk out = buf_append (''$-1'' @ CRLF) out"

definition resp_array_header :: "nat \<Rightarrow> buffer \<Rightarrow> buffer" where
  "resp_array_header n out = buf_append CRLF (buf_append (nat_to_string n) (buf_append ''*'' out))"

definition resp_null_array :: "buffer \<Rightarrow> buffer" where
  "resp_null_array out = buf_append (''*-1'' @ CRLF) out"

definition double_text :: "f64 \<Rightarrow> string" where
  "double_text d =
    (if f64_isnan d then ''nan''
     else if f64_isinf d then (if f64_neg d then ''-inf'' else ''inf'')
     else to_chars_f64 d)"

definition resp_double_as_bulk :: "f64 \<Rightarrow> buffer \<Rightarrow> buffer" where
  "resp_double_as_bulk d out = resp_bulk (double_text d) out"

section \<open>Replies and their bytes\<close>

datatype reply =
    RSimple string
  | RError string
  | RInt int
  | RBulk string
  | RNull
  | RArray "reply list"
  | RNullArray

fun encode :: "reply \<Rightarrow> string" where
  "encode (RSimple s) = CHR ''+'' # s @ CRLF"
| "encode (RError s) = CHR ''-'' # s @ CRLF"
| "encode (RInt n) = CHR '':'' # int_to_string n @ CRLF"
| "encode (RBulk s) = CHR ''$'' # nat_to_string (length s) @ CRLF @ s @ CRLF"
| "encode RNull = ''$-1'' @ CRLF"
| "encode (RArray rs) = CHR ''*'' # nat_to_string (length rs) @ CRLF @ concat (map encode rs)"
| "encode RNullArray = ''*-1'' @ CRLF"

abbreviation no_crlf :: "string \<Rightarrow> bool" where
  "no_crlf s \<equiv> CR \<notin> set s \<and> LF \<notin> set s"

text \<open>Replies the server may send: line texts without line breaks.\<close>

fun reply_ok :: "reply \<Rightarrow> bool" where
  "reply_ok (RSimple s) = no_crlf s"
| "reply_ok (RError s) = no_crlf s"
| "reply_ok (RArray rs) = list_all reply_ok rs"
| "reply_ok _ = True"

lemma sanitize_no_crlf: "no_crlf (sanitize_error_text s)"
  by (auto simp: sanitize_error_text_def CR_def LF_def)

lemma sanitize_id: "no_crlf s \<Longrightarrow> sanitize_error_text s = s"
  unfolding sanitize_error_text_def by (rule map_idI) auto

text \<open>What each writer function appends.\<close>

lemma resp_readable [simp]:
  assumes "buf_invar b"
  shows "buf_readable (resp_simple s b) = buf_readable b @ encode (RSimple s)"
    "buf_readable (resp_error s b) = buf_readable b @ encode (RError (sanitize_error_text s))"
    "buf_readable (resp_integer n b) = buf_readable b @ encode (RInt n)"
    "buf_readable (resp_bulk s b) = buf_readable b @ encode (RBulk s)"
    "buf_readable (resp_null_bulk b) = buf_readable b @ encode RNull"
    "buf_readable (resp_null_array b) = buf_readable b @ encode RNullArray"
    "buf_readable (resp_double_as_bulk d b) = buf_readable b @ encode (RBulk (double_text d))"
    "buf_readable (resp_array_header k b) = buf_readable b @ CHR ''*'' # nat_to_string k @ CRLF"
  using assms
  by (simp_all add: resp_simple_def resp_error_def resp_integer_def resp_bulk_def resp_null_bulk_def
      resp_null_array_def resp_double_as_bulk_def resp_array_header_def buf_append_spec)

lemma resp_invar [simp]:
  assumes "buf_invar b"
  shows "buf_invar (resp_simple s b)" "buf_invar (resp_error s b)" "buf_invar (resp_integer n b)"
    "buf_invar (resp_bulk s b)" "buf_invar (resp_null_bulk b)" "buf_invar (resp_null_array b)"
    "buf_invar (resp_double_as_bulk d b)" "buf_invar (resp_array_header k b)"
  using assms
  by (simp_all add: resp_simple_def resp_error_def resp_integer_def resp_bulk_def resp_null_bulk_def
      resp_null_array_def resp_double_as_bulk_def resp_array_header_def buf_append_spec)

section \<open>Reading replies back\<close>

definition take_line :: "string \<Rightarrow> (string \<times> string) option" where
  "take_line s = map_option (\<lambda>i. (take i s, drop (i + 2) s)) (find_crlf s)"

definition read_int :: "string \<Rightarrow> int option" where
  "read_int s =
    (let neg = (s \<noteq> [] \<and> hd s = CHR ''-''); ds = (if neg then tl s else s) in
     if ds = [] \<or> \<not> list_all is_digit ds then None
     else Some (if neg then - int (digits_val ds) else int (digits_val ds)))"

text \<open>A client's reader of one reply; the fuel bounds the nesting.\<close>

fun decode :: "nat \<Rightarrow> string \<Rightarrow> (reply \<times> string) option"
  and decode_list :: "nat \<Rightarrow> nat \<Rightarrow> string \<Rightarrow> (reply list \<times> string) option" where
  "decode 0 s = None"
| "decode (Suc f) [] = None"
| "decode (Suc f) (c # cs) = do {
     (line, rest) \<leftarrow> take_line cs;
     if c = CHR ''+'' then Some (RSimple line, rest)
     else if c = CHR ''-'' then Some (RError line, rest)
     else do {
       n \<leftarrow> read_int line;
       if c = CHR '':'' then Some (RInt n, rest)
       else if c = CHR ''$'' then
         (if n = -1 then Some (RNull, rest)
          else if n \<ge> 0 \<and> take 2 (drop (nat n) rest) = CRLF
          then Some (RBulk (take (nat n) rest), drop (nat n + 2) rest) else None)
       else if c = CHR ''*'' then
         (if n = -1 then Some (RNullArray, rest)
          else if n \<ge> 0 then do { (rs, rest') \<leftarrow> decode_list f (nat n) rest; Some (RArray rs, rest') } else None)
       else None
     }
   }"
| "decode_list f 0 s = Some ([], s)"
| "decode_list f (Suc n) s = do {
     (r, s') \<leftarrow> decode f s;
     (rs, s'') \<leftarrow> decode_list f n s';
     Some (r # rs, s'')
   }"

definition decode_reply :: "string \<Rightarrow> (reply \<times> string) option" where
  "decode_reply s = decode (length s) s"

fun rnodes :: "reply \<Rightarrow> nat" where
  "rnodes (RArray rs) = Suc (sum_list (map rnodes rs))"
| "rnodes _ = 1"

lemma rnodes_le_length: "rnodes r \<le> length (encode r)"
proof (induction r rule: encode.induct)
  case (6 rs)
  then have "sum_list (map rnodes rs) \<le> sum_list (map (length \<circ> encode) rs)"
    by (intro sum_list_mono) simp
  then show ?case
    by (simp add: length_concat comp_def)
qed simp_all

lemma rnodes_mem: "r \<in> set rs \<Longrightarrow> rnodes r \<le> sum_list (map rnodes rs)"
  by (induction rs) auto

lemma take_line_append [simp]: "CR \<notin> set s \<Longrightarrow> take_line (s @ CRLF @ u) = Some (s, u)"
  using find_crlf_line [of s u] by (simp add: take_line_def) (simp add: CRLF_def)

lemma read_nat: "read_int (nat_to_string n) = Some (int n)"
  using nat_to_string_hd [of n] nat_to_string_digits [of n] is_digit_neq(1) by (auto simp: read_int_def Let_def)

lemma read_int_to_string: "read_int (int_to_string i) = Some i"
  using read_nat [of "nat i"] nat_to_string_digits [of "nat (- i)"]
  by (cases "i < 0") (auto simp: int_to_string_def, simp add: read_int_def Let_def)

lemma read_minus_one: "read_int ''-1'' = Some (-1)"
  by (simp add: read_int_def is_digit_def digits_val_def digit_val_def)

lemma take_line_minus_one: "take_line (''-1'' @ CRLF @ u) = Some (''-1'', u)"
  by (rule take_line_append) (simp add: CR_def)

lemma decode_list_encode:
  assumes "\<forall>r \<in> set rs. \<forall>u. decode f (encode r @ u) = Some (r, u)"
  shows "decode_list f (length rs) (concat (map encode rs) @ u) = Some (rs, u)"
  using assms by (induction rs) simp_all

lemma decode_encode:
  assumes "reply_ok r" "rnodes r \<le> f"
  shows "decode f (encode r @ u) = Some (r, u)"
  using assms
proof (induction r arbitrary: f u rule: encode.induct)
  case (1 s)
  then show ?case by (cases f) simp_all
next
  case (2 s)
  then show ?case by (cases f) simp_all
next
  case (3 n)
  then show ?case by (cases f) (simp_all add: read_int_to_string)
next
  case (4 s)
  then show ?case by (cases f) (simp_all add: read_nat, simp add: CRLF_def)
next
  case 5
  then show ?case
    using take_line_minus_one [of u] by (cases f) (simp_all add: read_minus_one)
next
  case (6 rs)
  then obtain g where g: "f = Suc g" by (cases f) auto
  have "\<forall>r \<in> set rs. \<forall>u. decode g (encode r @ u) = Some (r, u)"
  proof (intro ballI allI)
    fix r u
    assume r: "r \<in> set rs"
    have "reply_ok r" "rnodes r \<le> g"
      using 6(2,3) g r rnodes_mem [OF r] by (simp_all add: list_all_iff)
    then show "decode g (encode r @ u) = Some (r, u)"
      by (rule 6(1) [OF r])
  qed
  from decode_list_encode [OF this] show ?case
    using g 6(2) by (simp add: read_nat)
next
  case 7
  then show ?case
    using take_line_minus_one [of u] by (cases f) (simp_all add: read_minus_one)
qed

lemma decode_reply_encode: "reply_ok r \<Longrightarrow> decode_reply (encode r @ u) = Some (r, u)"
  unfolding decode_reply_def using rnodes_le_length [of r] by (intro decode_encode) auto

text \<open>Prefix-freeness: a reply is never a proper prefix of another one.\<close>

lemma encode_prefix_free:
  assumes "reply_ok r" "reply_ok r'" "encode r @ u = encode r' @ u'"
  shows "r = r' \<and> u = u'"
  using decode_reply_encode [OF assms(1), of u] decode_reply_encode [OF assms(2), of u']
  unfolding assms(3) by simp

text \<open>Writing a whole reply with the functions above.\<close>

fun write_reply :: "reply \<Rightarrow> buffer \<Rightarrow> buffer" where
  "write_reply (RSimple s) b = resp_simple s b"
| "write_reply (RError s) b = resp_error s b"
| "write_reply (RInt n) b = resp_integer n b"
| "write_reply (RBulk s) b = resp_bulk s b"
| "write_reply RNull b = resp_null_bulk b"
| "write_reply (RArray rs) b = fold write_reply rs (resp_array_header (length rs) b)"
| "write_reply RNullArray b = resp_null_array b"

fun clean :: "reply \<Rightarrow> reply" where
  "clean (RError s) = RError (sanitize_error_text s)"
| "clean (RArray rs) = RArray (map clean rs)"
| "clean r = r"

lemma write_list:
  assumes "\<forall>r \<in> set rs. \<forall>b. buf_invar b \<longrightarrow> buf_invar (write_reply r b) \<and>
      buf_readable (write_reply r b) = buf_readable b @ encode (clean r)" "buf_invar b"
  shows "buf_invar (fold write_reply rs b) \<and>
    buf_readable (fold write_reply rs b) = buf_readable b @ concat (map (encode \<circ> clean) rs)"
  using assms by (induction rs arbitrary: b) simp_all

lemma write_reply_spec:
  "buf_invar b \<Longrightarrow> buf_invar (write_reply r b) \<and> buf_readable (write_reply r b) = buf_readable b @ encode (clean r)"
proof (induction r arbitrary: b rule: encode.induct)
  case (6 rs)
  have "\<forall>r \<in> set rs. \<forall>b. buf_invar b \<longrightarrow> buf_invar (write_reply r b) \<and>
      buf_readable (write_reply r b) = buf_readable b @ encode (clean r)"
    using 6(1) by blast
  from write_list [OF this, of "resp_array_header (length rs) b"] 6(2) show ?case
    by simp
qed simp_all

lemma clean_ok: "reply_ok r \<Longrightarrow> reply_ok (clean r)"
  by (induction r rule: encode.induct) (simp_all add: sanitize_no_crlf list_all_iff)

section \<open>Properties\<close>

text \<open>C19: a reader of the stream gets back exactly the reply that was written, errors with their line
  breaks replaced by spaces, and what was in the buffer before it is untouched: reading from the end
  of the old content gives the reply and leaves nothing. In particular no text that a client can make
  the server echo changes the number of replies in the stream.\<close>

theorem written_reply_reads_back:
  assumes "buf_invar b" "reply_ok (clean r)"
  shows "\<exists>bytes. buf_readable (write_reply r b) = buf_readable b @ bytes \<and>
    decode_reply (bytes @ rest) = Some (clean r, rest)"
  using write_reply_spec [OF assms(1), of r] decode_reply_encode [OF assms(2)] by simp

theorem written_reply_reads_back_witness:
  "\<exists>bytes. buf_readable (write_reply (RArray [RBulk ''a'', RError (''x'' @ CRLF @ ''+OK''), RNull]) buf_init) =
      buf_readable buf_init @ bytes \<and>
    decode_reply (bytes @ '':1'') =
      Some (clean (RArray [RBulk ''a'', RError (''x'' @ CRLF @ ''+OK''), RNull]), '':1'')"
  by (rule written_reply_reads_back) (simp_all add: buf_init_spec sanitize_no_crlf)

end
