(* ===== verification/Snapshot_File.thy ===== *)
theory Snapshot_File
  imports Prelude
begin

text \<open>
  Writing and reading the snapshot file (\<^verbatim>\<open>write_snapshot_file\<close> and \<^verbatim>\<open>read_snapshot_file\<close> of
  \<^verbatim>\<open>persistence/snapshot.cpp\<close>), one system call per step. What the kernel answers is an argument: a list
  of results, consumed call by call, so that every failure, interruption and short write is some list, and
  every prefix of a list is a moment at which the process may be killed. The file system is a directory of
  inodes with POSIX behaviour (an open descriptor keeps its inode across a rename). The theory shows that
  a lone writer replaces the file atomically, and that two writers at once do not.
\<close>

section \<open>System calls\<close>

datatype sys = Ret nat | Intr | Err string

record fsys =
  dir :: "string \<Rightarrow> nat option"
  inode_data :: "nat \<Rightarrow> string"
  inode_synced :: "nat \<Rightarrow> bool"
  next_inode :: nat

text \<open>\<^verbatim>\<open>open(path, O_WRONLY | O_CREAT | O_TRUNC)\<close>\<close>

definition sys_create :: "string \<Rightarrow> fsys \<Rightarrow> nat \<times> fsys" where
  "sys_create path fs =
    (case dir fs path of
       Some i \<Rightarrow> (i, fs\<lparr>inode_data := (inode_data fs)(i := []), inode_synced := (inode_synced fs)(i := False)\<rparr>)
     | None \<Rightarrow> let i = next_inode fs in
         (i, fs\<lparr>dir := (dir fs)(path \<mapsto> i), inode_data := (inode_data fs)(i := []),
              inode_synced := (inode_synced fs)(i := False), next_inode := i + 1\<rparr>))"

definition zero_byte :: char where "zero_byte = CHR 0x00"

text \<open>A write at an offset of the file; a gap before the offset reads as zeros.\<close>

definition overwrite :: "nat \<Rightarrow> string \<Rightarrow> string \<Rightarrow> string" where
  "overwrite off new old = take off (old @ replicate (off - length old) zero_byte) @ new @ drop (off + length new) old"

definition sys_write_at :: "nat \<Rightarrow> nat \<Rightarrow> string \<Rightarrow> fsys \<Rightarrow> fsys" where
  "sys_write_at i off new fs =
     fs\<lparr>inode_data := (inode_data fs)(i := overwrite off new (inode_data fs i)), inode_synced := (inode_synced fs)(i := False)\<rparr>"

definition sys_fsync :: "nat \<Rightarrow> fsys \<Rightarrow> fsys" where
  "sys_fsync i fs = fs\<lparr>inode_synced := (inode_synced fs)(i := True)\<rparr>"

definition sys_rename :: "string \<Rightarrow> string \<Rightarrow> fsys \<Rightarrow> fsys option" where
  "sys_rename a b fs = (case dir fs a of None \<Rightarrow> None | Some i \<Rightarrow> Some (fs\<lparr>dir := (dir fs)(b \<mapsto> i, a := None)\<rparr>))"

definition sys_unlink :: "string \<Rightarrow> fsys \<Rightarrow> fsys" where
  "sys_unlink path fs = fs\<lparr>dir := (dir fs)(path := None)\<rparr>"

text \<open>What a name refers to: the contents, and whether they are known to be on stable storage.\<close>

definition file_at :: "fsys \<Rightarrow> string \<Rightarrow> (string \<times> bool) option" where
  "file_at fs path = map_option (\<lambda>i. (inode_data fs i, inode_synced fs i)) (dir fs path)"

section \<open>Writing\<close>

definition tmp_path :: "string \<Rightarrow> string" where "tmp_path path = path @ ''.tmp''"

fun strerror :: "sys \<Rightarrow> string" where
  "strerror (Err e) = e"
| "strerror Intr = ''Interrupted system call''"
| "strerror (Ret n) = ''Success''"

definition errno_message :: "string \<Rightarrow> sys \<Rightarrow> string" where
  "errno_message what r = what @ '': '' @ strerror r"

text \<open>The system call the writer is about to make; \<^verbatim>\<open>AtWrite i w\<close> has an open descriptor on inode \<open>i\<close> and
  \<open>w\<close> bytes written.\<close>

datatype wpc = AtOpen | AtWrite nat nat | AtSync nat | AtRename | AtUnlink string | AtDirOpen | AtDirSync
  | Finished "string option"

definition write_on :: "string \<Rightarrow> nat \<Rightarrow> nat \<Rightarrow> wpc" where
  "write_on bytes i written = (if written < length bytes then AtWrite i written else AtSync i)"

fun write_step :: "string \<Rightarrow> string \<Rightarrow> sys \<Rightarrow> wpc \<Rightarrow> fsys \<Rightarrow> wpc \<times> fsys" where
  "write_step path bytes r AtOpen fs =
    (case r of
       Ret _ \<Rightarrow> let (i, fs') = sys_create (tmp_path path) fs in (write_on bytes i 0, fs')
     | _ \<Rightarrow> (Finished (Some (errno_message ''open(tmp file)'' r)), fs))"
| "write_step path bytes r (AtWrite i written) fs =
    (case r of
       Ret n \<Rightarrow> let n' = min n (length bytes - written) in
         (write_on bytes i (written + n'), sys_write_at i written (take n' (drop written bytes)) fs)
     | Intr \<Rightarrow> (AtWrite i written, fs)
     | Err e \<Rightarrow> (AtUnlink (errno_message ''write()'' r), fs))"
| "write_step path bytes r (AtSync i) fs =
    (case r of Ret _ \<Rightarrow> (AtRename, sys_fsync i fs) | _ \<Rightarrow> (AtUnlink (errno_message ''fsync(tmp file)'' r), fs))"
| "write_step path bytes r AtRename fs =
    (case r of
       Ret _ \<Rightarrow> (case sys_rename (tmp_path path) path fs of
           Some fs' \<Rightarrow> (AtDirOpen, fs')
         | None \<Rightarrow> (AtUnlink (errno_message ''rename()'' (Err ''No such file or directory'')), fs))
     | _ \<Rightarrow> (AtUnlink (errno_message ''rename()'' r), fs))"
| "write_step path bytes r (AtUnlink e) fs =
    (Finished (Some e), case r of Ret _ \<Rightarrow> sys_unlink (tmp_path path) fs | _ \<Rightarrow> fs)"
| "write_step path bytes r AtDirOpen fs = (case r of Ret _ \<Rightarrow> (AtDirSync, fs) | _ \<Rightarrow> (Finished None, fs))"
| "write_step path bytes r AtDirSync fs = (Finished None, fs)"
| "write_step path bytes r (Finished e) fs = (Finished e, fs)"

definition finished :: "wpc \<Rightarrow> bool" where "finished pc \<longleftrightarrow> (\<exists>e. pc = Finished e)"

lemma finished_simps [simp, code]:
  "finished (Finished e)" "\<not> finished AtOpen" "\<not> finished (AtWrite i w)" "\<not> finished (AtSync i)" "\<not> finished AtRename"
  "\<not> finished (AtUnlink u)" "\<not> finished AtDirOpen" "\<not> finished AtDirSync"
  by (simp_all add: finished_def)

fun write_run :: "string \<Rightarrow> string \<Rightarrow> sys list \<Rightarrow> wpc \<Rightarrow> fsys \<Rightarrow> wpc \<times> fsys \<times> sys list" where
  "write_run path bytes [] pc fs = (pc, fs, [])"
| "write_run path bytes (r # rs) pc fs =
    (if finished pc then (pc, fs, r # rs)
     else case write_step path bytes r pc fs of (pc', fs') \<Rightarrow> write_run path bytes rs pc' fs')"

text \<open>The call: its error text, if any, the file system and the unused results, or \<^term>\<open>None\<close> when it has not
  returned by the end of the list.\<close>

definition write_snapshot_file :: "string \<Rightarrow> string \<Rightarrow> sys list \<Rightarrow> fsys \<Rightarrow> (string option \<times> fsys \<times> sys list) option" where
  "write_snapshot_file path bytes rs fs =
    (case write_run path bytes rs AtOpen fs of
       (Finished e, fs', rest) \<Rightarrow> Some (e, fs', rest)
     | _ \<Rightarrow> None)"

section \<open>Reading\<close>

fun read_loop :: "string \<Rightarrow> nat \<Rightarrow> sys list \<Rightarrow> ((string + nat) \<times> sys list) option" where
  "read_loop content got rs =
    (if length content \<le> got then Some (Inr got, rs)
     else case rs of
       [] \<Rightarrow> None
     | r # rest \<Rightarrow> (case r of
         Ret n \<Rightarrow> if n = 0 then Some (Inr got, rest) else read_loop content (got + min n (length content - got)) rest
       | Intr \<Rightarrow> read_loop content got rest
       | Err e \<Rightarrow> Some (Inl (errno_message ''read()'' r), rest)))"

declare read_loop.simps [simp del]

text \<open>Opening needs the file to be there; \<^verbatim>\<open>fstat\<close> reports its size, and the loop fills the buffer.\<close>

definition read_snapshot_file :: "string \<Rightarrow> sys list \<Rightarrow> fsys \<Rightarrow> ((string + string) \<times> sys list) option" where
  "read_snapshot_file path rs fs =
    (case rs of
       [] \<Rightarrow> None
     | r # rest \<Rightarrow>
       (case (r, dir fs path) of
          (Ret _, Some i) \<Rightarrow>
            (case rest of
               [] \<Rightarrow> None
             | Ret _ # rest2 \<Rightarrow> map_option (apfst (map_sum id (\<lambda>n. take n (inode_data fs i)))) (read_loop (inode_data fs i) 0 rest2)
             | r2 # rest2 \<Rightarrow> Some (Inl (errno_message ''fstat()'' r2), rest2))
        | (Ret _, None) \<Rightarrow> Some (Inl (errno_message ''open()'' (Err ''No such file or directory'')), rest)
        | _ \<Rightarrow> Some (Inl (errno_message ''open()'' r), rest)))"

section \<open>A lone writer is atomic\<close>

definition fs_ok :: "fsys \<Rightarrow> bool" where
  "fs_ok fs \<longleftrightarrow> (\<forall>p i. dir fs p = Some i \<longrightarrow> i < next_inode fs) \<and> (\<forall>p q i. dir fs p = Some i \<and> dir fs q = Some i \<longrightarrow> p = q)"

lemma tmp_ne [simp]: "tmp_path path \<noteq> path" "path \<noteq> tmp_path path"
  by (simp_all add: tmp_path_def)

lemma overwrite_end: "length old = off \<Longrightarrow> overwrite off new old = old @ new"
  by (simp add: overwrite_def)

text \<open>What is known of the temporary file at each point, and that the target has not been touched before the
  rename and is complete after it.\<close>

fun tmp_state :: "string \<Rightarrow> string \<Rightarrow> wpc \<Rightarrow> fsys \<Rightarrow> bool" where
  "tmp_state path bytes (AtWrite i w) fs \<longleftrightarrow> dir fs (tmp_path path) = Some i \<and> inode_data fs i = take w bytes \<and> w < length bytes"
| "tmp_state path bytes (AtSync i) fs \<longleftrightarrow> dir fs (tmp_path path) = Some i \<and> inode_data fs i = bytes"
| "tmp_state path bytes AtRename fs \<longleftrightarrow> file_at fs (tmp_path path) = Some (bytes, True)"
| "tmp_state path bytes _ fs \<longleftrightarrow> True"

fun renamed :: "wpc \<Rightarrow> bool" where
  "renamed AtDirOpen = True" | "renamed AtDirSync = True" | "renamed (Finished None) = True" | "renamed _ = False"

definition writer_inv :: "string \<Rightarrow> string \<Rightarrow> fsys \<Rightarrow> wpc \<Rightarrow> fsys \<Rightarrow> bool" where
  "writer_inv path bytes fs0 pc fs \<longleftrightarrow> fs_ok fs \<and> tmp_state path bytes pc fs \<and>
     file_at fs path = (if renamed pc then Some (bytes, True) else file_at fs0 path) \<and>
     (\<forall>q. q \<noteq> path \<and> q \<noteq> tmp_path path \<longrightarrow> file_at fs q = file_at fs0 q)"

lemma sys_create_spec:
  assumes ok: "fs_ok fs" and c: "sys_create p fs = (i, fs')"
  shows "fs_ok fs' \<and> dir fs' p = Some i \<and> inode_data fs' i = [] \<and> (\<forall>q. q \<noteq> p \<longrightarrow> file_at fs' q = file_at fs q)"
proof (cases "dir fs p")
  case None
  then have f: "i = next_inode fs" "fs' = fs\<lparr>dir := (dir fs)(p \<mapsto> i), inode_data := (inode_data fs)(i := []),
      inode_synced := (inode_synced fs)(i := False), next_inode := i + 1\<rparr>"
    using c by (auto simp: sys_create_def Let_def)
  have lt: "dir fs r = Some j \<Longrightarrow> j < i" for r j using ok f(1) by (auto simp: fs_ok_def)
  then have ne: "dir fs r \<noteq> Some i" for r by blast
  have "fs_ok fs'"
    using ok lt ne unfolding fs_ok_def f(2) by (auto simp: less_Suc_eq)
  moreover have "q \<noteq> p \<Longrightarrow> file_at fs' q = file_at fs q" for q
    using ne [of q] by (cases "dir fs q") (auto simp: file_at_def f(2))
  ultimately show ?thesis by (simp add: f(2))
next
  case (Some j)
  then have f: "i = j" "fs' = fs\<lparr>inode_data := (inode_data fs)(i := []), inode_synced := (inode_synced fs)(i := False)\<rparr>"
    using c by (auto simp: sys_create_def)
  have "fs_ok fs'" using ok by (simp add: fs_ok_def f)
  moreover have "q \<noteq> p \<Longrightarrow> file_at fs' q = file_at fs q" for q
    using ok Some by (cases "dir fs q") (auto simp: file_at_def f fs_ok_def)
  ultimately show ?thesis using Some by (simp add: f)
qed

lemma sys_inode_spec:
  assumes ok: "fs_ok fs" and d: "dir fs p = Some i"
  shows "fs_ok (sys_write_at i off new fs)" "q \<noteq> p \<Longrightarrow> file_at (sys_write_at i off new fs) q = file_at fs q"
    "dir (sys_write_at i off new fs) = dir fs" "inode_data (sys_write_at i off new fs) i = overwrite off new (inode_data fs i)"
    "fs_ok (sys_fsync i fs)" "q \<noteq> p \<Longrightarrow> file_at (sys_fsync i fs) q = file_at fs q" "file_at (sys_fsync i fs) p = Some (inode_data fs i, True)"
proof -
  have ne: "q \<noteq> p \<Longrightarrow> dir fs q \<noteq> Some i" using ok d by (auto simp: fs_ok_def)
  show "fs_ok (sys_write_at i off new fs)" "dir (sys_write_at i off new fs) = dir fs" "fs_ok (sys_fsync i fs)"
    "inode_data (sys_write_at i off new fs) i = overwrite off new (inode_data fs i)" "file_at (sys_fsync i fs) p = Some (inode_data fs i, True)"
    using ok d by (simp_all add: fs_ok_def sys_write_at_def sys_fsync_def file_at_def)
  show "q \<noteq> p \<Longrightarrow> file_at (sys_write_at i off new fs) q = file_at fs q" "q \<noteq> p \<Longrightarrow> file_at (sys_fsync i fs) q = file_at fs q"
    using ne by (cases "dir fs q"; simp add: file_at_def sys_write_at_def sys_fsync_def)+
qed

lemma sys_dir_spec:
  assumes ok: "fs_ok fs"
  shows "fs_ok (sys_unlink p fs)" "q \<noteq> p \<Longrightarrow> file_at (sys_unlink p fs) q = file_at fs q"
    "a \<noteq> b \<Longrightarrow> sys_rename a b fs = Some fs' \<Longrightarrow> fs_ok fs' \<and> file_at fs' b = file_at fs a \<and> (\<forall>q. q \<noteq> a \<and> q \<noteq> b \<longrightarrow> file_at fs' q = file_at fs q)"
    "sys_rename a b fs = None \<longleftrightarrow> file_at fs a = None"
proof -
  show "fs_ok (sys_unlink p fs)" "q \<noteq> p \<Longrightarrow> file_at (sys_unlink p fs) q = file_at fs q"
    using ok by (auto simp: fs_ok_def sys_unlink_def file_at_def split: if_splits)
  show "sys_rename a b fs = None \<longleftrightarrow> file_at fs a = None"
    by (simp add: sys_rename_def file_at_def split: option.split)
  assume ab: "a \<noteq> b" and r: "sys_rename a b fs = Some fs'"
  obtain i where i: "dir fs a = Some i" "fs' = fs\<lparr>dir := (dir fs)(b \<mapsto> i, a := None)\<rparr>"
    using r by (auto simp: sys_rename_def split: option.splits)
  have "fs_ok fs'"
    using ok i(1) unfolding fs_ok_def i(2) by (auto split: if_splits)
  moreover have "file_at fs' b = file_at fs a" "q \<noteq> a \<and> q \<noteq> b \<longrightarrow> file_at fs' q = file_at fs q" for q
    using ab i by (auto simp: file_at_def)
  ultimately show "fs_ok fs' \<and> file_at fs' b = file_at fs a \<and> (\<forall>q. q \<noteq> a \<and> q \<noteq> b \<longrightarrow> file_at fs' q = file_at fs q)"
    by blast
qed

lemma write_on_state:
  assumes "dir fs (tmp_path path) = Some i" "inode_data fs i = take w bytes"
  shows "tmp_state path bytes (write_on bytes i w) fs" "\<not> renamed (write_on bytes i w)"
  using assms by (auto simp: write_on_def)

lemma write_step_inv:
  assumes inv: "writer_inv path bytes fs0 pc fs" and st: "write_step path bytes r pc fs = (pc', fs')" and nf: "\<not> finished pc"
  shows "writer_inv path bytes fs0 pc' fs'"
proof -
  have ok: "fs_ok fs" and ts: "tmp_state path bytes pc fs" and at: "file_at fs path = (if renamed pc then Some (bytes, True) else file_at fs0 path)"
    and oth: "\<And>q. q \<noteq> path \<Longrightarrow> q \<noteq> tmp_path path \<Longrightarrow> file_at fs q = file_at fs0 q"
    using inv by (auto simp: writer_inv_def)
  show ?thesis
  proof (cases pc)
    case AtOpen
    show ?thesis
    proof (cases r)
      case (Ret n)
      obtain i fs1 where c: "sys_create (tmp_path path) fs = (i, fs1)" by force
      note S = sys_create_spec [OF ok c]
      have "pc' = write_on bytes i 0" "fs' = fs1" using st AtOpen Ret c by auto
      then show ?thesis
        using S write_on_state [of fs1 path i 0 bytes] at oth AtOpen by (simp add: writer_inv_def)
    qed (use st AtOpen inv in \<open>auto simp: writer_inv_def\<close>)
  next
    case (AtWrite i w)
    show ?thesis
    proof (cases r)
      case (Ret n)
      let ?n = "min n (length bytes - w)"
      have d: "dir fs (tmp_path path) = Some i" "inode_data fs i = take w bytes" "w < length bytes" using ts AtWrite by simp_all
      note W = sys_inode_spec(1-4) [OF ok d(1), where off = w and new = "take ?n (drop w bytes)"]
      have "overwrite w (take ?n (drop w bytes)) (take w bytes) = take (w + ?n) bytes"
        using d(3) by (simp add: overwrite_end take_add)
      then have "inode_data (sys_write_at i w (take ?n (drop w bytes)) fs) i = take (w + ?n) bytes"
        using W(4) d(2) by simp
      moreover have "pc' = write_on bytes i (w + ?n)" "fs' = sys_write_at i w (take ?n (drop w bytes)) fs"
        using st AtWrite Ret by (simp_all add: Let_def)
      ultimately show ?thesis
        using W write_on_state [of fs' path i "w + ?n" bytes] d at oth AtWrite by (simp add: writer_inv_def)
    qed (use st AtWrite inv in \<open>auto simp: writer_inv_def\<close>)
  next
    case (AtSync i)
    then show ?thesis
      using st ts at oth ok sys_inode_spec(5-7) [OF ok, of "tmp_path path" i]
      by (cases r) (auto simp: writer_inv_def)
  next
    case AtRename
    show ?thesis
    proof (cases r)
      case (Ret n)
      obtain fs1 where f: "sys_rename (tmp_path path) path fs = Some fs1"
        using ts AtRename sys_dir_spec(4) [OF ok, of "tmp_path path" path] by (cases "sys_rename (tmp_path path) path fs") auto
      have "pc' = AtDirOpen" "fs' = fs1" using st AtRename Ret f by auto
      then show ?thesis
        using sys_dir_spec(3) [OF ok tmp_ne(1) f] ts oth AtRename by (simp add: writer_inv_def)
    qed (use st AtRename inv in \<open>auto simp: writer_inv_def\<close>)
  next
    case (AtUnlink e)
    then show ?thesis
      using st at oth ok sys_dir_spec(1,2) [OF ok, where p = "tmp_path path"] by (cases r) (auto simp: writer_inv_def)
  next
    case AtDirOpen
    then show ?thesis using st inv by (cases r) (auto simp: writer_inv_def)
  next
    case AtDirSync
    then show ?thesis using st inv by (auto simp: writer_inv_def)
  next
    case (Finished e)
    then show ?thesis using nf by simp
  qed
qed

lemma write_run_inv:
  "writer_inv path bytes fs0 pc fs \<Longrightarrow> write_run path bytes rs pc fs = (pc', fs', rest) \<Longrightarrow> writer_inv path bytes fs0 pc' fs'"
proof (induction path bytes rs pc fs rule: write_run.induct)
  case (2 path bytes r rs pc fs)
  then show ?case
    using write_step_inv [OF 2(2)] by (auto split: if_splits prod.splits)
qed auto

text \<open>Progress: every call result other than an interrupted or empty write brings the end nearer.\<close>

fun productive :: "sys \<Rightarrow> bool" where
  "productive Intr = False" | "productive (Ret n) = (n \<noteq> 0)" | "productive (Err e) = True"

fun calls_left :: "string \<Rightarrow> wpc \<Rightarrow> nat" where
  "calls_left bytes AtOpen = length bytes + 5" | "calls_left bytes (AtWrite i w) = (length bytes - w) + 4"
| "calls_left bytes (AtSync i) = 4" | "calls_left bytes AtRename = 3" | "calls_left bytes AtDirOpen = 2"
| "calls_left bytes AtDirSync = 1" | "calls_left bytes (AtUnlink e) = 1" | "calls_left bytes (Finished e) = 0"

lemma write_step_calls:
  assumes "write_step path bytes r pc fs = (pc', fs')" "tmp_state path bytes pc fs" "\<not> finished pc"
  shows "calls_left bytes pc' \<le> calls_left bytes pc" "productive r \<Longrightarrow> calls_left bytes pc' < calls_left bytes pc"
  using assms by (cases pc; cases r; auto simp: write_on_def Let_def split: option.splits prod.splits if_splits)+

lemma write_run_finishes:
  assumes "writer_inv path bytes fs0 pc fs" "calls_left bytes pc \<le> length (filter productive rs)"
  shows "\<exists>e fs' rest. write_run path bytes rs pc fs = (Finished e, fs', rest)"
  using assms
proof (induction path bytes rs pc fs rule: write_run.induct)
  case (1 path bytes pc fs)
  then show ?case by (cases pc) auto
next
  case (2 path bytes r rs pc fs)
  show ?case
  proof (cases "finished pc")
    case True
    then show ?thesis by (auto simp: finished_def)
  next
    case False
    obtain pc1 fs1 where s: "write_step path bytes r pc fs = (pc1, fs1)" by force
    have "tmp_state path bytes pc fs" using 2(2) by (simp add: writer_inv_def)
    note C = write_step_calls [OF s this False]
    have "calls_left bytes pc1 \<le> length (filter productive rs)"
      using C 2(3) by (cases "productive r") auto
    then show ?thesis
      using 2(1) [OF False s [symmetric] write_step_inv [OF 2(2) s False]] False s by simp
  qed
qed

lemma writer_starts: "fs_ok fs \<Longrightarrow> writer_inv path bytes fs AtOpen fs"
  by (simp add: writer_inv_def)

lemma write_run_spec:
  assumes ok: "fs_ok fs" and run: "write_run path bytes rs AtOpen fs = (pc, fs', rest)"
  shows "fs_ok fs'" "file_at fs' path = (if renamed pc then Some (bytes, True) else file_at fs path)"
    "q \<noteq> path \<Longrightarrow> q \<noteq> tmp_path path \<Longrightarrow> file_at fs' q = file_at fs q"
  using write_run_inv [OF writer_starts [OF ok] run] by (simp_all add: writer_inv_def)

lemma write_snapshot_file_spec:
  assumes ok: "fs_ok fs" and run: "write_snapshot_file path bytes rs fs = Some (e, fs', rest)"
  shows "fs_ok fs'" "file_at fs' path = (if e = None then Some (bytes, True) else file_at fs path)"
    "q \<noteq> path \<Longrightarrow> q \<noteq> tmp_path path \<Longrightarrow> file_at fs' q = file_at fs q"
proof -
  have r: "write_run path bytes rs AtOpen fs = (Finished e, fs', rest)"
    using run by (auto simp: write_snapshot_file_def split: wpc.splits prod.splits)
  show "fs_ok fs'" "file_at fs' path = (if e = None then Some (bytes, True) else file_at fs path)"
    "q \<noteq> path \<Longrightarrow> q \<noteq> tmp_path path \<Longrightarrow> file_at fs' q = file_at fs q"
    using write_run_spec [OF ok r] by (cases e; simp)+
qed

lemma write_snapshot_file_returns:
  assumes "fs_ok fs" "length bytes + 5 \<le> length (filter productive rs)"
  shows "\<exists>r. write_snapshot_file path bytes rs fs = Some r"
  using write_run_finishes [OF writer_starts [OF assms(1)], of bytes rs path] assms(2) by (auto simp: write_snapshot_file_def)

text \<open>C16: the snapshot file is replaced atomically. At whatever system call the writer is stopped or fails,
  the snapshot's name refers either to the old file, untouched, or to the complete new one, already on
  stable storage; it is the new one exactly when the call has passed its rename, in particular when it
  reports success, and the old one whenever it reports an error. No other file but the temporary one
  changes, and enough calls that are not interrupted let the writer return.\<close>
theorem snapshot_file_atomic:
  assumes ok: "fs_ok fs" and run: "write_run path bytes rs AtOpen fs = (pc, fs', rest)"
  shows "(if renamed pc then file_at fs' path = Some (bytes, True) else file_at fs' path = file_at fs path) \<and>
    renamed (Finished None) \<and> (\<forall>e. \<not> renamed (Finished (Some e))) \<and>
    (\<forall>q. q \<noteq> path \<and> q \<noteq> tmp_path path \<longrightarrow> file_at fs' q = file_at fs q) \<and>
    (length bytes + 5 \<le> length (filter productive rs) \<longrightarrow> finished pc)"
  using write_run_spec [OF ok run] write_run_finishes [OF writer_starts [OF ok], of bytes rs path] run by auto

definition no_files :: fsys where
  "no_files = \<lparr>dir = (\<lambda>_. None), inode_data = (\<lambda>_. []), inode_synced = (\<lambda>_. False), next_inode = 0\<rparr>"

definition demo_calls :: "sys list" where
  "demo_calls = [Ret 3, Ret 1, Intr, Ret 1, Ret 0, Err ''Input/output error'', Ret 0]"

lemma no_files_ok: "fs_ok no_files"
  by (simp add: fs_ok_def no_files_def)

theorem snapshot_file_atomic_witness:
  "\<exists>pc fs' rest. write_run ''d'' ''ab'' demo_calls AtOpen no_files = (pc, fs', rest) \<and>
    pc = Finished (Some ''rename(): Input/output error'') \<and> file_at fs' ''d'' = file_at no_files ''d''"
proof -
  obtain pc fs' rest where r: "write_run ''d'' ''ab'' demo_calls AtOpen no_files = (pc, fs', rest)"
    by (metis prod_cases3)
  have "fst (write_run ''d'' ''ab'' demo_calls AtOpen no_files) = Finished (Some ''rename(): Input/output error'')"
    by (simp add: demo_calls_def no_files_def sys_create_def write_on_def errno_message_def)
  then have p: "pc = Finished (Some ''rename(): Input/output error'')" using r by simp
  show ?thesis
    using r p snapshot_file_atomic [OF no_files_ok r] by auto
qed

section \<open>Two writers at once\<close>

text \<open>\<^verbatim>\<open>SAVE\<close> does not ask whether a background save is running, so the loop thread and a worker may both be
  inside \<^verbatim>\<open>write_snapshot_file\<close>, with the same temporary name. A schedule says whose call comes next.\<close>

fun race :: "string \<Rightarrow> string \<Rightarrow> string \<Rightarrow> (bool \<times> sys) list \<Rightarrow> wpc \<times> wpc \<times> fsys \<Rightarrow> wpc \<times> wpc \<times> fsys" where
  "race path bg fg [] s = s"
| "race path bg fg ((worker, r) # rs) (p, q, fs) =
    (if worker then (case write_step path bg r p fs of (p', fs') \<Rightarrow> race path bg fg rs (p', q, fs'))
     else (case write_step path fg r q fs of (q', fs') \<Rightarrow> race path bg fg rs (p, q', fs')))"

text \<open>C17: a \<^verbatim>\<open>SAVE\<close> during a background save can tear the snapshot. Whatever the two contents are, if the
  worker has written \<open>k\<close> bytes when \<^verbatim>\<open>SAVE\<close> runs, then \<^verbatim>\<open>SAVE\<close> reports success, and afterwards the worker,
  whose descriptor still names the same inode, writes the rest of its own bytes into the file that \<^verbatim>\<open>SAVE\<close>
  has just put in place: the snapshot now starts with the one and ends with the other.\<close>
theorem save_during_bgsave_tears_snapshot:
  assumes "0 < k" "k < length bg" "fg \<noteq> []"
  shows "\<exists>schedule p fs'. race path bg fg schedule (AtOpen, AtOpen, fs) = (p, Finished None, fs') \<and>
    file_at fs' path = Some (overwrite k (drop k bg) fg, False)"
proof -
  let ?sch = "[(True, Ret 0), (True, Ret k), (False, Ret 0), (False, Ret (length fg)), (False, Ret 0), (False, Ret 0), (False, Ret 0), (False, Ret 0),
    (True, Ret (length bg - k))]"
  obtain p q fs' where r: "race path bg fg ?sch (AtOpen, AtOpen, fs) = (p, q, fs')" by (metis prod_cases3)
  have "bg \<noteq> []" using assms by auto
  then have "q = Finished None \<and> file_at fs' path = Some (overwrite k (drop k bg) fg, False)"
    using r assms
    by (cases "dir fs (tmp_path path)")
      (auto simp: sys_create_def write_on_def Let_def sys_rename_def sys_write_at_def sys_fsync_def file_at_def overwrite_end)
  then show ?thesis
    using r by (intro exI [of _ ?sch] exI [of _ p] exI [of _ fs']) blast
qed

theorem save_during_bgsave_tears_snapshot_witness:
  "\<exists>schedule p fs'. race ''d'' ''BBBB'' ''SSSS'' schedule (AtOpen, AtOpen, no_files) = (p, Finished None, fs') \<and>
    file_at fs' ''d'' = Some (''SSBB'', False)"
  using save_during_bgsave_tears_snapshot [of 2 "''BBBB''" "''SSSS''" "''d''" no_files] by (simp add: overwrite_def)

section \<open>Reading the whole file\<close>

lemma read_loop_all:
  assumes "read_loop content got rs = Some (Inr n, rest)" "Ret 0 \<notin> set rs" "got \<le> length content"
  shows "n = length content"
  using assms
proof (induction content got rs arbitrary: n rest rule: read_loop.induct)
  case (1 content got rs)
  show ?case
  proof (cases "length content \<le> got")
    case True
    then show ?thesis using 1(3,5) by (simp add: read_loop.simps)
  next
    case False
    then obtain r rs' where rs: "rs = r # rs'"
      using 1(3) by (cases rs) (auto simp: read_loop.simps)
    show ?thesis
      using 1(1) [OF False rs] 1(2) [OF False rs] 1(3-5) False unfolding rs
      by (cases r) (auto simp: read_loop.simps [of content got])
  qed
qed

lemma read_snapshot_file_spec:
  assumes "read_snapshot_file path rs fs = Some (Inr bytes, rest)" "Ret 0 \<notin> set (drop 2 rs)"
  shows "\<exists>s. file_at fs path = Some (bytes, s)"
proof -
  obtain a b rs' i where rs: "rs = Ret a # Ret b # rs'" "dir fs path = Some i"
    "map_option (apfst (map_sum id (\<lambda>n. take n (inode_data fs i)))) (read_loop (inode_data fs i) 0 rs') = Some (Inr bytes, rest)"
    using assms(1) by (auto simp: read_snapshot_file_def split: list.splits sys.splits option.splits)
  obtain n where "read_loop (inode_data fs i) 0 rs' = Some (Inr n, rest)" "bytes = take n (inode_data fs i)"
    using rs(3) by (auto simp: map_sum_def split: sum.splits) (metis sum.case_eq_if sum.collapse sum.distinct(1) sum.sel isl_def)
  moreover have "Ret 0 \<notin> set rs'" using assms(2) rs(1) by simp
  ultimately have "bytes = inode_data fs i"
    using read_loop_all [of "inode_data fs i" 0 rs' n rest] by simp
  then show ?thesis
    using rs(2) by (simp add: file_at_def)
qed

text \<open>A kernel that answers every read with some bytes.\<close>

fun gives_bytes :: "sys \<Rightarrow> bool" where
  "gives_bytes (Ret n) = (n \<noteq> 0)" | "gives_bytes Intr = False" | "gives_bytes (Err e) = False"

lemma read_loop_returns:
  assumes "list_all gives_bytes rs" "length content - got \<le> length rs" "got \<le> length content"
  shows "\<exists>rest. read_loop content got rs = Some (Inr (length content), rest)"
  using assms
proof (induction rs arbitrary: got)
  case Nil
  then show ?case by (simp add: read_loop.simps)
next
  case (Cons r rs)
  then obtain n where r: "r = Ret n" "n \<noteq> 0" by (cases r) auto
  then show ?case
    using Cons.prems Cons.IH [of "got + min n (length content - got)"]
    by (simp add: read_loop.simps [of content got])
qed

lemma read_snapshot_file_returns:
  assumes f: "file_at fs path = Some (bytes, s)" and rs: "list_all gives_bytes rs" "length bytes + 2 \<le> length rs"
  shows "\<exists>rest. read_snapshot_file path rs fs = Some (Inr bytes, rest)"
proof -
  obtain i where i: "dir fs path = Some i" "inode_data fs i = bytes"
    using f by (auto simp: file_at_def)
  obtain r1 r2 rs' where e: "rs = r1 # r2 # rs'"
    using rs(2) by (metis Suc_le_length_iff add_2_eq_Suc' Suc_le_D)
  then obtain a b where ab: "r1 = Ret a" "r2 = Ret b"
    using rs(1) by (cases r1; cases r2) auto
  have "length bytes - 0 \<le> length rs'" "list_all gives_bytes rs'"
    using rs e by simp_all
  then obtain rest where "read_loop bytes 0 rs' = Some (Inr (length bytes), rest)"
    using read_loop_returns [of rs' bytes 0] by auto
  then show ?thesis
    using i e ab by (simp add: read_snapshot_file_def)
qed

end
