(* ===== verification/Command.thy ===== *)
theory Command
  imports Database Resp_Writer Snapshot_File
begin

text \<open>
  What the command handlers share: the context of \<^verbatim>\<open>commands/dispatcher.h\<close> with the clock readings of
  one command, argument access, the error texts, and the lookup shapes that the handler files repeat
  (\<^verbatim>\<open>as_X_or_error\<close>, \<^verbatim>\<open>get_or_create_X\<close>). Reading an argument or dereferencing a lookup result that
  is not there is undefined behaviour. The rules at the end reduce the correctness of a handler to
  what it does with one value: \<open>does c c' r M\<close> says that a command went from context \<open>c\<close> to \<open>c'\<close>,
  appended exactly the reply \<open>r\<close>, kept every invariant, and that the visible keyspace is now \<open>M\<close>.
\<close>

section \<open>Contexts\<close>

datatype bg_task = FreeValue val | FreeKeyspace detached_keyspace | WriteSnapshot string string int

record save_state =
  snapshot_path :: string
  lastsave_unix_ms :: int
  bgsave_in_progress :: bool
  disk :: fsys
  io :: "sys list"

text \<open>
  \<open>clk_mono\<close> and \<open>clk_unix\<close> are what \<^verbatim>\<open>monotonic_ms()\<close> and \<^verbatim>\<open>unix_ms()\<close> return during the command
  (no handler reads a clock twice). \<open>disk\<close> is the file system, \<open>io\<close> the
  results of the file system calls to come.
\<close>

record ctx =
  out :: buffer
  want_close :: bool
  db :: database
  clk_mono :: int
  clk_unix :: int
  crng :: rng
  tasks :: "bg_task list"
  psave :: save_state

definition arg :: "string list \<Rightarrow> nat \<Rightarrow> string ub" where
  "arg argv i = (if i < length argv then Some (argv ! i) else None)"

definition kWrongType :: string where
  "kWrongType = ''WRONGTYPE Operation against a key holding the wrong kind of value''"
definition kNotInt :: string where "kNotInt = ''ERR value is not an integer or out of range''"
definition kOverflow :: string where "kOverflow = ''ERR increment or decrement would overflow''"
definition kNotPositive :: string where "kNotPositive = ''ERR value is out of range, must be positive''"
definition kNotFloat :: string where "kNotFloat = ''ERR value is not a valid float''"

definition quoted :: "string \<Rightarrow> string" where "quoted s = [CHR 0x27] @ s @ [CHR 0x27]"

definition wrong_arity :: "string \<Rightarrow> string" where
  "wrong_arity name = ''ERR wrong number of arguments for '' @ quoted name @ '' command''"

definition reply_simple :: "string \<Rightarrow> ctx \<Rightarrow> ctx" where "reply_simple s c = c\<lparr>out := resp_simple s (out c)\<rparr>"
definition reply_error :: "string \<Rightarrow> ctx \<Rightarrow> ctx" where "reply_error s c = c\<lparr>out := resp_error s (out c)\<rparr>"
definition reply_integer :: "int \<Rightarrow> ctx \<Rightarrow> ctx" where "reply_integer n c = c\<lparr>out := resp_integer n (out c)\<rparr>"
definition reply_bulk :: "string \<Rightarrow> ctx \<Rightarrow> ctx" where "reply_bulk s c = c\<lparr>out := resp_bulk s (out c)\<rparr>"
definition reply_double :: "f64 \<Rightarrow> ctx \<Rightarrow> ctx" where "reply_double d c = c\<lparr>out := resp_double_as_bulk d (out c)\<rparr>"
definition reply_null_bulk :: "ctx \<Rightarrow> ctx" where "reply_null_bulk c = c\<lparr>out := resp_null_bulk (out c)\<rparr>"
definition reply_null_array :: "ctx \<Rightarrow> ctx" where "reply_null_array c = c\<lparr>out := resp_null_array (out c)\<rparr>"
definition reply_array_header :: "nat \<Rightarrow> ctx \<Rightarrow> ctx" where
  "reply_array_header n c = c\<lparr>out := resp_array_header n (out c)\<rparr>"

text \<open>A null pointer becomes a null bulk string.\<close>

definition reply_opt_bulk :: "string option \<Rightarrow> ctx \<Rightarrow> ctx" where
  "reply_opt_bulk s c = (case s of Some x \<Rightarrow> reply_bulk x c | None \<Rightarrow> reply_null_bulk c)"

definition ctx_lookup :: "string \<Rightarrow> ctx \<Rightarrow> val option \<times> ctx" where
  "ctx_lookup key c = (let (v, d) = lookup_write key (clk_mono c) (db c) in (v, c\<lparr>db := d\<rparr>))"

definition ctx_store :: "string \<Rightarrow> val \<Rightarrow> ctx \<Rightarrow> ctx" where
  "ctx_store key v c = c\<lparr>db := db_write key v (db c)\<rparr>"

definition ctx_set :: "string \<Rightarrow> val \<Rightarrow> ctx \<Rightarrow> ctx" where
  "ctx_set key v c = c\<lparr>db := db_set key v (db c)\<rparr>"

definition ctx_del :: "string \<Rightarrow> ctx \<Rightarrow> ctx" where
  "ctx_del key c = c\<lparr>db := snd (db_del key (db c))\<rparr>"

text \<open>\<^verbatim>\<open>std::get_if\<close> on the five alternatives.\<close>

fun get_string :: "val \<Rightarrow> string option" where "get_string (VString s) = Some s" | "get_string _ = None"
fun get_hash :: "val \<Rightarrow> string hash_table option" where "get_hash (VHash h) = Some h" | "get_hash _ = None"
fun get_list :: "val \<Rightarrow> string list option" where "get_list (VList l) = Some l" | "get_list _ = None"
fun get_set :: "val \<Rightarrow> unit hash_table option" where "get_set (VSet s) = Some s" | "get_set _ = None"
fun get_zset :: "val \<Rightarrow> zset option" where "get_zset (VZSet z) = Some z" | "get_zset _ = None"

text \<open>
  Lookup, then the missing-key branch, the wrong-type error, or the work on the value of the right
  type: the shape of every handler of one key.
\<close>

definition with_value :: "(val \<Rightarrow> 'a option) \<Rightarrow> string \<Rightarrow> (ctx \<Rightarrow> ctx ub) \<Rightarrow> ('a \<Rightarrow> ctx \<Rightarrow> ctx ub) \<Rightarrow> ctx \<Rightarrow> ctx ub" where
  "with_value get key missing found c =
    (case ctx_lookup key c of
       (None, c1) \<Rightarrow> missing c1
     | (Some v, c1) \<Rightarrow> (case get v of None \<Rightarrow> Some (reply_error kWrongType c1) | Some x \<Rightarrow> found x c1))"

text \<open>
  \<^verbatim>\<open>get_or_create_X\<close>: a missing key gets an empty aggregate, which is looked up again; following
  that second lookup's result is undefined if it is null or of another type.
\<close>

definition get_or_create :: "(val \<Rightarrow> 'a option) \<Rightarrow> val \<Rightarrow> string \<Rightarrow> ('a \<Rightarrow> ctx \<Rightarrow> ctx ub) \<Rightarrow> ctx \<Rightarrow> ctx ub" where
  "get_or_create get fresh key found c =
     with_value get key
       (\<lambda>c1. case ctx_lookup key (ctx_set key fresh c1) of
          (v, c2) \<Rightarrow> do { w \<leftarrow> v; x \<leftarrow> get w; found x c2 })
       found c"

section \<open>What a command does\<close>

type_synonym amap = "string \<rightharpoonup> aval \<times> int option"

definition clock_ok :: "ctx \<Rightarrow> bool" where
  "clock_ok c \<longleftrightarrow> 500 \<le> clk_mono c \<and> in_i64 (clk_mono c) \<and> 0 \<le> clk_unix c \<and> in_i64 (clk_unix c)"

definition ctx_ok :: "ctx \<Rightarrow> bool" where
  "ctx_ok c \<longleftrightarrow> buf_invar (out c) \<and> db_invar (db c) \<and> rng_fair (crng c) \<and> clock_ok c"

definition view :: "ctx \<Rightarrow> amap" where
  "view c = db_view (db c) (clk_mono c)"

definition same_clock :: "ctx \<Rightarrow> ctx \<Rightarrow> bool" where
  "same_clock c c' \<longleftrightarrow> clk_mono c' = clk_mono c \<and> clk_unix c' = clk_unix c"

definition shows_db :: "ctx \<Rightarrow> database \<Rightarrow> amap \<Rightarrow> bool" where
  "shows_db c d M \<longleftrightarrow> (\<forall>t \<ge> clk_mono c. db_view d t = purge t M)"

definition does :: "ctx \<Rightarrow> ctx \<Rightarrow> reply \<Rightarrow> amap \<Rightarrow> bool" where
  "does c c' r M \<longleftrightarrow> ctx_ok c' \<and> same_clock c c' \<and> shows_db c (db c') M \<and> reply_ok r \<and>
     buf_readable (out c') = buf_readable (out c) @ encode r"

lemma purge_map: "purge t (\<lambda>k. map_option (apfst f) (M k)) = (\<lambda>k. map_option (apfst f) (purge t M k))"
  by (rule ext) (auto simp: purge_def split: option.splits)

lemma db_view_purge: "now \<le> t \<Longrightarrow> db_view d t = purge t (db_view d now)"
  by (simp add: db_view_def purge_map purge_db_live)

lemma purge_self: "purge now (db_view d now) = db_view d now"
  using db_view_purge [of now now d] by simp

lemma shows_db_self: "shows_db c (db c) (view c)"
  by (simp add: shows_db_def view_def db_view_purge)

lemma does_view: "does c c' r M \<Longrightarrow> view c' = purge (clk_mono c) M"
  by (simp add: does_def shows_db_def view_def same_clock_def)

lemma db_view_live: "db_live d' t = db_live d t \<Longrightarrow> db_view d' t = db_view d t"
  by (simp add: db_view_def)

lemma replies [simp]:
  "db (reply_simple s c) = db c" "db (reply_error s c) = db c" "db (reply_integer n c) = db c" "db (reply_bulk s c) = db c"
  "db (reply_double x c) = db c" "db (reply_null_bulk c) = db c" "db (reply_null_array c) = db c"
  "db (reply_array_header k c) = db c" "db (reply_opt_bulk so c) = db c"
  "crng (reply_simple s c) = crng c" "crng (reply_error s c) = crng c" "crng (reply_integer n c) = crng c"
  "crng (reply_bulk s c) = crng c" "crng (reply_double x c) = crng c" "crng (reply_null_bulk c) = crng c"
  "crng (reply_null_array c) = crng c" "crng (reply_array_header k c) = crng c" "crng (reply_opt_bulk so c) = crng c"
  by (simp_all add: reply_simple_def reply_error_def reply_integer_def reply_bulk_def reply_double_def
      reply_null_bulk_def reply_null_array_def reply_array_header_def reply_opt_bulk_def split: option.splits)

lemma replies_clock [simp]:
  "clk_mono (reply_simple s c) = clk_mono c" "clk_mono (reply_error s c) = clk_mono c" "clk_mono (reply_integer n c) = clk_mono c"
  "clk_mono (reply_bulk s c) = clk_mono c" "clk_mono (reply_double x c) = clk_mono c" "clk_mono (reply_null_bulk c) = clk_mono c"
  "clk_mono (reply_null_array c) = clk_mono c" "clk_mono (reply_array_header k c) = clk_mono c" "clk_mono (reply_opt_bulk so c) = clk_mono c"
  "clk_unix (reply_simple s c) = clk_unix c" "clk_unix (reply_error s c) = clk_unix c" "clk_unix (reply_integer n c) = clk_unix c"
  "clk_unix (reply_bulk s c) = clk_unix c" "clk_unix (reply_double x c) = clk_unix c" "clk_unix (reply_null_bulk c) = clk_unix c"
  "clk_unix (reply_null_array c) = clk_unix c" "clk_unix (reply_array_header k c) = clk_unix c" "clk_unix (reply_opt_bulk so c) = clk_unix c"
  by (simp_all add: reply_simple_def reply_error_def reply_integer_def reply_bulk_def reply_double_def
      reply_null_bulk_def reply_null_array_def reply_array_header_def reply_opt_bulk_def split: option.splits)

lemma reply_out [simp]:
  assumes "buf_invar (out c)"
  shows "buf_readable (out (reply_simple s c)) = buf_readable (out c) @ encode (RSimple s)"
    "buf_readable (out (reply_error s c)) = buf_readable (out c) @ encode (RError (sanitize_error_text s))"
    "buf_readable (out (reply_integer n c)) = buf_readable (out c) @ encode (RInt n)"
    "buf_readable (out (reply_bulk s c)) = buf_readable (out c) @ encode (RBulk s)"
    "buf_readable (out (reply_double x c)) = buf_readable (out c) @ encode (RBulk (double_text x))"
    "buf_readable (out (reply_null_bulk c)) = buf_readable (out c) @ encode RNull"
    "buf_readable (out (reply_null_array c)) = buf_readable (out c) @ encode RNullArray"
    "buf_readable (out (reply_array_header k c)) = buf_readable (out c) @ CHR ''*'' # nat_to_string k @ CRLF"
    "buf_readable (out (reply_opt_bulk so c)) = buf_readable (out c) @ encode (case so of Some x \<Rightarrow> RBulk x | None \<Rightarrow> RNull)"
    "buf_invar (out (reply_simple s c))" "buf_invar (out (reply_error s c))" "buf_invar (out (reply_integer n c))"
    "buf_invar (out (reply_bulk s c))" "buf_invar (out (reply_double x c))" "buf_invar (out (reply_null_bulk c))"
    "buf_invar (out (reply_null_array c))" "buf_invar (out (reply_array_header k c))" "buf_invar (out (reply_opt_bulk so c))"
  using assms
  by (simp_all add: reply_simple_def reply_error_def reply_integer_def reply_bulk_def reply_double_def
      reply_null_bulk_def reply_null_array_def reply_array_header_def reply_opt_bulk_def del: encode.simps split: option.splits)

lemma ctx_db_ops [simp]:
  "out (ctx_store k v c) = out c" "out (ctx_set k v c) = out c" "out (ctx_del k c) = out c"
  "crng (ctx_store k v c) = crng c" "crng (ctx_set k v c) = crng c" "crng (ctx_del k c) = crng c"
  "clk_mono (ctx_store k v c) = clk_mono c" "clk_mono (ctx_set k v c) = clk_mono c" "clk_mono (ctx_del k c) = clk_mono c"
  "clk_unix (ctx_store k v c) = clk_unix c" "clk_unix (ctx_set k v c) = clk_unix c" "clk_unix (ctx_del k c) = clk_unix c"
  "db (ctx_store k v c) = db_write k v (db c)" "db (ctx_set k v c) = db_set k v (db c)" "db (ctx_del k c) = snd (db_del k (db c))"
  by (simp_all add: ctx_store_def ctx_set_def ctx_del_def)

section \<open>Rules\<close>

text \<open>A value cell under work: \<open>key\<close> holds \<open>v\<close>, everything else is in order, the map stands for the
  rest of the keyspace; the value itself may for the moment be empty.\<close>

definition cell :: "ctx \<Rightarrow> ctx \<Rightarrow> string \<Rightarrow> val \<Rightarrow> amap \<Rightarrow> bool" where
  "cell c c1 key v M \<longleftrightarrow> ctx_ok c \<and> out c1 = out c \<and> crng c1 = crng c \<and> same_clock c c1 \<and>
     db_wf (db c1) \<and> (\<forall>k u. k \<noteq> key \<longrightarrow> ht_map (keyspace (db c1)) k = Some u \<longrightarrow> val_nonempty u) \<and>
     ht_map (keyspace (db c1)) key = Some v \<and> val_invar v \<and> shows_db c (db c1) M \<and>
     M key = Some (val_abs v, ht_map (expires (db c1)) key) \<and>
     (\<forall>d. ht_map (expires (db c1)) key = Some d \<longrightarrow> clk_mono c < d)"

definition put :: "string \<Rightarrow> aval \<Rightarrow> amap \<Rightarrow> amap" where
  "put key a M = (if aval_count a = 0 then M(key := None) else M(key \<mapsto> (a, snd (the (M key)))))"

text \<open>A command that leaves the database as it was after a lookup, or untouched.\<close>

lemma does_same:
  assumes "ctx_ok c" "db_wf (db c1)" "db_full (db c1)" "\<And>t. clk_mono c \<le> t \<Longrightarrow> db_live (db c1) t = db_live (db c) t"
    "same_clock c c1" "rng_fair (crng c1)" "buf_invar (out c1)" "reply_ok r"
    "buf_readable (out c1) = buf_readable (out c) @ encode r"
  shows "does c c1 r (view c)"
  using assms shows_db_self [of c]
  by (auto simp: does_def ctx_ok_def shows_db_def db_invar_def db_view_def clock_ok_def same_clock_def)

lemma ctx_lookup_spec:
  assumes ok: "ctx_ok c" and res: "ctx_lookup key c = (v, c1)"
  shows "v = None \<Longrightarrow> view c key = None"
    and "v = Some x \<Longrightarrow> cell c c1 key x (view c)"
    and "v = Some x \<Longrightarrow> val_nonempty x"
    and "db_wf (db c1)" "db_full (db c1)" "\<And>t. clk_mono c \<le> t \<Longrightarrow> db_live (db c1) t = db_live (db c) t"
    and "out c1 = out c" "crng c1 = crng c" "same_clock c c1"
    and "map_option val_abs v = map_option fst (view c key)"
    and "tasks c1 = tasks c" "psave c1 = psave c" "want_close c1 = want_close c"
proof -
  obtain d where l: "lookup_and_expire key (clk_mono c) (db c) = (v, d)" and c1: "c1 = c\<lparr>db := d\<rparr>"
    using res by (auto simp: ctx_lookup_def lookup_write_def split: prod.splits)
  have wf: "db_wf (db c)" and fl: "db_full (db c)"
    using ok by (simp_all add: ctx_ok_def db_invar_def)
  note L = lookup_spec [OF wf l]
  show W: "db_wf (db c1)" "db_full (db c1)" "\<And>t. clk_mono c \<le> t \<Longrightarrow> db_live (db c1) t = db_live (db c) t"
    "out c1 = out c" "crng c1 = crng c" "same_clock c c1"
    "tasks c1 = tasks c" "psave c1 = psave c" "want_close c1 = want_close c"
    using L(2,3,4) fl by (simp_all add: c1 same_clock_def)
  show va: "map_option val_abs v = map_option fst (view c key)"
    using L(1) by (cases "db_live (db c) (clk_mono c) key") (auto simp: view_def db_view_def)
  then show "v = None \<Longrightarrow> view c key = None"
    by simp
  show "val_nonempty x" if "v = Some x"
    using W(2) L(5) that by (simp add: c1 db_full_def)
  show "cell c c1 key x (view c)" if "v = Some x"
  proof -
    have "shows_db c (db c1) (view c)"
      using W(3) shows_db_self [of c] by (simp add: shows_db_def db_view_def)
    moreover have "db_live d (clk_mono c) key = Some (x, ht_map (expires d) key)"
      using L(5,6) that by (auto simp: db_live_def live_def split: option.splits)
    then have "view c key = Some (val_abs x, ht_map (expires d) key)"
      using L(4) [of "clk_mono c"] by (simp add: view_def db_view_def)
    ultimately show ?thesis
      using W L(5,6) ok that db_wfD(5) [OF L(2), of key x] by (auto simp: cell_def c1 db_full_def)
  qed
qed

lemma put_same: "cell c c1 key v M \<Longrightarrow> val_nonempty v \<Longrightarrow> val_abs v' = val_abs v \<Longrightarrow> put key (val_abs v') M = M"
  using element_count_abs [of v] by (auto simp: put_def cell_def val_nonempty_def fun_upd_idem)

text \<open>The core rule: store the new value, and delete the key if nothing is left of it.\<close>

lemma does_put:
  assumes cell: "cell c c1 key v M" and v': "val_invar v'"
    and d: "db c2 = (if val_nonempty v' then db_write key v' (db c1) else snd (db_del key (db_write key v' (db c1))))"
    and o: "buf_invar (out c2)" "buf_readable (out c2) = buf_readable (out c) @ encode r" "reply_ok r"
    and s: "rng_fair (crng c2)" "same_clock c c2"
  shows "does c c2 r (put key (val_abs v') M)"
proof -
  have C: "ctx_ok c" "db_wf (db c1)" "ht_map (keyspace (db c1)) key = Some v" "shows_db c (db c1) M"
    "\<And>k u. k \<noteq> key \<Longrightarrow> ht_map (keyspace (db c1)) k = Some u \<Longrightarrow> val_nonempty u"
    "M key = Some (val_abs v, ht_map (expires (db c1)) key)"
    using cell by (auto simp: cell_def)
  let ?w = "db_write key v' (db c1)"
  note W = db_write_spec [OF C(2) v' C(3)]
  have count: "aval_count (val_abs v') \<noteq> 0 \<longleftrightarrow> val_nonempty v'"
    using element_count_abs [OF v'] by (simp add: val_nonempty_def)
  obtain b dd where del: "db_del key ?w = (b, dd)" by force
  have "db_wf (db c2) \<and> db_full (db c2) \<and> shows_db c (db c2) (put key (val_abs v') M)"
  proof (cases "val_nonempty v'")
    case True
    have "db_full ?w"
      using C(5) True unfolding db_full_def W(4) by (simp split: if_splits)
    moreover have "db_view ?w t = purge t (put key (val_abs v') M)" if "clk_mono c \<le> t" for t
    proof -
      have "db_view ?w t = (db_view (db c1) t)(key := map_option (apfst (\<lambda>_. val_abs v')) (db_view (db c1) t key))"
        by (rule ext) (simp add: db_view_def W(3) option.map_comp comp_def apfst_def map_prod_def split_beta)
      also have "\<dots> = (purge t M)(key := map_option (apfst (\<lambda>_. val_abs v')) (purge t M key))"
        using C(4) that by (simp add: shows_db_def)
      also have "\<dots> = purge t (M(key \<mapsto> (val_abs v', ht_map (expires (db c1)) key)))"
        using C(6) by (auto simp: fun_eq_iff purge_def split: option.splits)
      finally show ?thesis
        using True count C(6) by (simp add: put_def)
    qed
    ultimately show ?thesis
      using W(1) d True by (simp add: shows_db_def)
  next
    case False
    have "db_full dd"
      using db_del_repairs [OF W(1) del] C(5) by (simp add: W(4))
    moreover have "db_view dd t = purge t (put key (val_abs v') M)" if "clk_mono c \<le> t" for t
    proof -
      have "db_view dd t = (db_view (db c1) t)(key := None)"
        using db_del_spec(4) [OF W(1) del] by (auto simp: db_view_def W(3))
      then show ?thesis
        using C(4) that False count by (simp add: shows_db_def put_def purge_upd)
    qed
    ultimately show ?thesis
      using db_del_spec(2) [OF W(1) del] d del False by (simp add: shows_db_def)
  qed
  then show ?thesis
    using o s C(1) by (simp add: does_def ctx_ok_def db_invar_def clock_ok_def same_clock_def)
qed

text \<open>Reading a value: what is stored back stands for the same abstract value.\<close>

lemma does_read:
  assumes cell: "cell c c1 key v M" and ne: "val_nonempty v" and v': "val_invar v'" "val_abs v' = val_abs v"
    and d: "db c2 = db_write key v' (db c1)"
    and o: "buf_invar (out c2)" "buf_readable (out c2) = buf_readable (out c) @ encode r" "reply_ok r"
    and s: "rng_fair (crng c2)" "same_clock c c2"
  shows "does c c2 r M"
proof -
  have "val_nonempty v'"
    using ne v' element_count_abs [of v] element_count_abs [of v'] cell by (simp add: cell_def val_nonempty_def)
  then show ?thesis
    using does_put [OF cell v'(1) _ o s] d put_same [OF cell ne v'(2)] by simp
qed

lemma does_peek:
  assumes cell: "cell c c1 key v M" and ne: "val_nonempty v" and d: "db c2 = db c1"
    and o: "buf_invar (out c2)" "buf_readable (out c2) = buf_readable (out c) @ encode r" "reply_ok r"
    and s: "rng_fair (crng c2)" "same_clock c c2"
  shows "does c c2 r M"
proof -
  have "db_full (db c1)"
    using cell ne unfolding cell_def db_full_def by (metis option.sel)
  then show ?thesis
    using cell d o s by (auto simp: does_def cell_def ctx_ok_def db_invar_def clock_ok_def same_clock_def shows_db_def)
qed

lemma does_wrongtype:
  assumes "cell c c1 key v M" "val_nonempty v"
  shows "does c (reply_error kWrongType c1) (RError kWrongType) M"
proof -
  have "sanitize_error_text kWrongType = kWrongType" "no_crlf kWrongType"
    by (simp_all add: sanitize_error_text_def kWrongType_def CR_def LF_def)
  then show ?thesis
    using assms by (intro does_peek [OF assms]) (auto simp: cell_def ctx_ok_def same_clock_def simp del: encode.simps)
qed

section \<open>The kinds of value\<close>

definition performs :: "ctx \<Rightarrow> ctx ub \<Rightarrow> reply \<times> amap \<Rightarrow> bool" where
  "performs c res spec \<longleftrightarrow> (\<exists>c'. res = Some c' \<and> does c c' (fst spec) (snd spec))"

lemma performsI: "does c c' r M \<Longrightarrow> performs c (Some c') (r, M)"
  by (simp add: performs_def)

definition looked :: "ctx \<Rightarrow> ctx \<Rightarrow> bool" where
  "looked c c1 \<longleftrightarrow> db_wf (db c1) \<and> db_full (db c1) \<and> (\<forall>t \<ge> clk_mono c. db_live (db c1) t = db_live (db c) t) \<and>
     out c1 = out c \<and> crng c1 = crng c \<and> same_clock c c1 \<and> ctx_ok c"

lemma looked_self: "ctx_ok c \<Longrightarrow> looked c c"
  by (simp add: looked_def ctx_ok_def db_invar_def same_clock_def)

lemma does_looked:
  assumes "looked c c1" "db c2 = db c1" "same_clock c c2" "rng_fair (crng c2)" "buf_invar (out c2)" "reply_ok r"
    "buf_readable (out c2) = buf_readable (out c) @ encode r"
  shows "does c c2 r (view c)"
  using assms by (intro does_same) (simp_all add: looked_def)

lemma error_ok [simp]:
  "sanitize_error_text kWrongType = kWrongType" "sanitize_error_text kNotInt = kNotInt"
  "sanitize_error_text kOverflow = kOverflow" "sanitize_error_text kNotPositive = kNotPositive"
  "sanitize_error_text kNotFloat = kNotFloat"
  "no_crlf kWrongType" "no_crlf kNotInt" "no_crlf kOverflow" "no_crlf kNotPositive" "no_crlf kNotFloat"
  by (simp_all add: sanitize_error_text_def kWrongType_def kNotInt_def kOverflow_def kNotPositive_def kNotFloat_def CR_def LF_def)

text \<open>Contexts that differ from the one before the command in the database only.\<close>

lemma cell_frame:
  assumes "cell c c1 key v M"
  shows "buf_invar (out c1)" "out c1 = out c" "rng_fair (crng c1)" "same_clock c c1" "clk_mono c1 = clk_mono c" "clk_unix c1 = clk_unix c"
    "ctx_ok c" "val_invar v" "M key = Some (val_abs v, ht_map (expires (db c1)) key)" "crng c1 = crng c"
  using assms by (auto simp: cell_def ctx_ok_def same_clock_def)

lemma looked_frame:
  assumes "looked c c1"
  shows "buf_invar (out c1)" "out c1 = out c" "rng_fair (crng c1)" "same_clock c c1" "clk_mono c1 = clk_mono c" "clk_unix c1 = clk_unix c"
    "ctx_ok c" "crng c1 = crng c"
  using assms by (auto simp: looked_def ctx_ok_def same_clock_def)

lemma same_clockI: "clk_mono c' = clk_mono c \<Longrightarrow> clk_unix c' = clk_unix c \<Longrightarrow> same_clock c c'"
  by (simp add: same_clock_def)

text \<open>Replying from a context in which the key was not there, or was only looked at.\<close>

lemma performs_looked:
  assumes "looked c c1"
  shows "performs c (Some (reply_null_bulk c1)) (RNull, view c)" "performs c (Some (reply_null_array c1)) (RNullArray, view c)"
    "performs c (Some (reply_integer n c1)) (RInt n, view c)" "performs c (Some (reply_bulk s c1)) (RBulk s, view c)"
    "performs c (Some (reply_array_header 0 c1)) (RArray [], view c)"
    "performs c (Some (reply_error e c1)) (RError (sanitize_error_text e), view c)"
    "no_crlf s \<Longrightarrow> performs c (Some (reply_simple s c1)) (RSimple s, view c)"
  using looked_frame [OF assms] sanitize_no_crlf [of e]
  by (auto intro!: performsI does_looked [OF assms] same_clockI)

lemma performs_peek:
  assumes "cell c c1 key v M" "val_nonempty v"
  shows "performs c (Some (reply_null_bulk c1)) (RNull, M)" "performs c (Some (reply_null_array c1)) (RNullArray, M)"
    "performs c (Some (reply_integer n c1)) (RInt n, M)" "performs c (Some (reply_bulk s c1)) (RBulk s, M)"
    "performs c (Some (reply_array_header 0 c1)) (RArray [], M)"
    "performs c (Some (reply_error e c1)) (RError (sanitize_error_text e), M)"
    "no_crlf s \<Longrightarrow> performs c (Some (reply_simple s c1)) (RSimple s, M)"
  using cell_frame [OF assms(1)] sanitize_no_crlf [of e]
  by (auto intro!: performsI does_peek [OF assms] same_clockI)

definition spec_value :: "(aval \<Rightarrow> 'b option) \<Rightarrow> string \<Rightarrow> reply \<times> amap \<Rightarrow> ('b \<Rightarrow> reply \<times> amap) \<Rightarrow> amap \<Rightarrow> reply \<times> amap" where
  "spec_value aget key missing found M =
    (case M key of None \<Rightarrow> missing
     | Some (a, _) \<Rightarrow> (case aget a of None \<Rightarrow> (RError kWrongType, M) | Some y \<Rightarrow> found y))"

definition spec_create :: "(aval \<Rightarrow> 'b option) \<Rightarrow> ('b \<Rightarrow> aval) \<Rightarrow> 'b \<Rightarrow> string \<Rightarrow> ('b \<Rightarrow> amap \<Rightarrow> reply \<times> amap) \<Rightarrow> amap \<Rightarrow> reply \<times> amap" where
  "spec_create aget amk y0 key found M =
     spec_value aget key (found y0 (M(key \<mapsto> (amk y0, None)))) (\<lambda>y. found y M) M"

locale value_kind =
  fixes get :: "val \<Rightarrow> 'a option" and mk :: "'a \<Rightarrow> val" and inv :: "'a \<Rightarrow> bool"
    and aget :: "aval \<Rightarrow> 'b option" and amk :: "'b \<Rightarrow> aval" and ab :: "'a \<Rightarrow> 'b"
  assumes k_get: "get v = Some x \<longleftrightarrow> v = mk x" and k_inv: "val_invar (mk x) \<longleftrightarrow> inv x"
    and k_abs: "val_abs (mk x) = amk (ab x)" and k_aget: "aget (amk y) = Some y"
    and k_none: "get v = None \<Longrightarrow> aget (val_abs v) = None"
begin

lemma with_value_performs:
  assumes ok: "ctx_ok c"
    and missing: "\<And>c1. looked c c1 \<Longrightarrow> view c key = None \<Longrightarrow> performs c (missing c1) ms"
    and found: "\<And>c1 x. cell c c1 key (mk x) (view c) \<Longrightarrow> val_nonempty (mk x) \<Longrightarrow> inv x \<Longrightarrow> performs c (found x c1) (fs (ab x))"
  shows "performs c (with_value get key missing found c) (spec_value aget key ms fs (view c))"
proof -
  obtain v c1 where l: "ctx_lookup key c = (v, c1)" by force
  note L = ctx_lookup_spec [OF ok l]
  show ?thesis
  proof (cases v)
    case None
    have "looked c c1"
      using L(4-9) ok by (simp add: looked_def)
    then show ?thesis
      using missing [of c1] L(1) l None by (simp add: with_value_def spec_value_def)
  next
    case (Some w)
    note C = L(2) [OF Some] and N = L(3) [OF Some]
    have vw: "view c key = Some (val_abs w, ht_map (expires (db c1)) key)" and iw: "val_invar w"
      using cell_frame [OF C] by simp_all
    show ?thesis
    proof (cases "get w")
      case None
      then show ?thesis
        using does_wrongtype [OF C N] l Some vw k_none [OF None]
        by (simp add: with_value_def spec_value_def performs_def)
    next
      case (Some x)
      then have w: "w = mk x"
        using k_get by simp
      then show ?thesis
        using found [of c1 x] C N iw l \<open>v = Some w\<close> Some vw k_inv
        by (simp add: with_value_def spec_value_def k_abs k_aget)
    qed
  qed
qed

lemma set_lookup_cell:
  assumes ab: "looked c c1" and x0: "inv x0" and l: "ctx_lookup key (ctx_set key (mk x0) c1) = (v, c2)"
  shows "v = Some (mk x0)" "cell c c2 key (mk x0) ((view c)(key \<mapsto> (amk (ab x0), None)))"
proof -
  note A = ab [unfolded looked_def] and Fr = looked_frame [OF ab]
  let ?d = "db_set key (mk x0) (db c1)"
  have vi: "val_invar (mk x0)"
    using x0 k_inv by simp
  have w1: "db_wf (db c1)" using A by simp
  note S = db_set_spec [OF w1 vi]
  obtain d where d: "lookup_and_expire key (clk_mono c) ?d = (v, d)" and c2: "c2 = (ctx_set key (mk x0) c1)\<lparr>db := d\<rparr>"
    using l Fr by (auto simp: ctx_lookup_def lookup_write_def split: prod.splits)
  note L = lookup_spec [OF S(1) d]
  have live: "db_live d t = (db_live (db c) t)(key \<mapsto> (mk x0, None))" if "clk_mono c \<le> t" for t
    using L(4) [OF that] S(3) [of key t] A that by simp
  show v: "v = Some (mk x0)"
    using L(1) S(3) [of key "clk_mono c"] by simp
  have e: "ht_map (expires d) key = None"
  proof (rule ccontr)
    assume "ht_map (expires d) key \<noteq> None"
    then obtain u where u: "ht_map (expires d) key = Some u" by blast
    then have "db_live d (clk_mono c) key = Some (mk x0, Some u)"
      using L(5,6) v by (simp add: db_live_def live_def)
    then show False
      using live [of "clk_mono c"] by simp
  qed
  have "shows_db c d ((view c)(key \<mapsto> (amk (ab x0), None)))"
    using live shows_db_self [of c] k_abs
    by (simp add: shows_db_def db_view_def purge_upd fun_eq_iff)
  moreover have "val_nonempty u" if "k \<noteq> key" "ht_map (keyspace d) k = Some u" for k u
  proof -
    have "ht_map (keyspace ?d) k = Some u"
    proof -
      have "ht_map (keyspace d) = ht_map (keyspace ?d) \<or> ht_map (keyspace d) = (ht_map (keyspace ?d))(key := None)"
        using d S(1) db_wfD [OF S(1)] unfolding lookup_and_expire_def
        by (auto simp: Let_def split: prod.splits if_splits dest!: ht_find_spec(3) [of "keyspace ?d" key])
           (metis ht_erase_spec(3) ht_find_spec(3) snd_conv)+
      then show ?thesis using that by auto
    qed
    then show ?thesis
      using A S(4) that(1) by (simp add: db_full_def)
  qed
  ultimately show "cell c c2 key (mk x0) ((view c)(key \<mapsto> (amk (ab x0), None)))"
    using L(2,5) v e vi Fr by (simp add: cell_def c2 same_clock_def k_abs)
qed

lemma get_or_create_performs:
  assumes ok: "ctx_ok c" and x0: "inv x0" "fresh = mk x0"
    and found: "\<And>c1 x M. cell c c1 key (mk x) M \<Longrightarrow> inv x \<Longrightarrow> (M = view c \<and> val_nonempty (mk x)) \<or>
      (view c key = None \<and> x = x0 \<and> M = (view c)(key \<mapsto> (amk (ab x0), None))) \<Longrightarrow> performs c (found x c1) (fs (ab x) M)"
  shows "performs c (get_or_create get fresh key found c) (spec_create aget amk (ab x0) key fs (view c))"
  unfolding get_or_create_def spec_create_def
proof (rule with_value_performs [OF ok])
  fix c1
  assume ab: "looked c c1" and none: "view c key = None"
  obtain v c2 where l: "ctx_lookup key (ctx_set key fresh c1) = (v, c2)" by force
  note S = set_lookup_cell [OF ab x0(1) l [unfolded x0(2)]]
  show "performs c (case ctx_lookup key (ctx_set key fresh c1) of (v, c2) \<Rightarrow> do { w \<leftarrow> v; x \<leftarrow> get w; found x c2 })
      (fs (ab x0) ((view c)(key \<mapsto> (amk (ab x0), None))))"
    using found [OF S(2) x0(1)] none l S(1) k_get [of "mk x0" x0] by simp
next
  fix c1 x
  assume "cell c c1 key (mk x) (view c)" "val_nonempty (mk x)" "inv x"
  then show "performs c (found x c1) (fs (ab x) (view c))"
    using found by blast
qed

text \<open>Storing a value of the kind, deleting the key when nothing is left.\<close>

lemma performs_put:
  assumes "cell c c1 key (mk x) M" "inv x'"
    "db c2 = (if val_nonempty (mk x') then db_write key (mk x') (db c1) else snd (db_del key (db_write key (mk x') (db c1))))"
    "buf_invar (out c2)" "buf_readable (out c2) = buf_readable (out c) @ encode r" "reply_ok r"
    "rng_fair (crng c2)" "same_clock c c2"
  shows "performs c (Some c2) (r, put key (amk (ab x')) M)"
  using does_put [OF assms(1) _ assms(3-8)] assms(2) k_inv k_abs by (simp add: performs_def)

lemma performs_read:
  assumes "cell c c1 key (mk x) M" "val_nonempty (mk x)" "inv x'" "ab x' = ab x" "db c2 = db_write key (mk x') (db c1)"
    "buf_invar (out c2)" "buf_readable (out c2) = buf_readable (out c) @ encode r" "reply_ok r"
    "rng_fair (crng c2)" "same_clock c c2"
  shows "performs c (Some c2) (r, M)"
  using does_read [OF assms(1,2) _ _ assms(5-10)] assms(3,4) k_inv k_abs by (simp add: performs_def)

end

fun a_string :: "aval \<Rightarrow> string option" where "a_string (AString s) = Some s" | "a_string _ = None"
fun a_hash :: "aval \<Rightarrow> (string \<rightharpoonup> string) option" where "a_hash (AHash h) = Some h" | "a_hash _ = None"
fun a_list :: "aval \<Rightarrow> string list option" where "a_list (AList l) = Some l" | "a_list _ = None"
fun a_set :: "aval \<Rightarrow> string set option" where "a_set (ASet s) = Some s" | "a_set _ = None"
fun a_zset :: "aval \<Rightarrow> (string \<rightharpoonup> f64) option" where "a_zset (AZSet z) = Some z" | "a_zset _ = None"

definition set_of :: "unit hash_table \<Rightarrow> string set" where "set_of s = dom (ht_map s)"

lemma get_eq_simps:
  "get_string v = Some s \<longleftrightarrow> v = VString s" "get_hash v = Some h \<longleftrightarrow> v = VHash h" "get_list v = Some l \<longleftrightarrow> v = VList l"
  "get_set v = Some u \<longleftrightarrow> v = VSet u" "get_zset v = Some z \<longleftrightarrow> v = VZSet z"
  by (cases v; simp)+

lemma get_none_abs:
  "get_string v = None \<Longrightarrow> a_string (val_abs v) = None" "get_hash v = None \<Longrightarrow> a_hash (val_abs v) = None"
  "get_list v = None \<Longrightarrow> a_list (val_abs v) = None" "get_set v = None \<Longrightarrow> a_set (val_abs v) = None"
  "get_zset v = None \<Longrightarrow> a_zset (val_abs v) = None"
  by (cases v; simp)+

interpretation kstring: value_kind get_string VString "\<lambda>_. True" a_string AString "\<lambda>s. s"
  by unfold_locales (simp_all add: get_eq_simps get_none_abs)

interpretation khash: value_kind get_hash VHash ht_invar a_hash AHash ht_map
  by unfold_locales (simp_all add: get_eq_simps get_none_abs)

interpretation klist: value_kind get_list VList "\<lambda>_. True" a_list AList "\<lambda>l. l"
  by unfold_locales (simp_all add: get_eq_simps get_none_abs)

interpretation kset: value_kind get_set VSet ht_invar a_set ASet set_of
  by unfold_locales (simp_all add: get_eq_simps get_none_abs set_of_def)

interpretation kzset: value_kind get_zset VZSet zset_invar a_zset AZSet zset_map
  by unfold_locales (simp_all add: get_eq_simps get_none_abs)

section \<open>Sequences of steps\<close>

text \<open>\<open>along c c' bs M\<close>: from \<open>c\<close> to \<open>c'\<close> the bytes \<open>bs\<close> were written and the keyspace became \<open>M\<close>, all
  invariants intact. Handlers of several keys are chains of such steps.\<close>

definition along :: "ctx \<Rightarrow> ctx \<Rightarrow> string \<Rightarrow> amap \<Rightarrow> bool" where
  "along c c' bs M \<longleftrightarrow> ctx_ok c' \<and> same_clock c c' \<and> shows_db c (db c') M \<and>
     buf_readable (out c') = buf_readable (out c) @ bs"

lemma does_along: "does c c' r M \<longleftrightarrow> along c c' (encode r) M \<and> reply_ok r"
  by (auto simp: does_def along_def)

lemma along_view: "along c c' bs M \<Longrightarrow> view c' = purge (clk_mono c) M"
  by (simp add: along_def shows_db_def view_def same_clock_def)

lemma along_ok: "along c c' bs M \<Longrightarrow> ctx_ok c'" "along c c' bs M \<Longrightarrow> clk_mono c' = clk_mono c"
  "along c c' bs M \<Longrightarrow> clk_unix c' = clk_unix c"
  by (simp_all add: along_def same_clock_def)

lemma along_trans:
  assumes "along c c1 bs M" "along c1 c2 bs' M'"
  shows "along c c2 (bs @ bs') M'"
  using assms by (auto simp: along_def same_clock_def shows_db_def)

lemma along_trans0: "along c c1 [] M \<Longrightarrow> along c1 c2 bs M' \<Longrightarrow> along c c2 bs M'"
  using along_trans [of c c1 "[]" M c2 bs M'] by simp

lemma view_purge [simp]: "purge (clk_mono c) (view c) = view c"
  by (simp add: view_def purge_self)

lemma along_refl: "ctx_ok c \<Longrightarrow> along c c [] (view c)"
  by (simp add: along_def same_clock_def shows_db_self)

lemma along_db:
  assumes "ctx_ok c" "db_invar d" "shows_db c d M"
  shows "along c (c\<lparr>db := d\<rparr>) [] M"
  using assms by (simp add: along_def ctx_ok_def clock_ok_def same_clock_def)

lemma along_lookup:
  assumes ok: "ctx_ok c" and l: "ctx_lookup key c = (v, c1)"
  shows "along c c1 [] (view c)" "view c1 = view c" "map_option val_abs v = map_option fst (view c key)"
proof -
  note L = ctx_lookup_spec [OF ok l]
  show a: "along c c1 [] (view c)"
    using L(4-9) ok shows_db_self [of c]
    by (simp add: along_def ctx_ok_def db_invar_def clock_ok_def same_clock_def shows_db_def db_view_def)
  show "view c1 = view c"
    using along_view [OF a] by simp
  show "map_option val_abs v = map_option fst (view c key)"
    by (rule L(10))
qed

lemma along_set:
  assumes ok: "ctx_ok c" and v: "val_invar v" "val_nonempty v"
  shows "along c (ctx_set key v c) [] ((view c)(key \<mapsto> (val_abs v, None)))"
    "view (ctx_set key v c) = (view c)(key \<mapsto> (val_abs v, None))"
proof -
  have wf: "db_wf (db c)" "db_full (db c)"
    using ok by (simp_all add: ctx_ok_def db_invar_def)
  note S = db_set_spec [OF wf(1) v(1), of key]
  have "shows_db c (db_set key v (db c)) ((view c)(key \<mapsto> (val_abs v, None)))"
    using shows_db_self [of c] by (simp add: shows_db_def db_view_def S(3) purge_upd fun_eq_iff)
  then show a: "along c (ctx_set key v c) [] ((view c)(key \<mapsto> (val_abs v, None)))"
    unfolding ctx_set_def using S(1,2) wf v(2) by (intro along_db [OF ok]) (simp_all add: db_invar_def)
  show "view (ctx_set key v c) = (view c)(key \<mapsto> (val_abs v, None))"
    using along_view [OF a] by (simp add: purge_upd)
qed

lemma along_del:
  assumes ok: "ctx_ok c"
  shows "along c (ctx_del key c) [] ((view c)(key := None))" "view (ctx_del key c) = (view c)(key := None)"
proof -
  have wf: "db_wf (db c)" "db_full (db c)"
    using ok by (simp_all add: ctx_ok_def db_invar_def)
  obtain b d where d: "db_del key (db c) = (b, d)" by force
  note S = db_del_spec [OF wf(1) d]
  have "shows_db c d ((view c)(key := None))"
    using shows_db_self [of c] by (simp add: shows_db_def db_view_def S(4) purge_upd fun_eq_iff)
  then show a: "along c (ctx_del key c) [] ((view c)(key := None))"
    unfolding ctx_del_def d using S(2,3) wf by (intro along_db [OF ok]) (simp_all add: db_invar_def)
  show "view (ctx_del key c) = (view c)(key := None)"
    using along_view [OF a] by (simp add: purge_upd)
qed

lemma along_out:
  assumes "ctx_ok c" "db c' = db c" "crng c' = crng c" "clk_mono c' = clk_mono c" "clk_unix c' = clk_unix c"
    "buf_invar (out c')" "buf_readable (out c') = buf_readable (out c) @ bs"
  shows "along c c' bs (view c)" "view c' = view c"
  using assms shows_db_self [of c]
  by (simp_all add: along_def ctx_ok_def clock_ok_def same_clock_def view_def)

lemma along_reply:
  assumes "ctx_ok c"
  shows "along c (reply_simple s c) (encode (RSimple s)) (view c)"
    "along c (reply_error s c) (encode (RError (sanitize_error_text s))) (view c)"
    "along c (reply_integer n c) (encode (RInt n)) (view c)"
    "along c (reply_bulk s c) (encode (RBulk s)) (view c)"
    "along c (reply_double x c) (encode (RBulk (double_text x))) (view c)"
    "along c (reply_null_bulk c) (encode RNull) (view c)"
    "along c (reply_null_array c) (encode RNullArray) (view c)"
    "along c (reply_opt_bulk so c) (encode (case so of Some y \<Rightarrow> RBulk y | None \<Rightarrow> RNull)) (view c)"
    "along c (reply_array_header k c) (CHR ''*'' # nat_to_string k @ CRLF) (view c)"
    "view (reply_array_header k c) = view c" "view (reply_opt_bulk so c) = view c" "view (reply_bulk s c) = view c"
proof -
  have "buf_invar (out c)"
    using assms by (simp add: ctx_ok_def)
  then show "along c (reply_simple s c) (encode (RSimple s)) (view c)"
    "along c (reply_error s c) (encode (RError (sanitize_error_text s))) (view c)"
    "along c (reply_integer n c) (encode (RInt n)) (view c)"
    "along c (reply_bulk s c) (encode (RBulk s)) (view c)"
    "along c (reply_double x c) (encode (RBulk (double_text x))) (view c)"
    "along c (reply_null_bulk c) (encode RNull) (view c)"
    "along c (reply_null_array c) (encode RNullArray) (view c)"
    "along c (reply_opt_bulk so c) (encode (case so of Some y \<Rightarrow> RBulk y | None \<Rightarrow> RNull)) (view c)"
    "along c (reply_array_header k c) (CHR ''*'' # nat_to_string k @ CRLF) (view c)"
    by (auto intro!: along_out(1) [OF assms] simp del: encode.simps)
qed (simp_all add: view_def)

text \<open>Finishing a chain with one reply.\<close>

lemma performs_reply:
  assumes "along c c1 [] M"
  shows "no_crlf s \<Longrightarrow> performs c (Some (reply_simple s c1)) (RSimple s, M)"
    "performs c (Some (reply_error s c1)) (RError (sanitize_error_text s), M)"
    "performs c (Some (reply_integer n c1)) (RInt n, M)"
    "performs c (Some (reply_bulk s c1)) (RBulk s, M)"
    "performs c (Some (reply_null_bulk c1)) (RNull, M)"
    "performs c (Some (reply_null_array c1)) (RNullArray, M)"
    "performs c (Some (reply_array_header 0 c1)) (RArray [], M)"
proof -
  have ok: "ctx_ok c1" and M: "shows_db c (db c1) M" "same_clock c c1" "buf_readable (out c1) = buf_readable (out c)"
    using assms by (simp_all add: along_def)
  have *: "performs c (Some c2) (r, M)" if "along c1 c2 (encode r) (view c1)" "reply_ok r" "db c2 = db c1" for c2 r
    using that M unfolding performs_def does_along along_def by (auto simp: same_clock_def)
  show "no_crlf s \<Longrightarrow> performs c (Some (reply_simple s c1)) (RSimple s, M)"
    "performs c (Some (reply_error s c1)) (RError (sanitize_error_text s), M)"
    "performs c (Some (reply_integer n c1)) (RInt n, M)"
    "performs c (Some (reply_bulk s c1)) (RBulk s, M)"
    "performs c (Some (reply_null_bulk c1)) (RNull, M)"
    "performs c (Some (reply_null_array c1)) (RNullArray, M)"
    "performs c (Some (reply_array_header 0 c1)) (RArray [], M)"
    using along_reply [OF ok] along_reply(9) [OF ok, of 0] sanitize_no_crlf [of s]
    by (auto intro!: * simp del: encode.simps) (simp_all add: *)
qed

lemma performs_array:
  assumes "along c c1 (CHR ''*'' # nat_to_string (length rs) @ CRLF @ concat (map encode rs)) M" "list_all reply_ok rs"
  shows "performs c (Some c1) (RArray rs, M)"
  using assms by (simp add: performs_def does_along)

lemma looked_along: "looked c c1 \<Longrightarrow> along c c1 [] (view c)"
  using shows_db_self [of c]
  by (auto simp: looked_def along_def ctx_ok_def db_invar_def clock_ok_def same_clock_def shows_db_def db_view_def)

text \<open>The TTL operations as steps.\<close>

lemma along_expire:
  assumes ok: "ctx_ok c" and d: "in_i64 d" and res: "expire_at key d (clk_mono c) (db c) = (b, d')"
  shows "b \<longleftrightarrow> view c key \<noteq> None"
    "along c (c\<lparr>db := d'\<rparr>) [] ((view c)(key := map_option (apsnd (\<lambda>_. Some d)) (view c key)))"
proof -
  have wf: "db_wf (db c)" "db_full (db c)"
    using ok by (simp_all add: ctx_ok_def db_invar_def)
  note E = expire_at_spec [OF wf(1) d res]
  show "b \<longleftrightarrow> view c key \<noteq> None"
    using E(1) by (simp add: view_def db_view_def)
  have "db_view d' t = purge t ((view c)(key := map_option (apsnd (\<lambda>_. Some d)) (view c key)))"
    if t: "clk_mono c \<le> t" for t
  proof (cases "db_live (db c) (clk_mono c) key")
    case None
    then have "db_view d' t = (db_view (db c) t)(key := None)"
      using E(4) [OF t] by (auto simp: db_view_def)
    then show ?thesis
      using None db_view_purge [OF t, of "db c"] by (simp add: view_def purge_upd db_view_def)
  next
    case (Some e)
    obtain v x where e: "e = (v, x)" by force
    have "db_view d' t = (db_view (db c) t)(key := if d \<le> t then None else Some (val_abs v, Some d))"
      using E(4) [OF t] Some e by (auto simp: db_view_def)
    then show ?thesis
      using Some e db_view_purge [OF t, of "db c"] by (simp add: view_def purge_upd db_view_def)
  qed
  then show "along c (c\<lparr>db := d'\<rparr>) [] ((view c)(key := map_option (apsnd (\<lambda>_. Some d)) (view c key)))"
    using E(2,3) wf by (intro along_db [OF ok]) (simp_all add: db_invar_def shows_db_def)
qed

lemma along_persist:
  assumes ok: "ctx_ok c" and res: "db_persist key (clk_mono c) (db c) = (b, d')"
  shows "b \<longleftrightarrow> (\<exists>a d. view c key = Some (a, Some d))"
    "along c (c\<lparr>db := d'\<rparr>) [] ((view c)(key := map_option (apsnd (\<lambda>_. None)) (view c key)))"
proof -
  have wf: "db_wf (db c)" "db_full (db c)"
    using ok by (simp_all add: ctx_ok_def db_invar_def)
  note E = db_persist_spec [OF wf(1) res]
  show "b \<longleftrightarrow> (\<exists>a d. view c key = Some (a, Some d))"
    using E(1) by (auto simp: view_def db_view_def)
  have "db_view d' t = purge t ((view c)(key := map_option (apsnd (\<lambda>_. None)) (view c key)))"
    if t: "clk_mono c \<le> t" for t
  proof -
    have "db_view d' t = (db_view (db c) t)(key := map_option (apsnd (\<lambda>_. None)) (view c key))"
      using E(4) [OF t] by (cases "db_live (db c) (clk_mono c) key") (auto simp: db_view_def view_def)
    then show ?thesis
      using db_view_purge [OF t, of "db c"]
      by (cases "view c key") (auto simp: purge_upd, auto simp: view_def)
  qed
  then show "along c (c\<lparr>db := d'\<rparr>) [] ((view c)(key := map_option (apsnd (\<lambda>_. None)) (view c key)))"
    using E(2,3) wf by (intro along_db [OF ok]) (simp_all add: db_invar_def shows_db_def)
qed

lemma along_take:
  assumes ok: "ctx_ok c" and res: "db_take key (clk_mono c) (db c) = (v, d')"
  shows "map_option val_abs v = map_option fst (view c key)" "along c (c\<lparr>db := d'\<rparr>) [] ((view c)(key := None))"
proof -
  have wf: "db_wf (db c)" "db_full (db c)"
    using ok by (simp_all add: ctx_ok_def db_invar_def)
  note E = db_take_spec [OF wf(1) res]
  show "map_option val_abs v = map_option fst (view c key)"
    using E(1) by (cases "db_live (db c) (clk_mono c) key") (auto simp: view_def db_view_def)
  have "db_view d' t = purge t ((view c)(key := None))" if t: "clk_mono c \<le> t" for t
    using E(4) [OF t] db_view_purge [OF t, of "db c"] by (simp add: purge_upd view_def db_view_def fun_eq_iff)
  then show "along c (c\<lparr>db := d'\<rparr>) [] ((view c)(key := None))"
    using E(2,3) wf by (intro along_db [OF ok]) (simp_all add: db_invar_def shows_db_def)
qed

lemma along_pttl:
  assumes ok: "ctx_ok c"
  shows "\<exists>d'. db_pttl key (clk_mono c) (db c) = Some (spec_pttl (view c key) (clk_mono c), d') \<and>
    along c (c\<lparr>db := d'\<rparr>) [] (view c)"
proof -
  have wf: "db_wf (db c)" "db_full (db c)" "0 \<le> clk_mono c" "in_i64 (clk_mono c)"
    using ok by (simp_all add: ctx_ok_def db_invar_def clock_ok_def)
  obtain d' where d': "db_pttl key (clk_mono c) (db c) = Some (spec_pttl (db_live (db c) (clk_mono c) key) (clk_mono c), d')"
    "db_wf d'" "db_full d'" "\<forall>t \<ge> clk_mono c. db_live d' t = db_live (db c) t"
    using db_pttl_spec [OF wf(1,3,4), of key] wf(2) by auto
  have "spec_pttl (view c key) now = spec_pttl (db_live (db c) (clk_mono c) key) now" for now
    by (cases "db_live (db c) (clk_mono c) key") (auto simp: spec_pttl_def view_def db_view_def split: option.splits)
  moreover have "shows_db c d' (view c)"
    using shows_db_self [of c] d'(4) by (simp add: shows_db_def db_view_def)
  ultimately show ?thesis
    using d' along_db [OF ok, of d' "view c"] by (simp add: db_invar_def)
qed

text \<open>Small facts all handler theories use.\<close>

lemma arg_lt [simp]: "i < length argv \<Longrightarrow> arg argv i = Some (argv ! i)"
  by (simp add: arg_def)

lemma i64_checked_Some [simp]: "in_i64 x \<Longrightarrow> i64_checked x = Some x"
  by (simp add: i64_checked_def)

lemma ok_no_crlf [simp]: "no_crlf ''OK''"
  by (simp add: CR_def LF_def)

lemma ctx_lookup_cases:
  assumes "ctx_ok c" "ctx_lookup key c = (v, c1)"
  shows "v = None \<longleftrightarrow> view c key = None"
  using along_lookup(3) [OF assms] by (cases v; cases "view c key") auto

text \<open>A handler that leaves the context alone and replies at once.\<close>

lemmas performs_now = performs_looked [OF looked_self]

section \<open>Working on one value\<close>

lemma along_put:
  assumes cell: "cell c c1 key v M" and v': "val_invar v'"
    and d: "db c2 = (if val_nonempty v' then db_write key v' (db c1) else snd (db_del key (db_write key v' (db c1))))"
    and o: "buf_invar (out c2)" "buf_readable (out c2) = buf_readable (out c) @ bs"
    and s: "rng_fair (crng c2)" "same_clock c c2"
  shows "along c c2 bs (put key (val_abs v') M)"
proof -
  have "does c (c2\<lparr>out := out (reply_null_bulk c1)\<rparr>) RNull (put key (val_abs v') M)"
    using cell_frame [OF cell] d s by (intro does_put [OF cell v']) (auto simp: same_clock_def simp del: encode.simps)
  then show ?thesis
    using o by (auto simp: does_def along_def ctx_ok_def same_clock_def clock_ok_def)
qed

lemma along_store:
  assumes "cell c c1 key v M" "val_invar v'" "val_nonempty v'"
  shows "along c (ctx_store key v' c1) [] (put key (val_abs v') M)"
  using cell_frame [OF assms(1)] assms(3) by (intro along_put [OF assms(1,2)]) (auto simp: same_clock_def)

lemma along_drop:
  assumes "cell c c1 key v M" "val_invar v'" "\<not> val_nonempty v'"
  shows "along c (ctx_del key (ctx_store key v' c1)) [] (put key (val_abs v') M)"
  using cell_frame [OF assms(1)] assms(3) by (intro along_put [OF assms(1,2)]) (auto simp: same_clock_def)

lemma along_keep:
  assumes "cell c c1 key v M" "val_nonempty v" "val_invar v'" "val_abs v' = val_abs v"
  shows "along c (ctx_store key v' c1) [] M"
proof -
  have "val_nonempty v'"
    using assms(2-4) cell_frame(8) [OF assms(1)] element_count_abs [of v] element_count_abs [of v'] by (simp add: val_nonempty_def)
  then show ?thesis
    using along_store [OF assms(1,3)] put_same [OF assms(1,2,4)] by simp
qed

lemma along_peek:
  assumes "cell c c1 key v M" "val_nonempty v"
  shows "along c c1 [] M"
proof -
  have "db_full (db c1)"
    using assms unfolding cell_def db_full_def by (metis option.sel)
  then show ?thesis
    using assms by (auto simp: along_def cell_def ctx_ok_def db_invar_def clock_ok_def same_clock_def)
qed

text \<open>Writing replies does not touch the keyspace.\<close>

lemma along_quiet:
  assumes "along c c1 bs M" "along c1 c2 bs' (view c1)" "db c2 = db c1"
  shows "along c c2 (bs @ bs') M"
  using assms by (auto simp: along_def same_clock_def shows_db_def)

definition reply_bulks :: "string list \<Rightarrow> ctx \<Rightarrow> ctx" where "reply_bulks = fold reply_bulk"

definition reply_opt_bulks :: "string option list \<Rightarrow> ctx \<Rightarrow> ctx" where "reply_opt_bulks = fold reply_opt_bulk"

lemma along_fold_reply:
  assumes "\<And>x c. ctx_ok c \<Longrightarrow> along c (f x c) (encode (r x)) (view c) \<and> db (f x c) = db c" "ctx_ok c"
  shows "along c (fold f xs c) (concat (map (\<lambda>x. encode (r x)) xs)) (view c) \<and> db (fold f xs c) = db c"
  using assms(2)
proof (induction xs arbitrary: c)
  case Nil
  then show ?case by (simp add: along_refl)
next
  case (Cons x xs)
  note A = assms(1) [OF Cons.prems, of x]
  note B = Cons.IH [OF along_ok(1) [OF conjunct1 [OF A]]]
  show ?case
    using along_quiet [OF conjunct1 [OF A] conjunct1 [OF B]] A B by simp
qed

lemma along_array:
  assumes A: "along c c1 [] M" and f: "\<And>x c. ctx_ok c \<Longrightarrow> along c (f x c) (encode (r x)) (view c) \<and> db (f x c) = db c"
    and n: "n = length xs" and r: "\<And>x. x \<in> set xs \<Longrightarrow> reply_ok (r x)"
  shows "performs c (Some (fold f xs (reply_array_header n c1))) (RArray (map r xs), M)"
proof -
  let ?h = "reply_array_header n c1"
  note H = along_reply(9) [OF along_ok(1) [OF A], of n]
  note B = along_fold_reply [where f = f and r = r, OF f along_ok(1) [OF H], of xs]
  have "along c ?h (CHR ''*'' # nat_to_string n @ CRLF) M"
    using along_quiet [OF A H] by simp
  from along_quiet [OF this] B
  have "along c (fold f xs ?h) ((CHR ''*'' # nat_to_string n @ CRLF) @ concat (map (\<lambda>x. encode (r x)) xs)) M"
    by blast
  then show ?thesis
    using n r by (intro performs_array) (simp_all add: comp_def list_all_iff)
qed

lemma performs_bulks:
  assumes "along c c1 [] M" "n = length xs"
  shows "performs c (Some (reply_bulks xs (reply_array_header n c1))) (RArray (map RBulk xs), M)"
  unfolding reply_bulks_def by (rule along_array [OF assms(1) _ assms(2)]) (use along_reply(4) in auto)

definition bulk_or_null :: "string option \<Rightarrow> reply" where
  "bulk_or_null s = (case s of Some x \<Rightarrow> RBulk x | None \<Rightarrow> RNull)"

lemma bulk_or_null_ok [simp]: "reply_ok (bulk_or_null s)"
  by (simp add: bulk_or_null_def split: option.split)

lemma performs_opt_bulks:
  assumes "along c c1 [] M" "n = length xs"
  shows "performs c (Some (reply_opt_bulks xs (reply_array_header n c1))) (RArray (map bulk_or_null xs), M)"
  unfolding reply_opt_bulks_def
  by (rule along_array [OF assms(1) _ assms(2)]) (use along_reply(8) in \<open>auto simp: bulk_or_null_def split: option.splits\<close>)

lemma performs_opt_bulk:
  assumes "along c c1 [] M"
  shows "performs c (Some (reply_opt_bulk s c1)) (bulk_or_null s, M)"
  using performs_reply(4,5) [OF assms] by (simp add: reply_opt_bulk_def bulk_or_null_def split: option.split)

lemma performs_double:
  assumes "along c c1 [] M"
  shows "performs c (Some (reply_double x c1)) (RBulk (double_text x), M)"
  using along_quiet [OF assms along_reply(5) [OF along_ok(1) [OF assms]]] by (simp add: performs_def does_along)

section \<open>Replies in unspecified order\<close>

text \<open>
  Some replies depend on the layout of a table or on random draws; their specification is a relation
  between the keyspace and the replies allowed.
\<close>

definition achieves :: "ctx \<Rightarrow> ctx ub \<Rightarrow> (reply \<Rightarrow> amap \<Rightarrow> bool) \<Rightarrow> bool" where
  "achieves c res P \<longleftrightarrow> (\<exists>c' r M. res = Some c' \<and> does c c' r M \<and> P r M)"

lemma performs_achieves: "performs c res (r, M) \<Longrightarrow> P r M \<Longrightarrow> achieves c res P"
  by (auto simp: achieves_def performs_def)

lemma performs_iff_achieves: "performs c res spec \<longleftrightarrow> achieves c res (\<lambda>r M. spec = (r, M))"
  by (cases spec) (auto simp: achieves_def performs_def)

lemma achieves_mono: "achieves c res P \<Longrightarrow> (\<And>r M. P r M \<Longrightarrow> Q r M) \<Longrightarrow> achieves c res Q"
  unfolding achieves_def by blast

lemma achieves_along:
  assumes "along c c1 [] M" "achieves c1 res P"
  shows "achieves c res P"
  using assms(2) along_trans0 [OF assms(1)] unfolding achieves_def does_along by blast

lemma performs_along:
  assumes "along c c1 [] M" "performs c1 res spec"
  shows "performs c res spec"
  using assms along_trans0 [OF assms(1)] by (auto simp: performs_def does_along)

definition allows_value :: "(aval \<Rightarrow> 'b option) \<Rightarrow> string \<Rightarrow> (reply \<Rightarrow> amap \<Rightarrow> bool) \<Rightarrow> ('b \<Rightarrow> reply \<Rightarrow> amap \<Rightarrow> bool) \<Rightarrow> amap \<Rightarrow> reply \<Rightarrow> amap \<Rightarrow> bool" where
  "allows_value aget key missing found M r M' \<longleftrightarrow>
    (case M key of None \<Rightarrow> missing r M'
     | Some (a, _) \<Rightarrow> (case aget a of None \<Rightarrow> r = RError kWrongType \<and> M' = M | Some y \<Rightarrow> found y r M'))"

context value_kind
begin

lemma with_value_achieves:
  assumes ok: "ctx_ok c"
    and missing: "\<And>c1. looked c c1 \<Longrightarrow> view c key = None \<Longrightarrow> achieves c (missing c1) P"
    and found: "\<And>c1 x. cell c c1 key (mk x) (view c) \<Longrightarrow> val_nonempty (mk x) \<Longrightarrow> inv x \<Longrightarrow> achieves c (found x c1) (Q (ab x))"
  shows "achieves c (with_value get key missing found c) (allows_value aget key P Q (view c))"
proof -
  obtain v c1 where l: "ctx_lookup key c = (v, c1)" by force
  note L = ctx_lookup_spec [OF ok l]
  show ?thesis
  proof (cases v)
    case None
    have "looked c c1"
      using L(4-9) ok by (simp add: looked_def)
    from achieves_mono [OF missing [OF this], of "allows_value aget key P Q (view c)"] show ?thesis
      using L(1) l None by (simp add: with_value_def allows_value_def)
  next
    case (Some w)
    note C = L(2) [OF Some] and N = L(3) [OF Some]
    have vw: "view c key = Some (val_abs w, ht_map (expires (db c1)) key)" and iw: "val_invar w"
      using cell_frame [OF C] by simp_all
    show ?thesis
    proof (cases "get w")
      case None
      then show ?thesis
        using does_wrongtype [OF C N] l Some vw k_none [OF None]
        by (auto simp: with_value_def allows_value_def achieves_def)
    next
      case g: (Some x)
      then have w: "w = mk x"
        using k_get by simp
      have "achieves c (found x c1) (Q (ab x))"
        using found [of c1 x] C N iw w k_inv by simp
      from achieves_mono [OF this, of "allows_value aget key P Q (view c)"] show ?thesis
        using l Some g vw w by (simp add: with_value_def allows_value_def k_abs k_aget)
    qed
  qed
qed

end

text \<open>Writing back a value that stands for the same abstract one keeps the cell.\<close>

lemma cell_refresh:
  assumes cell: "cell c c1 key v M" and v': "val_invar v'" "val_abs v' = val_abs v"
  shows "cell c (ctx_store key v' c1) key v' M"
proof -
  have C: "db_wf (db c1)" "ht_map (keyspace (db c1)) key = Some v" "shows_db c (db c1) M"
    using cell by (simp_all add: cell_def)
  note W = db_write_spec [OF C(1) v'(1) C(2)]
  have "db_view (db_write key v' (db c1)) t = db_view (db c1) t" for t
    using v'(2) C(2) unfolding db_view_def W(3)
    by (auto simp: fun_eq_iff option.map_comp comp_def db_live_def live_def split: option.splits)
  then have "shows_db c (db_write key v' (db c1)) M"
    using C(3) by (simp add: shows_db_def)
  then show ?thesis
    using cell W v' by (auto simp: cell_def same_clock_def db_write_def)
qed

lemma hash_empty_iff: "ht_invar h \<Longrightarrow> ht_empty h \<longleftrightarrow> \<not> val_nonempty (VHash h)" "ht_invar s \<Longrightarrow> ht_empty s \<longleftrightarrow> \<not> val_nonempty (VSet s)"
  by (simp_all add: ht_empty_def val_nonempty_def)

section \<open>Contexts for examples\<close>

definition ctx_on :: "database \<Rightarrow> ctx" where
  "ctx_on d = \<lparr>out = buf_init, want_close = False, db = d, clk_mono = 1000, clk_unix = 9000, crng = \<lparr>draws = \<lambda>q. q, dpos = 0\<rparr>, tasks = [],
     psave = \<lparr>snapshot_path = ''d'', lastsave_unix_ms = 0, bgsave_in_progress = False, disk = no_files, io = []\<rparr>\<rparr>"

lemma ctx_on_ok: "db_invar d \<Longrightarrow> ctx_ok (ctx_on d)"
  by (simp add: ctx_on_def ctx_ok_def buf_init_spec rng_fair_id clock_ok_def i64_defs)

end
