(* ===== verification/Cmd_Keys.thy ===== *)
theory Cmd_Keys
  imports Command
begin

text \<open>
  The key commands of \<^verbatim>\<open>commands/cmd_keys.cpp\<close>: \<^verbatim>\<open>DEL\<close>, \<^verbatim>\<open>UNLINK\<close>, \<^verbatim>\<open>EXISTS\<close>, \<^verbatim>\<open>TYPE\<close> and the TTL
  commands. Each has a specification on the abstract keyspace; \<^verbatim>\<open>UNLINK\<close> also hands large values to
  the worker threads.
\<close>

section \<open>Handlers\<close>

definition kUnlinkBackgroundThreshold :: nat where "kUnlinkBackgroundThreshold = 64"

definition run_in_background :: "bg_task \<Rightarrow> ctx \<Rightarrow> ctx" where
  "run_in_background t c = c\<lparr>tasks := tasks c @ [t]\<rparr>"

definition bad_expire :: "string \<Rightarrow> string" where
  "bad_expire cmd_name = ''ERR invalid expire time in '' @ quoted cmd_name @ '' command''"

definition to_ms :: "bool \<Rightarrow> int \<Rightarrow> int option" where
  "to_ms is_seconds amount = (if is_seconds then seconds_to_ms amount else Some amount)"

text \<open>The common end of both: set the deadline, tell whether the key was there.\<close>

definition reply_expire_at :: "string \<Rightarrow> int \<Rightarrow> ctx \<Rightarrow> ctx" where
  "reply_expire_at key deadline c =
    (let (existed, d) = expire_at key deadline (clk_mono c) (db c)
     in reply_integer (if existed then 1 else 0) (c\<lparr>db := d\<rparr>))"

definition expire_relative :: "string \<Rightarrow> string \<Rightarrow> int \<Rightarrow> bool \<Rightarrow> ctx \<Rightarrow> ctx ub" where
  "expire_relative cmd_name key amount is_seconds c =
    (case to_ms is_seconds amount of
       None \<Rightarrow> Some (reply_error (bad_expire cmd_name) c)
     | Some delta_ms \<Rightarrow>
         let now = clk_mono c in
         if add_would_overflow now delta_ms then Some (reply_error (bad_expire cmd_name) c)
         else do { deadline \<leftarrow> i64_checked (now + delta_ms); Some (reply_expire_at key deadline c) })"

definition expire_absolute :: "string \<Rightarrow> string \<Rightarrow> int \<Rightarrow> bool \<Rightarrow> ctx \<Rightarrow> ctx ub" where
  "expire_absolute cmd_name key amount is_seconds c =
    (case to_ms is_seconds amount of
       None \<Rightarrow> Some (reply_error (bad_expire cmd_name) c)
     | Some unix_target_ms \<Rightarrow>
         let now_mono = clk_mono c; now_unix = clk_unix c in
         if sub_would_overflow unix_target_ms now_unix then Some (reply_error (bad_expire cmd_name) c)
         else do {
           delta \<leftarrow> i64_checked (unix_target_ms - now_unix);
           if add_would_overflow now_mono delta then Some (reply_error (bad_expire cmd_name) c)
           else do { deadline \<leftarrow> i64_checked (now_mono + delta); Some (reply_expire_at key deadline c) }
         })"

fun del_loop :: "string list \<Rightarrow> int \<Rightarrow> ctx \<Rightarrow> ctx" where
  "del_loop [] cnt c = reply_integer cnt c"
| "del_loop (key # keys) cnt c =
    (case ctx_lookup key c of
       (None, c1) \<Rightarrow> del_loop keys cnt c1
     | (Some _, c1) \<Rightarrow> del_loop keys (cnt + 1) (ctx_del key c1))"

definition cmd_del :: "string list \<Rightarrow> ctx \<Rightarrow> ctx ub" where
  "cmd_del argv c = Some (del_loop (drop 1 argv) 0 c)"

fun unlink_loop :: "string list \<Rightarrow> int \<Rightarrow> ctx \<Rightarrow> ctx" where
  "unlink_loop [] cnt c = reply_integer cnt c"
| "unlink_loop (key # keys) cnt c =
    (let (v, d) = db_take key (clk_mono c) (db c); c1 = c\<lparr>db := d\<rparr> in
     case v of
       None \<Rightarrow> unlink_loop keys cnt c1
     | Some u \<Rightarrow> unlink_loop keys (cnt + 1)
         (if kUnlinkBackgroundThreshold < value_element_count u then run_in_background (FreeValue u) c1 else c1))"

definition cmd_unlink :: "string list \<Rightarrow> ctx \<Rightarrow> ctx ub" where
  "cmd_unlink argv c = Some (unlink_loop (drop 1 argv) 0 c)"

fun exists_loop :: "string list \<Rightarrow> int \<Rightarrow> ctx \<Rightarrow> ctx" where
  "exists_loop [] cnt c = reply_integer cnt c"
| "exists_loop (key # keys) cnt c =
    (let (v, c1) = ctx_lookup key c in exists_loop keys (if v = None then cnt else cnt + 1) c1)"

definition cmd_exists :: "string list \<Rightarrow> ctx \<Rightarrow> ctx ub" where
  "cmd_exists argv c = Some (exists_loop (drop 1 argv) 0 c)"

definition cmd_type :: "string list \<Rightarrow> ctx \<Rightarrow> ctx ub" where
  "cmd_type argv c = do {
     key \<leftarrow> arg argv 1;
     Some (case ctx_lookup key c of
       (None, c1) \<Rightarrow> reply_simple ''none'' c1
     | (Some v, c1) \<Rightarrow> reply_simple (type_name v) c1)
   }"

text \<open>The four \<^verbatim>\<open>EXPIRE\<close> commands differ in the helper and the unit.\<close>

definition expire_command :: "(string \<Rightarrow> string \<Rightarrow> int \<Rightarrow> bool \<Rightarrow> ctx \<Rightarrow> ctx ub) \<Rightarrow> bool \<Rightarrow> string list \<Rightarrow> ctx \<Rightarrow> ctx ub" where
  "expire_command f is_seconds argv c = do {
     a \<leftarrow> arg argv 2;
     case parse_int64 a of
       None \<Rightarrow> Some (reply_error kNotInt c)
     | Some amount \<Rightarrow> do { cmd_name \<leftarrow> arg argv 0; key \<leftarrow> arg argv 1; f cmd_name key amount is_seconds c }
   }"

definition cmd_expire :: "string list \<Rightarrow> ctx \<Rightarrow> ctx ub" where "cmd_expire = expire_command expire_relative True"
definition cmd_pexpire :: "string list \<Rightarrow> ctx \<Rightarrow> ctx ub" where "cmd_pexpire = expire_command expire_relative False"
definition cmd_expireat :: "string list \<Rightarrow> ctx \<Rightarrow> ctx ub" where "cmd_expireat = expire_command expire_absolute True"
definition cmd_pexpireat :: "string list \<Rightarrow> ctx \<Rightarrow> ctx ub" where "cmd_pexpireat = expire_command expire_absolute False"

definition cmd_ttl :: "string list \<Rightarrow> ctx \<Rightarrow> ctx ub" where
  "cmd_ttl argv c = do {
     key \<leftarrow> arg argv 1;
     (pttl, d) \<leftarrow> db_pttl key (clk_mono c) (db c);
     let c1 = c\<lparr>db := d\<rparr>;
     if pttl < 0 then Some (reply_integer pttl c1)
     else do { n \<leftarrow> i64_checked (pttl + 500); Some (reply_integer (cdiv n 1000) c1) }
   }"

definition cmd_pttl :: "string list \<Rightarrow> ctx \<Rightarrow> ctx ub" where
  "cmd_pttl argv c = do {
     key \<leftarrow> arg argv 1;
     (pttl, d) \<leftarrow> db_pttl key (clk_mono c) (db c);
     Some (reply_integer pttl (c\<lparr>db := d\<rparr>))
   }"

definition cmd_persist :: "string list \<Rightarrow> ctx \<Rightarrow> ctx ub" where
  "cmd_persist argv c = do {
     key \<leftarrow> arg argv 1;
     let (removed, d) = db_persist key (clk_mono c) (db c);
     Some (reply_integer (if removed then 1 else 0) (c\<lparr>db := d\<rparr>))
   }"

section \<open>Specifications\<close>

fun spec_del :: "string list \<Rightarrow> int \<Rightarrow> amap \<Rightarrow> reply \<times> amap" where
  "spec_del [] cnt M = (RInt cnt, M)"
| "spec_del (key # keys) cnt M = spec_del keys (cnt + (if M key = None then 0 else 1)) (M(key := None))"

definition spec_exists :: "string list \<Rightarrow> amap \<Rightarrow> reply \<times> amap" where
  "spec_exists keys M = (RInt (int (length (filter (\<lambda>k. M k \<noteq> None) keys))), M)"

fun a_type_name :: "aval \<Rightarrow> string" where
  "a_type_name (AString _) = ''string''"
| "a_type_name (AHash _) = ''hash''"
| "a_type_name (AList _) = ''list''"
| "a_type_name (ASet _) = ''set''"
| "a_type_name (AZSet _) = ''zset''"

definition spec_type :: "string \<Rightarrow> amap \<Rightarrow> reply \<times> amap" where
  "spec_type key M = (RSimple (case M key of None \<Rightarrow> ''none'' | Some (a, _) \<Rightarrow> a_type_name a), M)"

definition spec_expire_at :: "string \<Rightarrow> int \<Rightarrow> amap \<Rightarrow> reply \<times> amap" where
  "spec_expire_at key d M = (RInt (if M key = None then 0 else 1), M(key := map_option (apsnd (\<lambda>_. Some d)) (M key)))"

text \<open>
  \<open>base\<close> is what the amount counts from on the monotonic clock: now for the relative commands, the
  start of the epoch for the absolute ones. A time that does not fit 64 bits, in milliseconds, as a
  distance from now or as a deadline, is refused.
\<close>

definition spec_expire :: "bool \<Rightarrow> bool \<Rightarrow> string list \<Rightarrow> int \<Rightarrow> int \<Rightarrow> amap \<Rightarrow> reply \<times> amap" where
  "spec_expire absolute is_seconds argv now_mono now_unix M =
    (case parse_int64 (argv ! 2) of
       None \<Rightarrow> (RError kNotInt, M)
     | Some amount \<Rightarrow>
         let ms = (if is_seconds then amount * 1000 else amount);
             delta = (if absolute then ms - now_unix else ms) in
         if in_i64 ms \<and> in_i64 delta \<and> in_i64 (now_mono + delta)
         then spec_expire_at (argv ! 1) (now_mono + delta) M
         else (RError (sanitize_error_text (bad_expire (argv ! 0))), M))"

definition spec_ttl :: "string \<Rightarrow> int \<Rightarrow> amap \<Rightarrow> reply \<times> amap" where
  "spec_ttl key now M = (let p = spec_pttl (M key) now in (RInt (if p < 0 then p else (p + 500) div 1000), M))"

definition spec_persist :: "string \<Rightarrow> amap \<Rightarrow> reply \<times> amap" where
  "spec_persist key M =
    (RInt (case M key of Some (_, Some _) \<Rightarrow> 1 | _ \<Rightarrow> 0), M(key := map_option (apsnd (\<lambda>_. None)) (M key)))"

section \<open>The handlers meet their specifications\<close>

lemma along_tasks: "along c c1 bs M \<Longrightarrow> along c (run_in_background t c1) bs M" "view (run_in_background t c1) = view c1"
  "along c c1 bs M \<Longrightarrow> ctx_ok (run_in_background t c1)"
  by (auto simp: run_in_background_def along_def ctx_ok_def same_clock_def view_def clock_ok_def)

lemma del_loop_performs: "ctx_ok c \<Longrightarrow> performs c (Some (del_loop keys cnt c)) (spec_del keys cnt (view c))"
proof (induction keys arbitrary: cnt c)
  case Nil
  then show ?case using performs_now(3) by simp
next
  case (Cons k keys)
  obtain v c1 where l: "ctx_lookup k c = (v, c1)" by force
  note L = along_lookup [OF Cons.prems l] and V = ctx_lookup_cases [OF Cons.prems l]
  have ok1: "ctx_ok c1" using along_ok(1) [OF L(1)] .
  show ?case
  proof (cases v)
    case None
    then have "(view c)(k := None) = view c"
      using V by auto
    then show ?thesis
      using None l L(2) V performs_along [OF L(1) Cons.IH [OF ok1]] by simp
  next
    case (Some w)
    note D = along_del [OF ok1, of k]
    show ?thesis
      using performs_along [OF along_trans0 [OF L(1) D(1)] Cons.IH [OF along_ok(1) [OF D(1)]], of "cnt + 1"] Some l V
      unfolding D(2) L(2) by (auto simp del: fun_upd_apply)
  qed
qed

lemma del_performs:
  assumes "ctx_ok c"
  shows "performs c (cmd_del argv c) (spec_del (drop 1 argv) 0 (view c))"
  using del_loop_performs [OF assms] by (simp add: cmd_del_def)

lemma unlink_loop_performs: "ctx_ok c \<Longrightarrow> performs c (Some (unlink_loop keys cnt c)) (spec_del keys cnt (view c))"
proof (induction keys arbitrary: cnt c)
  case Nil
  then show ?case using performs_now(3) by simp
next
  case (Cons k keys)
  obtain v d where t: "db_take k (clk_mono c) (db c) = (v, d)" by force
  note T = along_take [OF Cons.prems t]
  let ?c1 = "c\<lparr>db := d\<rparr>"
  let ?c2 = "case v of Some u \<Rightarrow> if kUnlinkBackgroundThreshold < value_element_count u then run_in_background (FreeValue u) ?c1 else ?c1 | None \<Rightarrow> ?c1"
  have V: "v = None \<longleftrightarrow> view c k = None"
    using T(1) by (cases v; cases "view c k") auto
  have A: "along c ?c2 [] ((view c)(k := None))"
    using T(2) along_tasks(1) [OF T(2)] by (auto split: option.split)
  have W: "view ?c2 = (view c)(k := None)"
    using along_view [OF A] by (simp add: purge_upd)
  have "unlink_loop (k # keys) cnt c = unlink_loop keys (cnt + (if view c k = None then 0 else 1)) ?c2"
    using t V by (auto split: option.split)
  then show ?case
    using performs_along [OF A Cons.IH [OF along_ok(1) [OF A]], of "cnt + (if view c k = None then 0 else 1)"]
    unfolding W by (simp only: spec_del.simps)
qed

lemma unlink_performs:
  assumes "ctx_ok c"
  shows "performs c (cmd_unlink argv c) (spec_del (drop 1 argv) 0 (view c))"
  using unlink_loop_performs [OF assms] by (simp add: cmd_unlink_def)

lemma exists_loop_performs:
  "ctx_ok c \<Longrightarrow> performs c (Some (exists_loop keys cnt c)) (RInt (cnt + int (length (filter (\<lambda>k. view c k \<noteq> None) keys))), view c)"
proof (induction keys arbitrary: cnt c)
  case Nil
  then show ?case using performs_now(3) by simp
next
  case (Cons k keys)
  obtain v c1 where l: "ctx_lookup k c = (v, c1)" by force
  note L = along_lookup [OF Cons.prems l] and V = ctx_lookup_cases [OF Cons.prems l]
  show ?case
    using performs_along [OF L(1) Cons.IH [OF along_ok(1) [OF L(1)]], of "if v = None then cnt else cnt + 1"] l V
    unfolding L(2) by (auto simp: algebra_simps)
qed

lemma exists_performs:
  assumes "ctx_ok c"
  shows "performs c (cmd_exists argv c) (spec_exists (drop 1 argv) (view c))"
  using exists_loop_performs [OF assms, of "drop 1 argv" 0] by (simp add: cmd_exists_def spec_exists_def)

lemma type_name_abs: "type_name v = a_type_name (val_abs v)" "no_crlf (a_type_name a)" "no_crlf ''none''"
  by (cases v; simp) (cases a; simp add: CR_def LF_def)+

lemma type_performs:
  assumes ok: "ctx_ok c" and n: "2 \<le> length argv"
  shows "performs c (cmd_type argv c) (spec_type (argv ! 1) (view c))"
proof -
  obtain v c1 where l: "ctx_lookup (argv ! 1) c = (v, c1)" by force
  note L = along_lookup [OF ok l]
  show ?thesis
    using n l L(3) performs_reply(1) [OF L(1), of "''none''"] performs_reply(1) [OF L(1) type_name_abs(2)] type_name_abs
    by (cases v; cases "view c (argv ! 1)") (auto simp: cmd_type_def spec_type_def)
qed

lemma reply_expire_at_performs:
  assumes "ctx_ok c" "in_i64 d"
  shows "performs c (Some (reply_expire_at key d c)) (spec_expire_at key d (view c))"
proof -
  obtain b d' where e: "expire_at key d (clk_mono c) (db c) = (b, d')" by force
  note E = along_expire [OF assms e]
  show ?thesis
    using performs_reply(3) [OF E(2)] E(1) e by (auto simp: reply_expire_at_def spec_expire_at_def)
qed

lemma to_ms_Some: "to_ms s a = Some ms \<Longrightarrow> in_i64 a \<Longrightarrow> ms = (if s then a * 1000 else a) \<and> in_i64 ms"
  using seconds_to_ms_Some [of a ms] by (auto simp: to_ms_def split: if_splits)

lemma to_ms_None: "to_ms s a = None \<Longrightarrow> s \<and> \<not> in_i64 (a * 1000)"
  by (auto simp: to_ms_def seconds_to_ms_None split: if_splits)

lemma expire_performs:
  assumes ok: "ctx_ok c" and n: "3 \<le> length argv"
  shows "performs c (expire_command expire_relative s argv c) (spec_expire False s argv (clk_mono c) (clk_unix c) (view c))"
    "performs c (expire_command expire_absolute s argv c) (spec_expire True s argv (clk_mono c) (clk_unix c) (view c))"
proof -
  have clk: "in_i64 (clk_mono c)" "in_i64 (clk_unix c)"
    using ok by (simp_all add: ctx_ok_def clock_ok_def)
  have err: "performs c (Some (reply_error e c)) (RError (sanitize_error_text e), view c)" for e
    using performs_now(6) [OF ok] .
  have a0: "arg argv 0 = Some (argv ! 0)"
    using n by (auto simp: arg_def)
  show "performs c (expire_command expire_relative s argv c) (spec_expire False s argv (clk_mono c) (clk_unix c) (view c))"
  proof (cases "parse_int64 (argv ! 2)")
    case None
    then show ?thesis using n err [of kNotInt] by (simp add: expire_command_def spec_expire_def)
  next
    case (Some a)
    note r = parse_int64_range [OF Some]
    show ?thesis
      using n a0 Some err [of "bad_expire (argv ! 0)"] to_ms_Some [of s a] to_ms_None [of s a] r add_would_overflow_iff [OF clk(1)]
        reply_expire_at_performs [OF ok]
      by (cases "to_ms s a") (auto simp: expire_command_def spec_expire_def expire_relative_def Let_def)
  qed
  show "performs c (expire_command expire_absolute s argv c) (spec_expire True s argv (clk_mono c) (clk_unix c) (view c))"
  proof (cases "parse_int64 (argv ! 2)")
    case None
    then show ?thesis using n err [of kNotInt] by (simp add: expire_command_def spec_expire_def)
  next
    case (Some a)
    note r = parse_int64_range [OF Some]
    show ?thesis
      using n a0 Some err [of "bad_expire (argv ! 0)"] to_ms_Some [of s a] to_ms_None [of s a] r add_would_overflow_iff [OF clk(1)]
        sub_would_overflow_iff [OF _ clk(2)] reply_expire_at_performs [OF ok]
      by (cases "to_ms s a") (auto simp: expire_command_def spec_expire_def expire_absolute_def Let_def)
  qed
qed

lemma pttl_performs:
  assumes ok: "ctx_ok c" and n: "2 \<le> length argv"
  shows "performs c (cmd_pttl argv c) (RInt (spec_pttl (view c (argv ! 1)) (clk_mono c)), view c)"
  using along_pttl [OF ok, of "argv ! 1"] n performs_reply(3)
  by (auto simp: cmd_pttl_def)

lemma view_deadline: "ctx_ok c \<Longrightarrow> view c key = Some (a, Some d) \<Longrightarrow> in_i64 d"
  using db_wfD(4) [of "db c" key d]
  by (auto simp: ctx_ok_def db_invar_def view_def db_view_def db_live_def live_def split: option.splits if_splits)

lemma ttl_performs:
  assumes ok: "ctx_ok c" and n: "2 \<le> length argv"
  shows "performs c (cmd_ttl argv c) (spec_ttl (argv ! 1) (clk_mono c) (view c))"
proof -
  let ?p = "spec_pttl (view c (argv ! 1)) (clk_mono c)"
  obtain d' where d': "db_pttl (argv ! 1) (clk_mono c) (db c) = Some (?p, d')" "along c (c\<lparr>db := d'\<rparr>) [] (view c)"
    using along_pttl [OF ok] by blast
  have "in_i64 (?p + 500)" if "\<not> ?p < 0"
    using that view_deadline [OF ok, of "argv ! 1"] ok
    by (auto simp: spec_pttl_def ctx_ok_def clock_ok_def i64_defs split: option.splits)
  moreover have "cdiv (?p + 500) 1000 = (?p + 500) div 1000" if "\<not> ?p < 0"
    using that by (simp add: cdiv_def)
  ultimately show ?thesis
    using d'(1) n performs_reply(3) [OF d'(2)] by (simp add: cmd_ttl_def spec_ttl_def Let_def)
qed

lemma persist_performs:
  assumes ok: "ctx_ok c" and n: "2 \<le> length argv"
  shows "performs c (cmd_persist argv c) (spec_persist (argv ! 1) (view c))"
proof -
  obtain b d' where e: "db_persist (argv ! 1) (clk_mono c) (db c) = (b, d')" by force
  note E = along_persist [OF ok e]
  show ?thesis
    using n e E(1) performs_reply(3) [OF E(2), of "if b then 1 else 0"]
    by (cases "view c (argv ! 1)") (auto simp: cmd_persist_def spec_persist_def split: option.splits)
qed

end
