(* ===== verification/Cmd_Server.thy ===== *)
theory Cmd_Server
  imports Command Cmd_Keys
begin

text \<open>
  The connection and server commands of \<^verbatim>\<open>commands/cmd_server.cpp\<close>: \<^verbatim>\<open>PING\<close>, \<^verbatim>\<open>ECHO\<close>, \<^verbatim>\<open>QUIT\<close>, the stubs for
  \<^verbatim>\<open>COMMAND\<close>, \<^verbatim>\<open>CONFIG\<close> and \<^verbatim>\<open>HELLO\<close>, \<^verbatim>\<open>DBSIZE\<close> and \<^verbatim>\<open>FLUSHALL\<close>, with what each replies and does.
\<close>

section \<open>Handlers\<close>

definition cmd_ping :: "string list \<Rightarrow> ctx \<Rightarrow> ctx ub" where
  "cmd_ping argv c =
    (if 2 < length argv then do { name \<leftarrow> arg argv 0; Some (reply_error (wrong_arity name) c) }
     else if length argv = 1 then Some (reply_simple ''PONG'' c)
     else do { msg \<leftarrow> arg argv 1; Some (reply_bulk msg c) })"

definition cmd_echo :: "string list \<Rightarrow> ctx \<Rightarrow> ctx ub" where
  "cmd_echo argv c = do { msg \<leftarrow> arg argv 1; Some (reply_bulk msg c) }"

definition cmd_quit :: "string list \<Rightarrow> ctx \<Rightarrow> ctx ub" where
  "cmd_quit argv c = Some ((reply_simple ''OK'' c)\<lparr>want_close := True\<rparr>)"

definition cmd_command :: "string list \<Rightarrow> ctx \<Rightarrow> ctx ub" where
  "cmd_command argv c = Some (reply_array_header 0 c)"

definition cmd_config :: "string list \<Rightarrow> ctx \<Rightarrow> ctx ub" where
  "cmd_config argv c = Some (reply_array_header 0 c)"

definition cmd_hello :: "string list \<Rightarrow> ctx \<Rightarrow> ctx ub" where
  "cmd_hello argv c = Some (reply_error (''ERR unknown command '' @ quoted ''HELLO'') c)"

definition cmd_dbsize :: "string list \<Rightarrow> ctx \<Rightarrow> ctx ub" where
  "cmd_dbsize argv c = Some (reply_integer (int (db_size (db c))) c)"

definition cmd_flushall :: "string list \<Rightarrow> ctx \<Rightarrow> ctx ub" where
  "cmd_flushall argv c =
    (if 2 < length argv \<or> (length argv = 2 \<and> \<not> ieq (argv ! 1) ''async'')
     then Some (reply_error ''ERR syntax error'' c)
     else if length argv = 2 then
       (let (detached, d) = db_take_all (db c)
        in Some (reply_simple ''OK'' (run_in_background (FreeKeyspace detached) (c\<lparr>db := d\<rparr>))))
     else Some (reply_simple ''OK'' (c\<lparr>db := db_clear (db c)\<rparr>)))"

section \<open>What they do\<close>

definition spec_ping :: "string list \<Rightarrow> amap \<Rightarrow> reply \<times> amap" where
  "spec_ping argv M =
    (if 2 < length argv then RError (sanitize_error_text (wrong_arity (argv ! 0)))
     else if length argv = 1 then RSimple ''PONG'' else RBulk (argv ! 1), M)"

definition spec_flushall :: "string list \<Rightarrow> amap \<Rightarrow> reply \<times> amap" where
  "spec_flushall argv M =
    (if 2 < length argv \<or> (length argv = 2 \<and> \<not> ieq (argv ! 1) ''async'') then (RError ''ERR syntax error'', M)
     else (RSimple ''OK'', Map.empty))"

lemma along_emptied:
  assumes ok: "ctx_ok c" and inv: "db_invar d" and live: "\<And>t. db_live d t = Map.empty" and
    c': "out c' = out c" "crng c' = crng c" "clk_mono c' = clk_mono c" "clk_unix c' = clk_unix c" "db c' = d"
  shows "along c c' [] Map.empty"
proof -
  have "db_view d t = purge t Map.empty" for t
    using live [of t] by (simp add: db_view_def purge_def fun_eq_iff)
  then show ?thesis
    using ok inv c' by (simp add: along_def ctx_ok_def clock_ok_def same_clock_def shows_db_def)
qed

lemma simple_texts: "no_crlf ''OK''" "no_crlf ''PONG''" "sanitize_error_text ''ERR syntax error'' = ''ERR syntax error''"
  by (simp_all add: CR_def LF_def sanitize_error_text_def)

lemma ping_performs: "ctx_ok c \<Longrightarrow> 1 \<le> length argv \<Longrightarrow> performs c (cmd_ping argv c) (spec_ping argv (view c))"
  using performs_looked [OF looked_self, of c] simple_texts
  by (auto simp: cmd_ping_def spec_ping_def arg_def)

lemma echo_performs: "ctx_ok c \<Longrightarrow> length argv = 2 \<Longrightarrow> performs c (cmd_echo argv c) (RBulk (argv ! 1), view c)"
  using performs_looked(4) [OF looked_self, of c] by (simp add: cmd_echo_def arg_def)

lemma performs_want_close: "performs c (Some c1) rm \<Longrightarrow> performs c (Some (c1\<lparr>want_close := b\<rparr>)) rm"
  by (auto simp: performs_def does_def ctx_ok_def clock_ok_def same_clock_def)

lemma quit_performs: "ctx_ok c \<Longrightarrow> performs c (cmd_quit argv c) (RSimple ''OK'', view c)"
  unfolding cmd_quit_def by (rule performs_want_close) (rule performs_looked(7) [OF looked_self simple_texts(1)])

lemma stub_performs:
  assumes "ctx_ok c"
  shows "performs c (cmd_command argv c) (RArray [], view c)" "performs c (cmd_config argv c) (RArray [], view c)"
    "performs c (cmd_hello argv c) (RError (sanitize_error_text (''ERR unknown command '' @ quoted ''HELLO'')), view c)"
  using performs_looked(5,6) [OF looked_self [OF assms]] by (simp_all only: cmd_command_def cmd_config_def cmd_hello_def)

lemma flushall_performs:
  assumes ok: "ctx_ok c"
  shows "performs c (cmd_flushall argv c) (spec_flushall argv (view c))"
proof (cases "2 < length argv \<or> (length argv = 2 \<and> \<not> ieq (argv ! 1) ''async'')")
  case True
  then show ?thesis
    using performs_looked(6) [OF looked_self [OF ok], of "''ERR syntax error''"] simple_texts(3)
    by (simp add: cmd_flushall_def spec_flushall_def)
next
  case False
  have wf: "db_wf (db c)" using ok by (simp add: ctx_ok_def db_invar_def)
  obtain k d where t: "db_take_all (db c) = (k, d)" by force
  have "along c (run_in_background (FreeKeyspace k) (c\<lparr>db := d\<rparr>)) [] Map.empty"
    by (rule along_emptied [OF ok, where d = d]) (use db_reset_spec(5,6) [of "db c"] t in \<open>simp_all add: run_in_background_def\<close>)
  moreover have "along c (c\<lparr>db := db_clear (db c)\<rparr>) [] Map.empty"
    by (rule along_emptied [OF ok, where d = "db_clear (db c)"]) (use db_reset_spec(3,4) [of "db c"] wf in simp_all)
  ultimately show ?thesis
    using False t performs_reply(1) [OF _ simple_texts(1)] by (simp add: cmd_flushall_def spec_flushall_def)
qed

text \<open>\<^verbatim>\<open>DBSIZE\<close> counts the entries of the table, so it may count keys that have expired but were not swept yet.\<close>

definition allows_dbsize :: "amap \<Rightarrow> reply \<Rightarrow> amap \<Rightarrow> bool" where
  "allows_dbsize M r M' \<longleftrightarrow> M' = M \<and> (\<exists>n. r = RInt (int n) \<and> card (dom M) \<le> n)"

lemma dbsize_achieves:
  assumes ok: "ctx_ok c"
  shows "achieves c (cmd_dbsize argv c) (allows_dbsize (view c))"
proof -
  have inv: "ht_invar (keyspace (db c))" using ok db_wfD(1) by (auto simp: ctx_ok_def db_invar_def)
  have "dom (view c) \<subseteq> dom (ht_map (keyspace (db c)))"
    by (auto simp: view_def db_view_def db_live_def live_def split: option.splits)
  moreover have "finite (dom (ht_map (keyspace (db c))))" "card (dom (ht_map (keyspace (db c)))) = ht_size (keyspace (db c))"
    using ht.finite_dom_amap [OF inv] ht.size_card [OF inv] by simp_all
  ultimately have "card (dom (view c)) \<le> db_size (db c)"
    unfolding db_size_def by (metis card_mono)
  moreover have "performs c (cmd_dbsize argv c) (RInt (int (db_size (db c))), view c)"
    using performs_looked(3) [OF looked_self [OF ok]] by (simp add: cmd_dbsize_def)
  ultimately show ?thesis
    by (auto intro!: performs_achieves simp: allows_dbsize_def)
qed

end
