(* ===== verification/Cmd_String.thy ===== *)
theory Cmd_String
  imports Command
begin

text \<open>
  The string commands of \<^verbatim>\<open>commands/cmd_string.cpp\<close>, each with its effect on the abstract keyspace:
  the lemma \<open>X_performs\<close> gives the reply of command \<open>X\<close> and the keyspace after it as functions of the
  keyspace before it.
\<close>

section \<open>Handlers\<close>

text \<open>The end of \<^verbatim>\<open>incr_by\<close>: the overflow check, the store and the reply.\<close>

definition incr_finish :: "(string \<Rightarrow> val \<Rightarrow> ctx \<Rightarrow> ctx) \<Rightarrow> string \<Rightarrow> int \<Rightarrow> int \<Rightarrow> ctx \<Rightarrow> ctx ub" where
  "incr_finish store key current delta c =
    (if add_would_overflow current delta then Some (reply_error kOverflow c)
     else do {
       result \<leftarrow> i64_checked (current + delta);
       Some (reply_integer result (store key (VString (int_to_string result)) c))
     })"

definition incr_by :: "string \<Rightarrow> int \<Rightarrow> ctx \<Rightarrow> ctx ub" where
  "incr_by key delta c =
     with_value get_string key
       (\<lambda>c1. incr_finish ctx_set key 0 delta c1)
       (\<lambda>s c1. case parse_int64 s of
                 None \<Rightarrow> Some (reply_error kNotInt c1)
               | Some current \<Rightarrow> incr_finish ctx_store key current delta c1) c"

record set_options =
  has_expire :: bool
  expire_ms :: int
  nx :: bool
  xx :: bool

definition set_options_init :: set_options where
  "set_options_init = \<lparr>has_expire = False, expire_ms = 0, nx = False, xx = False\<rparr>"

definition bad_set_expire :: string where
  "bad_set_expire = ''ERR invalid expire time in '' @ quoted ''set'' @ '' command''"

text \<open>The option tokens from \<^verbatim>\<open>argv[3]\<close> on; an error is the text of its reply.\<close>

fun parse_set_options :: "string list \<Rightarrow> set_options \<Rightarrow> string + set_options" where
  "parse_set_options [] opts = Inr opts"
| "parse_set_options (a # rest) opts =
    (if ieq a ''EX'' \<or> ieq a ''PX'' then
       (case rest of
          [] \<Rightarrow> Inl ''ERR syntax error''
        | b # rest' \<Rightarrow>
            if has_expire opts then Inl ''ERR syntax error''
            else case parse_int64 b of
              None \<Rightarrow> Inl kNotInt
            | Some n \<Rightarrow>
                if n \<le> 0 then Inl bad_set_expire
                else case (if ieq a ''EX'' then seconds_to_ms n else Some n) of
                  None \<Rightarrow> Inl bad_set_expire
                | Some ms \<Rightarrow> parse_set_options rest' (opts\<lparr>has_expire := True, expire_ms := ms\<rparr>))
     else if ieq a ''NX'' then
       (if xx opts then Inl ''ERR syntax error'' else parse_set_options rest (opts\<lparr>nx := True\<rparr>))
     else if ieq a ''XX'' then
       (if nx opts then Inl ''ERR syntax error'' else parse_set_options rest (opts\<lparr>xx := True\<rparr>))
     else Inl ''ERR syntax error'')"

definition cmd_get :: "string list \<Rightarrow> ctx \<Rightarrow> ctx ub" where
  "cmd_get argv c = do {
     key \<leftarrow> arg argv 1;
     with_value get_string key (\<lambda>c1. Some (reply_null_bulk c1)) (\<lambda>s c1. Some (reply_bulk s c1)) c
   }"

definition cmd_set :: "string list \<Rightarrow> ctx \<Rightarrow> ctx ub" where
  "cmd_set argv c = do {
     key \<leftarrow> arg argv 1;
     v \<leftarrow> arg argv 2;
     case parse_set_options (drop 3 argv) set_options_init of
       Inl e \<Rightarrow> Some (reply_error e c)
     | Inr opts \<Rightarrow>
         let now = clk_mono c; (existing, c1) = ctx_lookup key c in
         if (nx opts \<and> existing \<noteq> None) \<or> (xx opts \<and> existing = None) then Some (reply_null_bulk c1)
         else if has_expire opts \<and> add_would_overflow now (expire_ms opts) then Some (reply_error bad_set_expire c1)
         else let c2 = ctx_set key (VString v) c1 in
           if has_expire opts then do {
             deadline \<leftarrow> i64_checked (now + expire_ms opts);
             let c3 = c2\<lparr>db := snd (expire_at key deadline now (db c2))\<rparr>;
             Some (reply_simple ''OK'' c3)
           } else Some (reply_simple ''OK'' c2)
   }"

fun mget_loop :: "string list \<Rightarrow> ctx \<Rightarrow> ctx" where
  "mget_loop [] c = c"
| "mget_loop (key # keys) c =
    (let (v, c1) = ctx_lookup key c in mget_loop keys (reply_opt_bulk (Option.bind v get_string) c1))"

definition cmd_mget :: "string list \<Rightarrow> ctx \<Rightarrow> ctx ub" where
  "cmd_mget argv c = Some (mget_loop (drop 1 argv) (reply_array_header (length argv - 1) c))"

fun mset_loop :: "string list \<Rightarrow> ctx \<Rightarrow> ctx" where
  "mset_loop (k # v # rest) c = mset_loop rest (ctx_set k (VString v) c)"
| "mset_loop _ c = c"

definition cmd_mset :: "string list \<Rightarrow> ctx \<Rightarrow> ctx ub" where
  "cmd_mset argv c =
    (if even (length argv) then Some (reply_error (wrong_arity ''mset'') c)
     else Some (reply_simple ''OK'' (mset_loop (drop 1 argv) c)))"

definition cmd_incr :: "string list \<Rightarrow> ctx \<Rightarrow> ctx ub" where
  "cmd_incr argv c = do { key \<leftarrow> arg argv 1; incr_by key 1 c }"

definition cmd_decr :: "string list \<Rightarrow> ctx \<Rightarrow> ctx ub" where
  "cmd_decr argv c = do { key \<leftarrow> arg argv 1; incr_by key (- 1) c }"

definition cmd_incrby :: "string list \<Rightarrow> ctx \<Rightarrow> ctx ub" where
  "cmd_incrby argv c = do {
     key \<leftarrow> arg argv 1;
     a \<leftarrow> arg argv 2;
     case parse_int64 a of
       None \<Rightarrow> Some (reply_error kNotInt c)
     | Some delta \<Rightarrow> incr_by key delta c
   }"

definition cmd_decrby :: "string list \<Rightarrow> ctx \<Rightarrow> ctx ub" where
  "cmd_decrby argv c = do {
     key \<leftarrow> arg argv 1;
     a \<leftarrow> arg argv 2;
     case parse_int64 a of
       None \<Rightarrow> Some (reply_error kNotInt c)
     | Some delta \<Rightarrow>
         if delta = INT64_MIN then Some (reply_error kOverflow c)
         else do { neg \<leftarrow> i64_checked (- delta); incr_by key neg c }
   }"

definition cmd_append :: "string list \<Rightarrow> ctx \<Rightarrow> ctx ub" where
  "cmd_append argv c = do {
     key \<leftarrow> arg argv 1;
     a \<leftarrow> arg argv 2;
     with_value get_string key
       (\<lambda>c1. Some (reply_integer (int (length a)) (ctx_set key (VString a) c1)))
       (\<lambda>s c1. Some (reply_integer (int (length (s @ a))) (ctx_store key (VString (s @ a)) c1))) c
   }"

definition cmd_strlen :: "string list \<Rightarrow> ctx \<Rightarrow> ctx ub" where
  "cmd_strlen argv c = do {
     key \<leftarrow> arg argv 1;
     with_value get_string key
       (\<lambda>c1. Some (reply_integer 0 c1)) (\<lambda>s c1. Some (reply_integer (int (length s)) c1)) c
   }"

section \<open>Specifications\<close>

definition put_string :: "string \<Rightarrow> string \<Rightarrow> amap \<Rightarrow> amap" where
  "put_string key s M = M(key \<mapsto> (AString s, case M key of Some (_, e) \<Rightarrow> e | None \<Rightarrow> None))"

definition spec_incr_finish :: "string \<Rightarrow> int \<Rightarrow> int \<Rightarrow> amap \<Rightarrow> reply \<times> amap" where
  "spec_incr_finish key current delta M =
    (if in_i64 (current + delta) then (RInt (current + delta), put_string key (int_to_string (current + delta)) M)
     else (RError kOverflow, M))"

definition spec_incr :: "string \<Rightarrow> int \<Rightarrow> amap \<Rightarrow> reply \<times> amap" where
  "spec_incr key delta M = spec_value a_string key (spec_incr_finish key 0 delta M)
     (\<lambda>s. case parse_int64 s of None \<Rightarrow> (RError kNotInt, M) | Some n \<Rightarrow> spec_incr_finish key n delta M) M"

definition spec_get :: "string \<Rightarrow> amap \<Rightarrow> reply \<times> amap" where
  "spec_get key M = spec_value a_string key (RNull, M) (\<lambda>s. (RBulk s, M)) M"

definition spec_set :: "string \<Rightarrow> string \<Rightarrow> set_options \<Rightarrow> int \<Rightarrow> amap \<Rightarrow> reply \<times> amap" where
  "spec_set key v opts now M =
    (if (nx opts \<and> M key \<noteq> None) \<or> (xx opts \<and> M key = None) then (RNull, M)
     else if has_expire opts \<and> \<not> in_i64 (now + expire_ms opts) then (RError bad_set_expire, M)
     else (RSimple ''OK'', M(key \<mapsto> (AString v, if has_expire opts then Some (now + expire_ms opts) else None))))"

definition string_at :: "amap \<Rightarrow> string \<Rightarrow> string option" where
  "string_at M key = Option.bind (M key) (a_string \<circ> fst)"

fun spec_mset :: "string list \<Rightarrow> amap \<Rightarrow> amap" where
  "spec_mset (k # v # rest) M = spec_mset rest (M(k \<mapsto> (AString v, None)))"
| "spec_mset _ M = M"

definition spec_append :: "string \<Rightarrow> string \<Rightarrow> amap \<Rightarrow> reply \<times> amap" where
  "spec_append key a M = spec_value a_string key (RInt (int (length a)), put_string key a M)
     (\<lambda>s. (RInt (int (length (s @ a))), put_string key (s @ a) M)) M"

definition spec_strlen :: "string \<Rightarrow> amap \<Rightarrow> reply \<times> amap" where
  "spec_strlen key M = spec_value a_string key (RInt 0, M) (\<lambda>s. (RInt (int (length s)), M)) M"

section \<open>The handlers meet their specifications\<close>

lemma put_string_present: "cell c c1 key (VString s) M \<Longrightarrow> put key (AString s') M = put_string key s' M"
  using cell_frame(9) [of c c1 key "VString s" M] by (simp add: put_def put_string_def)

lemma incr_finish_set:
  assumes l: "looked c c1" and none: "view c key = None" and d: "in_i64 delta"
  shows "performs c (incr_finish ctx_set key 0 delta c1) (spec_incr_finish key 0 delta (view c))"
proof -
  note F = looked_frame [OF l] and A = looked_along [OF l]
  let ?v = "VString (int_to_string delta)"
  have v1: "view c1 = view c"
    using along_view [OF A] by simp
  have "along c (ctx_set key ?v c1) [] ((view c)(key \<mapsto> (AString (int_to_string delta), None)))"
    using along_trans0 [OF A along_set(1) [OF along_ok(1) [OF A]], of ?v key] v1 by simp
  from performs_reply(3) [OF this, of delta] show ?thesis
    using d none add_would_overflow_iff [of 0 delta]
    by (simp add: incr_finish_def spec_incr_finish_def put_string_def i64_defs)
qed

lemma incr_finish_store:
  assumes cell: "cell c c1 key (VString s) (view c)" and i: "in_i64 n" "in_i64 delta"
  shows "performs c (incr_finish ctx_store key n delta c1) (spec_incr_finish key n delta (view c))"
proof (cases "in_i64 (n + delta)")
  case True
  then show ?thesis
    using kstring.performs_put [OF cell TrueI, of "reply_integer (n + delta) (ctx_store key (VString (int_to_string (n + delta))) c1)"
        "int_to_string (n + delta)" "RInt (n + delta)"] cell_frame [OF cell] put_string_present [OF cell]
      add_would_overflow_iff [OF i]
    by (simp add: incr_finish_def spec_incr_finish_def same_clock_def)
next
  case False
  then show ?thesis
    using performs_peek(6) [OF cell, of kOverflow] add_would_overflow_iff [OF i]
    by (simp add: incr_finish_def spec_incr_finish_def)
qed

lemma incr_by_performs:
  assumes "ctx_ok c" "in_i64 delta"
  shows "performs c (incr_by key delta c) (spec_incr key delta (view c))"
  unfolding incr_by_def spec_incr_def
proof (rule kstring.with_value_performs [OF assms(1)])
  fix c1 s
  assume cell: "cell c c1 key (VString s) (view c)" and ne: "val_nonempty (VString s)"
  show "performs c (case parse_int64 s of None \<Rightarrow> Some (reply_error kNotInt c1)
      | Some current \<Rightarrow> incr_finish ctx_store key current delta c1)
    (case parse_int64 s of None \<Rightarrow> (RError kNotInt, view c) | Some n \<Rightarrow> spec_incr_finish key n delta (view c))"
  proof (cases "parse_int64 s")
    case None
    then show ?thesis
      using performs_peek(6) [OF cell ne, of kNotInt] by simp
  next
    case (Some n)
    then show ?thesis
      using incr_finish_store [OF cell parse_int64_range [OF Some] assms(2)] by simp
  qed
qed (rule incr_finish_set [OF _ _ assms(2)])

lemma get_performs:
  assumes "ctx_ok c" "2 \<le> length argv"
  shows "performs c (cmd_get argv c) (spec_get (argv ! 1) (view c))"
  using assms unfolding cmd_get_def spec_get_def
  by (auto intro!: kstring.with_value_performs intro: performs_looked performs_peek)

lemma strlen_performs:
  assumes "ctx_ok c" "2 \<le> length argv"
  shows "performs c (cmd_strlen argv c) (spec_strlen (argv ! 1) (view c))"
  using assms unfolding cmd_strlen_def spec_strlen_def
  by (auto intro!: kstring.with_value_performs intro: performs_looked performs_peek)

lemma incr_performs:
  assumes "ctx_ok c" "2 \<le> length argv"
  shows "performs c (cmd_incr argv c) (spec_incr (argv ! 1) 1 (view c))"
    "performs c (cmd_decr argv c) (spec_incr (argv ! 1) (- 1) (view c))"
  using assms incr_by_performs [OF assms(1), of 1 "argv ! 1"] incr_by_performs [OF assms(1), of "- 1" "argv ! 1"]
  by (simp_all add: cmd_incr_def cmd_decr_def i64_defs)

definition spec_incrby :: "string \<Rightarrow> string \<Rightarrow> amap \<Rightarrow> reply \<times> amap" where
  "spec_incrby key a M = (case parse_int64 a of None \<Rightarrow> (RError kNotInt, M) | Some delta \<Rightarrow> spec_incr key delta M)"

definition spec_decrby :: "string \<Rightarrow> string \<Rightarrow> amap \<Rightarrow> reply \<times> amap" where
  "spec_decrby key a M = (case parse_int64 a of None \<Rightarrow> (RError kNotInt, M)
     | Some delta \<Rightarrow> if delta = INT64_MIN then (RError kOverflow, M) else spec_incr key (- delta) M)"

lemma incrby_performs:
  assumes "ctx_ok c" "3 \<le> length argv"
  shows "performs c (cmd_incrby argv c) (spec_incrby (argv ! 1) (argv ! 2) (view c))"
  using assms performs_looked(6) [OF looked_self [OF assms(1)], of kNotInt] incr_by_performs [OF assms(1)]
  by (auto simp: cmd_incrby_def spec_incrby_def split: option.splits dest: parse_int64_range)

lemma decrby_performs:
  assumes "ctx_ok c" "3 \<le> length argv"
  shows "performs c (cmd_decrby argv c) (spec_decrby (argv ! 1) (argv ! 2) (view c))"
proof (cases "parse_int64 (argv ! 2)")
  case None
  then show ?thesis
    using assms performs_looked(6) [OF looked_self [OF assms(1)], of kNotInt]
    by (simp add: cmd_decrby_def spec_decrby_def)
next
  case (Some d)
  have "in_i64 (- d)" if "d \<noteq> INT64_MIN"
    using parse_int64_range [OF Some] that by (simp add: i64_defs)
  then show ?thesis
    using Some assms performs_looked(6) [OF looked_self [OF assms(1)], of kOverflow] incr_by_performs [OF assms(1), of "- d"]
    by (simp add: cmd_decrby_def spec_decrby_def)
qed

lemma append_performs:
  assumes ok: "ctx_ok c" and n: "3 \<le> length argv"
  shows "performs c (cmd_append argv c) (spec_append (argv ! 1) (argv ! 2) (view c))"
proof -
  let ?k = "argv ! 1" and ?a = "argv ! 2"
  have "performs c (with_value get_string ?k
       (\<lambda>c1. Some (reply_integer (int (length ?a)) (ctx_set ?k (VString ?a) c1)))
       (\<lambda>s c1. Some (reply_integer (int (length (s @ ?a))) (ctx_store ?k (VString (s @ ?a)) c1))) c)
    (spec_append ?k ?a (view c))"
    unfolding spec_append_def
  proof (rule kstring.with_value_performs [OF ok])
    fix c1
    assume l: "looked c c1" and none: "view c ?k = None"
    note A = looked_along [OF l]
    have "along c (ctx_set ?k (VString ?a) c1) [] ((view c)(?k \<mapsto> (AString ?a, None)))"
      using along_trans0 [OF A along_set(1) [OF along_ok(1) [OF A]], of "VString ?a" ?k] along_view [OF A] by simp
    from performs_reply(3) [OF this]
    show "performs c (Some (reply_integer (int (length ?a)) (ctx_set ?k (VString ?a) c1)))
        (RInt (int (length ?a)), put_string ?k ?a (view c))"
      using none by (simp add: put_string_def)
  next
    fix c1 s
    assume cell: "cell c c1 ?k (VString s) (view c)"
    show "performs c (Some (reply_integer (int (length (s @ ?a))) (ctx_store ?k (VString (s @ ?a)) c1)))
        (RInt (int (length (s @ ?a))), put_string ?k (s @ ?a) (view c))"
      using kstring.performs_put [OF cell TrueI, of "reply_integer (int (length (s @ ?a))) (ctx_store ?k (VString (s @ ?a)) c1)"
          "s @ ?a" "RInt (int (length (s @ ?a)))"] cell_frame [OF cell] put_string_present [OF cell, of "s @ ?a"]
      by (simp add: same_clock_def)
  qed
  then show ?thesis
    using n by (simp add: cmd_append_def)
qed

lemma mget_loop_along:
  assumes "ctx_ok c"
  shows "along c (mget_loop keys c) (concat (map (\<lambda>k. encode (bulk_or_null (string_at (view c) k))) keys)) (view c)"
  using assms
proof (induction keys arbitrary: c)
  case Nil
  then show ?case by (simp add: along_refl)
next
  case (Cons k keys)
  obtain v c1 where l: "ctx_lookup k c = (v, c1)" by force
  note L = along_lookup [OF Cons.prems l]
  let ?c2 = "reply_opt_bulk (Option.bind v get_string) c1"
  have ok1: "ctx_ok c1" and R: "along c1 ?c2 (encode (bulk_or_null (Option.bind v get_string))) (view c1)"
    using along_ok(1) [OF L(1)] along_reply(8) [of c1 "Option.bind v get_string"] by (simp_all add: bulk_or_null_def)
  have ok2: "ctx_ok ?c2" and v2: "view ?c2 = view c"
    using along_ok(1) [OF R] along_reply(11) [OF ok1] L(2) by simp_all
  have "Option.bind v get_string = string_at (view c) k"
  proof (cases v)
    case None
    then show ?thesis using L(3) by (simp add: string_at_def)
  next
    case (Some w)
    then obtain e where "view c k = Some (val_abs w, e)"
      using L(3) by (cases "view c k") auto
    then show ?thesis
      using Some by (cases w) (simp_all add: string_at_def)
  qed
  then show ?case
    using along_trans [OF along_trans0 [OF L(1) R] Cons.IH [OF ok2]] l v2 by simp
qed

definition spec_mget :: "string list \<Rightarrow> amap \<Rightarrow> reply \<times> amap" where
  "spec_mget keys M = (RArray (map (\<lambda>k. bulk_or_null (string_at M k)) keys), M)"

lemma mget_performs:
  assumes ok: "ctx_ok c" and n: "1 \<le> length argv"
  shows "performs c (cmd_mget argv c) (spec_mget (drop 1 argv) (view c))"
proof -
  let ?h = "reply_array_header (length argv - 1) c"
  have h: "along c ?h (CHR ''*'' # nat_to_string (length argv - 1) @ CRLF) (view c)" "view ?h = view c"
    using along_reply(9,10) [OF ok] by blast+
  have "along c (mget_loop (drop 1 argv) ?h) (CHR ''*'' # nat_to_string (length argv - 1) @ CRLF @
      concat (map encode (map (\<lambda>k. bulk_or_null (string_at (view c) k)) (drop 1 argv)))) (view c)"
    using along_trans [OF h(1) mget_loop_along [OF along_ok(1) [OF h(1)]]] h(2) by (simp add: comp_def)
  then show ?thesis
    unfolding cmd_mget_def spec_mget_def
    by (intro performs_array) (auto simp: list_all_iff bulk_or_null_def split: option.splits)
qed

lemma mset_loop_along:
  assumes "ctx_ok c"
  shows "along c (mset_loop kvs c) [] (spec_mset kvs (view c))"
  using assms
proof (induction kvs c rule: mset_loop.induct)
  case (1 k v rest c)
  have S: "along c (ctx_set k (VString v) c) [] ((view c)(k \<mapsto> (AString v, None)))"
    "view (ctx_set k (VString v) c) = (view c)(k \<mapsto> (AString v, None))"
    using along_set [OF 1(2), of "VString v" k] by simp_all
  show ?case
    using along_trans0 [OF S(1) 1(1) [OF along_ok(1) [OF S(1)]]] unfolding S(2) by (simp del: fun_upd_apply)
qed (simp_all add: along_refl)

lemma mset_performs:
  assumes ok: "ctx_ok c"
  shows "performs c (cmd_mset argv c)
    (if even (length argv) then (RError (wrong_arity ''mset''), view c) else (RSimple ''OK'', spec_mset (drop 1 argv) (view c)))"
proof -
  have "sanitize_error_text (wrong_arity ''mset'') = wrong_arity ''mset''"
    by (rule sanitize_id) (simp add: wrong_arity_def quoted_def CR_def LF_def)
  then show ?thesis
    using performs_looked(6) [OF looked_self [OF ok], of "wrong_arity ''mset''"]
      performs_reply(1) [OF mset_loop_along [OF ok], OF ok_no_crlf]
    by (simp add: cmd_mset_def)
qed

lemma set_error_no_crlf: "no_crlf ''ERR syntax error''" "no_crlf bad_set_expire"
  by (simp_all add: bad_set_expire_def quoted_def CR_def LF_def)

lemma parse_set_options_error: "parse_set_options args opts = Inl e \<Longrightarrow> no_crlf e"
  using set_error_no_crlf error_ok(7)
  by (induction args opts rule: parse_set_options.induct)
    (auto split: if_splits list.splits option.splits)

definition opts_ok :: "set_options \<Rightarrow> bool" where
  "opts_ok opts \<longleftrightarrow> (has_expire opts \<longrightarrow> in_i64 (expire_ms opts) \<and> 0 < expire_ms opts) \<and> \<not> (nx opts \<and> xx opts)"

lemma parse_set_options_ok:
  "parse_set_options args opts = Inr opts' \<Longrightarrow> opts_ok opts \<Longrightarrow> opts_ok opts'"
proof (induction args opts rule: parse_set_options.induct)
  case (1 opts)
  then show ?case by simp
next
  case (2 a rest opts)
  show ?case
  proof (cases "ieq a ''EX'' \<or> ieq a ''PX''")
    case True
    then obtain b rest' n ms where h: "rest = b # rest'" "\<not> has_expire opts" "parse_int64 b = Some n" "\<not> n \<le> 0"
      "(if ieq a ''EX'' then seconds_to_ms n else Some n) = Some ms"
      "parse_set_options rest' (opts\<lparr>has_expire := True, expire_ms := ms\<rparr>) = Inr opts'"
      using 2(4) by (auto split: list.splits if_splits option.splits)
    have "in_i64 ms \<and> 0 < ms"
      using h(3-5) parse_int64_range [OF h(3)] seconds_to_ms_Some [of n ms] by (auto split: if_splits)
    then show ?thesis
      using 2(1) [OF True h(1,2,3,4,5)] h(6) 2(5) by (simp add: opts_ok_def)
  next
    case False
    then show ?thesis
      using 2 by (auto simp: opts_ok_def split: if_splits)
  qed
qed

definition spec_set_args :: "string \<Rightarrow> string \<Rightarrow> string list \<Rightarrow> int \<Rightarrow> amap \<Rightarrow> reply \<times> amap" where
  "spec_set_args key v options now M =
    (case parse_set_options options set_options_init of
       Inl e \<Rightarrow> (RError e, M) | Inr opts \<Rightarrow> spec_set key v opts now M)"

lemma set_performs:
  assumes ok: "ctx_ok c" and n: "3 \<le> length argv"
  shows "performs c (cmd_set argv c) (spec_set_args (argv ! 1) (argv ! 2) (drop 3 argv) (clk_mono c) (view c))"
proof (cases "parse_set_options (drop 3 argv) set_options_init")
  case (Inl e)
  then show ?thesis
    using n performs_looked(6) [OF looked_self [OF ok], of e] sanitize_id [OF parse_set_options_error [OF Inl]]
    by (simp add: cmd_set_def spec_set_args_def)
next
  case (Inr opts)
  let ?k = "argv ! 1" and ?v = "VString (argv ! 2)" and ?now = "clk_mono c"
  let ?ms = "expire_ms opts" and ?kept = "add_would_overflow (clk_mono c) (expire_ms opts)"
  have oo: "opts_ok opts"
    using parse_set_options_ok [OF Inr] by (simp add: opts_ok_def set_options_init_def)
  obtain w c1 where l: "ctx_lookup ?k c = (w, c1)" by force
  note L = along_lookup [OF ok l] and ok1 = along_ok [OF along_lookup(1) [OF ok l]]
  have w: "w = None \<longleftrightarrow> view c ?k = None"
    using L(3) by (cases w; cases "view c ?k") auto
  have S: "along c (ctx_set ?k ?v c1) [] ((view c)(?k \<mapsto> (AString (argv ! 2), None)))"
    "view (ctx_set ?k ?v c1) = (view c)(?k \<mapsto> (AString (argv ! 2), None))"
    using along_trans0 [OF L(1) along_set(1) [OF ok1(1), of ?v ?k]] along_set(2) [OF ok1(1), of ?v ?k] L(2) by simp_all
  have over: "?kept \<longleftrightarrow> \<not> in_i64 (?now + ?ms)" if "has_expire opts"
    using that oo ok add_would_overflow_iff [of ?now ?ms] by (simp add: opts_ok_def ctx_ok_def clock_ok_def)
  consider "(nx opts \<and> w \<noteq> None) \<or> (xx opts \<and> w = None)"
    | "\<not> ((nx opts \<and> w \<noteq> None) \<or> (xx opts \<and> w = None))" "has_expire opts" "?kept"
    | "\<not> ((nx opts \<and> w \<noteq> None) \<or> (xx opts \<and> w = None))" "has_expire opts" "\<not> ?kept"
    | "\<not> ((nx opts \<and> w \<noteq> None) \<or> (xx opts \<and> w = None))" "\<not> has_expire opts"
    by blast
  then show ?thesis
  proof cases
    case 1
    then show ?thesis
      using n Inr l w performs_reply(5) [OF L(1)] by (auto simp: cmd_set_def spec_set_args_def spec_set_def)
  next
    case 2
    then show ?thesis
      using n Inr l w over performs_reply(2) [OF L(1), of bad_set_expire] sanitize_id [OF set_error_no_crlf(2)]
      by (auto simp: cmd_set_def spec_set_args_def spec_set_def)
  next
    case 3
    let ?c2 = "ctx_set ?k ?v c1" and ?d = "?now + ?ms"
    have d: "in_i64 ?d" "clk_mono ?c2 = ?now" and ok2: "ctx_ok ?c2"
      using 3 over ok1(2) along_ok(1) [OF S(1)] by simp_all
    obtain b dd where e: "expire_at ?k ?d ?now (db ?c2) = (b, dd)" by force
    have "along ?c2 (?c2\<lparr>db := dd\<rparr>) [] ((view ?c2)(?k := map_option (apsnd (\<lambda>_. Some ?d)) (view ?c2 ?k)))"
      using along_expire(2) [OF ok2 d(1)] e d(2) by simp
    from along_trans0 [OF S(1) this]
    have "along c (?c2\<lparr>db := dd\<rparr>) [] ((view c)(?k \<mapsto> (AString (argv ! 2), Some ?d)))"
      unfolding S(2) by simp
    from performs_reply(1) [OF this ok_no_crlf] show ?thesis
      using n Inr l w over 3 d(1) e by (auto simp: cmd_set_def spec_set_args_def spec_set_def Let_def)
  next
    case 4
    then show ?thesis
      using n Inr l w performs_reply(1) [OF S(1) ok_no_crlf] by (auto simp: cmd_set_def spec_set_args_def spec_set_def Let_def)
  qed
qed

end
