(* ===== verification/Cmd_Hash.thy ===== *)
theory Cmd_Hash
  imports Command
begin

text \<open>
  The hash commands of \<^verbatim>\<open>commands/cmd_hash.cpp\<close>. A field lookup may move the table's rehash forward,
  so even the read-only commands write the table back; the specifications show that this is invisible.
\<close>

section \<open>Handlers\<close>

text \<open>The argument pairs from \<^verbatim>\<open>argv[2]\<close> on.\<close>

fun arg_pairs :: "string list \<Rightarrow> (string \<times> string) list" where
  "arg_pairs (a # b # rest) = (a, b) # arg_pairs rest"
| "arg_pairs _ = []"

definition as_hash_or_error :: "string \<Rightarrow> (ctx \<Rightarrow> ctx ub) \<Rightarrow> (string hash_table \<Rightarrow> ctx \<Rightarrow> ctx ub) \<Rightarrow> ctx \<Rightarrow> ctx ub" where
  "as_hash_or_error = with_value get_hash"

definition get_or_create_hash :: "string \<Rightarrow> (string hash_table \<Rightarrow> ctx \<Rightarrow> ctx ub) \<Rightarrow> ctx \<Rightarrow> ctx ub" where
  "get_or_create_hash = get_or_create get_hash (VHash reset_to_empty)"

definition cmd_hset :: "string list \<Rightarrow> ctx \<Rightarrow> ctx ub" where
  "cmd_hset argv c = do {
     name \<leftarrow> arg argv 0;
     if odd (length argv) then Some (reply_error (wrong_arity name) c)
     else do {
       key \<leftarrow> arg argv 1;
       get_or_create_hash key (\<lambda>h c1.
         let (added, h') = insert_all ht_insert_or_assign 0 h (arg_pairs (drop 2 argv))
         in Some (reply_integer added (ctx_store key (VHash h') c1))) c
     }
   }"

definition cmd_hget :: "string list \<Rightarrow> ctx \<Rightarrow> ctx ub" where
  "cmd_hget argv c = do {
     key \<leftarrow> arg argv 1;
     as_hash_or_error key (\<lambda>c1. Some (reply_null_bulk c1))
       (\<lambda>h c1. do { field \<leftarrow> arg argv 2;
          let (v, h') = ht_find h field;
          Some (reply_opt_bulk v (ctx_store key (VHash h') c1)) }) c
   }"

definition cmd_hmget :: "string list \<Rightarrow> ctx \<Rightarrow> ctx ub" where
  "cmd_hmget argv c = do {
     key \<leftarrow> arg argv 1;
     as_hash_or_error key
       (\<lambda>c1. Some (reply_opt_bulks (map (\<lambda>_. None) (drop 2 argv)) (reply_array_header (length argv - 2) c1)))
       (\<lambda>h c1. let (vs, h') = find_all ht_find h (drop 2 argv)
          in Some (reply_opt_bulks vs (reply_array_header (length argv - 2) (ctx_store key (VHash h') c1)))) c
   }"

definition cmd_hdel :: "string list \<Rightarrow> ctx \<Rightarrow> ctx ub" where
  "cmd_hdel argv c = do {
     key \<leftarrow> arg argv 1;
     as_hash_or_error key (\<lambda>c1. Some (reply_integer 0 c1))
       (\<lambda>h c1. let (removed, h') = erase_all ht_erase 0 h (drop 2 argv);
            c2 = ctx_store key (VHash h') c1
          in Some (reply_integer removed (if ht_empty h' then ctx_del key c2 else c2))) c
   }"

definition cmd_hexists :: "string list \<Rightarrow> ctx \<Rightarrow> ctx ub" where
  "cmd_hexists argv c = do {
     key \<leftarrow> arg argv 1;
     as_hash_or_error key (\<lambda>c1. Some (reply_integer 0 c1))
       (\<lambda>h c1. do { field \<leftarrow> arg argv 2;
          let (v, h') = ht_find h field;
          Some (reply_integer (if v = None then 0 else 1) (ctx_store key (VHash h') c1)) }) c
   }"

definition cmd_hlen :: "string list \<Rightarrow> ctx \<Rightarrow> ctx ub" where
  "cmd_hlen argv c = do {
     key \<leftarrow> arg argv 1;
     as_hash_or_error key (\<lambda>c1. Some (reply_integer 0 c1)) (\<lambda>h c1. Some (reply_integer (int (ht_size h)) c1)) c
   }"

text \<open>\<^verbatim>\<open>for_each\<close> visits the entries in table order.\<close>

definition cmd_hgetall :: "string list \<Rightarrow> ctx \<Rightarrow> ctx ub" where
  "cmd_hgetall argv c = do {
     key \<leftarrow> arg argv 1;
     as_hash_or_error key (\<lambda>c1. Some (reply_array_header 0 c1))
       (\<lambda>h c1. Some (reply_bulks (concat (map (\<lambda>(f, v). [f, v]) (ht_for_each h))) (reply_array_header (2 * ht_size h) c1))) c
   }"

definition cmd_hkeys :: "string list \<Rightarrow> ctx \<Rightarrow> ctx ub" where
  "cmd_hkeys argv c = do {
     key \<leftarrow> arg argv 1;
     as_hash_or_error key (\<lambda>c1. Some (reply_array_header 0 c1))
       (\<lambda>h c1. Some (reply_bulks (map fst (ht_for_each h)) (reply_array_header (ht_size h) c1))) c
   }"

definition cmd_hvals :: "string list \<Rightarrow> ctx \<Rightarrow> ctx ub" where
  "cmd_hvals argv c = do {
     key \<leftarrow> arg argv 1;
     as_hash_or_error key (\<lambda>c1. Some (reply_array_header 0 c1))
       (\<lambda>h c1. Some (reply_bulks (map snd (ht_for_each h)) (reply_array_header (ht_size h) c1))) c
   }"

definition cmd_hincrby :: "string list \<Rightarrow> ctx \<Rightarrow> ctx ub" where
  "cmd_hincrby argv c = do {
     a \<leftarrow> arg argv 3;
     case parse_int64 a of
       None \<Rightarrow> Some (reply_error kNotInt c)
     | Some delta \<Rightarrow> do {
         key \<leftarrow> arg argv 1;
         get_or_create_hash key (\<lambda>h c1. do {
           field \<leftarrow> arg argv 2;
           let (found, h1) = ht_find h field;
           let c2 = ctx_store key (VHash h1) c1;
           case (case found of None \<Rightarrow> Some 0 | Some s \<Rightarrow> parse_int64 s) of
             None \<Rightarrow> Some (reply_error kNotInt c2)
           | Some current \<Rightarrow>
               if add_would_overflow current delta then Some (reply_error kOverflow c2)
               else do {
                 result \<leftarrow> i64_checked (current + delta);
                 let h2 = snd (ht_insert_or_assign h1 field (int_to_string result));
                 Some (reply_integer result (ctx_store key (VHash h2) c2))
               } }) c
       }
   }"

section \<open>Specifications\<close>

definition spec_hset :: "string \<Rightarrow> (string \<times> string) list \<Rightarrow> amap \<Rightarrow> reply \<times> amap" where
  "spec_hset key kvs M = spec_create a_hash AHash Map.empty key
     (\<lambda>h M. (RInt (int (card (fst ` set kvs - dom h))), put key (AHash (h ++ map_of (rev kvs))) M)) M"

definition spec_hget :: "string \<Rightarrow> string \<Rightarrow> amap \<Rightarrow> reply \<times> amap" where
  "spec_hget key field M = spec_value a_hash key (RNull, M) (\<lambda>h. (bulk_or_null (h field), M)) M"

definition spec_hmget :: "string \<Rightarrow> string list \<Rightarrow> amap \<Rightarrow> reply \<times> amap" where
  "spec_hmget key fs M = spec_value a_hash key (RArray (map (\<lambda>_. RNull) fs), M)
     (\<lambda>h. (RArray (map (\<lambda>f. bulk_or_null (h f)) fs), M)) M"

definition spec_hdel :: "string \<Rightarrow> string list \<Rightarrow> amap \<Rightarrow> reply \<times> amap" where
  "spec_hdel key fs M = spec_value a_hash key (RInt 0, M)
     (\<lambda>h. (RInt (int (card (set fs \<inter> dom h))), put key (AHash (h |` (- set fs))) M)) M"

definition spec_hexists :: "string \<Rightarrow> string \<Rightarrow> amap \<Rightarrow> reply \<times> amap" where
  "spec_hexists key field M = spec_value a_hash key (RInt 0, M) (\<lambda>h. (RInt (if h field = None then 0 else 1), M)) M"

definition spec_hlen :: "string \<Rightarrow> amap \<Rightarrow> reply \<times> amap" where
  "spec_hlen key M = spec_value a_hash key (RInt 0, M) (\<lambda>h. (RInt (int (card (dom h))), M)) M"

text \<open>The entries of \<open>h\<close> in some order, seen through \<open>f\<close>.\<close>

definition lists_entries :: "(string \<times> string \<Rightarrow> string list) \<Rightarrow> (string \<rightharpoonup> string) \<Rightarrow> reply \<Rightarrow> bool" where
  "lists_entries f h r \<longleftrightarrow> (\<exists>es. distinct (map fst es) \<and> map_of es = h \<and> r = RArray (map RBulk (concat (map f es))))"

definition allows_entries :: "(string \<times> string \<Rightarrow> string list) \<Rightarrow> string \<Rightarrow> amap \<Rightarrow> reply \<Rightarrow> amap \<Rightarrow> bool" where
  "allows_entries f key M = allows_value a_hash key (\<lambda>r M'. r = RArray [] \<and> M' = M) (\<lambda>h r M'. lists_entries f h r \<and> M' = M) M"

definition spec_hincrby :: "string \<Rightarrow> string \<Rightarrow> string \<Rightarrow> amap \<Rightarrow> reply \<times> amap" where
  "spec_hincrby key field a M = (case parse_int64 a of None \<Rightarrow> (RError kNotInt, M)
     | Some delta \<Rightarrow> spec_create a_hash AHash Map.empty key (\<lambda>h M.
         case (case h field of None \<Rightarrow> Some 0 | Some s \<Rightarrow> parse_int64 s) of
           None \<Rightarrow> (RError kNotInt, M)
         | Some n \<Rightarrow> if in_i64 (n + delta)
             then (RInt (n + delta), put key (AHash (h(field \<mapsto> int_to_string (n + delta)))) M)
             else (RError kOverflow, M)) M)"

section \<open>The handlers meet their specifications\<close>

lemma arg_pairs_nonempty: "4 \<le> length argv \<Longrightarrow> arg_pairs (drop 2 argv) \<noteq> []"
  by (cases "drop 2 argv" rule: arg_pairs.cases) (auto dest!: arg_cong [of _ _ length])

lemma hset_performs:
  assumes ok: "ctx_ok c" and n: "4 \<le> length argv"
  shows "performs c (cmd_hset argv c)
    (if odd (length argv) then (RError (sanitize_error_text (wrong_arity (argv ! 0))), view c)
     else spec_hset (argv ! 1) (arg_pairs (drop 2 argv)) (view c))"
proof -
  let ?k = "argv ! 1" and ?kvs = "arg_pairs (drop 2 argv)"
  have a0: "arg argv 0 = Some (argv ! 0)"
    using n by (auto simp: arg_def)
  have "performs c (get_or_create_hash ?k (\<lambda>h c1.
         let (added, h') = insert_all ht_insert_or_assign 0 h ?kvs
         in Some (reply_integer added (ctx_store ?k (VHash h') c1))) c) (spec_hset ?k ?kvs (view c))"
    unfolding get_or_create_hash_def spec_hset_def reset_to_empty_spec(2) [symmetric]
  proof (rule khash.get_or_create_performs [OF ok reset_to_empty_spec(1) refl])
    fix c1 h M
    assume cell: "cell c c1 ?k (VHash h) M" and inv: "ht_invar h"
    obtain a h' where i: "insert_all ht_insert_or_assign 0 h ?kvs = (a, h')" by force
    note I = ht.insert_all_spec [OF inv i]
    have "map_of (rev ?kvs) \<noteq> Map.empty"
      using arg_pairs_nonempty [OF n] by simp
    then have "val_nonempty (VHash h')"
      using I by (simp add: val_nonempty_hash)
    then show "performs c (let (added, h') = insert_all ht_insert_or_assign 0 h ?kvs
         in Some (reply_integer added (ctx_store ?k (VHash h') c1)))
      (RInt (int (card (fst ` set ?kvs - dom (ht_map h)))), put ?k (AHash (ht_map h ++ map_of (rev ?kvs))) M)"
      using performs_reply(3) [OF along_store [OF cell, of "VHash h'"], of a] I i by simp
  qed
  then show ?thesis
    using n a0 performs_now(6) [OF ok] by (simp add: cmd_hset_def)
qed

lemma hash_find_along:
  assumes "cell c c1 key (VHash h) M" "val_nonempty (VHash h)" "ht_invar h"
  shows "along c (ctx_store key (VHash (snd (ht_find h f))) c1) [] M"
  using along_keep [OF assms(1,2), of "VHash (snd (ht_find h f))"] ht_find_spec [OF assms(3)] by simp

lemma hget_performs:
  assumes ok: "ctx_ok c" and n: "3 \<le> length argv"
  shows "performs c (cmd_hget argv c) (spec_hget (argv ! 1) (argv ! 2) (view c))"
  using n performs_opt_bulk [OF hash_find_along]
  unfolding cmd_hget_def spec_hget_def as_hash_or_error_def
  by (auto intro!: khash.with_value_performs [OF ok] intro: performs_looked simp: split_beta ht_find_spec(1))

lemma hexists_performs:
  assumes ok: "ctx_ok c" and n: "3 \<le> length argv"
  shows "performs c (cmd_hexists argv c) (spec_hexists (argv ! 1) (argv ! 2) (view c))"
  using n performs_reply(3) [OF hash_find_along]
  unfolding cmd_hexists_def spec_hexists_def as_hash_or_error_def
  by (auto intro!: khash.with_value_performs [OF ok] intro: performs_looked simp: split_beta ht_find_spec(1))

lemma hlen_performs:
  assumes ok: "ctx_ok c" and n: "2 \<le> length argv"
  shows "performs c (cmd_hlen argv c) (spec_hlen (argv ! 1) (view c))"
  using n unfolding cmd_hlen_def spec_hlen_def as_hash_or_error_def
  by (auto intro!: khash.with_value_performs [OF ok] intro: performs_looked performs_peek simp: ht.size_card)

lemma hmget_performs:
  assumes ok: "ctx_ok c" and n: "2 \<le> length argv"
  shows "performs c (cmd_hmget argv c) (spec_hmget (argv ! 1) (drop 2 argv) (view c))"
proof -
  let ?k = "argv ! 1" and ?fs = "drop 2 argv"
  have "performs c (with_value get_hash ?k
       (\<lambda>c1. Some (reply_opt_bulks (map (\<lambda>_. None) ?fs) (reply_array_header (length argv - 2) c1)))
       (\<lambda>h c1. let (vs, h') = find_all ht_find h ?fs
          in Some (reply_opt_bulks vs (reply_array_header (length argv - 2) (ctx_store ?k (VHash h') c1)))) c)
     (spec_hmget ?k ?fs (view c))"
    unfolding spec_hmget_def
  proof (rule khash.with_value_performs [OF ok])
    fix c1
    assume "looked c c1"
    from performs_opt_bulks [OF looked_along [OF this], of "length argv - 2" "map (\<lambda>_. None) ?fs"]
    show "performs c (Some (reply_opt_bulks (map (\<lambda>_. None) ?fs) (reply_array_header (length argv - 2) c1)))
        (RArray (map (\<lambda>_. RNull) ?fs), view c)"
      by (simp add: bulk_or_null_def comp_def)
  next
    fix c1 h
    assume cell: "cell c c1 ?k (VHash h) (view c)" and ne: "val_nonempty (VHash h)" and inv: "ht_invar h"
    obtain vs h' where f: "find_all ht_find h ?fs = (vs, h')" by force
    note F = ht.find_all_spec [OF inv f]
    from performs_opt_bulks [OF along_keep [OF cell ne, of "VHash h'"], of "length argv - 2" vs]
    show "performs c (let (vs, h') = find_all ht_find h ?fs
          in Some (reply_opt_bulks vs (reply_array_header (length argv - 2) (ctx_store ?k (VHash h') c1))))
        (RArray (map (\<lambda>f. bulk_or_null (ht_map h f)) ?fs), view c)"
      using F f by (simp add: comp_def)
  qed
  then show ?thesis
    using n by (simp add: cmd_hmget_def as_hash_or_error_def)
qed

lemma hdel_performs:
  assumes ok: "ctx_ok c" and n: "2 \<le> length argv"
  shows "performs c (cmd_hdel argv c) (spec_hdel (argv ! 1) (drop 2 argv) (view c))"
proof -
  let ?k = "argv ! 1" and ?fs = "drop 2 argv"
  have found: "performs c (let (removed, h') = erase_all ht_erase 0 h ?fs; c2 = ctx_store ?k (VHash h') c1
          in Some (reply_integer removed (if ht_empty h' then ctx_del ?k c2 else c2)))
       (RInt (int (card (set ?fs \<inter> dom (ht_map h)))), put ?k (AHash (ht_map h |` (- set ?fs))) (view c))"
    if cell: "cell c c1 ?k (VHash h) (view c)" and inv: "ht_invar h" for c1 h
  proof -
    obtain r h' where e: "erase_all ht_erase 0 h ?fs = (r, h')" by force
    note E = ht.erase_all_spec [OF inv e]
    show ?thesis
      using performs_reply(3) [OF along_store [OF cell, of "VHash h'"], of r] performs_reply(3) [OF along_drop [OF cell, of "VHash h'"], of r]
        E e hash_empty_iff(1) [of h'] by (simp add: Let_def)
  qed
  show ?thesis
    using n unfolding cmd_hdel_def spec_hdel_def as_hash_or_error_def
    by (auto intro!: khash.with_value_performs [OF ok] intro: performs_looked simp: Let_def split_beta
        dest!: found [unfolded One_nat_def Let_def split_beta])
qed

lemma entries_achieves:
  assumes ok: "ctx_ok c" and len: "\<And>h. ht_invar h \<Longrightarrow> length (concat (map f (ht_for_each h))) = m h"
  shows "achieves c (with_value get_hash key (\<lambda>c1. Some (reply_array_header 0 c1))
       (\<lambda>h c1. Some (reply_bulks (concat (map f (ht_for_each h))) (reply_array_header (m h) c1))) c)
     (allows_entries f key (view c))"
  unfolding allows_entries_def
proof (rule khash.with_value_achieves [OF ok])
  fix c1
  assume "looked c c1"
  from performs_looked(5) [OF this] show "achieves c (Some (reply_array_header 0 c1)) (\<lambda>r M'. r = RArray [] \<and> M' = view c)"
    by (rule performs_achieves) simp
next
  fix c1 h
  assume cell: "cell c c1 key (VHash h) (view c)" and ne: "val_nonempty (VHash h)" and inv: "ht_invar h"
  show "achieves c (Some (reply_bulks (concat (map f (ht_for_each h))) (reply_array_header (m h) c1)))
      (\<lambda>r M'. lists_entries f (ht_map h) r \<and> M' = view c)"
    by (rule performs_achieves [OF performs_bulks [OF along_peek [OF cell ne]]])
      (use len [OF inv] ht_for_each_spec [OF inv] in \<open>auto simp: lists_entries_def\<close>)
qed

lemma hgetall_achieves:
  assumes ok: "ctx_ok c" and n: "2 \<le> length argv"
  shows "achieves c (cmd_hgetall argv c) (allows_entries (\<lambda>(f, v). [f, v]) (argv ! 1) (view c))"
    "achieves c (cmd_hkeys argv c) (allows_entries (\<lambda>e. [fst e]) (argv ! 1) (view c))"
    "achieves c (cmd_hvals argv c) (allows_entries (\<lambda>e. [snd e]) (argv ! 1) (view c))"
proof -
  have two: "length (concat (map (\<lambda>(f, v). [f, v]) es)) = 2 * length es" for es :: "(string \<times> string) list"
    by (induction es) auto
  have one: "concat (map (\<lambda>e. [g e]) es) = map g es" for g and es :: "(string \<times> string) list"
    by (induction es) auto
  show "achieves c (cmd_hgetall argv c) (allows_entries (\<lambda>(f, v). [f, v]) (argv ! 1) (view c))"
    using n entries_achieves [OF ok, of "\<lambda>(f, v). [f, v]" "\<lambda>h. 2 * ht_size h" "argv ! 1"]
    by (simp add: cmd_hgetall_def as_hash_or_error_def two ht_for_each_spec(3))
  show "achieves c (cmd_hkeys argv c) (allows_entries (\<lambda>e. [fst e]) (argv ! 1) (view c))"
    "achieves c (cmd_hvals argv c) (allows_entries (\<lambda>e. [snd e]) (argv ! 1) (view c))"
    using n entries_achieves [OF ok, of "\<lambda>e. [fst e]" "\<lambda>h. ht_size h" "argv ! 1"]
      entries_achieves [OF ok, of "\<lambda>e. [snd e]" "\<lambda>h. ht_size h" "argv ! 1"]
    by (simp_all add: cmd_hkeys_def cmd_hvals_def as_hash_or_error_def one ht_for_each_spec(3))
qed

lemma hincrby_performs:
  assumes ok: "ctx_ok c" and n: "4 \<le> length argv"
  shows "performs c (cmd_hincrby argv c) (spec_hincrby (argv ! 1) (argv ! 2) (argv ! 3) (view c))"
proof (cases "parse_int64 (argv ! 3)")
  case None
  then show ?thesis
    using n performs_now(6) [OF ok, of kNotInt] by (simp add: cmd_hincrby_def spec_hincrby_def)
next
  case (Some delta)
  let ?k = "argv ! Suc 0" and ?f = "argv ! 2"
  note d = parse_int64_range [OF Some]
  let ?spec = "\<lambda>h M. case (case h ?f of None \<Rightarrow> Some 0 | Some s \<Rightarrow> parse_int64 s) of
           None \<Rightarrow> (RError kNotInt, M)
         | Some n \<Rightarrow> if in_i64 (n + delta)
             then (RInt (n + delta), put ?k (AHash (h(?f \<mapsto> int_to_string (n + delta)))) M)
             else (RError kOverflow, M)"
  have found: "performs c (case (case fst (ht_find h ?f) of None \<Rightarrow> Some 0 | Some s \<Rightarrow> parse_int64 s) of
             None \<Rightarrow> Some (reply_error kNotInt (ctx_store ?k (VHash (snd (ht_find h ?f))) c1))
           | Some current \<Rightarrow>
               if add_would_overflow current delta then Some (reply_error kOverflow (ctx_store ?k (VHash (snd (ht_find h ?f))) c1))
               else do {
                 result \<leftarrow> i64_checked (current + delta);
                 Some (reply_integer result (ctx_store ?k (VHash (snd (ht_insert_or_assign (snd (ht_find h ?f)) ?f (int_to_string result))))
                   (ctx_store ?k (VHash (snd (ht_find h ?f))) c1)))
               }) (?spec (ht_map h) M)" (is "performs c ?res _")
    if cell: "cell c c1 ?k (VHash h) M" and inv: "ht_invar h"
      and M: "M = view c \<and> val_nonempty (VHash h) \<or> view c ?k = None \<and> h = reset_to_empty \<and> M = (view c)(?k \<mapsto> (AHash (ht_map reset_to_empty), None))"
    for c1 h M
  proof -
    note F = ht_find_spec [OF inv, of ?f]
    let ?cur = "case ht_map h ?f of None \<Rightarrow> Some 0 | Some s \<Rightarrow> parse_int64 s"
    have empty: "ht_map h = Map.empty" if "\<not> val_nonempty (VHash h)"
      using that val_nonempty_hash [OF inv] by simp
    have keep: "val_nonempty (VHash h) \<Longrightarrow> along c (ctx_store ?k (VHash (snd (ht_find h ?f))) c1) [] M"
      by (rule hash_find_along [OF cell _ inv])
    show ?thesis
    proof (cases ?cur)
      case None
      then have "val_nonempty (VHash h)"
        using empty by (cases "val_nonempty (VHash h)") (auto split: option.splits)
      then show ?thesis
        using performs_reply(2) [OF keep, of kNotInt] None F by simp
    next
      case (Some m)
      have m: "in_i64 m"
        using Some by (auto split: option.splits dest: parse_int64_range simp: i64_defs)
      show ?thesis
      proof (cases "in_i64 (m + delta)")
        case False
        then have "val_nonempty (VHash h)"
          using empty Some d by (cases "val_nonempty (VHash h)") (auto split: option.splits)
        then show ?thesis
          using performs_reply(2) [OF keep, of kOverflow] Some False F add_would_overflow_iff [OF m d] by simp
      next
        case True
        let ?h2 = "snd (ht_insert_or_assign (snd (ht_find h ?f)) ?f (int_to_string (m + delta)))"
        have I: "ht_invar ?h2" "ht_map ?h2 = (ht_map h)(?f \<mapsto> int_to_string (m + delta))"
          using ht_insert_spec [OF F(2)] F(3) by simp_all
        then have "val_nonempty (VHash ?h2)"
          by (simp add: val_nonempty_hash)
        then show ?thesis
          using performs_reply(3) [OF along_store [OF cell_refresh [OF cell, of "VHash (snd (ht_find h ?f))"], of "VHash ?h2"], of "m + delta"]
            I Some True F add_would_overflow_iff [OF m d] by simp
      qed
    qed
  qed
  let ?H = "\<lambda>h c1. do {
           let (found, h1) = ht_find h ?f;
           let c2 = ctx_store ?k (VHash h1) c1;
           case (case found of None \<Rightarrow> Some 0 | Some s \<Rightarrow> parse_int64 s) of
             None \<Rightarrow> Some (reply_error kNotInt c2)
           | Some current \<Rightarrow>
               if add_would_overflow current delta then Some (reply_error kOverflow c2)
               else do {
                 result \<leftarrow> i64_checked (current + delta);
                 let h2 = snd (ht_insert_or_assign h1 ?f (int_to_string result));
                 Some (reply_integer result (ctx_store ?k (VHash h2) c2))
               } }"
  have "performs c (get_or_create_hash ?k ?H c) (spec_create a_hash AHash (ht_map reset_to_empty) ?k ?spec (view c))"
    unfolding get_or_create_hash_def
    by (rule khash.get_or_create_performs [OF ok reset_to_empty_spec(1) refl], unfold split_beta Let_def) (rule found)
  moreover have "cmd_hincrby argv c = get_or_create_hash ?k ?H c"
    using n Some by (simp add: cmd_hincrby_def)
  ultimately show ?thesis
    unfolding spec_hincrby_def Some reset_to_empty_spec(2) One_nat_def by simp
qed

end
