(* ===== verification/Cmd_List.thy ===== *)
theory Cmd_List
  imports Command
begin

text \<open>
  The list commands of \<^verbatim>\<open>commands/cmd_list.cpp\<close>. The \<^verbatim>\<open>std::deque\<close> is a list; taking an element from an
  empty deque or indexing outside of it is undefined behaviour.
\<close>

section \<open>Handlers\<close>

definition as_list_or_error :: "string \<Rightarrow> (ctx \<Rightarrow> ctx ub) \<Rightarrow> (string list \<Rightarrow> ctx \<Rightarrow> ctx ub) \<Rightarrow> ctx \<Rightarrow> ctx ub" where
  "as_list_or_error = with_value get_list"

definition get_or_create_list :: "string \<Rightarrow> (string list \<Rightarrow> ctx \<Rightarrow> ctx ub) \<Rightarrow> ctx \<Rightarrow> ctx ub" where
  "get_or_create_list = get_or_create get_list (VList [])"

definition resolve_index :: "int \<Rightarrow> int \<Rightarrow> int" where
  "resolve_index idx len = (if idx < 0 then idx + len else idx)"

definition push_end :: "bool \<Rightarrow> string \<Rightarrow> string list \<Rightarrow> string list" where
  "push_end front x l = (if front then x # l else l @ [x])"

definition push_generic :: "string list \<Rightarrow> bool \<Rightarrow> ctx \<Rightarrow> ctx ub" where
  "push_generic argv front c = do {
     key \<leftarrow> arg argv 1;
     get_or_create_list key (\<lambda>l c1.
       let l' = fold (push_end front) (drop 2 argv) l
       in Some (reply_integer (int (length l')) (ctx_store key (VList l') c1))) c
   }"

definition pop_end :: "bool \<Rightarrow> string list \<Rightarrow> (string \<times> string list) ub" where
  "pop_end from_front l =
    (if l = [] then None else Some (if from_front then (hd l, tl l) else (last l, butlast l)))"

fun pop_loop :: "bool \<Rightarrow> nat \<Rightarrow> string list \<Rightarrow> ctx \<Rightarrow> (string list \<times> ctx) ub" where
  "pop_loop from_front 0 l c = Some (l, c)"
| "pop_loop from_front (Suc n) l c = do {
     (x, l') \<leftarrow> pop_end from_front l;
     pop_loop from_front n l' (reply_bulk x c)
   }"

text \<open>The optional count of \<^verbatim>\<open>LPOP\<close>, \<^verbatim>\<open>RPOP\<close> and \<^verbatim>\<open>SPOP\<close>: an error text, or the count if there is one.\<close>

definition pop_count :: "string list \<Rightarrow> string + int option" where
  "pop_count argv =
    (if 3 < length argv then Inl (wrong_arity (argv ! 0))
     else if length argv = 3 then
       (case parse_int64 (argv ! 2) of
          None \<Rightarrow> Inl kNotInt
        | Some n \<Rightarrow> if n < 0 then Inl kNotPositive else Inr (Some n))
     else Inr None)"

definition drop_if_empty :: "string \<Rightarrow> string list \<Rightarrow> ctx \<Rightarrow> ctx" where
  "drop_if_empty key l c = (if l = [] then ctx_del key c else c)"

definition pop_generic :: "string list \<Rightarrow> bool \<Rightarrow> ctx \<Rightarrow> ctx ub" where
  "pop_generic argv from_front c =
    (case pop_count argv of
       Inl e \<Rightarrow> Some (reply_error e c)
     | Inr None \<Rightarrow> do {
         key \<leftarrow> arg argv 1;
         as_list_or_error key (\<lambda>c1. Some (reply_null_bulk c1))
           (\<lambda>l c1. do {
              (x, l') \<leftarrow> pop_end from_front l;
              Some (reply_bulk x (drop_if_empty key l' (ctx_store key (VList l') c1)))
            }) c
       }
     | Inr (Some cnt) \<Rightarrow> do {
         key \<leftarrow> arg argv 1;
         as_list_or_error key (\<lambda>c1. Some (reply_null_array c1))
           (\<lambda>l c1. do {
              let n = nat (min cnt (int (length l)));
              (l', c2) \<leftarrow> pop_loop from_front n l (reply_array_header n c1);
              Some (drop_if_empty key l' (ctx_store key (VList l') c2))
            }) c
       })"

definition cmd_lpush :: "string list \<Rightarrow> ctx \<Rightarrow> ctx ub" where "cmd_lpush argv = push_generic argv True"
definition cmd_rpush :: "string list \<Rightarrow> ctx \<Rightarrow> ctx ub" where "cmd_rpush argv = push_generic argv False"
definition cmd_lpop :: "string list \<Rightarrow> ctx \<Rightarrow> ctx ub" where "cmd_lpop argv = pop_generic argv True"
definition cmd_rpop :: "string list \<Rightarrow> ctx \<Rightarrow> ctx ub" where "cmd_rpop argv = pop_generic argv False"

definition cmd_llen :: "string list \<Rightarrow> ctx \<Rightarrow> ctx ub" where
  "cmd_llen argv c = do {
     key \<leftarrow> arg argv 1;
     as_list_or_error key (\<lambda>c1. Some (reply_integer 0 c1)) (\<lambda>l c1. Some (reply_integer (int (length l)) c1)) c
   }"

text \<open>The elements from iterator \<^verbatim>\<open>begin() + start\<close> up to index \<^verbatim>\<open>stop\<close>.\<close>

definition deque_range :: "string list \<Rightarrow> int \<Rightarrow> int \<Rightarrow> string list ub" where
  "deque_range l start stop =
    (if 0 \<le> start \<and> stop < int (length l) then Some (take (nat (stop - start + 1)) (drop (nat start) l)) else None)"

definition cmd_lrange :: "string list \<Rightarrow> ctx \<Rightarrow> ctx ub" where
  "cmd_lrange argv c = do {
     a \<leftarrow> arg argv 2;
     b \<leftarrow> arg argv 3;
     case (parse_int64 a, parse_int64 b) of
       (Some start0, Some stop0) \<Rightarrow> do {
         key \<leftarrow> arg argv 1;
         as_list_or_error key (\<lambda>c1. Some (reply_array_header 0 c1))
           (\<lambda>l c1.
              let len = int (length l);
                  start1 = resolve_index start0 len; stop1 = resolve_index stop0 len;
                  start = (if start1 < 0 then 0 else start1);
                  stop = (if len \<le> stop1 then len - 1 else stop1)
              in if len = 0 \<or> stop < start then Some (reply_array_header 0 c1)
                 else do {
                   xs \<leftarrow> deque_range l start stop;
                   Some (reply_bulks xs (reply_array_header (nat (stop - start + 1)) c1))
                 }) c
       }
     | _ \<Rightarrow> Some (reply_error kNotInt c)
   }"

definition cmd_lindex :: "string list \<Rightarrow> ctx \<Rightarrow> ctx ub" where
  "cmd_lindex argv c = do {
     a \<leftarrow> arg argv 2;
     case parse_int64 a of
       None \<Rightarrow> Some (reply_error kNotInt c)
     | Some idx0 \<Rightarrow> do {
         key \<leftarrow> arg argv 1;
         as_list_or_error key (\<lambda>c1. Some (reply_null_bulk c1))
           (\<lambda>l c1. let len = int (length l); idx = resolve_index idx0 len in
              if idx < 0 \<or> len \<le> idx then Some (reply_null_bulk c1)
              else do { x \<leftarrow> arg l (nat idx); Some (reply_bulk x c1) }) c
       }
   }"

section \<open>Specifications\<close>

definition spec_push :: "bool \<Rightarrow> string \<Rightarrow> string list \<Rightarrow> amap \<Rightarrow> reply \<times> amap" where
  "spec_push front key xs M = spec_create a_list AList [] key
     (\<lambda>l M. (RInt (int (length l + length xs)), put key (AList (if front then rev xs @ l else l @ xs)) M)) M"

text \<open>What \<open>k\<close> pops from one end give and leave.\<close>

definition popped :: "bool \<Rightarrow> nat \<Rightarrow> string list \<Rightarrow> string list" where
  "popped front k l = take k (if front then l else rev l)"

definition remains :: "bool \<Rightarrow> nat \<Rightarrow> string list \<Rightarrow> string list" where
  "remains front k l = (if front then drop k l else rev (drop k (rev l)))"

definition spec_pop :: "bool \<Rightarrow> string list \<Rightarrow> amap \<Rightarrow> reply \<times> amap" where
  "spec_pop front argv M = (case pop_count argv of
     Inl e \<Rightarrow> (RError (sanitize_error_text e), M)
   | Inr None \<Rightarrow> spec_value a_list (argv ! 1) (RNull, M)
       (\<lambda>l. (RBulk (hd (popped front 1 l)), put (argv ! 1) (AList (remains front 1 l)) M)) M
   | Inr (Some n) \<Rightarrow> spec_value a_list (argv ! 1) (RNullArray, M)
       (\<lambda>l. (RArray (map RBulk (popped front (nat n) l)), put (argv ! 1) (AList (remains front (nat n) l)) M)) M)"

definition spec_llen :: "string \<Rightarrow> amap \<Rightarrow> reply \<times> amap" where
  "spec_llen key M = spec_value a_list key (RInt 0, M) (\<lambda>l. (RInt (int (length l)), M)) M"

text \<open>The elements whose index lies between the two ends, negative ends counting from the back.\<close>

definition spec_lrange :: "string list \<Rightarrow> amap \<Rightarrow> reply \<times> amap" where
  "spec_lrange argv M = (case (parse_int64 (argv ! 2), parse_int64 (argv ! 3)) of
     (Some a, Some b) \<Rightarrow> spec_value a_list (argv ! 1) (RArray [], M)
       (\<lambda>l. (RArray (map (\<lambda>i. RBulk (l ! i)) (filter (\<lambda>i. resolve_index a (int (length l)) \<le> int i \<and>
              int i \<le> resolve_index b (int (length l))) [0..<length l])), M)) M
   | _ \<Rightarrow> (RError kNotInt, M))"

definition spec_lindex :: "string list \<Rightarrow> amap \<Rightarrow> reply \<times> amap" where
  "spec_lindex argv M = (case parse_int64 (argv ! 2) of
     None \<Rightarrow> (RError kNotInt, M)
   | Some a \<Rightarrow> spec_value a_list (argv ! 1) (RNull, M)
       (\<lambda>l. (let i = resolve_index a (int (length l)) in
             if 0 \<le> i \<and> i < int (length l) then RBulk (l ! nat i) else RNull, M)) M)"

section \<open>The handlers meet their specifications\<close>

lemmas performs_peek_list = performs_peek [OF _ iffD2 [OF val_nonempty_list]]

lemma fold_push_end: "fold (push_end front) xs l = (if front then rev xs @ l else l @ xs)"
  by (induction xs arbitrary: l) (auto simp: push_end_def)

lemma push_performs:
  assumes ok: "ctx_ok c" and n: "3 \<le> length argv"
  shows "performs c (push_generic argv front c) (spec_push front (argv ! 1) (drop 2 argv) (view c))"
proof -
  let ?k = "argv ! Suc 0" and ?xs = "drop 2 argv"
  have "performs c (get_or_create_list ?k (\<lambda>l c1. let l' = fold (push_end front) ?xs l
       in Some (reply_integer (int (length l')) (ctx_store ?k (VList l') c1))) c) (spec_push front ?k ?xs (view c))"
    unfolding get_or_create_list_def spec_push_def
  proof (rule klist.get_or_create_performs [OF ok TrueI refl])
    fix c1 l M
    assume cell: "cell c c1 ?k (VList l) M"
    let ?l' = "fold (push_end front) ?xs l"
    have "?l' \<noteq> []" "length ?l' = length l + length ?xs"
      using n by (auto simp: fold_push_end)
    then show "performs c (let l' = ?l' in Some (reply_integer (int (length l')) (ctx_store ?k (VList l') c1)))
        (RInt (int (length l + length ?xs)), put ?k (AList (if front then rev ?xs @ l else l @ ?xs)) M)"
      using performs_reply(3) [OF along_store [OF cell, of "VList ?l'"], of "int (length ?l')"]
      by (simp add: fold_push_end)
  qed
  then show ?thesis
    using n by (simp add: push_generic_def)
qed

lemma pop_end_ok: "l \<noteq> [] \<Longrightarrow> pop_end front l = Some (hd (popped front 1 l), remains front 1 l)"
proof (cases front)
  case True
  then show "l \<noteq> [] \<Longrightarrow> ?thesis"
    by (cases l) (auto simp: pop_end_def popped_def remains_def)
next
  case False
  then show "l \<noteq> [] \<Longrightarrow> ?thesis"
    by (cases l rule: rev_cases) (auto simp: pop_end_def popped_def remains_def)
qed

lemma popped_Suc: "l \<noteq> [] \<Longrightarrow> popped front (Suc n) l = hd (popped front 1 l) # popped front n (remains front 1 l)"
  by (cases l; cases "rev l") (auto simp: popped_def remains_def)

lemma remains_Suc: "remains front (Suc n) l = remains front n (remains front 1 l)"
  by (auto simp: remains_def)

lemma pop_loop_ok:
  assumes "n \<le> length l"
  shows "pop_loop front n l c = Some (remains front n l, reply_bulks (popped front n l) c)"
  using assms
proof (induction n arbitrary: l c)
  case 0
  then show ?case by (simp add: popped_def remains_def reply_bulks_def)
next
  case (Suc n)
  then have "l \<noteq> []" "n \<le> length (remains front 1 l)"
    by (auto simp: remains_def)
  then show ?case
    using Suc.IH by (simp add: pop_end_ok popped_Suc remains_Suc [of _ n] reply_bulks_def del: One_nat_def)
qed

lemma drop_if_empty_along:
  assumes "cell c c1 key (VList l) M"
  shows "along c (drop_if_empty key l' (ctx_store key (VList l') c1)) [] (put key (AList l') M)"
  using along_store [OF assms, of "VList l'"] along_drop [OF assms, of "VList l'"] by (simp add: drop_if_empty_def)

lemma reply_ctx_commute:
  "ctx_store k v (reply_bulks xs c) = reply_bulks xs (ctx_store k v c)" "ctx_del k (reply_bulks xs c) = reply_bulks xs (ctx_del k c)"
  "ctx_store k v (reply_array_header n c) = reply_array_header n (ctx_store k v c)"
  "ctx_del k (reply_array_header n c) = reply_array_header n (ctx_del k c)"
proof -
  have "ctx_store k v (reply_bulk x c) = reply_bulk x (ctx_store k v c)" "ctx_del k (reply_bulk x c) = reply_bulk x (ctx_del k c)" for x c
    by (simp_all add: ctx_store_def ctx_del_def reply_bulk_def)
  then show "ctx_store k v (reply_bulks xs c) = reply_bulks xs (ctx_store k v c)" "ctx_del k (reply_bulks xs c) = reply_bulks xs (ctx_del k c)"
    unfolding reply_bulks_def by (induction xs arbitrary: c) simp_all
qed (simp_all add: ctx_store_def ctx_del_def reply_array_header_def)

lemma popped_min: "popped front (min k (length l)) l = popped front k l" "remains front (min k (length l)) l = remains front k l"
  by (cases "k \<le> length l"; simp add: popped_def remains_def min_def)+

lemma pop_performs:
  assumes ok: "ctx_ok c" and n: "2 \<le> length argv"
  shows "performs c (pop_generic argv front c) (spec_pop front argv (view c))"
proof -
  let ?k = "argv ! Suc 0"
  have one: "performs c (with_value get_list ?k (\<lambda>c1. Some (reply_null_bulk c1))
           (\<lambda>l c1. do { (x, l') \<leftarrow> pop_end front l; Some (reply_bulk x (drop_if_empty ?k l' (ctx_store ?k (VList l') c1))) }) c)
      (spec_value a_list ?k (RNull, view c) (\<lambda>l. (RBulk (hd (popped front 1 l)), put ?k (AList (remains front 1 l)) (view c))) (view c))"
    by (auto intro!: klist.with_value_performs [OF ok] intro: performs_looked simp: pop_end_ok simp del: One_nat_def
        intro: performs_reply(4) [OF drop_if_empty_along])
  have many: "performs c (with_value get_list ?k (\<lambda>c1. Some (reply_null_array c1))
           (\<lambda>l c1. do {
              let n = nat (min m (int (length l)));
              (l', c2) \<leftarrow> pop_loop front n l (reply_array_header n c1);
              Some (drop_if_empty ?k l' (ctx_store ?k (VList l') c2))
            }) c)
      (spec_value a_list ?k (RNullArray, view c)
         (\<lambda>l. (RArray (map RBulk (popped front (nat m) l)), put ?k (AList (remains front (nat m) l)) (view c))) (view c))" for m
  proof (rule klist.with_value_performs [OF ok])
    fix c1 l
    assume cell: "cell c c1 ?k (VList l) (view c)"
    let ?n = "nat (min m (int (length l)))" and ?xs = "popped front (nat m) l" and ?l' = "remains front (nat m) l"
    have m: "?n = min (nat m) (length l)" by auto
    have len: "length ?xs = min (nat m) (length l)"
      by (simp add: popped_def)
    have "drop_if_empty ?k ?l' (ctx_store ?k (VList ?l') (reply_bulks ?xs (reply_array_header ?n c1))) =
        reply_bulks ?xs (reply_array_header ?n (drop_if_empty ?k ?l' (ctx_store ?k (VList ?l') c1)))"
      by (simp add: drop_if_empty_def reply_ctx_commute)
    then show "performs c (do {
              let n = nat (min m (int (length l)));
              (l', c2) \<leftarrow> pop_loop front n l (reply_array_header n c1);
              Some (drop_if_empty ?k l' (ctx_store ?k (VList l') c2))
            }) (RArray (map RBulk ?xs), put ?k (AList ?l') (view c))"
      using performs_bulks [OF drop_if_empty_along [OF cell, of ?l'], of ?n ?xs] len m
      by (simp add: pop_loop_ok popped_min)
  qed (rule performs_looked(2))
  show ?thesis
    using one many n performs_now(6) [OF ok]
    unfolding pop_generic_def spec_pop_def as_list_or_error_def One_nat_def
    by (auto split: sum.split option.split)
qed

lemma llen_performs:
  assumes ok: "ctx_ok c" and n: "2 \<le> length argv"
  shows "performs c (cmd_llen argv c) (spec_llen (argv ! 1) (view c))"
  using n unfolding cmd_llen_def spec_llen_def as_list_or_error_def
  by (auto intro!: klist.with_value_performs [OF ok] intro: performs_looked performs_peek_list)

lemma lindex_performs:
  assumes ok: "ctx_ok c" and n: "3 \<le> length argv"
  shows "performs c (cmd_lindex argv c) (spec_lindex argv (view c))"
  using n performs_now(6) [OF ok, of kNotInt] unfolding cmd_lindex_def spec_lindex_def as_list_or_error_def Let_def
  by (auto split: option.split intro!: klist.with_value_performs [OF ok] intro: performs_looked)
    (rule performs_peek_list, assumption, assumption)+

lemma filter_upt: "filter (\<lambda>i. a \<le> i \<and> i < b) [0..<n] = [a..<min b n]"
  by (induction n) (auto simp: min_def not_le not_less le_Suc_eq)

lemma deque_range_ok:
  assumes "0 \<le> s" "s \<le> e" "e < int (length l)"
  shows "deque_range l s e = Some (map ((!) l) (filter (\<lambda>i. s \<le> int i \<and> int i \<le> e) [0..<length l]))"
proof -
  have "(\<lambda>i. s \<le> int i \<and> int i \<le> e) = (\<lambda>i. nat s \<le> i \<and> i < nat (e + 1))"
    using assms by (auto simp: fun_eq_iff)
  then have "map ((!) l) (filter (\<lambda>i. s \<le> int i \<and> int i \<le> e) [0..<length l]) = map ((!) l) [nat s..<nat (e + 1)]"
    using assms filter_upt [of "nat s" "nat (e + 1)" "length l"] by (simp add: min_def)
  also have "\<dots> = take (nat (e - s + 1)) (drop (nat s) l)"
    by (rule nth_equalityI) (use assms in \<open>auto simp del: upt_Suc\<close>)
  finally show ?thesis
    using assms by (simp add: deque_range_def)
qed

lemma lrange_performs:
  assumes ok: "ctx_ok c" and n: "4 \<le> length argv"
  shows "performs c (cmd_lrange argv c) (spec_lrange argv (view c))"
proof (cases "parse_int64 (argv ! 2) = None \<or> parse_int64 (argv ! 3) = None")
  case True
  then show ?thesis
    using n performs_now(6) [OF ok, of kNotInt]
    by (auto simp: cmd_lrange_def spec_lrange_def split: option.splits)
next
  case False
  then obtain a b where ab: "parse_int64 (argv ! 2) = Some a" "parse_int64 (argv ! 3) = Some b"
    by auto
  let ?k = "argv ! Suc 0"
  let ?F = "\<lambda>l c1.
              let len = int (length l);
                  start1 = resolve_index a len; stop1 = resolve_index b len;
                  start = (if start1 < 0 then 0 else start1);
                  stop = (if len \<le> stop1 then len - 1 else stop1)
              in if len = 0 \<or> stop < start then Some (reply_array_header 0 c1)
                 else do {
                   xs \<leftarrow> deque_range l start stop;
                   Some (reply_bulks xs (reply_array_header (nat (stop - start + 1)) c1))
                 }"
  let ?S = "\<lambda>l. (RArray (map (\<lambda>i. RBulk (l ! i)) (filter (\<lambda>i. resolve_index a (int (length l)) \<le> int i \<and>
              int i \<le> resolve_index b (int (length l))) [0..<length l])), view c)"
  have "performs c (with_value get_list ?k (\<lambda>c1. Some (reply_array_header 0 c1)) ?F c)
      (spec_value a_list ?k (RArray [], view c) ?S (view c))"
  proof (rule klist.with_value_performs [OF ok])
    fix c1 l
    assume cell: "cell c c1 ?k (VList l) (view c)" and ne: "val_nonempty (VList l)"
    let ?len = "int (length l)"
    let ?s = "resolve_index a ?len" and ?e = "resolve_index b ?len"
    let ?start = "if ?s < 0 then 0 else ?s" and ?stop = "if ?len \<le> ?e then ?len - 1 else ?e"
    have same: "filter (\<lambda>i. ?s \<le> int i \<and> int i \<le> ?e) [0..<length l] = filter (\<lambda>i. ?start \<le> int i \<and> int i \<le> ?stop) [0..<length l]"
      by (rule filter_cong) auto
    show "performs c (?F l c1) (?S l)"
    proof (cases "?len = 0 \<or> ?stop < ?start")
      case True
      then have "filter (\<lambda>i. ?start \<le> int i \<and> int i \<le> ?stop) [0..<length l] = []"
        by (auto simp: filter_empty_conv)
      then show ?thesis
        using True performs_peek(5) [OF cell ne] unfolding same by (simp add: Let_def)
    next
      case False
      then have r: "deque_range l ?start ?stop = Some (map ((!) l) (filter (\<lambda>i. ?start \<le> int i \<and> int i \<le> ?stop) [0..<length l]))"
        by (intro deque_range_ok) auto
      then have len: "length (filter (\<lambda>i. ?start \<le> int i \<and> int i \<le> ?stop) [0..<length l]) = nat (?stop - ?start + 1)"
        using False by (auto simp: deque_range_def split: if_splits dest!: arg_cong [of _ _ length])
      show ?thesis
        using False r len performs_bulks [OF along_peek [OF cell ne], of "nat (?stop - ?start + 1)"
            "map ((!) l) (filter (\<lambda>i. ?start \<le> int i \<and> int i \<le> ?stop) [0..<length l])"]
        unfolding same by (simp add: Let_def comp_def)
    qed
  qed (rule performs_looked(5))
  moreover have "cmd_lrange argv c = with_value get_list ?k (\<lambda>c1. Some (reply_array_header 0 c1)) ?F c"
    using n ab by (simp add: cmd_lrange_def as_list_or_error_def)
  ultimately show ?thesis
    using ab by (simp add: spec_lrange_def)
qed

end
