(* ===== verification/Cmd_Set.thy ===== *)
theory Cmd_Set
  imports Cmd_List
begin

text \<open>
  The set commands of \<^verbatim>\<open>commands/cmd_set.cpp\<close>. \<^verbatim>\<open>SPOP\<close> draws from the process-wide generator;
  \<^verbatim>\<open>SINTER\<close> holds pointers to several sets at once, which the model names by their keys, and probes
  some while iterating over another: a probe that moves nodes of the very table under iteration is
  undefined behaviour.
\<close>

section \<open>Handlers\<close>

definition as_set_or_error :: "string \<Rightarrow> (ctx \<Rightarrow> ctx ub) \<Rightarrow> (unit hash_table \<Rightarrow> ctx \<Rightarrow> ctx ub) \<Rightarrow> ctx \<Rightarrow> ctx ub" where
  "as_set_or_error = with_value get_set"

definition get_or_create_set :: "string \<Rightarrow> (unit hash_table \<Rightarrow> ctx \<Rightarrow> ctx ub) \<Rightarrow> ctx \<Rightarrow> ctx ub" where
  "get_or_create_set = get_or_create get_set (VSet reset_to_empty)"

definition drop_empty_set :: "string \<Rightarrow> unit hash_table \<Rightarrow> ctx \<Rightarrow> ctx" where
  "drop_empty_set key s c = (if ht_empty s then ctx_del key c else c)"

definition cmd_sadd :: "string list \<Rightarrow> ctx \<Rightarrow> ctx ub" where
  "cmd_sadd argv c = do {
     key \<leftarrow> arg argv 1;
     get_or_create_set key (\<lambda>s c1.
       let (added, s') = insert_all ht_insert_or_assign 0 s (map (\<lambda>m. (m, ())) (drop 2 argv))
       in Some (reply_integer added (ctx_store key (VSet s') c1))) c
   }"

definition cmd_srem :: "string list \<Rightarrow> ctx \<Rightarrow> ctx ub" where
  "cmd_srem argv c = do {
     key \<leftarrow> arg argv 1;
     as_set_or_error key (\<lambda>c1. Some (reply_integer 0 c1))
       (\<lambda>s c1. let (removed, s') = erase_all ht_erase 0 s (drop 2 argv)
          in Some (reply_integer removed (drop_empty_set key s' (ctx_store key (VSet s') c1)))) c
   }"

definition cmd_sismember :: "string list \<Rightarrow> ctx \<Rightarrow> ctx ub" where
  "cmd_sismember argv c = do {
     key \<leftarrow> arg argv 1;
     as_set_or_error key (\<lambda>c1. Some (reply_integer 0 c1))
       (\<lambda>s c1. do { m \<leftarrow> arg argv 2;
          let (v, s') = ht_find s m;
          Some (reply_integer (if v = None then 0 else 1) (ctx_store key (VSet s') c1)) }) c
   }"

definition cmd_smembers :: "string list \<Rightarrow> ctx \<Rightarrow> ctx ub" where
  "cmd_smembers argv c = do {
     key \<leftarrow> arg argv 1;
     as_set_or_error key (\<lambda>c1. Some (reply_array_header 0 c1))
       (\<lambda>s c1. Some (reply_bulks (map fst (ht_for_each s)) (reply_array_header (ht_size s) c1))) c
   }"

definition cmd_scard :: "string list \<Rightarrow> ctx \<Rightarrow> ctx ub" where
  "cmd_scard argv c = do {
     key \<leftarrow> arg argv 1;
     as_set_or_error key (\<lambda>c1. Some (reply_integer 0 c1)) (\<lambda>s c1. Some (reply_integer (int (ht_size s)) c1)) c
   }"

text \<open>One random member, removed: following a null entry pointer is undefined.\<close>

definition pop_random :: "unit hash_table \<Rightarrow> rng \<Rightarrow> (string \<times> unit hash_table \<times> rng) ub" where
  "pop_random s r = do {
     (entry, r') \<leftarrow> random_entry s r;
     (member, u) \<leftarrow> entry;
     Some (member, snd (ht_erase s member), r')
   }"

fun spop_loop :: "nat \<Rightarrow> unit hash_table \<Rightarrow> ctx \<Rightarrow> (unit hash_table \<times> ctx) ub" where
  "spop_loop 0 s c = Some (s, c)"
| "spop_loop (Suc n) s c = do {
     (member, s', r) \<leftarrow> pop_random s (crng c);
     spop_loop n s' (reply_bulk member (c\<lparr>crng := r\<rparr>))
   }"

definition cmd_spop :: "string list \<Rightarrow> ctx \<Rightarrow> ctx ub" where
  "cmd_spop argv c =
    (case pop_count argv of
       Inl e \<Rightarrow> Some (reply_error e c)
     | Inr None \<Rightarrow> do {
         key \<leftarrow> arg argv 1;
         as_set_or_error key (\<lambda>c1. Some (reply_null_bulk c1))
           (\<lambda>s c1. do {
              (member, s', r) \<leftarrow> pop_random s (crng c1);
              Some (reply_bulk member (drop_empty_set key s' (ctx_store key (VSet s') (c1\<lparr>crng := r\<rparr>))))
            }) c
       }
     | Inr (Some cnt) \<Rightarrow> do {
         key \<leftarrow> arg argv 1;
         as_set_or_error key (\<lambda>c1. Some (reply_array_header 0 c1))
           (\<lambda>s c1. do {
              let n = nat (min cnt (int (ht_size s)));
              (s', c2) \<leftarrow> spop_loop n s (reply_array_header n c1);
              Some (drop_empty_set key s' (ctx_store key (VSet s') c2))
            }) c
       })"

text \<open>\<^verbatim>\<open>SINTER\<close>: the pointers collected in argument order; \<open>None\<close> once a reply was written instead.\<close>

fun sinter_collect :: "string list \<Rightarrow> string list \<Rightarrow> ctx \<Rightarrow> string list option \<times> ctx" where
  "sinter_collect [] sets c = (Some sets, c)"
| "sinter_collect (key # keys) sets c =
    (case ctx_lookup key c of
       (None, c1) \<Rightarrow> (None, reply_array_header 0 c1)
     | (Some v, c1) \<Rightarrow>
         (case get_set v of
            None \<Rightarrow> (None, reply_error kWrongType c1)
          | Some _ \<Rightarrow> sinter_collect keys (sets @ [key]) c1))"

definition set_at :: "string \<Rightarrow> ctx \<Rightarrow> unit hash_table ub" where
  "set_at key c = Option.bind (ht_find_const (keyspace (db c)) key) get_set"

definition smallest_index :: "nat list \<Rightarrow> nat" where
  "smallest_index sizes = foldl (\<lambda>s i. if sizes ! i < sizes ! s then i else s) 0 [1..<length sizes]"

text \<open>The body of the \<^verbatim>\<open>for_each\<close> callback: probe every set but the smallest.\<close>

fun sinter_probe :: "string \<Rightarrow> nat \<Rightarrow> string \<Rightarrow> (nat \<times> string) list \<Rightarrow> ctx \<Rightarrow> (bool \<times> ctx) ub" where
  "sinter_probe member smallest iterated [] c = Some (True, c)"
| "sinter_probe member smallest iterated ((i, key) # sets) c =
    (if i = smallest then sinter_probe member smallest iterated sets c
     else do {
       s \<leftarrow> set_at key c;
       if key = iterated \<and> is_rehashing s then None
       else let (v, s') = ht_find s member; c1 = ctx_store key (VSet s') c in
         if v = None then Some (False, c1) else sinter_probe member smallest iterated sets c1
     })"

fun sinter_each :: "nat \<Rightarrow> string \<Rightarrow> (nat \<times> string) list \<Rightarrow> string list \<Rightarrow> string list \<Rightarrow> ctx \<Rightarrow> (string list \<times> ctx) ub" where
  "sinter_each smallest iterated sets [] result c = Some (result, c)"
| "sinter_each smallest iterated sets (member # members) result c = do {
     (all, c1) \<leftarrow> sinter_probe member smallest iterated sets c;
     sinter_each smallest iterated sets members (if all then result @ [member] else result) c1
   }"

definition cmd_sinter :: "string list \<Rightarrow> ctx \<Rightarrow> ctx ub" where
  "cmd_sinter argv c =
    (case sinter_collect (drop 1 argv) [] c of
       (None, c1) \<Rightarrow> Some c1
     | (Some sets, c1) \<Rightarrow> do {
         sizes \<leftarrow> those (map (\<lambda>key. map_option ht_size (set_at key c1)) sets);
         let smallest = smallest_index sizes;
         iterated \<leftarrow> arg sets smallest;
         s \<leftarrow> set_at iterated c1;
         (result, c2) \<leftarrow> sinter_each smallest iterated (enumerate 0 sets) (map fst (ht_for_each s)) [] c1;
         Some (reply_bulks result (reply_array_header (length result) c2))
       })"

section \<open>Specifications\<close>

definition spec_sadd :: "string \<Rightarrow> string list \<Rightarrow> amap \<Rightarrow> reply \<times> amap" where
  "spec_sadd key ms M = spec_create a_set ASet {} key
     (\<lambda>s M. (RInt (int (card (set ms - s))), put key (ASet (s \<union> set ms)) M)) M"

definition spec_srem :: "string \<Rightarrow> string list \<Rightarrow> amap \<Rightarrow> reply \<times> amap" where
  "spec_srem key ms M = spec_value a_set key (RInt 0, M)
     (\<lambda>s. (RInt (int (card (set ms \<inter> s))), put key (ASet (s - set ms)) M)) M"

definition spec_sismember :: "string \<Rightarrow> string \<Rightarrow> amap \<Rightarrow> reply \<times> amap" where
  "spec_sismember key m M = spec_value a_set key (RInt 0, M) (\<lambda>s. (RInt (if m \<in> s then 1 else 0), M)) M"

definition spec_scard :: "string \<Rightarrow> amap \<Rightarrow> reply \<times> amap" where
  "spec_scard key M = spec_value a_set key (RInt 0, M) (\<lambda>s. (RInt (int (card s)), M)) M"

text \<open>The members of \<open>s\<close>, once each, in some order.\<close>

definition lists_set :: "string set \<Rightarrow> reply \<Rightarrow> bool" where
  "lists_set s r \<longleftrightarrow> (\<exists>xs. distinct xs \<and> set xs = s \<and> r = RArray (map RBulk xs))"

definition allows_smembers :: "string \<Rightarrow> amap \<Rightarrow> reply \<Rightarrow> amap \<Rightarrow> bool" where
  "allows_smembers key M = allows_value a_set key (\<lambda>r M'. r = RArray [] \<and> M' = M) (\<lambda>s r M'. lists_set s r \<and> M' = M) M"

definition allows_spop :: "string list \<Rightarrow> amap \<Rightarrow> reply \<Rightarrow> amap \<Rightarrow> bool" where
  "allows_spop argv M = (case pop_count argv of
     Inl e \<Rightarrow> (\<lambda>r M'. r = RError (sanitize_error_text e) \<and> M' = M)
   | Inr None \<Rightarrow> allows_value a_set (argv ! 1) (\<lambda>r M'. r = RNull \<and> M' = M)
       (\<lambda>s r M'. \<exists>x \<in> s. r = RBulk x \<and> M' = put (argv ! 1) (ASet (s - {x})) M) M
   | Inr (Some n) \<Rightarrow> allows_value a_set (argv ! 1) (\<lambda>r M'. r = RArray [] \<and> M' = M)
       (\<lambda>s r M'. \<exists>xs. distinct xs \<and> set xs \<subseteq> s \<and> length xs = min (nat n) (card s) \<and>
          r = RArray (map RBulk xs) \<and> M' = put (argv ! 1) (ASet (s - set xs)) M) M)"

text \<open>The first key that is missing or no set decides; otherwise the sets, in order.\<close>

fun sets_of :: "string list \<Rightarrow> amap \<Rightarrow> reply + string set list" where
  "sets_of [] M = Inr []"
| "sets_of (k # ks) M = (case M k of
     None \<Rightarrow> Inl (RArray [])
   | Some (a, _) \<Rightarrow> (case a_set a of
       None \<Rightarrow> Inl (RError kWrongType)
     | Some s \<Rightarrow> (case sets_of ks M of Inl r \<Rightarrow> Inl r | Inr ss \<Rightarrow> Inr (s # ss))))"

definition allows_sinter :: "string list \<Rightarrow> amap \<Rightarrow> reply \<Rightarrow> amap \<Rightarrow> bool" where
  "allows_sinter keys M r M' \<longleftrightarrow> M' = M \<and>
    (case sets_of keys M of Inl r0 \<Rightarrow> r = r0 | Inr ss \<Rightarrow> lists_set (\<Inter> (set ss)) r)"

section \<open>One set\<close>

lemma set_of_insert_all:
  assumes "ht_invar s" "insert_all ht_insert_or_assign 0 s (map (\<lambda>m. (m, ())) ms) = (a, s')"
  shows "ht_invar s'" "set_of s' = set_of s \<union> set ms" "a = int (card (set ms - set_of s))"
  using ht.insert_all_spec [OF assms] by (auto simp: set_of_def image_image dom_map_of_conv_image_fst)

lemma set_of_erase_all:
  assumes "ht_invar s" "erase_all ht_erase 0 s ms = (a, s')"
  shows "ht_invar s'" "set_of s' = set_of s - set ms" "a = int (card (set ms \<inter> set_of s))"
  using ht.erase_all_spec [OF assms] by (auto simp: set_of_def)

lemma set_of_find:
  assumes "ht_invar s"
  shows "fst (ht_find s m) = None \<longleftrightarrow> m \<notin> set_of s" "ht_invar (snd (ht_find s m))" "set_of (snd (ht_find s m)) = set_of s"
  using ht_find_spec [OF assms] by (auto simp: set_of_def)

lemma set_of_size: "ht_invar s \<Longrightarrow> ht_size s = card (set_of s)" "ht_invar s \<Longrightarrow> finite (set_of s)"
  by (simp_all add: set_of_def ht.size_card ht.finite_dom_amap)

lemma set_of_entries:
  assumes "ht_invar s"
  shows "distinct (map fst (ht_for_each s))" "set (map fst (ht_for_each s)) = set_of s" "length (ht_for_each s) = ht_size s"
  using ht_for_each_spec [OF assms] ht.dom_entries [OF assms] by (simp_all add: set_of_def)

lemma val_abs_set [simp]: "dom (ht_map s) = set_of s"
  by (simp add: set_of_def)

lemma drop_empty_set_along:
  assumes "cell c c1 key (VSet s) M" "ht_invar s'"
  shows "along c (drop_empty_set key s' (ctx_store key (VSet s') c1)) [] (put key (ASet (set_of s')) M)"
  using along_store [OF assms(1), of "VSet s'"] along_drop [OF assms(1), of "VSet s'"] hash_empty_iff(2) [OF assms(2)] assms(2)
  by (simp add: drop_empty_set_def)

lemma sadd_performs:
  assumes ok: "ctx_ok c" and n: "3 \<le> length argv"
  shows "performs c (cmd_sadd argv c) (spec_sadd (argv ! 1) (drop 2 argv) (view c))"
proof -
  let ?k = "argv ! Suc 0" and ?ms = "drop 2 argv"
  have e: "set_of reset_to_empty = {}"
    unfolding set_of_def reset_to_empty_spec(2) by simp
  have "performs c (get_or_create_set ?k (\<lambda>s c1.
       let (added, s') = insert_all ht_insert_or_assign 0 s (map (\<lambda>m. (m, ())) ?ms)
       in Some (reply_integer added (ctx_store ?k (VSet s') c1))) c) (spec_sadd ?k ?ms (view c))"
    unfolding get_or_create_set_def spec_sadd_def e [symmetric]
  proof (rule kset.get_or_create_performs [OF ok reset_to_empty_spec(1) refl])
    fix c1 s M
    assume cell: "cell c c1 ?k (VSet s) M" and inv: "ht_invar s"
    obtain a s' where i: "insert_all ht_insert_or_assign 0 s (map (\<lambda>m. (m, ())) ?ms) = (a, s')" by force
    note I = set_of_insert_all [OF inv i]
    have "dom (ht_map s') \<noteq> {}"
      using I(2) n by auto
    then have "val_nonempty (VSet s')"
      using I(1) by (auto simp: val_nonempty_set simp del: val_abs_set)
    then show "performs c (let (added, s') = insert_all ht_insert_or_assign 0 s (map (\<lambda>m. (m, ())) ?ms)
         in Some (reply_integer added (ctx_store ?k (VSet s') c1)))
      (RInt (int (card (set ?ms - set_of s))), put ?k (ASet (set_of s \<union> set ?ms)) M)"
      using performs_reply(3) [OF along_store [OF cell, of "VSet s'"], of a] I i by simp
  qed
  then show ?thesis
    using n by (simp add: cmd_sadd_def)
qed

lemma srem_performs:
  assumes ok: "ctx_ok c" and n: "2 \<le> length argv"
  shows "performs c (cmd_srem argv c) (spec_srem (argv ! 1) (drop 2 argv) (view c))"
proof -
  let ?k = "argv ! Suc 0" and ?ms = "drop 2 argv"
  have found: "performs c (case erase_all ht_erase 0 s ?ms of (removed, s') \<Rightarrow>
        Some (reply_integer removed (drop_empty_set ?k s' (ctx_store ?k (VSet s') c1))))
       (RInt (int (card (set ?ms \<inter> set_of s))), put ?k (ASet (set_of s - set ?ms)) (view c))"
    if cell: "cell c c1 ?k (VSet s) (view c)" and inv: "ht_invar s" for c1 s
  proof -
    obtain r s' where e: "erase_all ht_erase 0 s ?ms = (r, s')" by force
    note E = set_of_erase_all [OF inv e]
    show ?thesis
      using performs_reply(3) [OF drop_empty_set_along [OF cell E(1)], of r] E e by simp
  qed
  show ?thesis
    using n unfolding cmd_srem_def spec_srem_def as_set_or_error_def
    by (auto intro!: kset.with_value_performs [OF ok] intro: performs_looked found)
qed

lemma sismember_performs:
  assumes ok: "ctx_ok c" and n: "3 \<le> length argv"
  shows "performs c (cmd_sismember argv c) (spec_sismember (argv ! 1) (argv ! 2) (view c))"
proof -
  have found: "performs c (Some (reply_integer (if fst (ht_find s m) = None then 0 else 1) (ctx_store k (VSet (snd (ht_find s m))) c1)))
      (RInt (if m \<in> set_of s then 1 else 0), view c)"
    if "cell c c1 k (VSet s) (view c)" "val_nonempty (VSet s)" "ht_invar s" for c1 k s m
    using performs_reply(3) [OF along_keep [OF that(1,2), of "VSet (snd (ht_find s m))"]] set_of_find [OF that(3), of m]
    by simp
  show ?thesis
    using n found unfolding cmd_sismember_def spec_sismember_def as_set_or_error_def
    by (auto intro!: kset.with_value_performs [OF ok] intro: performs_looked simp: split_beta)
qed

lemma scard_performs:
  assumes ok: "ctx_ok c" and n: "2 \<le> length argv"
  shows "performs c (cmd_scard argv c) (spec_scard (argv ! 1) (view c))"
  using n unfolding cmd_scard_def spec_scard_def as_set_or_error_def
  by (auto intro!: kset.with_value_performs [OF ok] intro: performs_looked performs_peek simp: set_of_size)

lemma smembers_achieves:
  assumes ok: "ctx_ok c" and n: "2 \<le> length argv"
  shows "achieves c (cmd_smembers argv c) (allows_smembers (argv ! 1) (view c))"
proof -
  have "achieves c (with_value get_set k (\<lambda>c1. Some (reply_array_header 0 c1))
       (\<lambda>s c1. Some (reply_bulks (map fst (ht_for_each s)) (reply_array_header (ht_size s) c1))) c) (allows_smembers k (view c))" for k
    unfolding allows_smembers_def
  proof (rule kset.with_value_achieves [OF ok])
    fix c1
    assume "looked c c1"
    from performs_looked(5) [OF this] show "achieves c (Some (reply_array_header 0 c1)) (\<lambda>r M'. r = RArray [] \<and> M' = view c)"
      by (rule performs_achieves) simp
  next
    fix c1 s
    assume cell: "cell c c1 k (VSet s) (view c)" and ne: "val_nonempty (VSet s)" and inv: "ht_invar s"
    show "achieves c (Some (reply_bulks (map fst (ht_for_each s)) (reply_array_header (ht_size s) c1)))
        (\<lambda>r M'. lists_set (set_of s) r \<and> M' = view c)"
      by (rule performs_achieves [OF performs_bulks [OF along_peek [OF cell ne]]])
        (use set_of_entries [OF inv] in \<open>auto simp: lists_set_def\<close>)
  qed
  then show ?thesis
    using n by (simp add: cmd_smembers_def as_set_or_error_def)
qed

section \<open>SPOP\<close>

lemma pop_random_ok:
  assumes "ht_invar s" "rng_fair r" "set_of s \<noteq> {}"
  shows "\<exists>m s' r'. pop_random s r = Some (m, s', r') \<and> rng_fair r' \<and> ht_invar s' \<and> m \<in> set_of s \<and> set_of s' = set_of s - {m}"
proof -
  have "ht_size s \<noteq> 0"
    using assms set_of_size [OF assms(1)] by simp
  from random_entry_spec [OF assms(1,2) this] obtain m v r' where
    "random_entry s r = Some (Some (m, v), r')" "ht_map s m = Some v" "rng_fair r'" by blast
  then show ?thesis
    using ht_erase_spec [OF assms(1), of m] by (auto simp: pop_random_def set_of_def simp del: val_abs_set)
qed

lemma reply_rng: "reply_bulk m (c\<lparr>crng := r\<rparr>) = (reply_bulk m c)\<lparr>crng := r\<rparr>" "reply_bulks ms (c\<lparr>crng := r\<rparr>) = (reply_bulks ms c)\<lparr>crng := r\<rparr>"
  "drop_empty_set k s (ctx_store k v (c\<lparr>crng := r\<rparr>)) = (drop_empty_set k s (ctx_store k v c))\<lparr>crng := r\<rparr>"
proof -
  show one: "reply_bulk m (c\<lparr>crng := r\<rparr>) = (reply_bulk m c)\<lparr>crng := r\<rparr>" for m c
    by (simp add: reply_bulk_def)
  show "reply_bulks ms (c\<lparr>crng := r\<rparr>) = (reply_bulks ms c)\<lparr>crng := r\<rparr>"
    unfolding reply_bulks_def by (induction ms arbitrary: c) (simp_all add: one)
qed (simp add: drop_empty_set_def ctx_del_def ctx_store_def)

lemma performs_rng:
  assumes "performs c (Some c2) spec" "rng_fair r"
  shows "performs c (Some (c2\<lparr>crng := r\<rparr>)) spec"
  using assms by (auto simp: performs_def does_def ctx_ok_def clock_ok_def same_clock_def)

lemma spop_loop_ok:
  assumes "ht_invar s" "rng_fair (crng c)" "n \<le> card (set_of s)"
  shows "\<exists>xs s' r. spop_loop n s c = Some (s', (reply_bulks xs c)\<lparr>crng := r\<rparr>) \<and> rng_fair r \<and> ht_invar s' \<and>
    distinct xs \<and> length xs = n \<and> set xs \<subseteq> set_of s \<and> set_of s' = set_of s - set xs"
  using assms
proof (induction n arbitrary: s c)
  case 0
  then show ?case by (intro exI [of _ "[]"] exI [of _ s] exI [of _ "crng c"]) (simp add: reply_bulks_def)
next
  case (Suc n)
  then have "set_of s \<noteq> {}" by auto
  then obtain m s1 r1 where p: "pop_random s (crng c) = Some (m, s1, r1)" "rng_fair r1" "ht_invar s1" "m \<in> set_of s"
    "set_of s1 = set_of s - {m}"
    using pop_random_ok [OF Suc.prems(1,2)] by blast
  have "n \<le> card (set_of s1)"
    using Suc.prems(3) p(4,5) set_of_size(2) [OF Suc.prems(1)] by simp
  then obtain xs s' r where IH: "spop_loop n s1 (reply_bulk m (c\<lparr>crng := r1\<rparr>)) = Some (s', (reply_bulks xs (reply_bulk m (c\<lparr>crng := r1\<rparr>)))\<lparr>crng := r\<rparr>)"
    "rng_fair r" "ht_invar s'" "distinct xs" "length xs = n" "set xs \<subseteq> set_of s1" "set_of s' = set_of s1 - set xs"
    using Suc.IH [OF p(3), of "reply_bulk m (c\<lparr>crng := r1\<rparr>)"] p(2) by auto
  have "reply_bulks xs (reply_bulk m (c\<lparr>crng := r1\<rparr>)) = (reply_bulks (m # xs) c)\<lparr>crng := r1\<rparr>"
    unfolding reply_rng by (simp add: reply_bulks_def)
  with IH p show ?case
    by (intro exI [of _ "m # xs"] exI [of _ s'] exI [of _ r]) auto
qed

lemma spop_one_achieves:
  assumes ok: "ctx_ok c"
  shows "achieves c (with_value get_set k (\<lambda>c1. Some (reply_null_bulk c1))
       (\<lambda>s c1. do { (member, s', r) \<leftarrow> pop_random s (crng c1);
          Some (reply_bulk member (drop_empty_set k s' (ctx_store k (VSet s') (c1\<lparr>crng := r\<rparr>)))) }) c)
     (allows_value a_set k (\<lambda>r M'. r = RNull \<and> M' = view c)
       (\<lambda>s r M'. \<exists>x \<in> s. r = RBulk x \<and> M' = put k (ASet (s - {x})) (view c)) (view c))"
proof (rule kset.with_value_achieves [OF ok])
  fix c1
  assume "looked c c1"
  from performs_looked(1) [OF this] show "achieves c (Some (reply_null_bulk c1)) (\<lambda>r M'. r = RNull \<and> M' = view c)"
    by (rule performs_achieves) simp
next
  fix c1 s
  assume cell: "cell c c1 k (VSet s) (view c)" and ne: "val_nonempty (VSet s)" and inv: "ht_invar s"
  have "set_of s \<noteq> {}"
    using ne inv by (auto simp: val_nonempty_set set_of_def simp del: val_abs_set)
  then obtain m s' r where p: "pop_random s (crng c1) = Some (m, s', r)" "rng_fair r" "ht_invar s'" "m \<in> set_of s"
    "set_of s' = set_of s - {m}"
    using pop_random_ok [OF inv] cell_frame(3) [OF cell] by blast
  have "performs c (Some ((reply_bulk m (drop_empty_set k s' (ctx_store k (VSet s') c1)))\<lparr>crng := r\<rparr>))
      (RBulk m, put k (ASet (set_of s - {m})) (view c))"
    using performs_rng [OF performs_reply(4) [OF drop_empty_set_along [OF cell p(3)]] p(2)] p(5) by simp
  then show "achieves c (do { (member, s', r) \<leftarrow> pop_random s (crng c1);
          Some (reply_bulk member (drop_empty_set k s' (ctx_store k (VSet s') (c1\<lparr>crng := r\<rparr>)))) })
      (\<lambda>r M'. \<exists>x \<in> set_of s. r = RBulk x \<and> M' = put k (ASet (set_of s - {x})) (view c))"
    unfolding p(1) bind.bind_lunit prod.case reply_rng by (rule performs_achieves) (use p(4) in blast)
qed

lemma spop_many_achieves:
  assumes ok: "ctx_ok c"
  shows "achieves c (with_value get_set k (\<lambda>c1. Some (reply_array_header 0 c1))
       (\<lambda>s c1. do {
              let n = nat (min cnt (int (ht_size s)));
              (s', c2) \<leftarrow> spop_loop n s (reply_array_header n c1);
              Some (drop_empty_set k s' (ctx_store k (VSet s') c2))
            }) c)
     (allows_value a_set k (\<lambda>r M'. r = RArray [] \<and> M' = view c)
       (\<lambda>s r M'. \<exists>xs. distinct xs \<and> set xs \<subseteq> s \<and> length xs = min (nat cnt) (card s) \<and>
          r = RArray (map RBulk xs) \<and> M' = put k (ASet (s - set xs)) (view c)) (view c))"
proof (rule kset.with_value_achieves [OF ok])
  fix c1
  assume "looked c c1"
  from performs_looked(5) [OF this] show "achieves c (Some (reply_array_header 0 c1)) (\<lambda>r M'. r = RArray [] \<and> M' = view c)"
    by (rule performs_achieves) simp
next
  fix c1 s
  assume cell: "cell c c1 k (VSet s) (view c)" and ne: "val_nonempty (VSet s)" and inv: "ht_invar s"
  let ?n = "nat (min cnt (int (ht_size s)))"
  have n: "?n = min (nat cnt) (card (set_of s))"
    using set_of_size [OF inv] by auto
  obtain xs s' r where p: "spop_loop ?n s (reply_array_header ?n c1) = Some (s', (reply_bulks xs (reply_array_header ?n c1))\<lparr>crng := r\<rparr>)"
    "rng_fair r" "ht_invar s'" "distinct xs" "length xs = ?n" "set xs \<subseteq> set_of s" "set_of s' = set_of s - set xs"
    using spop_loop_ok [OF inv, of "reply_array_header ?n c1" ?n] cell_frame(3) [OF cell] n by auto
  have "drop_empty_set k s' (ctx_store k (VSet s') ((reply_bulks xs (reply_array_header ?n c1))\<lparr>crng := r\<rparr>)) =
      (reply_bulks xs (reply_array_header ?n (drop_empty_set k s' (ctx_store k (VSet s') c1))))\<lparr>crng := r\<rparr>"
    unfolding reply_rng by (simp add: drop_empty_set_def reply_ctx_commute)
  moreover have "performs c (Some ((reply_bulks xs (reply_array_header ?n (drop_empty_set k s' (ctx_store k (VSet s') c1))))\<lparr>crng := r\<rparr>))
      (RArray (map RBulk xs), put k (ASet (set_of s - set xs)) (view c))"
    using performs_rng [OF performs_bulks [OF drop_empty_set_along [OF cell p(3)] p(5) [symmetric]] p(2)] p(7) by simp
  ultimately show "achieves c (do {
              let n = ?n;
              (s', c2) \<leftarrow> spop_loop n s (reply_array_header n c1);
              Some (drop_empty_set k s' (ctx_store k (VSet s') c2))
            }) (\<lambda>r M'. \<exists>xs. distinct xs \<and> set xs \<subseteq> set_of s \<and> length xs = min (nat cnt) (card (set_of s)) \<and>
          r = RArray (map RBulk xs) \<and> M' = put k (ASet (set_of s - set xs)) (view c))"
    unfolding Let_def p(1) bind.bind_lunit prod.case
    by (simp only:) (erule performs_achieves, intro exI [of _ xs] conjI p(4,6) refl, simp only: p(5) n)
qed

lemma spop_achieves:
  assumes ok: "ctx_ok c" and n: "2 \<le> length argv"
  shows "achieves c (cmd_spop argv c) (allows_spop argv (view c))"
proof -
  have err: "achieves c (Some (reply_error e c)) (\<lambda>r M'. r = RError (sanitize_error_text e) \<and> M' = view c)" for e
    by (rule performs_achieves [OF performs_now(6) [OF ok]]) simp
  show ?thesis
    using n err spop_one_achieves [OF ok] spop_many_achieves [OF ok]
    unfolding cmd_spop_def allows_spop_def as_set_or_error_def One_nat_def
    by (auto split: sum.split option.split)
qed

section \<open>SINTER\<close>

text \<open>A live key is a cell without a new lookup: a pointer obtained earlier stays good.\<close>

lemma view_cell:
  assumes ok: "ctx_ok c" and v: "view c key = Some (a, e)"
  shows "\<exists>x. ht_map (keyspace (db c)) key = Some x \<and> val_abs x = a \<and> val_invar x \<and> val_nonempty x \<and> cell c c key x (view c)"
proof -
  have wf: "db_wf (db c)" "db_full (db c)"
    using ok by (simp_all add: ctx_ok_def db_invar_def)
  obtain x where x: "db_live (db c) (clk_mono c) key = Some (x, e)" "val_abs x = a"
    using v by (auto simp: view_def db_view_def)
  then have k: "ht_map (keyspace (db c)) key = Some x" "ht_map (expires (db c)) key = e" "\<And>d. e = Some d \<Longrightarrow> clk_mono c < d"
    by (auto simp: db_live_def live_def split: option.splits if_splits)
  moreover have "val_invar x" "val_nonempty x"
    using db_wfD(5) [OF wf(1) k(1)] wf(2) k(1) by (simp_all add: db_full_def)
  moreover have "cell c c key x (view c)"
    using ok wf k x v calculation(4) shows_db_self by (auto simp: cell_def same_clock_def db_full_def)
  ultimately show ?thesis
    using x(2) by blast
qed

lemma set_at_view:
  assumes ok: "ctx_ok c" and v: "view c key = Some (ASet S, e)"
  shows "\<exists>s. set_at key c = Some s \<and> ht_invar s \<and> set_of s = S \<and> cell c c key (VSet s) (view c) \<and> val_nonempty (VSet s)"
proof -
  obtain x where x: "ht_map (keyspace (db c)) key = Some x" "val_abs x = ASet S" "val_invar x" "val_nonempty x" "cell c c key x (view c)"
    using view_cell [OF assms] by blast
  then obtain s where "x = VSet s" by (cases x) auto
  moreover have "ht_invar (keyspace (db c))"
    using ok by (simp add: ctx_ok_def db_invar_def db_wf_def)
  ultimately show ?thesis
    using x by (auto simp: set_at_def ht_find_const_map)
qed

definition is_set_in :: "amap \<Rightarrow> string \<Rightarrow> string set \<Rightarrow> bool" where
  "is_set_in M key S \<longleftrightarrow> (\<exists>e. M key = Some (ASet S, e))"

definition probes :: "amap \<Rightarrow> (string \<Rightarrow> string set) \<Rightarrow> nat \<Rightarrow> string \<Rightarrow> (nat \<times> string) list \<Rightarrow> bool" where
  "probes M S smallest iterated iks \<longleftrightarrow>
    (\<forall>(i, key) \<in> set iks. is_set_in M key (S key) \<and> (i \<noteq> smallest \<longrightarrow> key \<noteq> iterated))"

lemma sinter_probe_ok:
  assumes "ctx_ok c" "probes (view c) S smallest iterated iks"
  shows "\<exists>c'. sinter_probe m smallest iterated iks c = Some (\<forall>(i, key) \<in> set iks. i \<noteq> smallest \<longrightarrow> m \<in> S key, c') \<and>
    along c c' [] (view c)"
  using assms
proof (induction iks arbitrary: c)
  case Nil
  then show ?case by (simp add: along_refl)
next
  case (Cons ik iks)
  obtain i key where ik: "ik = (i, key)" by force
  show ?case
  proof (cases "i = smallest")
    case True
    then show ?thesis
      using Cons.IH [OF Cons.prems(1)] Cons.prems(2) ik by (auto simp: probes_def)
  next
    case False
    obtain e where "view c key = Some (ASet (S key), e)"
      using Cons.prems(2) ik by (auto simp: is_set_in_def probes_def)
    then obtain s where s: "set_at key c = Some s" "ht_invar s" "set_of s = S key" "cell c c key (VSet s) (view c)" "val_nonempty (VSet s)"
      using set_at_view [OF Cons.prems(1)] by blast
    let ?c1 = "ctx_store key (VSet (snd (ht_find s m))) c"
    note F = set_of_find [OF s(2), of m]
    have A: "along c ?c1 [] (view c)"
      using along_keep [OF s(4,5), of "VSet (snd (ht_find s m))"] F by simp
    have v1: "view ?c1 = view c"
      using along_view [OF A] by simp
    have step: "sinter_probe m smallest iterated ((i, key) # iks) c =
        (if m \<in> S key then sinter_probe m smallest iterated iks ?c1 else Some (False, ?c1))"
      using False s Cons.prems(2) ik F(1) by (auto simp: split_beta Let_def probes_def)
    show ?thesis
    proof (cases "m \<in> S key")
      case True
      obtain c' where c': "sinter_probe m smallest iterated iks ?c1 = Some (\<forall>(i, key) \<in> set iks. i \<noteq> smallest \<longrightarrow> m \<in> S key, c')"
        "along ?c1 c' [] (view ?c1)"
        using Cons.IH [OF along_ok(1) [OF A]] Cons.prems(2) unfolding v1 by (auto simp: probes_def)
      then show ?thesis
        using along_trans0 [OF A c'(2)] step True ik v1 by auto
    next
      case False
      then show ?thesis
        using step A ik \<open>i \<noteq> smallest\<close> by auto
    qed
  qed
qed

lemma sinter_each_ok:
  assumes "ctx_ok c" "probes (view c) S smallest iterated iks"
  shows "\<exists>c'. sinter_each smallest iterated iks ms result c =
      Some (result @ filter (\<lambda>m. \<forall>(i, key) \<in> set iks. i \<noteq> smallest \<longrightarrow> m \<in> S key) ms, c') \<and> along c c' [] (view c)"
  using assms
proof (induction ms arbitrary: c result)
  case Nil
  then show ?case by (simp add: along_refl)
next
  case (Cons m ms)
  obtain c1 where p: "sinter_probe m smallest iterated iks c = Some (\<forall>(i, key) \<in> set iks. i \<noteq> smallest \<longrightarrow> m \<in> S key, c1)"
    and A: "along c c1 [] (view c)"
    using sinter_probe_ok [OF Cons.prems] by blast
  have v1: "view c1 = view c"
    using along_view [OF A] by simp
  let ?r = "if \<forall>(i, key) \<in> set iks. i \<noteq> smallest \<longrightarrow> m \<in> S key then result @ [m] else result"
  obtain c' where "sinter_each smallest iterated iks ms ?r c1 =
      Some (?r @ filter (\<lambda>m. \<forall>(i, key) \<in> set iks. i \<noteq> smallest \<longrightarrow> m \<in> S key) ms, c')" "along c1 c' [] (view c1)"
    using Cons.IH [OF along_ok(1) [OF A], of ?r] Cons.prems(2) unfolding v1 by blast
  then show ?case
    using p along_trans0 [OF A] v1 by (auto split: if_splits)
qed

lemma sinter_collect_ok:
  assumes "ctx_ok c"
  shows "(\<exists>r c'. sets_of keys (view c) = Inl r \<and> sinter_collect keys acc c = (None, c') \<and> performs c (Some c') (r, view c)) \<or>
    (\<exists>ss c'. sets_of keys (view c) = Inr ss \<and> sinter_collect keys acc c = (Some (acc @ keys), c') \<and> along c c' [] (view c) \<and>
       list_all2 (is_set_in (view c)) keys ss)"
  using assms
proof (induction keys arbitrary: c acc)
  case Nil
  then show ?case by (simp add: along_refl)
next
  case (Cons k keys)
  obtain v c1 where l: "ctx_lookup k c = (v, c1)" by force
  note L = along_lookup [OF Cons.prems l]
  show ?case
  proof (cases v)
    case None
    then show ?thesis
      using l L(3) performs_reply(7) [OF L(1)] by auto
  next
    case (Some w)
    then obtain e where e: "view c k = Some (val_abs w, e)"
      using L(3) by (cases "view c k") auto
    show ?thesis
    proof (cases "get_set w")
      case None
      then show ?thesis
        using l Some e performs_reply(2) [OF L(1), of kWrongType] get_none_abs(4) [OF None] by auto
    next
      case s: (Some s)
      then have w: "val_abs w = ASet (set_of s)"
        by (simp add: get_eq_simps)
      consider r c' where "sets_of keys (view c1) = Inl r" "sinter_collect keys (acc @ [k]) c1 = (None, c')" "performs c1 (Some c') (r, view c1)"
        | ss c' where "sets_of keys (view c1) = Inr ss" "sinter_collect keys (acc @ [k]) c1 = (Some ((acc @ [k]) @ keys), c')"
            "along c1 c' [] (view c1)" "list_all2 (is_set_in (view c1)) keys ss"
        using Cons.IH [OF along_ok(1) [OF L(1)], of "acc @ [k]"] by blast
      then show ?thesis
      proof cases
        case 1
        then show ?thesis
          using l Some s e w L(2) performs_along [OF L(1)] by auto
      next
        case 2
        then show ?thesis
          using l Some s e w L(2) along_trans0 [OF L(1)] is_set_in_def [of "view c" k "set_of s"] by auto
      qed
    qed
  qed
qed

lemma smallest_index_lt: "sizes \<noteq> [] \<Longrightarrow> smallest_index sizes < length sizes"
proof -
  have "foldl (\<lambda>s i. if sizes ! i < sizes ! s then i else s) b js < n" if "b < n" "\<forall>i \<in> set js. i < n" for b js n
    using that by (induction js arbitrary: b) auto
  then show ?thesis if "sizes \<noteq> []"
    using that by (simp add: smallest_index_def)
qed

lemma those_Some: "(\<And>x. x \<in> set xs \<Longrightarrow> f x = Some (g x)) \<Longrightarrow> those (map f xs) = Some (map g xs)"
  by (induction xs) auto

lemma sinter_achieves:
  assumes ok: "ctx_ok c" and n: "2 \<le> length argv" and dist: "distinct (drop 1 argv)"
  shows "achieves c (cmd_sinter argv c) (allows_sinter (drop 1 argv) (view c))"
proof -
  obtain keys where keys: "keys = drop 1 argv" by blast
  have dist: "distinct keys" and ne: "keys \<noteq> []"
    using dist n keys by auto
  from sinter_collect_ok [OF ok, of keys "[]"] consider
    r c' where "sets_of keys (view c) = Inl r" "sinter_collect keys [] c = (None, c')" "performs c (Some c') (r, view c)"
  | ss c1 where "sets_of keys (view c) = Inr ss" "sinter_collect keys [] c = (Some keys, c1)" "along c c1 [] (view c)"
      "list_all2 (is_set_in (view c)) keys ss"
    by auto
  then show ?thesis
  proof cases
    case 1
    then show ?thesis
      by (auto intro: performs_achieves simp: cmd_sinter_def allows_sinter_def keys [symmetric, simplified])
  next
    case 2
    have ok1: "ctx_ok c1" and v1: "view c1 = view c"
      using along_ok(1) [OF 2(3)] along_view [OF 2(3)] by simp_all
    define S where "S key = the (Option.bind (view c key) (a_set \<circ> fst))" for key
    have S: "is_set_in (view c1) key (S key)" if "key \<in> set keys" for key
      using list_all2_conv_all_nth [THEN iffD1, OF 2(4)] that unfolding v1
      by (auto simp: S_def is_set_in_def in_set_conv_nth)
    have ss: "ss = map S keys"
      using 2(4) by (intro nth_equalityI) (auto simp: list_all2_conv_all_nth is_set_in_def S_def)
    have at: "\<exists>s. set_at key c1 = Some s \<and> ht_invar s \<and> set_of s = S key" if "key \<in> set keys" for key
      using set_at_view [OF ok1] S [OF that] unfolding is_set_in_def by blast
    define sizes where "sizes = map (\<lambda>key. ht_size (the (set_at key c1))) keys"
    have sizes: "those (map (\<lambda>key. map_option ht_size (set_at key c1)) keys) = Some sizes"
      unfolding sizes_def by (rule those_Some) (use at in force)
    let ?i = "smallest_index sizes"
    have i: "?i < length keys"
      using smallest_index_lt [of sizes] ne by (auto simp: sizes_def)
    let ?it = "keys ! ?i"
    have it: "arg keys ?i = Some ?it" "?it \<in> set keys"
      using i nth_mem [OF i] by (simp add: arg_def, blast)
    obtain s where s: "set_at ?it c1 = Some s" "ht_invar s" "set_of s = S ?it"
      using at [OF it(2)] by blast
    let ?ms = "map fst (ht_for_each s)" and ?P = "\<lambda>m. \<forall>(i, key) \<in> set (enumerate 0 keys). i \<noteq> ?i \<longrightarrow> m \<in> S key"
    have mem: "(i, key) \<in> set (enumerate 0 keys) \<longleftrightarrow> i < length keys \<and> key = keys ! i" for i key
      by (auto simp: in_set_enumerate_eq)
    have probes: "probes (view c1) S ?i ?it (enumerate 0 keys)"
      using S dist i unfolding probes_def by (auto simp: mem nth_eq_iff_index_eq)
    obtain c2 where c2: "sinter_each ?i ?it (enumerate 0 keys) ?ms [] c1 = Some ([] @ filter ?P ?ms, c2)" "along c1 c2 [] (view c1)"
      using sinter_each_ok [OF ok1 probes] by blast
    have "?P m \<and> m \<in> S ?it \<longleftrightarrow> (\<forall>key \<in> set keys. m \<in> S key)" for m
    proof
      assume P: "?P m \<and> m \<in> S ?it"
      show "\<forall>key \<in> set keys. m \<in> S key"
      proof
        fix key
        assume "key \<in> set keys"
        then obtain j where j: "j < length keys" "key = keys ! j"
          by (auto simp: in_set_conv_nth)
        then show "m \<in> S key"
          using P mem [of j key] by (cases "j = ?i") auto
      qed
    next
      assume "\<forall>key \<in> set keys. m \<in> S key"
      then show "?P m \<and> m \<in> S ?it"
        using it(2) nth_mem by (auto simp: mem)
    qed
    then have "{m \<in> set_of s. ?P m} = \<Inter> (S ` set keys)"
      unfolding s(3) by blast
    then have "set (filter ?P ?ms) = \<Inter> (S ` set keys)"
      using set_of_entries(2) [OF s(2)] by simp
    moreover have "distinct (filter ?P ?ms)" "set ss = S ` set keys"
      using set_of_entries(1) [OF s(2)] ss by simp_all
    ultimately have "lists_set (\<Inter> (set ss)) (RArray (map RBulk (filter ?P ?ms)))"
      unfolding lists_set_def by (metis (no_types, lifting))
    moreover have "performs c (Some (reply_bulks (filter ?P ?ms) (reply_array_header (length (filter ?P ?ms)) c2)))
        (RArray (map RBulk (filter ?P ?ms)), view c)"
      using performs_bulks [OF along_trans0 [OF 2(3) c2(2)] refl] unfolding v1 by blast
    ultimately show ?thesis
      using 2(1,2) sizes it(1) s(1) c2(1)
      by (auto simp: cmd_sinter_def Let_def allows_sinter_def keys [symmetric, simplified] intro!: performs_achieves)
  qed
qed

end
