(* ===== verification/Cmd_Zset.thy ===== *)
theory Cmd_Zset
  imports Cmd_List
begin

text \<open>
  The sorted-set commands of \<^verbatim>\<open>commands/cmd_zset.cpp\<close>: option parsing, the updates through the pair of
  structures of a sorted set, and the queries by rank and by score that walk the tree directly.
  Following a null node pointer is undefined behaviour. Scores that reach the tree must not be NaN;
  \<open>no_nan\<close> says so of the arguments of a command.
\<close>

section \<open>Handlers\<close>

definition kSyntax :: string where "kSyntax = ''ERR syntax error''"
definition kNxXx :: string where "kNxXx = ''ERR XX and NX options at the same time are not compatible''"
definition kMinMax :: string where "kMinMax = ''ERR min or max is not a float''"
definition kNanResult :: string where "kNanResult = ''ERR resulting score is not a number (NaN)''"

definition as_zset_or_error :: "string \<Rightarrow> (ctx \<Rightarrow> ctx ub) \<Rightarrow> (zset \<Rightarrow> ctx \<Rightarrow> ctx ub) \<Rightarrow> ctx \<Rightarrow> ctx ub" where
  "as_zset_or_error = with_value get_zset"

definition get_or_create_zset :: "string \<Rightarrow> (zset \<Rightarrow> ctx \<Rightarrow> ctx ub) \<Rightarrow> ctx \<Rightarrow> ctx ub" where
  "get_or_create_zset = get_or_create get_zset (VZSet zset_empty)"

text \<open>The climb along parent pointers from the smallest node; \<open>Lf\<close> is the null pointer.\<close>

definition tree_root :: "entry avl_tree \<Rightarrow> entry avl ub" where
  "tree_root t =
    (if avl_size t = 0 then Some Lf
     else do {
       (n, e) \<leftarrow> avl_select 0 t;
       (cur, parents) \<leftarrow> locate n (root t) [];
       Some (plug parents cur)
     })"

definition first_with_score_greater_than :: "entry avl \<Rightarrow> f64 \<Rightarrow> (nat \<times> entry) option" where
  "first_with_score_greater_than r score = descend_first (\<lambda>e. f64_lt score (escore e)) r None"

record zadd_options =
  z_nx :: bool
  z_xx :: bool
  z_ch :: bool

definition zadd_options_init :: zadd_options where
  "zadd_options_init = \<lparr>z_nx = False, z_xx = False, z_ch = False\<rparr>"

fun zadd_flags :: "string list \<Rightarrow> zadd_options \<Rightarrow> zadd_options \<times> string list" where
  "zadd_flags [] opts = (opts, [])"
| "zadd_flags (a # rest) opts =
    (if ieq a ''NX'' then zadd_flags rest (opts\<lparr>z_nx := True\<rparr>)
     else if ieq a ''XX'' then zadd_flags rest (opts\<lparr>z_xx := True\<rparr>)
     else if ieq a ''CH'' then zadd_flags rest (opts\<lparr>z_ch := True\<rparr>)
     else (opts, a # rest))"

text \<open>The options and the score/member arguments after them, or the error text.\<close>

definition parse_zadd_options :: "string list \<Rightarrow> string + zadd_options \<times> string list" where
  "parse_zadd_options argv =
    (let (opts, rest) = zadd_flags (drop 2 argv) zadd_options_init in
     if z_nx opts \<and> z_xx opts then Inl kNxXx
     else if rest = [] \<or> odd (length rest) then Inl (wrong_arity (argv ! 0))
     else Inr (opts, rest))"

record score_bound =
  bvalue :: f64
  exclusive :: bool

definition parse_score_bound :: "string \<Rightarrow> score_bound option" where
  "parse_score_bound s =
    (let (ex, sv) = (case s of ch # rest \<Rightarrow> if ch = CHR ''('' then (True, rest) else (False, s) | [] \<Rightarrow> (False, s))
     in map_option (\<lambda>v. \<lparr>bvalue = v, exclusive = ex\<rparr>) (parse_double sv))"

definition reply_entry :: "bool \<Rightarrow> entry \<Rightarrow> ctx \<Rightarrow> ctx" where
  "reply_entry with_scores e c =
    (let c1 = reply_bulk (emember e) c in if with_scores then reply_double (escore e) c1 else c1)"

fun zrange_loop :: "zset \<Rightarrow> bool \<Rightarrow> bool \<Rightarrow> int \<Rightarrow> int \<Rightarrow> nat list \<Rightarrow> ctx \<Rightarrow> ctx ub" where
  "zrange_loop z rev_order with_scores len start [] c = Some c"
| "zrange_loop z rev_order with_scores len start (i # is) c =
    (let idx = (if rev_order then len - 1 - (start + int i) else start + int i) in
     if idx < 0 then None
     else do {
       (n, e) \<leftarrow> avl_select (nat idx) (ztree z);
       zrange_loop z rev_order with_scores len start is (reply_entry with_scores e c)
     })"

definition zrange_found :: "bool \<Rightarrow> bool \<Rightarrow> int \<Rightarrow> int \<Rightarrow> zset \<Rightarrow> ctx \<Rightarrow> ctx ub" where
  "zrange_found rev_order with_scores start0 stop0 z c1 =
    (let len = int (zset_size z);
         start1 = resolve_index start0 len; stop1 = resolve_index stop0 len;
         start = (if start1 < 0 then 0 else start1);
         stop = (if len \<le> stop1 then len - 1 else stop1)
     in if len = 0 \<or> stop < start then Some (reply_array_header 0 c1)
        else let cnt = nat (stop - start + 1)
          in zrange_loop z rev_order with_scores len start [0..<cnt]
               (reply_array_header (if with_scores then cnt * 2 else cnt) c1))"

definition zrange_generic :: "string list \<Rightarrow> bool \<Rightarrow> ctx \<Rightarrow> ctx ub" where
  "zrange_generic argv rev_order c = do {
     a \<leftarrow> arg argv 2;
     b \<leftarrow> arg argv 3;
     case (parse_int64 a, parse_int64 b) of
       (Some start0, Some stop0) \<Rightarrow>
         if (length argv = 5 \<and> \<not> ieq (argv ! 4) ''WITHSCORES'') \<or> 5 < length argv then Some (reply_error kSyntax c)
         else do {
           key \<leftarrow> arg argv 1;
           as_zset_or_error key (\<lambda>c1. Some (reply_array_header 0 c1))
             (zrange_found rev_order (length argv = 5) start0 stop0) c
         }
     | _ \<Rightarrow> Some (reply_error kNotInt c)
   }"

text \<open>All scores are parsed before anything is stored.\<close>

fun zadd_pairs :: "string list \<Rightarrow> (f64 \<times> string) list option" where
  "zadd_pairs (s # m # rest) = do { sc \<leftarrow> parse_double s; ps \<leftarrow> zadd_pairs rest; Some ((sc, m) # ps) }"
| "zadd_pairs _ = Some []"

fun zadd_loop :: "zadd_options \<Rightarrow> (f64 \<times> string) list \<Rightarrow> int \<Rightarrow> int \<Rightarrow> zset \<Rightarrow> (int \<times> int \<times> zset) ub" where
  "zadd_loop opts [] added changed z = Some (added, changed, z)"
| "zadd_loop opts ((sc, m) # ps) added changed z = do {
     (old, z1) \<leftarrow> zset_score_of m z;
     if (z_nx opts \<and> old \<noteq> None) \<or> (z_xx opts \<and> old = None) then zadd_loop opts ps added changed z1
     else do {
       ((applied, is_new), z2) \<leftarrow> zset_upsert m sc z1;
       if is_new then zadd_loop opts ps (added + 1) changed z2
       else do {
         old_score \<leftarrow> old;
         zadd_loop opts ps added (if \<not> f64_eq old_score sc then changed + 1 else changed) z2
       }
     }
   }"

definition cmd_zadd :: "string list \<Rightarrow> ctx \<Rightarrow> ctx ub" where
  "cmd_zadd argv c =
    (case parse_zadd_options argv of
       Inl e \<Rightarrow> Some (reply_error e c)
     | Inr (opts, rest) \<Rightarrow>
         (case zadd_pairs rest of
            None \<Rightarrow> Some (reply_error kNotFloat c)
          | Some ps \<Rightarrow> do {
              key \<leftarrow> arg argv 1;
              case ctx_lookup key c of (existing, c1) \<Rightarrow>
                if existing = None \<and> z_xx opts then Some (reply_integer 0 c1)
                else get_or_create_zset key (\<lambda>z c2. do {
                    (added, changed, z') \<leftarrow> zadd_loop opts ps 0 0 z;
                    Some (reply_integer (if z_ch opts then added + changed else added) (ctx_store key (VZSet z') c2))
                  }) c1
            }))"

fun zrem_loop :: "string list \<Rightarrow> int \<Rightarrow> zset \<Rightarrow> (int \<times> zset) ub" where
  "zrem_loop [] removed z = Some (removed, z)"
| "zrem_loop (m # ms) removed z = do {
     (b, z') \<leftarrow> zset_erase m z;
     zrem_loop ms (if b then removed + 1 else removed) z'
   }"

definition drop_empty_zset :: "string \<Rightarrow> zset \<Rightarrow> ctx \<Rightarrow> ctx" where
  "drop_empty_zset key z c = (if zset_is_empty z then ctx_del key c else c)"

definition cmd_zrem :: "string list \<Rightarrow> ctx \<Rightarrow> ctx ub" where
  "cmd_zrem argv c = do {
     key \<leftarrow> arg argv 1;
     as_zset_or_error key (\<lambda>c1. Some (reply_integer 0 c1))
       (\<lambda>z c1. do {
          (removed, z') \<leftarrow> zrem_loop (drop 2 argv) 0 z;
          Some (reply_integer removed (drop_empty_zset key z' (ctx_store key (VZSet z') c1)))
        }) c
   }"

definition cmd_zscore :: "string list \<Rightarrow> ctx \<Rightarrow> ctx ub" where
  "cmd_zscore argv c = do {
     key \<leftarrow> arg argv 1;
     as_zset_or_error key (\<lambda>c1. Some (reply_null_bulk c1))
       (\<lambda>z c1. do {
          m \<leftarrow> arg argv 2;
          (score, z') \<leftarrow> zset_score_of m z;
          let c2 = ctx_store key (VZSet z') c1;
          Some (case score of None \<Rightarrow> reply_null_bulk c2 | Some s \<Rightarrow> reply_double s c2)
        }) c
   }"

definition cmd_zincrby :: "string list \<Rightarrow> ctx \<Rightarrow> ctx ub" where
  "cmd_zincrby argv c = do {
     a \<leftarrow> arg argv 2;
     case parse_double a of
       None \<Rightarrow> Some (reply_error kNotFloat c)
     | Some delta \<Rightarrow> do {
         key \<leftarrow> arg argv 1;
         get_or_create_zset key (\<lambda>z c1. do {
           m \<leftarrow> arg argv 3;
           (old_score, z1) \<leftarrow> zset_score_of m z;
           let result = f64_add (case old_score of None \<Rightarrow> 0 | Some s \<Rightarrow> s) delta;
           if f64_isnan result then Some (reply_error kNanResult (ctx_store key (VZSet z1) c1))
           else do {
             (applied, z2) \<leftarrow> zset_upsert m result z1;
             Some (reply_double result (ctx_store key (VZSet z2) c1))
           } }) c
       }
   }"

definition cmd_zcard :: "string list \<Rightarrow> ctx \<Rightarrow> ctx ub" where
  "cmd_zcard argv c = do {
     key \<leftarrow> arg argv 1;
     as_zset_or_error key (\<lambda>c1. Some (reply_integer 0 c1)) (\<lambda>z c1. Some (reply_integer (int (zset_size z)) c1)) c
   }"

text \<open>\<^verbatim>\<open>ZRANK\<close> and \<^verbatim>\<open>ZREVRANK\<close> differ in how the rank is counted.\<close>

definition zrank_command :: "(zset \<Rightarrow> nat \<Rightarrow> int) \<Rightarrow> string list \<Rightarrow> ctx \<Rightarrow> ctx ub" where
  "zrank_command f argv c = do {
     key \<leftarrow> arg argv 1;
     as_zset_or_error key (\<lambda>c1. Some (reply_null_bulk c1))
       (\<lambda>z c1. do {
          m \<leftarrow> arg argv 2;
          (r, z') \<leftarrow> zset_rank m z;
          let c2 = ctx_store key (VZSet z') c1;
          Some (case r of None \<Rightarrow> reply_null_bulk c2 | Some i \<Rightarrow> reply_integer (f z i) c2)
        }) c
   }"

definition cmd_zrank :: "string list \<Rightarrow> ctx \<Rightarrow> ctx ub" where "cmd_zrank = zrank_command (\<lambda>z i. int i)"
definition cmd_zrevrank :: "string list \<Rightarrow> ctx \<Rightarrow> ctx ub" where "cmd_zrevrank = zrank_command (\<lambda>z i. int (zset_size z - 1 - i))"
definition cmd_zrange :: "string list \<Rightarrow> ctx \<Rightarrow> ctx ub" where "cmd_zrange argv = zrange_generic argv False"
definition cmd_zrevrange :: "string list \<Rightarrow> ctx \<Rightarrow> ctx ub" where "cmd_zrevrange argv = zrange_generic argv True"

fun zrbs_options :: "string list \<Rightarrow> bool \<times> int \<times> int \<Rightarrow> string + bool \<times> int \<times> int" where
  "zrbs_options [] opts = Inr opts"
| "zrbs_options (a # rest) (with_scores, limit_offset, limit_count) =
    (if ieq a ''WITHSCORES'' then zrbs_options rest (True, limit_offset, limit_count)
     else if ieq a ''LIMIT'' then
       (case rest of
          b # d # rest' \<Rightarrow>
            (case (parse_int64 b, parse_int64 d) of
               (Some off, Some cnt) \<Rightarrow> zrbs_options rest' (with_scores, off, cnt)
             | _ \<Rightarrow> Inl kNotInt)
        | _ \<Rightarrow> Inl kSyntax)
     else Inl kSyntax)"

definition low_entry :: "f64 \<Rightarrow> entry" where "low_entry v = \<lparr>escore = v, emember = []\<rparr>"

text \<open>The entries that the walk from \<^verbatim>\<open>lower_bound\<close> collects.\<close>

definition zrbs_matched :: "score_bound \<Rightarrow> score_bound \<Rightarrow> zset \<Rightarrow> entry list ub" where
  "zrbs_matched mn mx z = do {
     ns \<leftarrow> walk avl_next (\<lambda>e. f64_lt (bvalue mx) (escore e) \<or> (f64_eq (escore e) (bvalue mx) \<and> exclusive mx))
            (ztree z) (avl_size (ztree z)) (avl_lower_bound entry_less (low_entry (bvalue mn)) (ztree z));
     Some (filter (\<lambda>e. \<not> (exclusive mn \<and> f64_eq (escore e) (bvalue mn))) (map snd ns))
   }"

definition limit_window :: "int \<Rightarrow> int \<Rightarrow> 'a list \<Rightarrow> 'a list" where
  "limit_window limit_offset limit_count xs =
    (let offset = (if limit_offset < 0 then 0 else min (nat limit_offset) (length xs));
         cnt = (if 0 \<le> limit_count then min (nat limit_count) (length xs - offset) else length xs - offset)
     in take cnt (drop offset xs))"

definition cmd_zrangebyscore :: "string list \<Rightarrow> ctx \<Rightarrow> ctx ub" where
  "cmd_zrangebyscore argv c = do {
     a \<leftarrow> arg argv 2;
     b \<leftarrow> arg argv 3;
     case (parse_score_bound a, parse_score_bound b) of
       (Some mn, Some mx) \<Rightarrow>
         (case zrbs_options (drop 4 argv) (False, 0, -1) of
            Inl e \<Rightarrow> Some (reply_error e c)
          | Inr (with_scores, limit_offset, limit_count) \<Rightarrow> do {
              key \<leftarrow> arg argv 1;
              as_zset_or_error key (\<lambda>c1. Some (reply_array_header 0 c1))
                (\<lambda>z c1. do {
                   matched \<leftarrow> zrbs_matched mn mx z;
                   let shown = limit_window limit_offset limit_count matched;
                   Some (fold (reply_entry with_scores) shown
                     (reply_array_header (if with_scores then length shown * 2 else length shown) c1))
                 }) c
            })
     | _ \<Rightarrow> Some (reply_error kMinMax c)
   }"

definition rank_or_size :: "(nat \<times> entry) option \<Rightarrow> zset \<Rightarrow> nat ub" where
  "rank_or_size n z = (case n of Some (a, e) \<Rightarrow> avl_rank a (ztree z) | None \<Rightarrow> Some (zset_size z))"

definition cmd_zcount :: "string list \<Rightarrow> ctx \<Rightarrow> ctx ub" where
  "cmd_zcount argv c = do {
     a \<leftarrow> arg argv 2;
     b \<leftarrow> arg argv 3;
     case (parse_score_bound a, parse_score_bound b) of
       (Some mn, Some mx) \<Rightarrow> do {
         key \<leftarrow> arg argv 1;
         as_zset_or_error key (\<lambda>c1. Some (reply_integer 0 c1))
           (\<lambda>z c1. do {
              r \<leftarrow> tree_root (ztree z);
              let lo = (if exclusive mn then first_with_score_greater_than r (bvalue mn)
                        else avl_lower_bound entry_less (low_entry (bvalue mn)) (ztree z));
              let hi = (if exclusive mx then avl_lower_bound entry_less (low_entry (bvalue mx)) (ztree z)
                        else first_with_score_greater_than r (bvalue mx));
              rank_lo \<leftarrow> rank_or_size lo z;
              rank_hi \<leftarrow> rank_or_size hi z;
              Some (reply_integer (if rank_lo < rank_hi then int (rank_hi - rank_lo) else 0) c1)
            }) c
       }
     | _ \<Rightarrow> Some (reply_error kMinMax c)
   }"

fun zpopmin_loop :: "nat \<Rightarrow> zset \<Rightarrow> ctx \<Rightarrow> (zset \<times> ctx) ub" where
  "zpopmin_loop 0 z c = Some (z, c)"
| "zpopmin_loop (Suc n) z c = do {
     (a, e) \<leftarrow> avl_select 0 (ztree z);
     (b, z') \<leftarrow> zset_erase (emember e) z;
     zpopmin_loop n z' (reply_entry True e c)
   }"

definition cmd_zpopmin :: "string list \<Rightarrow> ctx \<Rightarrow> ctx ub" where
  "cmd_zpopmin argv c =
    (case pop_count argv of
       Inl e \<Rightarrow> Some (reply_error e c)
     | Inr cnt \<Rightarrow> do {
         key \<leftarrow> arg argv 1;
         as_zset_or_error key (\<lambda>c1. Some (reply_array_header 0 c1))
           (\<lambda>z c1. do {
              let n = nat (min (case cnt of None \<Rightarrow> 1 | Some k \<Rightarrow> k) (int (zset_size z)));
              (z', c2) \<leftarrow> zpopmin_loop n z (reply_array_header (n * 2) c1);
              Some (drop_empty_zset key z' (ctx_store key (VZSet z') c2))
            }) c
       })"

section \<open>Specifications\<close>

text \<open>The entries of a score map in order: by score, then by member.\<close>

definition ranking :: "(string \<rightharpoonup> f64) \<Rightarrow> entry list \<Rightarrow> bool" where
  "ranking S es \<longleftrightarrow> sorted_wrt entry_less es \<and> distinct es \<and> (\<forall>e. e \<in> set es \<longleftrightarrow> S (emember e) = Some (escore e))"

definition entry_replies :: "bool \<Rightarrow> entry \<Rightarrow> reply list" where
  "entry_replies with_scores e = RBulk (emember e) # (if with_scores then [RBulk (double_text (escore e))] else [])"

definition reply_entries :: "bool \<Rightarrow> entry list \<Rightarrow> reply" where
  "reply_entries with_scores es = RArray (concat (map (entry_replies with_scores) es))"

fun spec_zadd_loop :: "zadd_options \<Rightarrow> (f64 \<times> string) list \<Rightarrow> int \<Rightarrow> int \<Rightarrow> (string \<rightharpoonup> f64) \<Rightarrow> int \<times> int \<times> (string \<rightharpoonup> f64)" where
  "spec_zadd_loop opts [] added changed S = (added, changed, S)"
| "spec_zadd_loop opts ((sc, m) # ps) added changed S =
    (case S m of
       None \<Rightarrow> if z_xx opts then spec_zadd_loop opts ps added changed S
               else spec_zadd_loop opts ps (added + 1) changed (S(m \<mapsto> sc))
     | Some old \<Rightarrow> if z_nx opts then spec_zadd_loop opts ps added changed S
               else if f64_eq old sc then spec_zadd_loop opts ps added changed S
               else spec_zadd_loop opts ps added (changed + 1) (S(m \<mapsto> sc)))"

definition spec_zadd :: "string list \<Rightarrow> amap \<Rightarrow> reply \<times> amap" where
  "spec_zadd argv M = (case parse_zadd_options argv of
     Inl e \<Rightarrow> (RError (sanitize_error_text e), M)
   | Inr (opts, rest) \<Rightarrow> (case zadd_pairs rest of
       None \<Rightarrow> (RError kNotFloat, M)
     | Some ps \<Rightarrow> if M (argv ! 1) = None \<and> z_xx opts then (RInt 0, M)
         else spec_create a_zset AZSet Map.empty (argv ! 1) (\<lambda>S M.
           case spec_zadd_loop opts ps 0 0 S of (added, changed, S') \<Rightarrow>
             (RInt (if z_ch opts then added + changed else added), put (argv ! 1) (AZSet S') M)) M))"

definition spec_zrem :: "string \<Rightarrow> string list \<Rightarrow> amap \<Rightarrow> reply \<times> amap" where
  "spec_zrem key ms M = spec_value a_zset key (RInt 0, M)
     (\<lambda>S. (RInt (int (card (set ms \<inter> dom S))), put key (AZSet (S |` (- set ms))) M)) M"

definition spec_zscore :: "string \<Rightarrow> string \<Rightarrow> amap \<Rightarrow> reply \<times> amap" where
  "spec_zscore key m M = spec_value a_zset key (RNull, M)
     (\<lambda>S. (case S m of None \<Rightarrow> RNull | Some s \<Rightarrow> RBulk (double_text s), M)) M"

definition spec_zincrby :: "string list \<Rightarrow> amap \<Rightarrow> reply \<times> amap" where
  "spec_zincrby argv M = (case parse_double (argv ! 2) of
     None \<Rightarrow> (RError kNotFloat, M)
   | Some delta \<Rightarrow> spec_create a_zset AZSet Map.empty (argv ! 1) (\<lambda>S M.
       let r = f64_add (case S (argv ! 3) of None \<Rightarrow> 0 | Some s \<Rightarrow> s) delta in
       if f64_isnan r then (RError kNanResult, M)
       else (RBulk (double_text r), put (argv ! 1) (AZSet (score_put (argv ! 3) r S)) M)) M)"

definition spec_zcard :: "string \<Rightarrow> amap \<Rightarrow> reply \<times> amap" where
  "spec_zcard key M = spec_value a_zset key (RInt 0, M) (\<lambda>S. (RInt (int (card (dom S))), M)) M"

definition spec_zrank :: "bool \<Rightarrow> string \<Rightarrow> string \<Rightarrow> amap \<Rightarrow> reply \<times> amap" where
  "spec_zrank rev_order key m M = spec_value a_zset key (RNull, M)
     (\<lambda>S. (case spec_rank S m of None \<Rightarrow> RNull
          | Some i \<Rightarrow> RInt (if rev_order then int (card (dom S)) - 1 - int i else int i), M)) M"

text \<open>The entries at the positions from \<open>a\<close> to \<open>b\<close>, negative ones counting from the back.\<close>

definition lists_range :: "bool \<Rightarrow> bool \<Rightarrow> int \<Rightarrow> int \<Rightarrow> (string \<rightharpoonup> f64) \<Rightarrow> reply \<Rightarrow> bool" where
  "lists_range rev_order with_scores a b S r \<longleftrightarrow>
    (\<exists>es. ranking S es \<and> (let xs = (if rev_order then rev es else es); len = int (length xs) in
       r = reply_entries with_scores
         (map ((!) xs) (filter (\<lambda>i. resolve_index a len \<le> int i \<and> int i \<le> resolve_index b len) [0..<length xs]))))"

definition allows_zrange :: "bool \<Rightarrow> string list \<Rightarrow> amap \<Rightarrow> reply \<Rightarrow> amap \<Rightarrow> bool" where
  "allows_zrange rev_order argv M = (case (parse_int64 (argv ! 2), parse_int64 (argv ! 3)) of
     (Some a, Some b) \<Rightarrow>
       if (length argv = 5 \<and> \<not> ieq (argv ! 4) ''WITHSCORES'') \<or> 5 < length argv
       then (\<lambda>r M'. r = RError kSyntax \<and> M' = M)
       else allows_value a_zset (argv ! 1) (\<lambda>r M'. r = RArray [] \<and> M' = M)
         (\<lambda>S r M'. M' = M \<and> lists_range rev_order (length argv = 5) a b S r) M
   | _ \<Rightarrow> (\<lambda>r M'. r = RError kNotInt \<and> M' = M))"

definition in_score_range :: "score_bound \<Rightarrow> score_bound \<Rightarrow> f64 \<Rightarrow> bool" where
  "in_score_range mn mx s \<longleftrightarrow>
    (if exclusive mn then f64_lt (bvalue mn) s else f64_lt (bvalue mn) s \<or> f64_eq (bvalue mn) s) \<and>
    (if exclusive mx then f64_lt s (bvalue mx) else f64_lt s (bvalue mx) \<or> f64_eq s (bvalue mx))"

definition allows_zrangebyscore :: "string list \<Rightarrow> amap \<Rightarrow> reply \<Rightarrow> amap \<Rightarrow> bool" where
  "allows_zrangebyscore argv M = (case (parse_score_bound (argv ! 2), parse_score_bound (argv ! 3)) of
     (Some mn, Some mx) \<Rightarrow> (case zrbs_options (drop 4 argv) (False, 0, -1) of
         Inl e \<Rightarrow> (\<lambda>r M'. r = RError e \<and> M' = M)
       | Inr (with_scores, off, cnt) \<Rightarrow> allows_value a_zset (argv ! 1) (\<lambda>r M'. r = RArray [] \<and> M' = M)
           (\<lambda>S r M'. M' = M \<and> (\<exists>es. ranking S es \<and>
              r = reply_entries with_scores (limit_window off cnt (filter (\<lambda>e. in_score_range mn mx (escore e)) es)))) M)
   | _ \<Rightarrow> (\<lambda>r M'. r = RError kMinMax \<and> M' = M))"

definition spec_zcount :: "string list \<Rightarrow> amap \<Rightarrow> reply \<times> amap" where
  "spec_zcount argv M = (case (parse_score_bound (argv ! 2), parse_score_bound (argv ! 3)) of
     (Some mn, Some mx) \<Rightarrow> spec_value a_zset (argv ! 1) (RInt 0, M)
       (\<lambda>S. (RInt (int (card {m \<in> dom S. in_score_range mn mx (the (S m))})), M)) M
   | _ \<Rightarrow> (RError kMinMax, M))"

definition allows_zpopmin :: "string list \<Rightarrow> amap \<Rightarrow> reply \<Rightarrow> amap \<Rightarrow> bool" where
  "allows_zpopmin argv M = (case pop_count argv of
     Inl e \<Rightarrow> (\<lambda>r M'. r = RError (sanitize_error_text e) \<and> M' = M)
   | Inr cnt \<Rightarrow> allows_value a_zset (argv ! 1) (\<lambda>r M'. r = RArray [] \<and> M' = M)
       (\<lambda>S r M'. \<exists>es. ranking S es \<and> (let shown = take (nat (case cnt of None \<Rightarrow> 1 | Some k \<Rightarrow> k)) es in
          r = reply_entries True shown \<and> M' = put (argv ! 1) (AZSet (S |` (- (emember ` set shown)))) M)) M)"

text \<open>No argument, with or without the mark of an exclusive bound, is read as NaN.\<close>

definition no_nan :: "string list \<Rightarrow> bool" where
  "no_nan argv \<longleftrightarrow> (\<forall>a \<in> set argv. \<forall>s x. s = a \<or> a = CHR ''('' # s \<longrightarrow> parse_double s = Some x \<longrightarrow> \<not> f64_isnan x)"

section \<open>Shared facts\<close>

lemma zerr_ok [simp]:
  "sanitize_error_text kSyntax = kSyntax" "sanitize_error_text kNxXx = kNxXx" "sanitize_error_text kMinMax = kMinMax"
  "sanitize_error_text kNanResult = kNanResult"
  by (simp_all add: sanitize_error_text_def kSyntax_def kNxXx_def kMinMax_def kNanResult_def CR_def LF_def)

lemma no_nanD:
  assumes "no_nan argv" "a \<in> set argv"
  shows "parse_double a = Some x \<Longrightarrow> \<not> f64_isnan x" "parse_score_bound a = Some b \<Longrightarrow> \<not> f64_isnan (bvalue b)"
  using assms unfolding no_nan_def parse_score_bound_def
  by (blast, auto simp: split_beta split: list.splits if_splits)

lemma zset_ranking: "zset_invar z \<Longrightarrow> ranking (zset_map z) (zset_list z)"
  using zset_list_sorted zset_list_mem zset_members_distinct by (auto simp: ranking_def distinct_map)

lemma zset_empty_iff: "zset_invar z \<Longrightarrow> zset_is_empty z \<longleftrightarrow> \<not> val_nonempty (VZSet z)"
  by (simp add: zset_is_empty_def val_nonempty_def zset_size_def ht_empty_def)

lemma drop_empty_zset_along:
  assumes "cell c c1 key (VZSet z) M" "zset_invar z'"
  shows "along c (drop_empty_zset key z' (ctx_store key (VZSet z') c1)) [] (put key (AZSet (zset_map z')) M)"
  using along_store [OF assms(1), of "VZSet z'"] along_drop [OF assms(1), of "VZSet z'"] zset_empty_iff [OF assms(2)] assms(2)
  by (simp add: drop_empty_zset_def)

lemma along_entries:
  assumes "ctx_ok c"
  shows "along c (fold (reply_entry ws) es c) (concat (map encode (concat (map (entry_replies ws) es)))) (view c) \<and>
    db (fold (reply_entry ws) es c) = db c"
  using assms
proof (induction es arbitrary: c)
  case Nil
  then show ?case by (simp add: along_refl)
next
  case (Cons e es)
  note A = along_reply(4) [OF Cons.prems, of "emember e"]
  note B = along_quiet [OF A along_reply(5) [OF along_ok(1) [OF A], of "escore e"]]
  have E: "along c (reply_entry ws e c) (concat (map encode (entry_replies ws e))) (view c)" "db (reply_entry ws e c) = db c"
    using A B by (auto simp: reply_entry_def entry_replies_def Let_def simp del: encode.simps)
  show ?case
    using along_quiet [OF E(1) conjunct1 [OF Cons.IH [OF along_ok(1) [OF E(1)]]]] Cons.IH [OF along_ok(1) [OF E(1)]] E(2)
    by (simp del: encode.simps)
qed

lemma length_entry_replies: "length (concat (map (entry_replies ws) es)) = (if ws then length es * 2 else length es)"
  by (induction es) (auto simp: entry_replies_def)

lemma performs_entries:
  assumes A: "along c c1 [] M" and n: "n = (if ws then length es * 2 else length es)"
  shows "performs c (Some (fold (reply_entry ws) es (reply_array_header n c1))) (reply_entries ws es, M)"
proof -
  let ?h = "reply_array_header n c1" and ?rs = "concat (map (entry_replies ws) es)"
  note H = along_reply(9) [OF along_ok(1) [OF A], of n]
  have "along c ?h (CHR ''*'' # nat_to_string n @ CRLF) M"
    using along_quiet [OF A H] by simp
  from along_quiet [OF this] along_entries [OF along_ok(1) [OF H], of ws es]
  have "along c (fold (reply_entry ws) es ?h) ((CHR ''*'' # nat_to_string n @ CRLF) @ concat (map encode ?rs)) M"
    by blast
  then show ?thesis
    unfolding reply_entries_def using n length_entry_replies [of ws es]
    by (intro performs_array) (auto simp: list_all_iff entry_replies_def)
qed

lemma zset_score_of_keep:
  assumes "cell c c1 key (VZSet z) M" "val_nonempty (VZSet z)" "zset_invar z'" "zset_map z' = zset_map z"
  shows "along c (ctx_store key (VZSet z') c1) [] M"
  using along_keep [OF assms(1,2), of "VZSet z'"] assms(3,4) by simp

section \<open>Updates\<close>

lemma zrem_loop_ok:
  assumes "zset_invar z"
  shows "\<exists>z'. zrem_loop ms n z = Some (n + int (card (set ms \<inter> dom (zset_map z))), z') \<and> zset_invar z' \<and>
    zset_map z' = zset_map z |` (- set ms)"
  using assms
proof (induction ms arbitrary: n z)
  case Nil
  then show ?case by simp
next
  case (Cons m ms)
  let ?S = "zset_map z"
  obtain z1 where z1: "zset_erase m z = Some (?S m \<noteq> None, z1)" "zset_invar z1" "zset_map z1 = ?S(m := None)"
    using zset_erase_spec [OF Cons.prems] by blast
  let ?n = "if ?S m \<noteq> None then n + 1 else n"
  obtain z' where z': "zrem_loop ms ?n z1 = Some (?n + int (card (set ms \<inter> dom (zset_map z1))), z')" "zset_invar z'"
    "zset_map z' = zset_map z1 |` (- set ms)"
    using Cons.IH [OF z1(2), of ?n] by blast
  have "set (m # ms) \<inter> dom ?S = (if ?S m \<noteq> None then insert m (set ms \<inter> dom (zset_map z1)) else set ms \<inter> dom (zset_map z1))"
    using z1(3) by auto
  moreover have "m \<notin> set ms \<inter> dom (zset_map z1)" "finite (set ms \<inter> dom (zset_map z1))"
    using z1(3) by auto
  ultimately have "n + int (card (set (m # ms) \<inter> dom ?S)) = ?n + int (card (set ms \<inter> dom (zset_map z1)))"
    by (simp del: set_simps)
  moreover have "?S |` (- set (m # ms)) = zset_map z1 |` (- set ms)"
    unfolding z1(3) by (auto simp: fun_eq_iff restrict_map_def)
  ultimately show ?case
    using z1(1) z' by (auto simp del: set_simps)
qed

lemma zrem_performs:
  assumes ok: "ctx_ok c" and n: "2 \<le> length argv"
  shows "performs c (cmd_zrem argv c) (spec_zrem (argv ! 1) (drop 2 argv) (view c))"
proof -
  have found: "performs c (do { (removed, z') \<leftarrow> zrem_loop ms 0 z;
          Some (reply_integer removed (drop_empty_zset k z' (ctx_store k (VZSet z') c1))) })
      (RInt (int (card (set ms \<inter> dom (zset_map z)))), put k (AZSet (zset_map z |` (- set ms))) (view c))"
    if cell: "cell c c1 k (VZSet z) (view c)" and inv: "zset_invar z" for k c1 z ms
  proof -
    obtain z' where z': "zrem_loop ms 0 z = Some (int (card (set ms \<inter> dom (zset_map z))), z')" "zset_invar z'"
      "zset_map z' = zset_map z |` (- set ms)"
      using zrem_loop_ok [OF inv, of ms 0] by auto
    show ?thesis
      using performs_reply(3) [OF drop_empty_zset_along [OF cell z'(2)]] z' by simp
  qed
  show ?thesis
    using n unfolding cmd_zrem_def spec_zrem_def as_zset_or_error_def
    by (auto intro!: kzset.with_value_performs [OF ok] intro: performs_looked found)
qed

lemma zscore_performs:
  assumes ok: "ctx_ok c" and n: "3 \<le> length argv"
  shows "performs c (cmd_zscore argv c) (spec_zscore (argv ! 1) (argv ! 2) (view c))"
proof -
  have found: "performs c (do { (score, z') \<leftarrow> zset_score_of m z; let c2 = ctx_store k (VZSet z') c1;
          Some (case score of None \<Rightarrow> reply_null_bulk c2 | Some s \<Rightarrow> reply_double s c2) })
      (case zset_map z m of None \<Rightarrow> RNull | Some s \<Rightarrow> RBulk (double_text s), view c)"
    if cell: "cell c c1 k (VZSet z) (view c)" "val_nonempty (VZSet z)" and inv: "zset_invar z" for k c1 z m
  proof -
    obtain z' where z': "zset_score_of m z = Some (zset_map z m, z')" "zset_invar z'" "zset_map z' = zset_map z"
      using zset_score_of_spec [OF inv] by blast
    note A = zset_score_of_keep [OF cell z'(2,3)]
    show ?thesis
      using performs_reply(5) [OF A] performs_double [OF A] z'(1) by (auto split: option.split)
  qed
  show ?thesis
    using n unfolding cmd_zscore_def spec_zscore_def as_zset_or_error_def
    by (auto intro!: kzset.with_value_performs [OF ok] intro: performs_looked found)
qed

lemma zcard_performs:
  assumes ok: "ctx_ok c" and n: "2 \<le> length argv"
  shows "performs c (cmd_zcard argv c) (spec_zcard (argv ! 1) (view c))"
  using n unfolding cmd_zcard_def spec_zcard_def as_zset_or_error_def
  by (auto intro!: kzset.with_value_performs [OF ok] intro: performs_looked performs_peek simp: zset_size_spec(2))

lemma zrank_performs:
  assumes ok: "ctx_ok c" and n: "3 \<le> length argv"
  shows "performs c (cmd_zrank argv c) (spec_zrank False (argv ! 1) (argv ! 2) (view c))"
    "performs c (cmd_zrevrank argv c) (spec_zrank True (argv ! 1) (argv ! 2) (view c))"
proof -
  have main: "performs c (zrank_command f argv c) (spec_zrank b (argv ! 1) (argv ! 2) (view c))"
    if f: "\<And>z i. zset_invar z \<Longrightarrow> i < zset_size z \<Longrightarrow> f z i = (if b then int (zset_size z) - 1 - int i else int i)" for f b
  proof -
    have found: "performs c (do { (r, z') \<leftarrow> zset_rank m z; let c2 = ctx_store k (VZSet z') c1;
          Some (case r of None \<Rightarrow> reply_null_bulk c2 | Some i \<Rightarrow> reply_integer (f z i) c2) })
        (case spec_rank (zset_map z) m of None \<Rightarrow> RNull
          | Some i \<Rightarrow> RInt (if b then int (card (dom (zset_map z))) - 1 - int i else int i), view c)"
      if cell: "cell c c1 k (VZSet z) (view c)" "val_nonempty (VZSet z)" and inv: "zset_invar z" for k c1 z m
    proof -
      obtain z' r where z': "zset_rank m z = Some (r, z')" "zset_invar z'" "zset_map z' = zset_map z"
        "r = None \<longleftrightarrow> zset_map z m = None" "\<forall>i. r = Some i \<longrightarrow> i < length (zset_list z) \<and> emember (zset_list z ! i) = m"
        by (insert zset_rank_spec [OF inv, of m], elim exE conjE, rule that, assumption+)
      have r: "r = spec_rank (zset_map z) m"
        using z'(4,5) zset_rank_card [OF inv, of _ m] by (cases r) (auto simp: spec_rank_def)
      note A = zset_score_of_keep [OF cell z'(2,3)]
      show ?thesis
      proof (cases r)
        case None
        then show ?thesis using performs_reply(5) [OF A] z'(1) r by simp
      next
        case (Some i)
        then have "f z i = (if b then int (card (dom (zset_map z))) - 1 - int i else int i)"
          using f [OF inv, of i] z'(5) zset_size_spec [OF inv] by simp
        then show ?thesis using Some performs_reply(3) [OF A, of "f z i"] z'(1) r by simp
      qed
    qed
    have "performs c (with_value get_zset k (\<lambda>c1. Some (reply_null_bulk c1)) (\<lambda>z c1. do { (r, z') \<leftarrow> zset_rank m z;
          let c2 = ctx_store k (VZSet z') c1;
          Some (case r of None \<Rightarrow> reply_null_bulk c2 | Some i \<Rightarrow> reply_integer (f z i) c2) }) c) (spec_zrank b k m (view c))" for k m
      unfolding spec_zrank_def by (rule kzset.with_value_performs [OF ok]) (rule performs_looked(1) found, assumption+)+
    then show ?thesis
      using n by (simp add: zrank_command_def as_zset_or_error_def)
  qed
  show "performs c (cmd_zrank argv c) (spec_zrank False (argv ! 1) (argv ! 2) (view c))"
    "performs c (cmd_zrevrank argv c) (spec_zrank True (argv ! 1) (argv ! 2) (view c))"
    unfolding cmd_zrank_def cmd_zrevrank_def by (rule main; simp add: of_nat_diff)+
qed

lemma zincrby_performs:
  assumes ok: "ctx_ok c" and n: "4 \<le> length argv" and nn: "no_nan argv"
  shows "performs c (cmd_zincrby argv c) (spec_zincrby argv (view c))"
proof (cases "parse_double (argv ! 2)")
  case None
  then show ?thesis
    using n performs_now(6) [OF ok, of kNotFloat] by (simp add: cmd_zincrby_def spec_zincrby_def)
next
  case (Some delta)
  let ?k = "argv ! Suc 0" and ?m = "argv ! 3"
  have d: "\<not> f64_isnan delta"
    using no_nanD(1) [OF nn _ Some] n by simp
  let ?H = "\<lambda>z c1. do {
           (old_score, z1) \<leftarrow> zset_score_of ?m z;
           let result = f64_add (case old_score of None \<Rightarrow> 0 | Some s \<Rightarrow> s) delta;
           if f64_isnan result then Some (reply_error kNanResult (ctx_store ?k (VZSet z1) c1))
           else do {
             (applied, z2) \<leftarrow> zset_upsert ?m result z1;
             Some (reply_double result (ctx_store ?k (VZSet z2) c1))
           } }"
  let ?spec = "\<lambda>S M. let r = f64_add (case S ?m of None \<Rightarrow> 0 | Some s \<Rightarrow> s) delta in
       if f64_isnan r then (RError kNanResult, M)
       else (RBulk (double_text r), put ?k (AZSet (score_put ?m r S)) M)"
  have found: "performs c (?H z c1) (?spec (zset_map z) M)"
    if cell: "cell c c1 ?k (VZSet z) M" and inv: "zset_invar z" for c1 z M
  proof -
    let ?S = "zset_map z"
    let ?r = "f64_add (case ?S ?m of None \<Rightarrow> 0 | Some s \<Rightarrow> s) delta"
    obtain z1 where z1: "zset_score_of ?m z = Some (?S ?m, z1)" "zset_invar z1" "zset_map z1 = ?S"
      using zset_score_of_spec [OF inv] by blast
    show ?thesis
    proof (cases "f64_isnan ?r")
      case True
      have "f64_isinf (0 :: f64) = False" "f64_isnan (0 :: f64) = False"
        by (simp_all add: f64_isinf_def f64_isnan_def f64_mag_def F64_INF_def)
      then have "?S ?m \<noteq> None"
        using True d by (cases "?S ?m") (auto simp: f64_add_isnan)
      then have "val_nonempty (VZSet z)"
        using val_nonempty_zset [OF inv] by auto
      from zset_score_of_keep [OF cell this z1(2,3)] show ?thesis
        using performs_reply(2) [of c "ctx_store ?k (VZSet z1) c1" M kNanResult] True z1(1) by simp
    next
      case False
      obtain z2 where z2: "zset_upsert ?m ?r z1 = Some ((?r, ?S ?m = None), z2)" "zset_invar z2" "zset_map z2 = score_put ?m ?r ?S"
        using zset_upsert_spec [OF z1(2) False, of ?m] z1(3) by auto
      have "score_put ?m ?r ?S ?m \<noteq> None"
        by (auto simp: score_put_def split: option.splits)
      then have "val_nonempty (VZSet z2)"
        using val_nonempty_zset [OF z2(2)] z2(3) by auto
      then show ?thesis
        using performs_double [OF along_store [OF cell, of "VZSet z2"], of ?r] False z1(1) z2 by (simp add: Let_def)
    qed
  qed
  have "performs c (get_or_create_zset ?k ?H c) (spec_create a_zset AZSet (zset_map zset_empty) ?k ?spec (view c))"
    unfolding get_or_create_zset_def by (rule kzset.get_or_create_performs [OF ok zset_empty_spec(1) refl]) (rule found)
  moreover have "cmd_zincrby argv c = get_or_create_zset ?k ?H c"
    using n Some by (simp add: cmd_zincrby_def)
  ultimately show ?thesis
    unfolding spec_zincrby_def Some zset_empty_spec(2) One_nat_def by simp
qed

section \<open>ZADD\<close>

lemma zadd_loop_ok:
  assumes "zset_invar z" "\<forall>(sc, m) \<in> set ps. \<not> f64_isnan sc"
  shows "\<exists>z'. zadd_loop opts ps a ch z =
      (case spec_zadd_loop opts ps a ch (zset_map z) of (a', ch', S') \<Rightarrow> Some (a', ch', z')) \<and>
    zset_invar z' \<and> zset_map z' = snd (snd (spec_zadd_loop opts ps a ch (zset_map z)))"
  using assms
proof (induction ps arbitrary: a ch z)
  case Nil
  then show ?case by auto
next
  case (Cons p ps)
  obtain sc m where p: "p = (sc, m)" by force
  let ?S = "zset_map z"
  have nn: "\<not> f64_isnan sc" and rest: "\<forall>(sc, m) \<in> set ps. \<not> f64_isnan sc"
    using Cons.prems(2) p by auto
  obtain z1 where z1: "zset_score_of m z = Some (?S m, z1)" "zset_invar z1" "zset_map z1 = ?S"
    using zset_score_of_spec [OF Cons.prems(1)] by blast
  obtain z2 where z2: "zset_upsert m sc z1 = Some ((sc, ?S m = None), z2)" "zset_invar z2" "zset_map z2 = score_put m sc ?S"
    using zset_upsert_spec [OF z1(2) nn, of m] z1(3) by auto
  show ?case
  proof (cases "?S m")
    case None
    then have "zset_map z2 = ?S(m \<mapsto> sc)"
      using z2(3) by (simp add: score_put_def)
    then show ?thesis
      using None z1 z2(1) p Cons.IH [OF z1(2) rest, of a ch] Cons.IH [OF z2(2) rest, of "a + 1" ch]
      by (auto simp del: fun_upd_apply)
  next
    case (Some old)
    then have "zset_map z2 = (if f64_eq old sc then ?S else ?S(m \<mapsto> sc))"
      using z2(3) by (simp add: score_put_def)
    then show ?thesis
      using Some z1 z2(1) p Cons.IH [OF z1(2) rest, of a ch] Cons.IH [OF z2(2) rest, of a ch] Cons.IH [OF z2(2) rest, of a "ch + 1"]
      by (auto simp del: fun_upd_apply)
  qed
qed

lemma spec_zadd_loop_grows: "dom S \<subseteq> dom (snd (snd (spec_zadd_loop opts ps a ch S)))"
proof (induction opts ps a ch S rule: spec_zadd_loop.induct)
  case (2 opts sc m ps a ch S)
  then show ?case
    by (cases "S m") (auto simp del: fun_upd_apply simp: subset_iff)
qed simp

lemma spec_zadd_loop_nonempty:
  assumes "ps \<noteq> []" "\<not> z_xx opts \<or> dom S \<noteq> {}"
  shows "dom (snd (snd (spec_zadd_loop opts ps a ch S))) \<noteq> {}"
proof (cases "dom S = {}")
  case True
  obtain sc m ps' where "ps = (sc, m) # ps'"
    using assms(1) by (cases ps) auto
  then show ?thesis
    using True assms(2) spec_zadd_loop_grows [of "S(m \<mapsto> sc)" opts ps' "a + 1" ch] by auto
next
  case False
  then show ?thesis
    using spec_zadd_loop_grows [of S opts ps a ch] by blast
qed

lemma zadd_flags_subset: "set (snd (zadd_flags as opts)) \<subseteq> set as"
  by (induction "as" opts rule: zadd_flags.induct) auto

lemma zadd_pairs_no_nan:
  assumes "zadd_pairs rest = Some ps" "no_nan argv" "set rest \<subseteq> set argv"
  shows "\<forall>(sc, m) \<in> set ps. \<not> f64_isnan sc"
  using assms
proof (induction rest arbitrary: ps rule: zadd_pairs.induct)
  case (1 s m rest)
  then obtain sc ps' where "parse_double s = Some sc" "zadd_pairs rest = Some ps'" "ps = (sc, m) # ps'"
    by (auto split: Option.bind_splits)
  then show ?case
    using 1 no_nanD(1) [OF \<open>no_nan argv\<close>, of s sc] by auto
qed auto

lemma parse_zadd_options_Inr:
  assumes "parse_zadd_options argv = Inr (opts, rest)"
  shows "rest \<noteq> []" "set rest \<subseteq> set argv" "even (length rest)"
  using assms zadd_flags_subset [of "drop 2 argv" zadd_options_init] set_drop_subset [of 2 argv]
  by (auto simp: parse_zadd_options_def split: prod.splits if_splits)

lemma zadd_pairs_ne: "zadd_pairs rest = Some ps \<Longrightarrow> rest \<noteq> [] \<Longrightarrow> even (length rest) \<Longrightarrow> ps \<noteq> []"
  by (cases rest rule: zadd_pairs.cases) (auto split: Option.bind_splits)

lemma zadd_found:
  assumes cell: "cell c c1 k (VZSet z) M" and inv: "zset_invar z" and ps: "ps \<noteq> []" "\<forall>(sc, m) \<in> set ps. \<not> f64_isnan sc"
    and ne: "\<not> z_xx opts \<or> val_nonempty (VZSet z)"
  shows "performs c (do {
        (added, changed, z') \<leftarrow> zadd_loop opts ps 0 0 z;
        Some (reply_integer (if z_ch opts then added + changed else added) (ctx_store k (VZSet z') c1)) })
      (case spec_zadd_loop opts ps 0 0 (zset_map z) of (added, changed, S') \<Rightarrow>
         (RInt (if z_ch opts then added + changed else added), put k (AZSet S') M))"
proof -
  obtain a ch S' where s: "spec_zadd_loop opts ps 0 0 (zset_map z) = (a, ch, S')"
    by (metis prod_cases3)
  obtain z' where z': "zadd_loop opts ps 0 0 z = Some (a, ch, z')" "zset_invar z'" "zset_map z' = S'"
    using zadd_loop_ok [OF inv ps(2), of opts 0 0] s by auto
  have "dom S' \<noteq> {}"
    using spec_zadd_loop_nonempty [OF ps(1), of opts "zset_map z" 0 0] s ne val_nonempty_zset [OF inv] by auto
  then have "val_nonempty (VZSet z')"
    using val_nonempty_zset [OF z'(2)] z'(3) by auto
  then show ?thesis
    using performs_reply(3) [OF along_store [OF cell, of "VZSet z'"], of "if z_ch opts then a + ch else a"] z' s by simp
qed

lemma zadd_performs:
  assumes ok: "ctx_ok c" and n: "2 \<le> length argv" and nn: "no_nan argv"
  shows "performs c (cmd_zadd argv c) (spec_zadd argv (view c))"
proof (cases "parse_zadd_options argv")
  case (Inl e)
  then show ?thesis
    using performs_now(6) [OF ok] by (simp add: cmd_zadd_def spec_zadd_def)
next
  case (Inr r)
  obtain opts rest where r: "r = (opts, rest)" by force
  note R = parse_zadd_options_Inr [OF Inr [unfolded r]]
  show ?thesis
  proof (cases "zadd_pairs rest")
    case None
    then show ?thesis
      using Inr r performs_now(6) [OF ok, of kNotFloat] by (simp add: cmd_zadd_def spec_zadd_def)
  next
    case (Some ps)
    note ps = zadd_pairs_ne [OF Some R(1,3)] zadd_pairs_no_nan [OF Some nn R(2)]
    let ?k = "argv ! Suc 0"
    let ?H = "\<lambda>z c2. do {
                    (added, changed, z') \<leftarrow> zadd_loop opts ps 0 0 z;
                    Some (reply_integer (if z_ch opts then added + changed else added) (ctx_store ?k (VZSet z') c2))
                  }"
    let ?spec = "\<lambda>S M. case spec_zadd_loop opts ps 0 0 S of (added, changed, S') \<Rightarrow>
             (RInt (if z_ch opts then added + changed else added), put ?k (AZSet S') M)"
    obtain v c1 where l: "ctx_lookup ?k c = (v, c1)" by force
    note L = along_lookup [OF ok l] and V = ctx_lookup_cases [OF ok l]
    have h: "cmd_zadd argv c = (if v = None \<and> z_xx opts then Some (reply_integer 0 c1) else get_or_create_zset ?k ?H c1)"
      using Inr r Some n l by (simp add: cmd_zadd_def)
    show ?thesis
    proof (cases "v = None \<and> z_xx opts")
      case True
      then show ?thesis
        using h V Inr r Some performs_reply(3) [OF L(1), of 0] by (simp add: spec_zadd_def)
    next
      case False
      have "performs c1 (get_or_create_zset ?k ?H c1) (spec_create a_zset AZSet (zset_map zset_empty) ?k ?spec (view c1))"
        unfolding get_or_create_zset_def
        by (rule kzset.get_or_create_performs [OF along_ok(1) [OF L(1)] zset_empty_spec(1) refl], rule zadd_found)
          (use ps False V L(2) in auto)
      from performs_along [OF L(1) this] show ?thesis
        using h False V Inr r Some unfolding spec_zadd_def zset_empty_spec(2) L(2) One_nat_def by (auto simp del: fun_upd_apply)
    qed
  qed
qed

section \<open>Queries by rank\<close>

lemma select_entry:
  assumes "zset_invar z" "i < length (zset_list z)"
  shows "\<exists>n. avl_select i (ztree z) = Some (n, zset_list z ! i)"
  using assms avl_select_spec [OF zset_invarD(3) [OF assms(1)], of i] by (auto simp: zset_list_def intro!: exI prod_eqI)

lemma zrange_loop_ok:
  assumes inv: "zset_invar z" and len: "len = int (length (zset_list z))" and s: "0 \<le> start" "\<forall>i \<in> set is. start + int i < len"
  shows "zrange_loop z b ws len start is c =
    Some (fold (reply_entry ws) (map (\<lambda>i. (if b then rev (zset_list z) else zset_list z) ! (nat start + i)) is) c)"
  using s(2)
proof (induction "is" arbitrary: c)
  case Nil
  then show ?case by simp
next
  case (Cons i "is")
  let ?idx = "if b then len - 1 - (start + int i) else start + int i"
  have i: "0 \<le> ?idx" "nat ?idx < length (zset_list z)" "start + int i < len"
    using Cons.prems s(1) len by auto
  have "zset_list z ! nat ?idx = (if b then rev (zset_list z) else zset_list z) ! (nat start + i)"
  proof (cases b)
    case True
    have "nat (len - 1 - (start + int i)) = length (zset_list z) - Suc (nat start + i)"
      using i s(1) len by auto
    then show ?thesis
      using True i(3) s(1) len by (simp add: rev_nth)
  next
    case False
    then show ?thesis
      using s(1) by (simp add: nat_add_distrib)
  qed
  then show ?case
    using select_entry [OF inv i(2)] i(1) Cons by (auto simp: Let_def)
qed

lemma zrange_found_achieves:
  assumes cell: "cell c c1 k (VZSet z) (view c)" and ne: "val_nonempty (VZSet z)" and inv: "zset_invar z"
  shows "achieves c (zrange_found b ws s0 e0 z c1) (\<lambda>r M'. M' = view c \<and> lists_range b ws s0 e0 (zset_map z) r)"
proof -
  let ?es = "zset_list z" and ?len = "int (zset_size z)"
  let ?xs = "if b then rev ?es else ?es"
  have len: "length ?xs = zset_size z"
    using zset_size_spec(1) [OF inv] by simp
  let ?s = "resolve_index s0 ?len" and ?e = "resolve_index e0 ?len"
  let ?start = "if ?s < 0 then 0 else ?s" and ?stop = "if ?len \<le> ?e then ?len - 1 else ?e"
  let ?shown = "map ((!) ?xs) (filter (\<lambda>i. ?s \<le> int i \<and> int i \<le> ?e) [0..<zset_size z])"
  have same: "filter (\<lambda>i. ?s \<le> int i \<and> int i \<le> ?e) [0..<zset_size z] = filter (\<lambda>i. ?start \<le> int i \<and> int i \<le> ?stop) [0..<zset_size z]"
    by (rule filter_cong) auto
  have "performs c (zrange_found b ws s0 e0 z c1) (reply_entries ws ?shown, view c)"
  proof (cases "?len = 0 \<or> ?stop < ?start")
    case True
    then have "filter (\<lambda>i. ?start \<le> int i \<and> int i \<le> ?stop) [0..<zset_size z] = []"
      by (auto simp: filter_empty_conv)
    then show ?thesis
      using True performs_peek(5) [OF cell ne] unfolding same by (simp add: Let_def zrange_found_def reply_entries_def)
  next
    case False
    let ?cnt = "nat (?stop - ?start + 1)"
    have r: "0 \<le> ?start" "\<forall>i \<in> set [0..<?cnt]. ?start + int i < ?len" "?start \<le> ?stop" "?stop < ?len"
      using False by auto
    have "filter (\<lambda>i. ?start \<le> int i \<and> int i \<le> ?stop) [0..<zset_size z] = filter (\<lambda>i. nat ?start \<le> i \<and> i < nat (?stop + 1)) [0..<zset_size z]"
      using r by (intro filter_cong) auto
    also have "\<dots> = [nat ?start..<nat (?stop + 1)]"
      using r unfolding filter_upt by (simp add: min_def)
    also have "\<dots> = map ((+) (nat ?start)) [0..<?cnt]"
      using r by (intro nth_equalityI) (auto simp del: upt_Suc)
    finally have shown: "?shown = map (\<lambda>i. ?xs ! (nat ?start + i)) [0..<?cnt]"
      unfolding same by (simp add: comp_def)
    have lenshown: "length ?shown = ?cnt"
      unfolding shown by simp
    have "zrange_found b ws s0 e0 z c1 = zrange_loop z b ws ?len ?start [0..<?cnt] (reply_array_header (if ws then ?cnt * 2 else ?cnt) c1)"
      using False unfolding zrange_found_def Let_def by argo
    also have "\<dots> = Some (fold (reply_entry ws) ?shown (reply_array_header (if ws then ?cnt * 2 else ?cnt) c1))"
      unfolding shown using zset_size_spec(1) [OF inv] by (intro zrange_loop_ok [OF inv _ r(1,2)]) simp
    finally have e: "zrange_found b ws s0 e0 z c1 = Some (fold (reply_entry ws) ?shown (reply_array_header (if ws then ?cnt * 2 else ?cnt) c1))" .
    show ?thesis
      unfolding e by (rule performs_entries [OF along_peek [OF cell ne]]) (simp only: lenshown)
  qed
  then show ?thesis
    by (rule performs_achieves) (use zset_ranking [OF inv] len in \<open>auto simp: lists_range_def Let_def intro!: exI [of _ ?es]\<close>)
qed

lemma zrange_achieves:
  assumes ok: "ctx_ok c" and n: "4 \<le> length argv"
  shows "achieves c (zrange_generic argv b c) (allows_zrange b argv (view c))"
proof -
  have err: "achieves c (Some (reply_error e c)) (\<lambda>r M'. r = RError (sanitize_error_text e) \<and> M' = view c)" for e
    by (rule performs_achieves [OF performs_now(6) [OF ok]]) simp
  have main: "achieves c (with_value get_zset k (\<lambda>c1. Some (reply_array_header 0 c1)) (zrange_found b ws s0 e0) c)
      (allows_value a_zset k (\<lambda>r M'. r = RArray [] \<and> M' = view c) (\<lambda>S r M'. M' = view c \<and> lists_range b ws s0 e0 S r) (view c))" for k ws s0 e0
  proof (rule kzset.with_value_achieves [OF ok])
    fix c1
    assume "looked c c1"
    from performs_looked(5) [OF this] show "achieves c (Some (reply_array_header 0 c1)) (\<lambda>r M'. r = RArray [] \<and> M' = view c)"
      by (rule performs_achieves) simp
  qed (rule zrange_found_achieves)
  show ?thesis
    using n err [of kSyntax] err [of kNotInt] main
    unfolding zrange_generic_def allows_zrange_def as_zset_or_error_def One_nat_def
    by (auto split: option.split)
qed

section \<open>ZPOPMIN\<close>

lemma zpopmin_loop_ok:
  assumes "zset_invar z" "n \<le> length (zset_list z)"
  shows "\<exists>z'. zpopmin_loop n z c = Some (z', fold (reply_entry True) (take n (zset_list z)) c) \<and> zset_invar z' \<and>
    zset_map z' = zset_map z |` (- (emember ` set (take n (zset_list z))))"
  using assms
proof (induction n arbitrary: z c)
  case 0
  then show ?case by simp
next
  case (Suc n)
  then obtain e es where es: "zset_list z = e # es"
    by (cases "zset_list z") auto
  obtain a where sel: "avl_select 0 (ztree z) = Some (a, e)"
    using select_entry [OF Suc.prems(1), of 0] es by auto
  obtain z1 where z1: "zset_erase (emember e) z = Some (zset_map z (emember e) \<noteq> None, z1)" "zset_invar z1"
    "zset_map z1 = (zset_map z)(emember e := None)" "zset_list z1 = filter (\<lambda>x. emember x \<noteq> emember e) (zset_list z)"
    using zset_erase_spec [OF Suc.prems(1)] by blast
  have l1: "zset_list z1 = es"
    using zset_members_distinct [OF Suc.prems(1)] unfolding z1(4) es by (auto simp: filter_id_conv image_iff)
  obtain z' where z': "zpopmin_loop n z1 (reply_entry True e c) = Some (z', fold (reply_entry True) (take n es) (reply_entry True e c))"
    "zset_invar z'" "zset_map z' = zset_map z1 |` (- (emember ` set (take n es)))"
    using Suc.IH [OF z1(2), of "reply_entry True e c"] Suc.prems(2) l1 es by auto
  have "zset_map z1 |` (- (emember ` set (take n es))) = zset_map z |` (- (emember ` set (take (Suc n) (zset_list z))))"
    unfolding z1(3) es by (auto simp: fun_eq_iff restrict_map_def)
  then show ?case
    using sel z1(1) z' es by auto
qed

lemma reply_entries_commute:
  "ctx_store k v (fold (reply_entry ws) es c) = fold (reply_entry ws) es (ctx_store k v c)"
  "ctx_del k (fold (reply_entry ws) es c) = fold (reply_entry ws) es (ctx_del k c)"
proof -
  have "ctx_store k v (reply_entry ws e c) = reply_entry ws e (ctx_store k v c)" "ctx_del k (reply_entry ws e c) = reply_entry ws e (ctx_del k c)" for e c
    by (simp_all add: ctx_store_def ctx_del_def reply_entry_def reply_bulk_def reply_double_def Let_def)
  then show "ctx_store k v (fold (reply_entry ws) es c) = fold (reply_entry ws) es (ctx_store k v c)"
    "ctx_del k (fold (reply_entry ws) es c) = fold (reply_entry ws) es (ctx_del k c)"
    by (induction es arbitrary: c) simp_all
qed

definition pops_entries :: "string \<Rightarrow> int \<Rightarrow> amap \<Rightarrow> (string \<rightharpoonup> f64) \<Rightarrow> reply \<Rightarrow> amap \<Rightarrow> bool" where
  "pops_entries key cnt M S r M' \<longleftrightarrow> (\<exists>es. ranking S es \<and> (let shown = take (nat cnt) es in
     r = reply_entries True shown \<and> M' = put key (AZSet (S |` (- (emember ` set shown)))) M))"

lemma zpopmin_found_achieves:
  assumes cell: "cell c c1 k (VZSet z) (view c)" and inv: "zset_invar z"
  shows "achieves c (do {
              let n = nat (min cnt (int (zset_size z)));
              (z', c2) \<leftarrow> zpopmin_loop n z (reply_array_header (n * 2) c1);
              Some (drop_empty_zset k z' (ctx_store k (VZSet z') c2))
            }) (pops_entries k cnt (view c) (zset_map z))"
proof -
  let ?n = "nat (min cnt (int (zset_size z)))" and ?es = "zset_list z"
  have n: "?n = min (nat cnt) (length ?es)" "?n \<le> length ?es"
    using zset_size_spec(1) [OF inv] by auto
  have tk: "take ?n ?es = take (nat cnt) ?es"
    unfolding n(1) by (cases "nat cnt \<le> length ?es") auto
  obtain z' where z': "zpopmin_loop ?n z (reply_array_header (?n * 2) c1) =
      Some (z', fold (reply_entry True) (take ?n ?es) (reply_array_header (?n * 2) c1))" "zset_invar z'"
    "zset_map z' = zset_map z |` (- (emember ` set (take ?n ?es)))"
    using zpopmin_loop_ok [OF inv n(2)] by blast
  have "drop_empty_zset k z' (ctx_store k (VZSet z') (fold (reply_entry True) (take ?n ?es) (reply_array_header (?n * 2) c1))) =
      fold (reply_entry True) (take ?n ?es) (reply_array_header (?n * 2) (drop_empty_zset k z' (ctx_store k (VZSet z') c1)))"
    by (simp add: drop_empty_zset_def reply_entries_commute reply_ctx_commute)
  moreover have "performs c (Some (fold (reply_entry True) (take ?n ?es) (reply_array_header (?n * 2) (drop_empty_zset k z' (ctx_store k (VZSet z') c1)))))
      (reply_entries True (take ?n ?es), put k (AZSet (zset_map z |` (- (emember ` set (take ?n ?es))))) (view c))"
    using performs_entries [OF drop_empty_zset_along [OF cell z'(2)], of "?n * 2" True "take ?n ?es"] n z'(3) by simp
  ultimately have "performs c (do {
              let n = nat (min cnt (int (zset_size z)));
              (z', c2) \<leftarrow> zpopmin_loop n z (reply_array_header (n * 2) c1);
              Some (drop_empty_zset k z' (ctx_store k (VZSet z') c2))
            }) (reply_entries True (take ?n ?es), put k (AZSet (zset_map z |` (- (emember ` set (take ?n ?es))))) (view c))"
    unfolding Let_def z'(1) bind.bind_lunit prod.case by (simp only:)
  then show ?thesis
    by (rule performs_achieves) (use zset_ranking [OF inv] tk in \<open>auto simp: pops_entries_def Let_def intro!: exI [of _ ?es]\<close>)
qed

lemma zpopmin_achieves:
  assumes ok: "ctx_ok c" and n: "2 \<le> length argv"
  shows "achieves c (cmd_zpopmin argv c) (allows_zpopmin argv (view c))"
proof (cases "pop_count argv")
  case (Inl e)
  have "achieves c (Some (reply_error e c)) (\<lambda>r M'. r = RError (sanitize_error_text e) \<and> M' = view c)"
    by (rule performs_achieves [OF performs_now(6) [OF ok]]) simp
  then show ?thesis
    using Inl by (simp add: cmd_zpopmin_def allows_zpopmin_def)
next
  case (Inr cnt)
  let ?m = "case cnt of None \<Rightarrow> 1 | Some k \<Rightarrow> k" and ?k = "argv ! 1"
  have "achieves c (with_value get_zset ?k (\<lambda>c1. Some (reply_array_header 0 c1))
           (\<lambda>z c1. do {
              let n = nat (min ?m (int (zset_size z)));
              (z', c2) \<leftarrow> zpopmin_loop n z (reply_array_header (n * 2) c1);
              Some (drop_empty_zset ?k z' (ctx_store ?k (VZSet z') c2))
            }) c) (allows_value a_zset ?k (\<lambda>r M'. r = RArray [] \<and> M' = view c) (pops_entries ?k ?m (view c)) (view c))"
  proof (rule kzset.with_value_achieves [OF ok])
    fix c1
    assume "looked c c1"
    from performs_looked(5) [OF this] show "achieves c (Some (reply_array_header 0 c1)) (\<lambda>r M'. r = RArray [] \<and> M' = view c)"
      by (rule performs_achieves) simp
  qed (rule zpopmin_found_achieves)
  moreover have "pops_entries ?k ?m (view c) = (\<lambda>S r M'. \<exists>es. ranking S es \<and> (let shown = take (nat ?m) es in
          r = reply_entries True shown \<and> M' = put ?k (AZSet (S |` (- (emember ` set shown)))) (view c)))"
    by (auto simp: fun_eq_iff pops_entries_def)
  moreover have "arg argv 1 = Some ?k"
    using n by simp
  ultimately show ?thesis
    unfolding cmd_zpopmin_def allows_zpopmin_def as_zset_or_error_def Inr by (simp only: sum.case bind.bind_lunit)
qed

section \<open>Queries by score\<close>

lemma prefix_split:
  assumes "sorted_wrt (\<lambda>x y. P x \<longrightarrow> P y) xs"
  shows "dropWhile (\<lambda>x. \<not> P x) xs = filter P xs" "takeWhile (\<lambda>x. \<not> P x) xs = filter (\<lambda>x. \<not> P x) xs"
  using assms
proof (induction xs)
  case (Cons x xs)
  {
    case 1
    with Cons show ?case by (auto simp: filter_id_conv)
  next
    case 2
    with Cons show ?case by (auto simp: filter_empty_conv)
  }
qed simp_all

text \<open>Sorted by score: later entries do not score lower.\<close>

lemma zset_scores_sorted:
  assumes "zset_invar z"
  shows "sorted_wrt (\<lambda>x y. f64_key (escore x) \<le> f64_key (escore y)) (zset_list z)"
proof (rule sorted_wrt_mono_rel [OF _ zset_list_sorted(1) [OF assms]])
  fix x y
  assume "x \<in> set (zset_list z)" "y \<in> set (zset_list z)" "entry_less x y"
  then show "f64_key (escore x) \<le> f64_key (escore y)"
    using zset_list_sorted(2) [OF assms] entry_less_key [of x y] by auto
qed

text \<open>The two sides of a score range on entries without NaN.\<close>

definition above :: "score_bound \<Rightarrow> entry \<Rightarrow> bool" where
  "above mn e \<longleftrightarrow> (if exclusive mn then f64_key (bvalue mn) < f64_key (escore e) else f64_key (bvalue mn) \<le> f64_key (escore e))"

definition below :: "score_bound \<Rightarrow> entry \<Rightarrow> bool" where
  "below mx e \<longleftrightarrow> (if exclusive mx then f64_key (escore e) < f64_key (bvalue mx) else f64_key (escore e) \<le> f64_key (bvalue mx))"

lemma in_score_range_above_below:
  assumes "\<not> f64_isnan (bvalue mn)" "\<not> f64_isnan (bvalue mx)" "entry_ok e"
  shows "in_score_range mn mx (escore e) \<longleftrightarrow> above mn e \<and> below mx e"
  using assms by (auto simp: in_score_range_def above_def below_def entry_ok_def f64_lt_def f64_eq_def)

lemma above_below_sorted:
  assumes "zset_invar z"
  shows "sorted_wrt (\<lambda>x y. above mn x \<longrightarrow> above mn y) (zset_list z)" "sorted_wrt (\<lambda>x y. \<not> below mx x \<longrightarrow> \<not> below mx y) (zset_list z)"
  by (rule sorted_wrt_mono_rel [OF _ zset_scores_sorted [OF assms]]; auto simp: above_def below_def)+

lemma low_entry_less:
  assumes "entry_ok e" "\<not> f64_isnan v"
  shows "entry_less e (low_entry v) \<longleftrightarrow> f64_key (escore e) < f64_key v"
  using assms entry_less_key [of e "low_entry v"] by (auto simp: low_entry_def entry_ok_def)

lemma zset_lower_bound:
  assumes inv: "zset_invar z" and v: "\<not> f64_isnan v"
  shows "avl_lower_bound entry_less (low_entry v) (ztree z) = first_of (dropWhile (\<lambda>x. f64_key (escore (snd x)) < f64_key v) (seq (ztree z)))"
proof -
  have "avl_lower_bound entry_less (low_entry v) (ztree z) = first_of (dropWhile (\<lambda>x. entry_less (snd x) (low_entry v)) (seq (ztree z)))"
    using zset_invarD(2) [OF inv] v by (intro zorder.lower_bound_spec) (auto simp: low_entry_def entry_ok_def)
  also have "dropWhile (\<lambda>x. entry_less (snd x) (low_entry v)) (seq (ztree z)) = dropWhile (\<lambda>x. f64_key (escore (snd x)) < f64_key v) (seq (ztree z))"
    using zset_list_sorted(2) [OF inv] v by (intro dropWhile_cong refl) (auto simp: zset_list_def low_entry_less)
  finally show ?thesis .
qed

lemma sorted_wrt_filter_dropWhile:
  assumes "sorted_wrt R xs"
  shows "sorted_wrt R (dropWhile P xs)"
  using assms by (metis sorted_wrt_append takeWhile_dropWhile_id)

lemma zrbs_matched_ok:
  assumes inv: "zset_invar z" and v: "\<not> f64_isnan (bvalue mn)" "\<not> f64_isnan (bvalue mx)"
  shows "zrbs_matched mn mx z = Some (filter (\<lambda>e. in_score_range mn mx (escore e)) (zset_list z))"
proof -
  let ?sq = "seq (ztree z)" and ?es = "zset_list z"
  let ?low = "\<lambda>e. f64_key (escore e) < f64_key (bvalue mn)"
  let ?stop = "\<lambda>e. f64_lt (bvalue mx) (escore e) \<or> (f64_eq (escore e) (bvalue mx) \<and> exclusive mx)"
  let ?ys = "dropWhile (\<lambda>x. ?low (snd x)) ?sq"
  have ok: "\<And>e. e \<in> set ?es \<Longrightarrow> entry_ok e"
    using zset_list_sorted(2) [OF inv] by blast
  have sn: "map snd ?ys = dropWhile ?low ?es"
    by (simp add: zset_list_def dropWhile_map comp_def)
  have split: "?sq = takeWhile (\<lambda>x. ?low (snd x)) ?sq @ ?ys" by simp
  have fuel: "length ?ys \<le> avl_size (ztree z)"
    using length_dropWhile_le [of "\<lambda>x. ?low (snd x)" ?sq] zset_size_spec [OF inv] by (simp add: zset_list_def)
  have w: "walk avl_next ?stop (ztree z) (avl_size (ztree z)) (first_of ?ys) = Some (takeWhile (\<lambda>x. \<not> ?stop (snd x)) ?ys)"
    by (rule avl.walk_suffix [OF zset_invarD(3) [OF inv] split fuel])
  have stop: "\<not> ?stop e \<longleftrightarrow> below mx e" if "e \<in> set ?es" for e
    using ok [OF that] v by (auto simp: below_def entry_ok_def f64_lt_def f64_eq_def)
  have "map snd (takeWhile (\<lambda>x. \<not> ?stop (snd x)) ?ys) = takeWhile (\<lambda>e. \<not> ?stop e) (dropWhile ?low ?es)"
    unfolding sn [symmetric] by (simp add: takeWhile_map comp_def)
  also have "\<dots> = takeWhile (\<lambda>e. \<not> \<not> below mx e) (dropWhile ?low ?es)"
    using stop by (intro takeWhile_cong refl) (auto dest: set_dropWhileD)
  also have "\<dots> = filter (below mx) (dropWhile ?low ?es)"
    using prefix_split(2) [OF sorted_wrt_filter_dropWhile [OF above_below_sorted(2) [OF inv]], of mx ?low] by simp
  also have "dropWhile ?low ?es = filter (\<lambda>e. \<not> ?low e) ?es"
    using prefix_split(1) [OF above_below_sorted(1) [OF inv], of "mn\<lparr>exclusive := False\<rparr>"] by (simp add: above_def not_le not_less)
  finally have "zrbs_matched mn mx z =
      Some (filter (\<lambda>e. \<not> (exclusive mn \<and> f64_eq (escore e) (bvalue mn))) (filter (below mx) (filter (\<lambda>e. \<not> ?low e) ?es)))"
    unfolding zrbs_matched_def zset_lower_bound [OF inv v(1)] w by simp
  also have "\<dots> = Some (filter (\<lambda>e. in_score_range mn mx (escore e)) ?es)"
    using v ok unfolding filter_filter option.inject
    by (intro filter_cong refl) (auto simp: in_score_range_above_below above_def entry_ok_def f64_eq_def)
  finally show ?thesis .
qed

lemma bound_no_nan:
  assumes "no_nan argv" "i < length argv" "parse_score_bound (argv ! i) = Some b"
  shows "\<not> f64_isnan (bvalue b)"
  using no_nanD(2) [OF assms(1) nth_mem [OF assms(2)] assms(3)] .

lemma zrbs_options_error: "zrbs_options as opts = Inl e \<Longrightarrow> sanitize_error_text e = e"
  by (induction "as" opts rule: zrbs_options.induct) (auto split: if_splits list.splits option.splits)

lemma zrangebyscore_achieves:
  assumes ok: "ctx_ok c" and n: "4 \<le> length argv" and nn: "no_nan argv"
  shows "achieves c (cmd_zrangebyscore argv c) (allows_zrangebyscore argv (view c))"
proof -
  have err: "achieves c (Some (reply_error e c)) (\<lambda>r M'. r = RError e \<and> M' = view c)" if "sanitize_error_text e = e" for e
    by (rule performs_achieves [OF performs_now(6) [OF ok]]) (simp add: that)
  have main: "achieves c (with_value get_zset k (\<lambda>c1. Some (reply_array_header 0 c1))
                (\<lambda>z c1. do {
                   matched \<leftarrow> zrbs_matched mn mx z;
                   let shown = limit_window off cnt matched;
                   Some (fold (reply_entry ws) shown (reply_array_header (if ws then length shown * 2 else length shown) c1))
                 }) c)
      (allows_value a_zset k (\<lambda>r M'. r = RArray [] \<and> M' = view c)
           (\<lambda>S r M'. M' = view c \<and> (\<exists>es. ranking S es \<and>
              r = reply_entries ws (limit_window off cnt (filter (\<lambda>e. in_score_range mn mx (escore e)) es)))) (view c))"
    if b: "\<not> f64_isnan (bvalue mn)" "\<not> f64_isnan (bvalue mx)" for k ws off cnt mn mx
  proof (rule kzset.with_value_achieves [OF ok])
    fix c1
    assume "looked c c1"
    from performs_looked(5) [OF this] show "achieves c (Some (reply_array_header 0 c1)) (\<lambda>r M'. r = RArray [] \<and> M' = view c)"
      by (rule performs_achieves) simp
  next
    fix c1 z
    assume cell: "cell c c1 k (VZSet z) (view c)" and ne: "val_nonempty (VZSet z)" and inv: "zset_invar z"
    let ?shown = "limit_window off cnt (filter (\<lambda>e. in_score_range mn mx (escore e)) (zset_list z))"
    have "performs c (Some (fold (reply_entry ws) ?shown (reply_array_header (if ws then length ?shown * 2 else length ?shown) c1)))
        (reply_entries ws ?shown, view c)"
      by (rule performs_entries [OF along_peek [OF cell ne] refl])
    then show "achieves c (do {
                   matched \<leftarrow> zrbs_matched mn mx z;
                   let shown = limit_window off cnt matched;
                   Some (fold (reply_entry ws) shown (reply_array_header (if ws then length shown * 2 else length shown) c1))
                 }) (\<lambda>r M'. M' = view c \<and> (\<exists>es. ranking (zset_map z) es \<and>
              r = reply_entries ws (limit_window off cnt (filter (\<lambda>e. in_score_range mn mx (escore e)) es))))"
      unfolding zrbs_matched_ok [OF inv b] bind.bind_lunit Let_def
      by (rule performs_achieves) (use zset_ranking [OF inv] in blast)
  qed
  show ?thesis
  proof (cases "parse_score_bound (argv ! 2) = None \<or> parse_score_bound (argv ! 3) = None")
    case True
    then show ?thesis
      using n err [of kMinMax] by (auto simp: cmd_zrangebyscore_def allows_zrangebyscore_def split: option.split)
  next
    case False
    then obtain mn mx where b: "parse_score_bound (argv ! 2) = Some mn" "parse_score_bound (argv ! 3) = Some mx"
      by auto
    have nan: "\<not> f64_isnan (bvalue mn)" "\<not> f64_isnan (bvalue mx)"
      using bound_no_nan [OF nn _ b(1)] bound_no_nan [OF nn _ b(2)] n by auto
    show ?thesis
    proof (cases "zrbs_options (drop 4 argv) (False, 0, -1)")
      case (Inl e)
      then show ?thesis
        using n b err [OF zrbs_options_error [OF Inl]] by (simp add: cmd_zrangebyscore_def allows_zrangebyscore_def)
    next
      case (Inr o')
      obtain ws off cnt where "o' = (ws, off, cnt)" by (metis prod_cases3)
      then show ?thesis
        using n b Inr main [OF nan, of "argv ! Suc 0" off cnt ws]
        by (simp add: cmd_zrangebyscore_def allows_zrangebyscore_def as_zset_or_error_def)
    qed
  qed
qed

section \<open>ZCOUNT\<close>

lemma tree_root_ok:
  assumes "zset_invar z"
  shows "tree_root (ztree z) = Some (root (ztree z))"
proof (cases "avl_size (ztree z) = 0")
  case True
  then have "seq (ztree z) = []"
    using zset_size_spec [OF assms] by (simp add: zset_list_def)
  then show ?thesis
    using True nodes_Nil [of "root (ztree z)"] by (simp add: tree_root_def seq_def)
next
  case False
  then have "0 < length (zset_list z)"
    using zset_size_spec [OF assms] by simp
  then obtain n e where s: "avl_select 0 (ztree z) = Some (n, e)" "seq (ztree z) = [] @ (n, e) # tl (seq (ztree z))"
    using avl_select_spec [OF zset_invarD(3) [OF assms], of 0] by (cases "seq (ztree z)") (auto simp: zset_list_def)
  obtain h sz l r fs where L: "locate n (root (ztree z)) [] = Some (Nd n e h sz l r, fs)"
    by (rule locate_seq [OF zset_invarD(3) [OF assms] s(2)])
  show ?thesis
    using False s(1) L locate_Some [OF L] by (simp add: tree_root_def)
qed

lemma rank_first:
  assumes inv: "zset_invar z"
  shows "rank_or_size (first_of (dropWhile (\<lambda>x. \<not> P (snd x)) (seq (ztree z)))) z = Some (length (takeWhile (\<lambda>e. \<not> P e) (zset_list z)))"
proof -
  let ?sq = "seq (ztree z)" and ?ys = "dropWhile (\<lambda>x. \<not> P (snd x)) (seq (ztree z))"
  have len: "length (takeWhile (\<lambda>x. \<not> P (snd x)) ?sq) = length (takeWhile (\<lambda>e. \<not> P e) (zset_list z))"
    by (simp add: zset_list_def takeWhile_map comp_def)
  show ?thesis
  proof (cases ?ys)
    case Nil
    then have "takeWhile (\<lambda>x. \<not> P (snd x)) ?sq = ?sq"
      by (simp add: takeWhile_eq_all_conv dropWhile_eq_Nil_conv)
    then have "length (takeWhile (\<lambda>e. \<not> P e) (zset_list z)) = length ?sq"
      using len by (simp only:)
    then show ?thesis
      using zset_size_spec(1) [OF inv] unfolding Nil by (simp add: rank_or_size_def first_of_def zset_list_def)
  next
    case (Cons y ys)
    obtain n e where y: "y = (n, e)" by force
    have "?sq = takeWhile (\<lambda>x. \<not> P (snd x)) ?sq @ (n, e) # ys"
      using takeWhile_dropWhile_id [of "\<lambda>x. \<not> P (snd x)" ?sq] Cons y by simp
    from avl_rank_spec [OF zset_invarD(3) [OF inv] this] show ?thesis
      using Cons y len by (simp add: rank_or_size_def first_of_def)
  qed
qed

lemma zset_first_greater:
  assumes inv: "zset_invar z" and v: "\<not> f64_isnan v"
  shows "first_with_score_greater_than (root (ztree z)) v = first_of (dropWhile (\<lambda>x. \<not> f64_key v < f64_key (escore (snd x))) (seq (ztree z)))"
proof -
  have lt: "f64_lt v (escore e) \<longleftrightarrow> f64_key v < f64_key (escore e)" if "e \<in> set (zset_list z)" for e
    using zset_list_sorted(2) [OF inv] that v by (auto simp: f64_lt_def entry_ok_def)
  have s: "map snd (nodes (root (ztree z))) = zset_list z"
    by (simp add: zset_list_def seq_def)
  have "sorted_wrt (\<lambda>x y. f64_lt v (escore x) \<longrightarrow> f64_lt v (escore y)) (map snd (nodes (root (ztree z))))"
    unfolding s by (rule sorted_wrt_mono_rel [OF _ zset_scores_sorted [OF inv]]) (auto simp: lt)
  from descend_first_spec [OF this, of None]
  have "first_with_score_greater_than (root (ztree z)) v = first_of (dropWhile (\<lambda>x. \<not> f64_lt v (escore (snd x))) (seq (ztree z)))"
    by (simp add: first_with_score_greater_than_def seq_def split: option.splits)
  also have "dropWhile (\<lambda>x. \<not> f64_lt v (escore (snd x))) (seq (ztree z)) = dropWhile (\<lambda>x. \<not> f64_key v < f64_key (escore (snd x))) (seq (ztree z))"
    by (rule dropWhile_cong [OF refl]) (use lt in \<open>auto simp: zset_list_def\<close>)
  finally show ?thesis .
qed

lemma prefix_nth:
  assumes "sorted_wrt (\<lambda>x y. P x \<longrightarrow> P y) xs" "i < length xs"
  shows "P (xs ! i) \<longleftrightarrow> length (takeWhile (\<lambda>x. \<not> P x) xs) \<le> i"
proof
  assume "P (xs ! i)"
  then show "length (takeWhile (\<lambda>x. \<not> P x) xs) \<le> i"
    by (metis linorder_not_less nth_mem set_takeWhileD takeWhile_nth)
next
  assume le: "length (takeWhile (\<lambda>x. \<not> P x) xs) \<le> i"
  let ?a = "length (takeWhile (\<lambda>x. \<not> P x) xs)"
  have "P (xs ! ?a)"
    using nth_length_takeWhile [of "\<lambda>x. \<not> P x" xs] le assms(2) by simp
  then show "P (xs ! i)"
    using sorted_wrt_nth_less [OF assms(1), of ?a i] le assms(2) by (cases "?a = i") auto
qed

lemma count_between:
  assumes P: "sorted_wrt (\<lambda>x y. P x \<longrightarrow> P y) xs" and Q: "sorted_wrt (\<lambda>x y. \<not> Q x \<longrightarrow> \<not> Q y) xs"
  shows "length (filter (\<lambda>x. P x \<and> Q x) xs) = length (takeWhile Q xs) - length (takeWhile (\<lambda>x. \<not> P x) xs)"
proof -
  have "{i. i < length xs \<and> P (xs ! i) \<and> Q (xs ! i)} = {length (takeWhile (\<lambda>x. \<not> P x) xs)..<length (takeWhile Q xs)}"
    using prefix_nth [OF P] prefix_nth [OF Q, unfolded not_not] length_takeWhile_le [of Q xs]
    by (auto simp: not_le [symmetric]) (metis le_trans linorder_not_le)+
  then show ?thesis
    by (simp add: length_filter_conv_card)
qed

lemma zcount_card:
  assumes inv: "zset_invar z"
  shows "card {m \<in> dom (zset_map z). R (the (zset_map z m))} = length (filter (\<lambda>e. R (escore e)) (zset_list z))"
proof -
  have "{m \<in> dom (zset_map z). R (the (zset_map z m))} = emember ` set (filter (\<lambda>e. R (escore e)) (zset_list z))"
  proof (intro set_eqI iffI)
    fix m
    assume "m \<in> {m \<in> dom (zset_map z). R (the (zset_map z m))}"
    then obtain s where s: "zset_map z m = Some s" "R s" by auto
    then have "entry_of m s \<in> set (filter (\<lambda>e. R (escore e)) (zset_list z))"
      using zset_list_mem [OF inv, of "entry_of m s"] by (simp add: entry_of_def)
    then show "m \<in> emember ` set (filter (\<lambda>e. R (escore e)) (zset_list z))"
      by (rule rev_image_eqI) (simp add: entry_of_def)
  next
    fix m
    assume "m \<in> emember ` set (filter (\<lambda>e. R (escore e)) (zset_list z))"
    then show "m \<in> {m \<in> dom (zset_map z). R (the (zset_map z m))}"
      using zset_list_mem [OF inv] by auto
  qed
  moreover have "distinct (map emember (filter (\<lambda>e. R (escore e)) (zset_list z)))"
    using zset_members_distinct [OF inv] by (simp add: distinct_map inj_on_def)
  ultimately show ?thesis
    by (metis distinct_card length_map list.set_map)
qed

lemma zcount_found_performs:
  assumes cell: "cell c c1 k (VZSet z) (view c)" and ne: "val_nonempty (VZSet z)" and inv: "zset_invar z"
    and v: "\<not> f64_isnan (bvalue mn)" "\<not> f64_isnan (bvalue mx)"
  shows "performs c (do {
              r \<leftarrow> tree_root (ztree z);
              let lo = (if exclusive mn then first_with_score_greater_than r (bvalue mn)
                        else avl_lower_bound entry_less (low_entry (bvalue mn)) (ztree z));
              let hi = (if exclusive mx then avl_lower_bound entry_less (low_entry (bvalue mx)) (ztree z)
                        else first_with_score_greater_than r (bvalue mx));
              rank_lo \<leftarrow> rank_or_size lo z;
              rank_hi \<leftarrow> rank_or_size hi z;
              Some (reply_integer (if rank_lo < rank_hi then int (rank_hi - rank_lo) else 0) c1)
            }) (RInt (int (card {m \<in> dom (zset_map z). in_score_range mn mx (the (zset_map z m))})), view c)"
proof -
  let ?lo = "if exclusive mn then first_with_score_greater_than (root (ztree z)) (bvalue mn)
                        else avl_lower_bound entry_less (low_entry (bvalue mn)) (ztree z)"
  let ?hi = "if exclusive mx then avl_lower_bound entry_less (low_entry (bvalue mx)) (ztree z)
                        else first_with_score_greater_than (root (ztree z)) (bvalue mx)"
  let ?a = "length (takeWhile (\<lambda>e. \<not> above mn e) (zset_list z))" and ?b = "length (takeWhile (\<lambda>e. \<not> \<not> below mx e) (zset_list z))"
  have "?lo = first_of (dropWhile (\<lambda>x. \<not> above mn (snd x)) (seq (ztree z)))"
    using zset_first_greater [OF inv v(1)] zset_lower_bound [OF inv v(1)] by (simp add: above_def not_le)
  then have lo: "rank_or_size ?lo z = Some ?a"
    using rank_first [OF inv, of "above mn"] by simp
  have "?hi = first_of (dropWhile (\<lambda>x. \<not> \<not> below mx (snd x)) (seq (ztree z)))"
    using zset_first_greater [OF inv v(2)] zset_lower_bound [OF inv v(2)] by (simp add: below_def not_less)
  then have hi: "rank_or_size ?hi z = Some ?b"
    using rank_first [OF inv, of "\<lambda>e. \<not> below mx e"] by simp
  have "card {m \<in> dom (zset_map z). in_score_range mn mx (the (zset_map z m))} = length (filter (\<lambda>e. above mn e \<and> below mx e) (zset_list z))"
    unfolding zcount_card [OF inv] using zset_list_sorted(2) [OF inv] v
    by (intro arg_cong [of _ _ length] filter_cong refl) (simp add: in_score_range_above_below)
  also have "\<dots> = ?b - ?a"
    using count_between [OF above_below_sorted [OF inv], of mn mx] by simp
  finally have "int (card {m \<in> dom (zset_map z). in_score_range mn mx (the (zset_map z m))}) = (if ?a < ?b then int (?b - ?a) else 0)"
    by simp
  then show ?thesis
    using performs_peek(3) [OF cell ne, of "if ?a < ?b then int (?b - ?a) else 0"]
    unfolding tree_root_ok [OF inv] bind.bind_lunit Let_def lo hi by (simp only:)
qed

lemma zcount_performs:
  assumes ok: "ctx_ok c" and n: "4 \<le> length argv" and nn: "no_nan argv"
  shows "performs c (cmd_zcount argv c) (spec_zcount argv (view c))"
proof (cases "parse_score_bound (argv ! 2) = None \<or> parse_score_bound (argv ! 3) = None")
  case True
  then show ?thesis
    using n performs_now(6) [OF ok, of kMinMax] by (auto simp: cmd_zcount_def spec_zcount_def split: option.split)
next
  case False
  then obtain mn mx where b: "parse_score_bound (argv ! 2) = Some mn" "parse_score_bound (argv ! 3) = Some mx"
    by auto
  have nan: "\<not> f64_isnan (bvalue mn)" "\<not> f64_isnan (bvalue mx)"
    using bound_no_nan [OF nn _ b(1)] bound_no_nan [OF nn _ b(2)] n by auto
  have a: "arg argv 1 = Some (argv ! 1)" "arg argv 2 = Some (argv ! 2)" "arg argv 3 = Some (argv ! 3)"
    using n by simp_all
  show ?thesis
    unfolding cmd_zcount_def spec_zcount_def as_zset_or_error_def a b bind.bind_lunit option.case prod.case
    by (rule kzset.with_value_performs [OF ok]) (rule performs_looked(3) zcount_found_performs [OF _ _ _ nan], assumption+)+
qed

end
