(* ===== verification/Crc32.thy ===== *)
theory Crc32
  imports Prelude
begin

text \<open>
  The checksum of \<^verbatim>\<open>util/crc32.cpp\<close>: the 256-entry table and the byte loop. The theory shows that the
  table-driven loop computes the bit-at-a-time CRC, and that no change of a single byte goes unseen.
\<close>

section \<open>The code\<close>

definition crc_poly :: u32 where "crc_poly = 0xEDB88320"

definition crc_shift :: "u32 \<Rightarrow> u32" where
  "crc_shift c = (if bit c 0 then crc_poly XOR drop_bit 1 c else drop_bit 1 c)"

definition crc_table :: "u32 list" where
  "crc_table = map (\<lambda>i. (crc_shift ^^ 8) (of_nat i)) [0..<256]"

definition crc_byte :: "u32 \<Rightarrow> char \<Rightarrow> u32" where
  "crc_byte crc b = crc_table ! unat ((crc XOR of_nat (of_char b)) AND 0xFF) XOR drop_bit 8 crc"

definition crc32 :: "string \<Rightarrow> u32" where
  "crc32 data = foldl crc_byte 0xFFFFFFFF data XOR 0xFFFFFFFF"

section \<open>The bit-at-a-time reference\<close>

definition ref_byte :: "u32 \<Rightarrow> char \<Rightarrow> u32" where
  "ref_byte crc b = (crc_shift ^^ 8) (crc XOR of_nat (of_char b))"

definition ref_crc32 :: "string \<Rightarrow> u32" where
  "ref_crc32 data = foldl ref_byte 0xFFFFFFFF data XOR 0xFFFFFFFF"

lemma crc_shift_xor: "crc_shift (a XOR b) = crc_shift a XOR crc_shift b"
  by (rule bit_word_eqI) (auto simp: crc_shift_def bit_simps)

lemma crc_shift_pow_xor: "(crc_shift ^^ n) (a XOR b) = (crc_shift ^^ n) a XOR (crc_shift ^^ n) b"
  by (induction n) (simp_all add: crc_shift_xor)

lemma crc_shift_even: "\<not> bit c 0 \<Longrightarrow> crc_shift c = drop_bit 1 c"
  by (simp add: crc_shift_def)

lemma crc_shift_pow_low:
  assumes "\<forall>i < n. \<not> bit c i"
  shows "(crc_shift ^^ n) c = drop_bit n c"
  using assms
proof (induction n)
  case (Suc n)
  then have "(crc_shift ^^ n) c = drop_bit n c" "\<not> bit (drop_bit n c) 0"
    by (simp_all add: bit_simps)
  then show ?case
    using crc_shift_even [of "drop_bit n c"] by (simp add: drop_bit_drop_bit add.commute)
qed simp

lemma crc_split: "x = (x AND 0xFF) XOR (x AND NOT 0xFF)" for x :: u32
  by (rule bit_word_eqI) (auto simp: bit_simps)

lemma crc_mask: "(x :: u32) AND 0xFF = take_bit 8 x"
  by (simp add: take_bit_eq_mask mask_eq_exp_minus_1)

lemma crc_shift_8: "(crc_shift ^^ 8) x = (crc_shift ^^ 8) (x AND 0xFF) XOR drop_bit 8 x"
proof -
  have low: "(0xFF :: u32) = mask 8"
    by (simp add: mask_eq_exp_minus_1)
  have "(crc_shift ^^ 8) (x AND NOT 0xFF) = drop_bit 8 (x AND NOT 0xFF)"
    by (rule crc_shift_pow_low) (auto simp: low bit_simps)
  also have "\<dots> = drop_bit 8 x"
    by (rule bit_word_eqI) (auto simp: low bit_simps dest: bit_imp_le_length)
  finally show ?thesis
    using crc_shift_pow_xor [of 8 "x AND 0xFF" "x AND NOT 0xFF"] crc_split [of x] by simp
qed

lemma crc_table_nth: "i < 256 \<Longrightarrow> crc_table ! i = (crc_shift ^^ 8) (of_nat i)"
  by (simp add: crc_table_def del: funpow.simps)

lemma low_byte_lt: "unat (take_bit 8 (x :: u32)) < 256"
  using take_bit_nat_less_exp [of 8 "unat x"] by (simp add: unsigned_take_bit_eq)

lemma of_char_lt: "(of_char c :: nat) < 256"
  by (metis of_char_mod_256 mod_less_divisor zero_less_numeral)

lemma byte_word: "take_bit 8 (of_nat (of_char b) :: 'a :: len word) = of_nat (of_char b)"
  using of_char_lt [of b] by (simp add: take_bit_of_nat take_bit_nat_eq_self)

lemma byte_word_bit: "bit (of_nat (of_char b) :: 'a :: len word) n \<Longrightarrow> n < 8"
  by (subst (asm) byte_word [symmetric]) (simp add: bit_take_bit_iff)

lemma crc_byte_ref: "crc_byte crc b = ref_byte crc b"
proof -
  let ?x = "crc XOR of_nat (of_char b) :: u32"
  have "unat (?x AND 0xFF) < 256"
    unfolding crc_mask by (rule low_byte_lt)
  then have "crc_table ! unat (?x AND 0xFF) = (crc_shift ^^ 8) (?x AND 0xFF)"
    by (simp add: crc_table_nth del: funpow.simps)
  moreover have "drop_bit 8 ?x = drop_bit 8 crc"
  proof (rule bit_word_eqI)
    fix n
    assume "n < LENGTH(32)"
    have "\<not> bit (of_nat (of_char b) :: u32) (8 + n)"
      using byte_word_bit [of b "8 + n"] by fastforce
    then show "bit (drop_bit 8 ?x) n = bit (drop_bit 8 crc) n"
      by (simp add: bit_simps add.commute)
  qed
  ultimately show ?thesis
    using crc_shift_8 [of ?x] by (simp add: crc_byte_def ref_byte_def del: funpow.simps)
qed

text \<open>C18: the table-driven loop of \<^verbatim>\<open>crc32\<close> computes the bit-at-a-time CRC-32 (reflected polynomial
  0xEDB88320, all-ones start and final complement) of every byte sequence.\<close>

theorem crc32_table_is_bitwise: "crc32 data = ref_crc32 data"
proof -
  have "foldl crc_byte crc data = foldl ref_byte crc data" for crc
    by (induction data arbitrary: crc) (simp_all add: crc_byte_ref)
  then show ?thesis
    by (simp add: crc32_def ref_crc32_def)
qed

section \<open>Single-byte changes\<close>

lemma xor_cancel: "a XOR c = b XOR c \<Longrightarrow> a = b" "c XOR a = c XOR b \<Longrightarrow> a = b" for a b c :: "'a :: len word"
  by (metis xor.assoc xor_self_eq xor.right_neutral, metis xor.assoc xor_self_eq xor.left_neutral)

lemma crc_shift_inj: "crc_shift a = crc_shift b \<Longrightarrow> a = b"
proof -
  assume e: "crc_shift a = crc_shift b"
  have top: "bit (crc_shift c) 31 \<longleftrightarrow> bit c 0" for c
    using bit_imp_le_length [of c 32] by (auto simp: crc_shift_def bit_simps crc_poly_def)
  have "bit a 0 = bit b 0"
    using top [of a] top [of b] e by simp
  moreover have "drop_bit 1 a = drop_bit 1 b"
    using e calculation by (simp add: crc_shift_def split: if_splits) (auto dest: xor_cancel(2))
  ultimately have "bit a n = bit b n" for n
    using bit_drop_bit_eq [of 1 a] bit_drop_bit_eq [of 1 b] by (cases n) (auto simp: fun_eq_iff)
  then show "a = b"
    by (simp add: bit_eq_iff)
qed

lemma crc_shift_pow_inj: "(crc_shift ^^ n) a = (crc_shift ^^ n) b \<Longrightarrow> a = b"
  by (induction n) (auto dest: crc_shift_inj)

lemma crc_byte_inj: "crc_byte a c = crc_byte b c \<Longrightarrow> a = b"
  unfolding crc_byte_ref ref_byte_def by (drule crc_shift_pow_inj) (rule xor_cancel(1))

lemma of_char_word_inj: "(of_nat (of_char a) :: u32) = of_nat (of_char b) \<Longrightarrow> a = b"
proof -
  assume e: "(of_nat (of_char a) :: u32) = of_nat (of_char b)"
  have "(of_char a :: nat) < 2 ^ 32" "(of_char b :: nat) < 2 ^ 32"
    using of_char_lt [of a] of_char_lt [of b] by (simp_all add: less_trans [of _ 256])
  then have "(of_char a :: nat) = of_char b"
    using arg_cong [OF e, of unat] by (simp add: unsigned_of_nat take_bit_nat_eq_self)
  then show "a = b" by simp
qed

lemma crc_byte_inj2: "crc_byte s a = crc_byte s b \<Longrightarrow> a = b"
  unfolding crc_byte_ref ref_byte_def by (drule crc_shift_pow_inj) (auto dest: xor_cancel(2) of_char_word_inj)

lemma foldl_crc_inj: "foldl crc_byte a data = foldl crc_byte b data \<Longrightarrow> a = b"
  by (induction data arbitrary: a b) (auto dest: crc_byte_inj)

lemma crc32_one_byte: "crc32 (xs @ a # ys) = crc32 (xs @ b # ys) \<Longrightarrow> a = b"
proof -
  assume "crc32 (xs @ a # ys) = crc32 (xs @ b # ys)"
  then have "foldl crc_byte (crc_byte (foldl crc_byte 0xFFFFFFFF xs) a) ys = foldl crc_byte (crc_byte (foldl crc_byte 0xFFFFFFFF xs) b) ys"
    unfolding crc32_def foldl_append foldl_Cons by (rule xor_cancel(1))
  then show "a = b"
    by (blast dest: foldl_crc_inj crc_byte_inj2)
qed

lemma crc32_update:
  assumes "i < length data" "crc32 (data[i := c]) = crc32 data"
  shows "c = data ! i"
proof -
  have "data = take i data @ data ! i # drop (Suc i) data" "data[i := c] = take i data @ c # drop (Suc i) data"
    using assms(1) by (simp_all add: id_take_nth_drop upd_conv_take_nth_drop)
  then show ?thesis
    using assms(2) crc32_one_byte by metis
qed

end
