(* ===== verification/Snapshot.thy ===== *)
theory Snapshot
  imports Database Crc32
begin

text \<open>
  The snapshot codec of \<^verbatim>\<open>persistence/snapshot.cpp\<close>: the little-endian primitives, the encoding of
  values and records, and the loader with all its rejections. A \<^verbatim>\<open>std::vector<uint8_t>\<close> is a
  \<^typ>\<open>string\<close>. An error of the loader is a value; undefined behaviour (which only a sorted set with NaN
  scores can cause) is \<^term>\<open>None\<close>.
\<close>

section \<open>Primitives\<close>

definition kFormatVersion :: u16 where "kFormatVersion = 1"
definition kEofTag :: nat where "kEofTag = 255"
definition kHeaderSize :: nat where "kHeaderSize = 16"
definition kFooterSize :: nat where "kFooterSize = 13"
definition kTypeString :: nat where "kTypeString = 1"
definition kTypeHash :: nat where "kTypeHash = 2"
definition kTypeList :: nat where "kTypeList = 3"
definition kTypeSet :: nat where "kTypeSet = 4"
definition kTypeZSet :: nat where "kTypeZSet = 5"

text \<open>The byte loop that all writers of integers share, least significant byte first.\<close>

definition write_le :: "nat \<Rightarrow> 'a::len word \<Rightarrow> string" where
  "write_le k v = map (\<lambda>i. char_of (unat (drop_bit (8 * i) v))) [0..<k]"

definition write_u8 :: "nat \<Rightarrow> string" where "write_u8 v = [char_of v]"
definition write_u16 :: "u16 \<Rightarrow> string" where "write_u16 v = write_le 2 v"
definition write_u32 :: "u32 \<Rightarrow> string" where "write_u32 v = write_le 4 v"
definition write_u64 :: "u64 \<Rightarrow> string" where "write_u64 v = write_le 8 v"
definition write_i64 :: "int \<Rightarrow> string" where "write_i64 v = write_u64 (word_of_int v)"
definition write_f64 :: "f64 \<Rightarrow> string" where "write_f64 v = write_u64 v"
definition write_lp_bytes :: "string \<Rightarrow> string" where
  "write_lp_bytes s = write_u32 (of_nat (length s)) @ s"

text \<open>The bounds check of every reader: the next \<open>n\<close> bytes and the offset behind them.\<close>

definition read_chunk :: "string \<Rightarrow> nat \<Rightarrow> nat \<Rightarrow> (string \<times> nat) option" where
  "read_chunk data offset n =
    (if length data < offset + n then None else Some (take n (drop offset data), offset + n))"

definition read_le :: "nat \<Rightarrow> string \<Rightarrow> 'a::len word" where
  "read_le k ch = foldl (\<lambda>v i. v OR push_bit (8 * i) (of_nat (of_char (ch ! i)))) 0 [0..<k]"

definition read_u8 :: "string \<Rightarrow> nat \<Rightarrow> (nat \<times> nat) option" where
  "read_u8 data offset = do { (ch, o') \<leftarrow> read_chunk data offset 1; Some (of_char (ch ! 0), o') }"
definition read_u16 :: "string \<Rightarrow> nat \<Rightarrow> (u16 \<times> nat) option" where
  "read_u16 data offset = do { (ch, o') \<leftarrow> read_chunk data offset 2; Some (read_le 2 ch, o') }"
definition read_u32 :: "string \<Rightarrow> nat \<Rightarrow> (u32 \<times> nat) option" where
  "read_u32 data offset = do { (ch, o') \<leftarrow> read_chunk data offset 4; Some (read_le 4 ch, o') }"
definition read_u64 :: "string \<Rightarrow> nat \<Rightarrow> (u64 \<times> nat) option" where
  "read_u64 data offset = do { (ch, o') \<leftarrow> read_chunk data offset 8; Some (read_le 8 ch, o') }"
definition read_i64 :: "string \<Rightarrow> nat \<Rightarrow> (int \<times> nat) option" where
  "read_i64 data offset = do { (bits, o') \<leftarrow> read_u64 data offset; Some (sint bits, o') }"
definition read_f64 :: "string \<Rightarrow> nat \<Rightarrow> (f64 \<times> nat) option" where
  "read_f64 data offset = read_u64 data offset"
definition read_lp_bytes :: "string \<Rightarrow> nat \<Rightarrow> (string \<times> nat) option" where
  "read_lp_bytes data offset = do { (len, o') \<leftarrow> read_u32 data offset; read_chunk data o' (unat len) }"

section \<open>Encoding\<close>

fun encode_payload :: "val \<Rightarrow> string ub" where
  "encode_payload (VString s) = Some (write_lp_bytes s)"
| "encode_payload (VHash h) = Some (write_u32 (of_nat (ht_size h)) @
     concat (map (\<lambda>(f, v). write_lp_bytes f @ write_lp_bytes v) (ht_for_each h)))"
| "encode_payload (VList l) = Some (write_u32 (of_nat (length l)) @ concat (map write_lp_bytes l))"
| "encode_payload (VSet s) = Some (write_u32 (of_nat (ht_size s)) @
     concat (map (\<lambda>(m, u). write_lp_bytes m) (ht_for_each s)))"
| "encode_payload (VZSet z) = do {
     ns \<leftarrow> walk avl_next (\<lambda>_. False) (ztree z) (avl_size (ztree z)) (avl_select 0 (ztree z));
     Some (write_u32 (of_nat (zset_size z)) @
       concat (map (\<lambda>(a, e). write_lp_bytes (emember e) @ write_f64 (escore e)) ns))
   }"

fun type_tag_of :: "val \<Rightarrow> nat" where
  "type_tag_of (VString s) = kTypeString"
| "type_tag_of (VHash h) = kTypeHash"
| "type_tag_of (VList l) = kTypeList"
| "type_tag_of (VSet s) = kTypeSet"
| "type_tag_of (VZSet z) = kTypeZSet"

text \<open>What the callback of \<^verbatim>\<open>encode_snapshot\<close> appends for one key.\<close>

definition encode_record :: "string \<times> val \<times> int option \<Rightarrow> string ub" where
  "encode_record r = (case r of (key, v, expire_unix_ms) \<Rightarrow> do {
     payload \<leftarrow> encode_payload v;
     Some (write_u8 (type_tag_of v) @ write_u8 (if expire_unix_ms = None then 0 else 1) @
       (case expire_unix_ms of None \<Rightarrow> [] | Some e \<Rightarrow> write_i64 e) @ write_lp_bytes key @ payload)
   })"

definition snapshot_header :: "int \<Rightarrow> string" where
  "snapshot_header now_unix = ''GRDS'' @ write_u16 kFormatVersion @ write_u16 0 @ write_u64 (word_of_int now_unix)"

definition encode_snapshot :: "int \<Rightarrow> int \<Rightarrow> database \<Rightarrow> (string \<times> database) ub" where
  "encode_snapshot now_mono now_unix db = do {
     (calls, db') \<leftarrow> for_each_for_snapshot now_mono now_unix db;
     records \<leftarrow> those (map encode_record calls);
     let body = snapshot_header now_unix @ concat records @ write_u8 kEofTag @ write_u64 (of_nat (length calls));
     Some (body @ write_u32 (crc32 body), db')
   }"

section \<open>Decoding\<close>

fun decode_hash :: "nat \<Rightarrow> string \<Rightarrow> nat \<Rightarrow> string hash_table \<Rightarrow> string + string hash_table \<times> nat" where
  "decode_hash 0 data offset h = Inr (h, offset)"
| "decode_hash (Suc n) data offset h =
    (case (do { (field, o1) \<leftarrow> read_lp_bytes data offset; (v, o2) \<leftarrow> read_lp_bytes data o1; Some (field, v, o2) }) of
       None \<Rightarrow> Inl ''hash payload: field/value length points past end of file''
     | Some (field, v, o2) \<Rightarrow> decode_hash n data o2 (snd (ht_insert_or_assign h field v)))"

fun decode_list :: "nat \<Rightarrow> string \<Rightarrow> nat \<Rightarrow> string list \<Rightarrow> string + string list \<times> nat" where
  "decode_list 0 data offset l = Inr (l, offset)"
| "decode_list (Suc n) data offset l =
    (case read_lp_bytes data offset of
       None \<Rightarrow> Inl ''list payload: element length points past end of file''
     | Some (item, o1) \<Rightarrow> decode_list n data o1 (l @ [item]))"

fun decode_set :: "nat \<Rightarrow> string \<Rightarrow> nat \<Rightarrow> unit hash_table \<Rightarrow> string + unit hash_table \<times> nat" where
  "decode_set 0 data offset s = Inr (s, offset)"
| "decode_set (Suc n) data offset s =
    (case read_lp_bytes data offset of
       None \<Rightarrow> Inl ''set payload: member length points past end of file''
     | Some (m, o1) \<Rightarrow> decode_set n data o1 (snd (ht_insert_or_assign s m ())))"

fun decode_zset :: "nat \<Rightarrow> string \<Rightarrow> nat \<Rightarrow> zset \<Rightarrow> (string + zset \<times> nat) ub" where
  "decode_zset 0 data offset z = Some (Inr (z, offset))"
| "decode_zset (Suc n) data offset z =
    (case (do { (m, o1) \<leftarrow> read_lp_bytes data offset; (s, o2) \<leftarrow> read_f64 data o1; Some (m, s, o2) }) of
       None \<Rightarrow> Some (Inl ''zset payload: member/score length points past end of file'')
     | Some (m, s, o2) \<Rightarrow> do { (applied, z') \<leftarrow> zset_upsert m s z; decode_zset n data o2 z' })"

definition decode_payload :: "string \<Rightarrow> nat \<Rightarrow> nat \<Rightarrow> (string + val \<times> nat) ub" where
  "decode_payload data offset tag =
    (if tag = kTypeString then
       Some (case read_lp_bytes data offset of
               None \<Rightarrow> Inl ''string payload: length points past end of file''
             | Some (s, o1) \<Rightarrow> Inr (VString s, o1))
     else if tag = kTypeHash then
       Some (case read_u32 data offset of
               None \<Rightarrow> Inl ''hash payload: truncated field count''
             | Some (cnt, o1) \<Rightarrow> map_sum id (apfst VHash) (decode_hash (unat cnt) data o1 reset_to_empty))
     else if tag = kTypeList then
       Some (case read_u32 data offset of
               None \<Rightarrow> Inl ''list payload: truncated element count''
             | Some (cnt, o1) \<Rightarrow> map_sum id (apfst VList) (decode_list (unat cnt) data o1 []))
     else if tag = kTypeSet then
       Some (case read_u32 data offset of
               None \<Rightarrow> Inl ''set payload: truncated member count''
             | Some (cnt, o1) \<Rightarrow> map_sum id (apfst VSet) (decode_set (unat cnt) data o1 reset_to_empty))
     else if tag = kTypeZSet then
       (case read_u32 data offset of
          None \<Rightarrow> Some (Inl ''zset payload: truncated member count'')
        | Some (cnt, o1) \<Rightarrow> do {
            r \<leftarrow> decode_zset (unat cnt) data o1 zset_empty;
            Some (map_sum id (apfst VZSet) r) })
     else Some (Inl ''unknown record type tag''))"

definition decode_one_record :: "string \<Rightarrow> nat \<Rightarrow> int \<Rightarrow> int \<Rightarrow> database \<Rightarrow> (string + database \<times> nat) ub" where
  "decode_one_record data offset now_mono now_unix scratch =
    (case read_u8 data offset of
       None \<Rightarrow> Some (Inl ''truncated record: missing type tag'')
     | Some (tag, o1) \<Rightarrow>
    if tag < kTypeString \<or> kTypeZSet < tag then Some (Inl ''unknown record type tag'')
    else case read_u8 data o1 of
       None \<Rightarrow> Some (Inl ''truncated record: missing has_ttl flag'')
     | Some (has_ttl, o2) \<Rightarrow>
    if has_ttl \<noteq> 0 \<and> has_ttl \<noteq> 1 then Some (Inl ''invalid has_ttl flag value (must be 0 or 1)'')
    else case (if has_ttl = 1 then map_option (apfst Some) (read_i64 data o2) else Some (None, o2)) of
       None \<Rightarrow> Some (Inl ''truncated record: missing expire time'')
     | Some (expire_unix_ms, o3) \<Rightarrow>
    case read_lp_bytes data o3 of
       None \<Rightarrow> Some (Inl ''truncated record: key length points past end of file'')
     | Some (key, o4) \<Rightarrow> do {
         r \<leftarrow> decode_payload data o4 tag;
         Some (map_sum id (\<lambda>(v, o5). (load_key key v expire_unix_ms now_mono now_unix scratch, o5)) r)
       })"

text \<open>The record loop; not returning would be \<^term>\<open>None\<close> as well.\<close>

partial_function (option) decode_records ::
  "string \<Rightarrow> nat \<Rightarrow> int \<Rightarrow> int \<Rightarrow> nat \<Rightarrow> nat \<Rightarrow> database \<Rightarrow> (string + database \<times> nat \<times> nat) option" where
  "decode_records data footer_start now_mono now_unix offset parsed scratch =
    (if footer_start \<le> offset then Some (Inr (scratch, offset, parsed))
     else case decode_one_record data offset now_mono now_unix scratch of
       None \<Rightarrow> None
     | Some (Inl e) \<Rightarrow> Some (Inl (''record '' @ nat_to_string parsed @ '': '' @ e))
     | Some (Inr (scratch', offset')) \<Rightarrow>
         decode_records data footer_start now_mono now_unix offset' (parsed + 1) scratch')"

definition or_unread :: "('a::zero \<times> nat) option \<Rightarrow> nat \<Rightarrow> 'a \<times> nat" where
  "or_unread r offset = (case r of Some x \<Rightarrow> x | None \<Rightarrow> (0, offset))"

text \<open>The result: an error text or none, and the database, which an error leaves alone.\<close>

definition decode_snapshot :: "string \<Rightarrow> database \<Rightarrow> int \<Rightarrow> int \<Rightarrow> (string option \<times> database) ub" where
  "decode_snapshot bytes target now_mono now_unix =
    (if length bytes < kHeaderSize + kFooterSize
     then Some (Some ''file too small to contain a valid header and footer'', target)
     else if take 4 bytes \<noteq> ''GRDS'' then Some (Some ''bad magic (not a gredis snapshot file)'', target)
     else let (version, o1) = or_unread (read_u16 bytes 4) 4;
              (flags, o2) = or_unread (read_u16 bytes o1) o1;
              (created_unix_ms, offset) = or_unread (read_u64 bytes o2) o2 in
     if version \<noteq> kFormatVersion
     then Some (Some (''unsupported snapshot format version '' @ nat_to_string (unat version)), target)
     else let footer_start = length bytes - kFooterSize in
     if of_char (bytes ! footer_start) \<noteq> kEofTag
     then Some (Some ''corrupt or missing footer (EOF marker not found)'', target)
     else let (stored_record_count, f1) = or_unread (read_u64 bytes (footer_start + 1)) (footer_start + 1);
              (stored_crc, f2) = or_unread (read_u32 bytes f1) f1 in
     if crc32 (take (length bytes - 4) bytes) \<noteq> stored_crc
     then Some (Some ''checksum mismatch (file is corrupt or truncated)'', target)
     else do {
       r \<leftarrow> decode_records bytes footer_start now_mono now_unix offset 0 db_empty_init;
       Some (case r of
         Inl e \<Rightarrow> (Some e, target)
       | Inr (scratch, end_offset, parsed) \<Rightarrow>
           if end_offset \<noteq> footer_start then (Some ''a record's length ran past the footer boundary'', target)
           else if (of_nat parsed :: u64) \<noteq> stored_record_count
           then (Some (''record count mismatch (footer says '' @ nat_to_string (unat stored_record_count) @ '', parsed '' @
                  nat_to_string parsed @ '')''), target)
           else (None, scratch))
     })"

section \<open>The primitives read back what they wrote\<close>

lemma bit_or_fold: "bit (foldl (\<lambda>v i. v OR f i) v0 [0..<k]) n \<longleftrightarrow> bit v0 n \<or> (\<exists>i < k. bit (f i) n)" for v0 :: "'a::len word"
  by (induction k) (auto simp: bit_simps less_Suc_eq)

lemma bit_byte_at:
  "bit (push_bit (8 * i) (of_nat (of_char c) :: 'a::len word)) n \<longleftrightarrow>
    8 * i \<le> n \<and> n < 8 * i + 8 \<and> n < LENGTH('a) \<and> bit (of_nat (of_char c) :: 'a word) (n - 8 * i)"
proof -
  have "n < 8 * i + 8" if "bit (of_nat (of_char c) :: 'a word) (n - 8 * i)"
    using byte_word_bit [OF that] by simp
  then show ?thesis
    by (auto simp: bit_push_bit_iff)
qed

lemma bit_read_le:
  "bit (read_le k ch :: 'a::len word) n \<longleftrightarrow> n < LENGTH('a) \<and> n div 8 < k \<and> bit (of_nat (of_char (ch ! (n div 8))) :: 'a word) (n mod 8)"
proof -
  have at: "i = n div 8 \<and> n - 8 * i = n mod 8" if "8 * i \<le> n" "n < 8 * i + 8" for i
  proof -
    have "i = n div 8" using that by auto
    then show ?thesis by (simp add: minus_mult_div_eq_mod)
  qed
  have "8 * (n div 8) \<le> n" "n < 8 * (n div 8) + 8" "n - 8 * (n div 8) = n mod 8"
    by (auto simp: minus_mult_div_eq_mod)
  then show ?thesis
    unfolding read_le_def bit_or_fold bit_byte_at using at by (metis bit_0_eq bot_apply bot_bool_def)
qed

lemma byte_of_word: "(of_nat (of_char (char_of (unat w))) :: 'a::len word) = take_bit 8 (w :: 'a word)"
proof -
  have "(of_char (char_of (unat w)) :: nat) = take_bit 8 (unat w)"
    by (simp add: take_bit_eq_mod)
  then show ?thesis
    by (simp add: take_bit_of_nat [symmetric])
qed

lemma read_le_write_le:
  assumes "LENGTH('a) \<le> 8 * k"
  shows "read_le k (write_le k v) = (v :: 'a::len word)"
proof (rule bit_word_eqI)
  fix n
  assume n: "n < LENGTH('a)"
  then have d: "n div 8 < k"
    using assms by (simp add: less_mult_imp_div_less)
  have w: "write_le k v ! (n div 8) = char_of (unat (drop_bit (8 * (n div 8)) v))"
    using d by (simp add: write_le_def)
  have "8 * (n div 8) + n mod 8 = n" by simp
  then show "bit (read_le k (write_le k v) :: 'a word) n = bit v n"
    unfolding bit_read_le w byte_of_word using n d by (simp add: bit_simps)
qed

lemma write_le_length [simp]: "length (write_le k v) = k"
  by (simp add: write_le_def)

lemma write_le_read_le:
  assumes k: "LENGTH('a) = 8 * k" "8 < LENGTH('a)" and len: "length ch = k"
  shows "write_le k (read_le k ch :: 'a::len word) = ch"
proof (rule nth_equalityI)
  fix i
  assume "i < length (write_le k (read_le k ch :: 'a word))"
  then have i: "i < k" by simp
  let ?b = "of_nat (of_char (ch ! i)) :: 'a word"
  have "take_bit 8 (drop_bit (8 * i) (read_le k ch :: 'a word)) = ?b"
  proof (rule bit_word_eqI)
    fix m
    assume "m < LENGTH('a)"
    show "bit (take_bit 8 (drop_bit (8 * i) (read_le k ch :: 'a word))) m = bit ?b m"
    proof (cases "m < 8")
      case True
      then have "(8 * i + m) div 8 = i" "(8 * i + m) mod 8 = m" "8 * i + m < LENGTH('a)"
        using i k by auto
      then show ?thesis
        using True i by (simp add: bit_simps bit_read_le)
    next
      case False
      then show ?thesis
        using byte_word_bit [of "ch ! i" m] by (auto simp: bit_simps)
    qed
  qed
  moreover have "(of_char (ch ! i) :: nat) < 2 ^ LENGTH('a)"
    using power_strict_increasing [OF k(2), of "2 :: nat"] by (intro less_trans [OF of_char_lt]) simp
  then have "unat ?b = of_char (ch ! i)"
    by (simp add: unsigned_of_nat take_bit_nat_eq_self)
  ultimately have "take_bit 8 (unat (drop_bit (8 * i) (read_le k ch :: 'a word))) = of_char (ch ! i)"
    by (metis unsigned_take_bit_eq)
  then show "write_le k (read_le k ch :: 'a word) ! i = ch ! i"
    using i by (simp add: write_le_def char_of_eq_iff)
qed (simp add: len)

text \<open>Reading at the place where something was written.\<close>

lemma read_chunk_at: "length ch = n \<Longrightarrow> read_chunk (pre @ ch @ post) (length pre) n = Some (ch, length pre + n)"
  by (simp add: read_chunk_def)

lemma write_lengths [simp]:
  "length (write_u8 t) = 1" "length (write_u16 v2) = 2" "length (write_u32 v4) = 4" "length (write_u64 v8) = 8" "length (write_i64 n) = 8"
  "length (write_f64 f) = 8" "length (write_lp_bytes s) = 4 + length s"
  by (simp_all add: write_u8_def write_u16_def write_u32_def write_u64_def write_i64_def write_f64_def write_lp_bytes_def)

lemma reads_back:
  "t < 256 \<Longrightarrow> read_u8 (pre @ write_u8 t @ post) (length pre) = Some (t, length pre + 1)"
  "read_u16 (pre @ write_u16 v2 @ post) (length pre) = Some (v2, length pre + 2)"
  "read_u32 (pre @ write_u32 v4 @ post) (length pre) = Some (v4, length pre + 4)"
  "read_u64 (pre @ write_u64 v8 @ post) (length pre) = Some (v8, length pre + 8)"
  "read_f64 (pre @ write_f64 f @ post) (length pre) = Some (f, length pre + 8)"
  "in_i64 n \<Longrightarrow> read_i64 (pre @ write_i64 n @ post) (length pre) = Some (n, length pre + 8)"
  "length s < 2 ^ 32 \<Longrightarrow> read_lp_bytes (pre @ write_lp_bytes s @ post) (length pre) = Some (s, length pre + length (write_lp_bytes s))"
proof -
  show "read_u8 (pre @ write_u8 t @ post) (length pre) = Some (t, length pre + 1)" if "t < 256"
    using that by (simp add: read_u8_def write_u8_def read_chunk_def)
  show "read_u16 (pre @ write_u16 v2 @ post) (length pre) = Some (v2, length pre + 2)"
    by (simp add: read_u16_def write_u16_def read_chunk_at read_le_write_le)
  show r4: "read_u32 (pre @ write_u32 v4 @ post) (length pre) = Some (v4, length pre + 4)" for v4 post
    by (simp add: read_u32_def write_u32_def read_chunk_at read_le_write_le)
  show r8: "read_u64 (pre @ write_u64 v8 @ post) (length pre) = Some (v8, length pre + 8)" for v8
    by (simp add: read_u64_def write_u64_def read_chunk_at read_le_write_le)
  then show "read_f64 (pre @ write_f64 f @ post) (length pre) = Some (f, length pre + 8)"
    by (simp add: read_f64_def write_f64_def)
  show "read_i64 (pre @ write_i64 n @ post) (length pre) = Some (n, length pre + 8)" if "in_i64 n"
  proof -
    have "sint (word_of_int n :: u64) = n"
      using that by (simp add: i64_defs signed_of_int signed_take_bit_int_eq_self)
    then show ?thesis
      by (simp add: read_i64_def write_i64_def r8)
  qed
  show "read_lp_bytes (pre @ write_lp_bytes s @ post) (length pre) = Some (s, length pre + length (write_lp_bytes s))" if "length s < 2 ^ 32"
  proof -
    have "unat (of_nat (length s) :: u32) = length s"
      using that by (simp add: unsigned_of_nat take_bit_nat_eq_self)
    then show ?thesis
      using r4 [of "of_nat (length s)" "s @ post"] read_chunk_at [of s "length s" "pre @ write_u32 (of_nat (length s))" post]
      by (simp add: read_lp_bytes_def write_lp_bytes_def)
  qed
qed

section \<open>Values read back\<close>

abbreviation small :: "string \<Rightarrow> bool" where "small s \<equiv> length s < 2 ^ 32"

lemma read_lp_at:
  assumes "data = pre @ write_lp_bytes s @ post" "offset = length pre" "small s"
  shows "read_lp_bytes data offset = Some (s, offset + (4 + length s))"
  using reads_back(7) [OF assms(3), of pre post] assms(1,2) by simp

lemma read_f64_at:
  assumes "data = pre @ write_f64 f @ post" "offset = length pre"
  shows "read_f64 data offset = Some (f, offset + 8)"
  using reads_back(5) [of pre f post] assms by simp

lemma decode_hash_back:
  assumes "\<forall>(f, v) \<in> set es. small f \<and> small v"
    "data = pre @ concat (map (\<lambda>(f, v). write_lp_bytes f @ write_lp_bytes v) es) @ post" "offset = length pre"
  shows "decode_hash (length es) data offset h = Inr (snd (insert_all ht_insert_or_assign a h es),
    offset + length (concat (map (\<lambda>(f, v). write_lp_bytes f @ write_lp_bytes v) es)))"
  using assms
proof (induction es arbitrary: pre offset h a)
  case Nil
  then show ?case by simp
next
  case (Cons e es)
  obtain f v where e: "e = (f, v)" by force
  have sm: "small f" "small v" and rest: "\<forall>(f, v) \<in> set es. small f \<and> small v"
    using Cons.prems(1) e by auto
  let ?pre = "pre @ write_lp_bytes f @ write_lp_bytes v"
  have r1: "read_lp_bytes data offset = Some (f, offset + (4 + length f))"
    by (rule read_lp_at [OF _ Cons.prems(3) sm(1)]) (simp add: Cons.prems(2) e)
  have r2: "read_lp_bytes data (offset + (4 + length f)) = Some (v, offset + (4 + length f) + (4 + length v))"
    by (rule read_lp_at [of _ "pre @ write_lp_bytes f", OF _ _ sm(2)]) (simp_all add: Cons.prems(2,3) e)
  have d: "data = ?pre @ concat (map (\<lambda>(f, v). write_lp_bytes f @ write_lp_bytes v) es) @ post"
    by (simp add: Cons.prems(2) e)
  obtain b h' where ins: "ht_insert_or_assign h f v = (b, h')" by force
  show ?case
    using Cons.IH [OF rest d, of "offset + (4 + length f) + (4 + length v)" h' "if b then a + 1 else a"] r1 r2 ins e Cons.prems(3)
    by (simp add: algebra_simps)
qed

lemma decode_set_back:
  assumes "\<forall>(m, u) \<in> set es. small m" "data = pre @ concat (map (\<lambda>(m, u). write_lp_bytes m) es) @ post" "offset = length pre"
  shows "decode_set (length es) data offset s = Inr (snd (insert_all ht_insert_or_assign a s es),
    offset + length (concat (map (\<lambda>(m, u). write_lp_bytes m) es)))"
  using assms
proof (induction es arbitrary: pre offset s a)
  case Nil
  then show ?case by simp
next
  case (Cons e es)
  obtain m where e: "e = (m, ())" by (cases e) simp
  have sm: "small m" and rest: "\<forall>(m, u) \<in> set es. small m"
    using Cons.prems(1) e by auto
  have r1: "read_lp_bytes data offset = Some (m, offset + (4 + length m))"
    by (rule read_lp_at [OF _ Cons.prems(3) sm]) (simp add: Cons.prems(2) e)
  have d: "data = (pre @ write_lp_bytes m) @ concat (map (\<lambda>(m, u). write_lp_bytes m) es) @ post"
    by (simp add: Cons.prems(2) e)
  obtain b s' where ins: "ht_insert_or_assign s m () = (b, s')" by force
  show ?case
    using Cons.IH [OF rest d, of "offset + (4 + length m)" s' "if b then a + 1 else a"] r1 ins e Cons.prems(3)
    by (simp add: algebra_simps)
qed

lemma decode_list_back:
  assumes "\<forall>x \<in> set xs. small x" "data = pre @ concat (map write_lp_bytes xs) @ post" "offset = length pre"
  shows "decode_list (length xs) data offset l = Inr (l @ xs, offset + length (concat (map write_lp_bytes xs)))"
  using assms
proof (induction xs arbitrary: pre offset l)
  case Nil
  then show ?case by simp
next
  case (Cons x xs)
  have r1: "read_lp_bytes data offset = Some (x, offset + (4 + length x))"
    by (rule read_lp_at [OF _ Cons.prems(3)]) (use Cons.prems in simp_all)
  have d: "data = (pre @ write_lp_bytes x) @ concat (map write_lp_bytes xs) @ post"
    by (simp add: Cons.prems(2))
  show ?case
    using Cons.IH [OF _ d, of "offset + (4 + length x)" "l @ [x]"] r1 Cons.prems by (simp add: algebra_simps)
qed

definition put_entry :: "entry \<Rightarrow> (string \<rightharpoonup> f64) \<Rightarrow> (string \<rightharpoonup> f64)" where
  "put_entry e S = S(emember e \<mapsto> escore e)"

lemma decode_zset_back:
  assumes "\<forall>e \<in> set es. small (emember e) \<and> entry_ok e" "distinct (map emember es)"
    "data = pre @ concat (map (\<lambda>e. write_lp_bytes (emember e) @ write_f64 (escore e)) es) @ post" "offset = length pre"
    "zset_invar z" "\<forall>e \<in> set es. zset_map z (emember e) = None"
  shows "\<exists>z'. decode_zset (length es) data offset z =
      Some (Inr (z', offset + length (concat (map (\<lambda>e. write_lp_bytes (emember e) @ write_f64 (escore e)) es)))) \<and>
    zset_invar z' \<and> zset_map z' = fold put_entry es (zset_map z)"
  using assms
proof (induction es arbitrary: pre offset z)
  case Nil
  then show ?case by simp
next
  case (Cons e es)
  let ?m = "emember e"
  have r1: "read_lp_bytes data offset = Some (?m, offset + (4 + length ?m))"
    by (rule read_lp_at [OF _ Cons.prems(4)]) (use Cons.prems in simp_all)
  have r2: "read_f64 data (offset + (4 + length ?m)) = Some (escore e, offset + (4 + length ?m) + 8)"
    by (rule read_f64_at [of _ "pre @ write_lp_bytes ?m"]) (simp_all add: Cons.prems(3,4))
  have nn: "\<not> f64_isnan (escore e)"
    using Cons.prems(1) by (simp add: entry_ok_def)
  have "score_put ?m (escore e) (zset_map z) = put_entry e (zset_map z)"
    using Cons.prems(6) by (simp add: score_put_def put_entry_def)
  then obtain z1 where z1: "zset_upsert ?m (escore e) z = Some ((escore e, zset_map z ?m = None), z1)" "zset_invar z1"
    "zset_map z1 = put_entry e (zset_map z)"
    using zset_upsert_spec [OF Cons.prems(5) nn, of ?m] by auto
  have d: "data = (pre @ write_lp_bytes ?m @ write_f64 (escore e)) @ concat (map (\<lambda>e. write_lp_bytes (emember e) @ write_f64 (escore e)) es) @ post"
    by (simp add: Cons.prems(3))
  have fresh: "\<forall>x \<in> set es. zset_map z1 (emember x) = None"
    using Cons.prems(2,6) z1(3) by (auto simp: put_entry_def image_iff)
  show ?case
    using Cons.IH [OF _ _ d _ z1(2) fresh, of "offset + (4 + length ?m) + 8"] Cons.prems(1,2,4) r1 r2 z1(1,3)
    by (auto simp: algebra_simps)
qed

fun val_fits :: "val \<Rightarrow> bool" where
  "val_fits (VString s) = small s"
| "val_fits (VHash h) = (ht_size h < 2 ^ 32 \<and> (\<forall>(f, v) \<in> set (ht_for_each h). small f \<and> small v))"
| "val_fits (VList l) = (length l < 2 ^ 32 \<and> (\<forall>x \<in> set l. small x))"
| "val_fits (VSet s) = (ht_size s < 2 ^ 32 \<and> (\<forall>(m, u) \<in> set (ht_for_each s). small m))"
| "val_fits (VZSet z) = (zset_size z < 2 ^ 32 \<and> (\<forall>e \<in> set (zset_list z). small (emember e)))"

lemma unat_u32: "n < 2 ^ 32 \<Longrightarrow> unat (of_nat n :: u32) = n"
  by (simp add: unsigned_of_nat take_bit_nat_eq_self)

lemma map_of_rev_distinct: "distinct (map fst es) \<Longrightarrow> map_of (rev es) = map_of es"
  by (rule map_of_inject_set [THEN iffD2]) (simp_all add: rev_map [symmetric])

lemma insert_all_back:
  assumes "ht_invar h"
  shows "ht_invar (snd (insert_all ht_insert_or_assign a reset_to_empty (ht_for_each h)))"
    "ht_map (snd (insert_all ht_insert_or_assign a reset_to_empty (ht_for_each h))) = ht_map h"
proof -
  obtain a' h' where i: "insert_all ht_insert_or_assign a reset_to_empty (ht_for_each h) = (a', h')" by force
  show "ht_invar (snd (insert_all ht_insert_or_assign a reset_to_empty (ht_for_each h)))"
    "ht_map (snd (insert_all ht_insert_or_assign a reset_to_empty (ht_for_each h))) = ht_map h"
    using ht.insert_all_spec [OF reset_to_empty_spec(1) i] ht_for_each_spec [OF assms] i
    by (simp_all add: reset_to_empty_spec map_of_rev_distinct)
qed

lemma fold_put_entry:
  assumes "distinct (map emember es)"
  shows "fold put_entry es Map.empty = map_of (map entry_pair es)"
proof -
  have "fold put_entry es S = S ++ map_of (rev (map entry_pair es))" for S
    by (induction es arbitrary: S) (auto simp: put_entry_def entry_pair_def map_add_def fun_eq_iff split: option.splits)
  moreover have "map_of (rev (map entry_pair es)) = map_of (map entry_pair es)"
    using assms by (intro map_of_rev_distinct) (simp add: entry_pair_def comp_def)
  ultimately show ?thesis by simp
qed

lemma payload_back:
  assumes inv: "val_invar v" and fits: "val_fits v"
  shows "\<exists>p. encode_payload v = Some p \<and> (\<forall>data pre post. data = pre @ p @ post \<longrightarrow>
    (\<exists>v'. decode_payload data (length pre) (type_tag_of v) = Some (Inr (v', length pre + length p)) \<and> val_invar v' \<and> val_abs v' = val_abs v))"
proof (cases v)
  case (VString s)
  have "decode_payload data (length pre) kTypeString = Some (Inr (VString s, length pre + length (write_lp_bytes s)))"
    if "data = pre @ write_lp_bytes s @ post" for data pre post
    using read_lp_at [OF that refl] fits VString by (simp add: decode_payload_def)
  then show ?thesis
    using VString by auto
next
  case (VHash h)
  let ?es = "ht_for_each h"
  let ?c = "concat (map (\<lambda>(f, v). write_lp_bytes f @ write_lp_bytes v) ?es)"
  let ?h' = "snd (insert_all ht_insert_or_assign 0 reset_to_empty ?es)"
  have hi: "ht_invar h" using inv VHash by simp
  have "decode_payload data (length pre) kTypeHash = Some (Inr (VHash ?h', length pre + length (write_u32 (of_nat (ht_size h)) @ ?c)))"
    if d: "data = pre @ (write_u32 (of_nat (ht_size h)) @ ?c) @ post" for data pre post
  proof -
    have r: "read_u32 data (length pre) = Some (of_nat (ht_size h), length pre + 4)"
      using reads_back(3) [of pre "of_nat (ht_size h)" "?c @ post"] d by simp
    have "decode_hash (length ?es) data (length pre + 4) reset_to_empty = Inr (?h', length pre + 4 + length ?c)"
      by (rule decode_hash_back [of _ _ "pre @ write_u32 (of_nat (ht_size h))"]) (use fits VHash d in simp_all)
    then show ?thesis
      using r fits VHash ht_for_each_spec(3) [OF hi] unat_u32 [of "ht_size h"]
      by (simp add: decode_payload_def kTypeHash_def kTypeString_def add.assoc)
  qed
  then show ?thesis
    using VHash insert_all_back [OF hi] by auto
next
  case (VList l)
  let ?c = "concat (map write_lp_bytes l)"
  have "decode_payload data (length pre) kTypeList = Some (Inr (VList l, length pre + length (write_u32 (of_nat (length l)) @ ?c)))"
    if d: "data = pre @ (write_u32 (of_nat (length l)) @ ?c) @ post" for data pre post
  proof -
    have r: "read_u32 data (length pre) = Some (of_nat (length l), length pre + 4)"
      using reads_back(3) [of pre "of_nat (length l)" "?c @ post"] d by simp
    have "decode_list (length l) data (length pre + 4) [] = Inr ([] @ l, length pre + 4 + length ?c)"
      by (rule decode_list_back [of _ _ "pre @ write_u32 (of_nat (length l))"]) (use fits VList d in simp_all)
    then show ?thesis
      using r fits VList unat_u32 [of "length l"]
      by (simp add: decode_payload_def kTypeHash_def kTypeString_def kTypeList_def add.assoc)
  qed
  then show ?thesis
    using VList by auto
next
  case (VSet s)
  let ?es = "ht_for_each s"
  let ?c = "concat (map (\<lambda>(m, u). write_lp_bytes m) ?es)"
  let ?s' = "snd (insert_all ht_insert_or_assign 0 reset_to_empty ?es)"
  have si: "ht_invar s" using inv VSet by simp
  have "decode_payload data (length pre) kTypeSet = Some (Inr (VSet ?s', length pre + length (write_u32 (of_nat (ht_size s)) @ ?c)))"
    if d: "data = pre @ (write_u32 (of_nat (ht_size s)) @ ?c) @ post" for data pre post
  proof -
    have r: "read_u32 data (length pre) = Some (of_nat (ht_size s), length pre + 4)"
      using reads_back(3) [of pre "of_nat (ht_size s)" "?c @ post"] d by simp
    have "decode_set (length ?es) data (length pre + 4) reset_to_empty = Inr (?s', length pre + 4 + length ?c)"
      by (rule decode_set_back [of _ _ "pre @ write_u32 (of_nat (ht_size s))"]) (use fits VSet d in simp_all)
    then show ?thesis
      using r fits VSet ht_for_each_spec(3) [OF si] unat_u32 [of "ht_size s"]
      by (simp add: decode_payload_def kTypeHash_def kTypeString_def kTypeList_def kTypeSet_def add.assoc)
  qed
  then show ?thesis
    using VSet insert_all_back [OF si] by auto
next
  case (VZSet z)
  let ?es = "zset_list z"
  let ?c = "concat (map (\<lambda>e. write_lp_bytes (emember e) @ write_f64 (escore e)) ?es)"
  have zi: "zset_invar z" using inv VZSet by simp
  have w: "walk avl_next (\<lambda>_. False) (ztree z) (avl_size (ztree z)) (avl_select 0 (ztree z)) = Some (seq (ztree z))"
    using zset_size_spec [OF zi] by (intro avl.walk_all [OF zset_invarD(3) [OF zi]]) (simp add: zset_list_def)
  have "map (\<lambda>(a, e). write_lp_bytes (emember e) @ write_f64 (escore e)) (seq (ztree z)) =
      map (\<lambda>e. write_lp_bytes (emember e) @ write_f64 (escore e)) ?es"
    by (simp add: zset_list_def split_beta comp_def)
  then have enc: "encode_payload v = Some (write_u32 (of_nat (zset_size z)) @ ?c)"
    using VZSet w by simp
  have "\<exists>z'. decode_payload data (length pre) kTypeZSet = Some (Inr (VZSet z', length pre + length (write_u32 (of_nat (zset_size z)) @ ?c))) \<and>
      zset_invar z' \<and> zset_map z' = zset_map z"
    if d: "data = pre @ (write_u32 (of_nat (zset_size z)) @ ?c) @ post" for data pre post
  proof -
    have r: "read_u32 data (length pre) = Some (of_nat (zset_size z), length pre + 4)"
      using reads_back(3) [of pre "of_nat (zset_size z)" "?c @ post"] d by simp
    obtain z' where z': "decode_zset (length ?es) data (length pre + 4) zset_empty = Some (Inr (z', length pre + 4 + length ?c))"
      "zset_invar z'" "zset_map z' = fold put_entry ?es (zset_map zset_empty)"
      using decode_zset_back [of ?es data "pre @ write_u32 (of_nat (zset_size z))" post "length pre + 4" zset_empty]
        fits VZSet d zset_list_sorted(2) [OF zi] zset_members_distinct [OF zi] by auto
    then show ?thesis
      using r fits VZSet zset_size_spec(1) [OF zi] unat_u32 [of "zset_size z"] fold_put_entry [OF zset_members_distinct [OF zi]]
      by (simp add: decode_payload_def kTypeHash_def kTypeString_def kTypeList_def kTypeSet_def kTypeZSet_def add.assoc zset_map_def)
  qed
  then show ?thesis
    using VZSet enc by fastforce
qed

section \<open>Records and files read back\<close>

text \<open>Whether the loader keeps a key with this expiry, and what it becomes.\<close>

definition keeps :: "int \<Rightarrow> int \<Rightarrow> int option \<Rightarrow> bool" where
  "keeps now_mono now_unix e \<longleftrightarrow>
    (\<forall>u. e = Some u \<longrightarrow> in_i64 (u - now_unix) \<and> in_i64 (now_mono + (u - now_unix)) \<and> now_unix < u)"

definition restored :: "int \<Rightarrow> int \<Rightarrow> 'v \<times> int option \<Rightarrow> ('v \<times> int option) option" where
  "restored now_mono now_unix r = (case r of (v, e) \<Rightarrow>
     if keeps now_mono now_unix e then Some (v, map_option (\<lambda>u. now_mono + (u - now_unix)) e) else None)"

definition record_ok :: "string \<times> val \<times> int option \<Rightarrow> bool" where
  "record_ok r = (case r of (k, v, e) \<Rightarrow> small k \<and> val_invar v \<and> val_nonempty v \<and> val_fits v \<and> (\<forall>u. e = Some u \<longrightarrow> in_i64 u))"

lemma type_tag_range: "kTypeString \<le> type_tag_of v" "type_tag_of v \<le> kTypeZSet" "type_tag_of v < 256"
  by (cases v; simp add: kTypeString_def kTypeHash_def kTypeList_def kTypeSet_def kTypeZSet_def)+

lemma record_back:
  assumes ok: "record_ok (k, v, e)"
  shows "\<exists>r. encode_record (k, v, e) = Some r \<and> r \<noteq> [] \<and> (\<forall>data pre post m u db. data = pre @ r @ post \<longrightarrow>
    (\<exists>v'. decode_one_record data (length pre) m u db = Some (Inr (load_key k v' e m u db, length pre + length r)) \<and>
      val_invar v' \<and> val_abs v' = val_abs v))"
proof -
  have A: "small k" "val_invar v" "val_fits v" and i: "\<And>x. e = Some x \<Longrightarrow> in_i64 x"
    using ok by (auto simp: record_ok_def)
  obtain p where p: "encode_payload v = Some p" and rb: "\<forall>data pre post. data = pre @ p @ post \<longrightarrow>
      (\<exists>v'. decode_payload data (length pre) (type_tag_of v) = Some (Inr (v', length pre + length p)) \<and> val_invar v' \<and> val_abs v' = val_abs v)"
    using payload_back [OF A(2,3)] by blast
  let ?t = "write_u8 (type_tag_of v)" and ?f = "write_u8 (if e = None then 0 else 1)" and ?e = "case e of None \<Rightarrow> [] | Some x \<Rightarrow> write_i64 x"
  let ?r = "?t @ ?f @ ?e @ write_lp_bytes k @ p"
  have "\<exists>v'. decode_one_record data (length pre) m u db = Some (Inr (load_key k v' e m u db, length pre + length ?r)) \<and>
      val_invar v' \<and> val_abs v' = val_abs v" if d: "data = pre @ ?r @ post" for data pre post m u db
  proof -
    let ?p3 = "pre @ ?t @ ?f @ ?e"
    have l: "length pre + 1 + 1 + length ?e = length ?p3" by simp
    have r1: "read_u8 data (length pre) = Some (type_tag_of v, length pre + 1)"
      using reads_back(1) [OF type_tag_range(3), of pre v] d by simp
    have r2: "read_u8 data (length pre + 1) = Some (if e = None then 0 else 1, length pre + 1 + 1)"
      using reads_back(1) [of "if e = None then 0 else 1" "pre @ ?t" "?e @ write_lp_bytes k @ p @ post"] d by simp
    have r3: "read_i64 data (length pre + 1 + 1) = Some (x, length pre + 1 + 1 + 8)" if "e = Some x" for x
      using reads_back(6) [OF i [OF that], of "pre @ ?t @ ?f" "write_lp_bytes k @ p @ post"] d that by simp
    have e3: "(if (if e = None then 0 else 1 :: nat) = 1 then map_option (apfst Some) (read_i64 data (length pre + 1 + 1)) else Some (None, length pre + 1 + 1)) =
        Some (e, length ?p3)"
      using r3 unfolding l [symmetric] by (cases e) simp_all
    have r4: "read_lp_bytes data (length ?p3) = Some (k, length ?p3 + (4 + length k))"
      by (rule read_lp_at [of _ ?p3 k "p @ post", OF _ refl A(1)]) (simp add: d)
    obtain v' where v': "decode_payload data (length (?p3 @ write_lp_bytes k)) (type_tag_of v) = Some (Inr (v', length (?p3 @ write_lp_bytes k) + length p))"
      "val_invar v'" "val_abs v' = val_abs v"
      using rb [rule_format, of data "?p3 @ write_lp_bytes k" post] d by auto
    have l4: "length ?p3 + (4 + length k) = length (?p3 @ write_lp_bytes k)"
      by simp
    have "decode_one_record data (length pre) m u db = Some (Inr (load_key k v' e m u db, length (?p3 @ write_lp_bytes k) + length p))"
      unfolding decode_one_record_def r1 r2 option.case prod.case e3 r4 l4 v'(1)
      using type_tag_range [of v] by (simp add: not_less)
    then show ?thesis
      using v'(2,3) by (intro exI [of _ v']) simp
  qed
  then show ?thesis
    using p by (intro exI [of _ ?r]) (simp add: encode_record_def write_u8_def)
qed

lemma load_key_view:
  assumes wf: "db_wf db" "db_full db" and v: "val_invar v" "val_nonempty v" and fresh: "ht_map (keyspace db) k = None"
    and now: "in_i64 m" "in_i64 u" "\<And>x. e = Some x \<Longrightarrow> in_i64 x"
  shows "db_wf (load_key k v e m u db)" "db_full (load_key k v e m u db)"
    "db_view (load_key k v e m u db) m = (db_view db m)(k := restored m u (val_abs v, e))"
    "k' \<noteq> k \<Longrightarrow> ht_map (keyspace (load_key k v e m u db)) k' = ht_map (keyspace db) k'"
proof -
  note L = load_key_spec [OF wf(1) v(1) fresh now]
  show "db_wf (load_key k v e m u db)" "db_full (load_key k v e m u db)"
    using L(1,2) wf(2) v(2) by simp_all
  show "db_view (load_key k v e m u db) m = (db_view db m)(k := restored m u (val_abs v, e))"
  proof -
    have "db_live (load_key k v e m u db) m = (db_live db m)(k := if keeps m u e then Some (v, map_option (\<lambda>x. m + (x - u)) e) else None)"
      unfolding keeps_def by (rule L(3))
    then show ?thesis
      by (simp add: db_view_def restored_def fun_eq_iff)
  qed
  show "k' \<noteq> k \<Longrightarrow> ht_map (keyspace (load_key k v e m u db)) k' = ht_map (keyspace db) k'"
    by (subst L(4)) simp_all
qed

definition loaded :: "int \<Rightarrow> int \<Rightarrow> (string \<times> val \<times> int option) list \<Rightarrow> (string \<rightharpoonup> aval \<times> int option) \<Rightarrow> (string \<rightharpoonup> aval \<times> int option)" where
  "loaded m u calls M = (\<lambda>k. case map_of calls k of None \<Rightarrow> M k | Some (v, e) \<Rightarrow> restored m u (val_abs v, e))"

lemma records_back:
  assumes "list_all record_ok calls" "distinct (map fst calls)"
  shows "\<exists>rs. those (map encode_record calls) = Some rs \<and> (\<forall>data pre post footer m u n db.
    data = pre @ concat rs @ post \<longrightarrow> footer = length pre + length (concat rs) \<longrightarrow> in_i64 m \<longrightarrow> in_i64 u \<longrightarrow>
    db_wf db \<longrightarrow> db_full db \<longrightarrow> (\<forall>c \<in> set calls. ht_map (keyspace db) (fst c) = None) \<longrightarrow>
    (\<exists>db'. decode_records data footer m u (length pre) n db = Some (Inr (db', footer, n + length calls)) \<and>
      db_wf db' \<and> db_full db' \<and> db_view db' m = loaded m u calls (db_view db m)))"
  using assms
proof (induction calls)
  case Nil
  have "decode_records data (length pre) m u (length pre) n db = Some (Inr (db, length pre, n))" for data and pre :: string and m u n db
    by (subst decode_records.simps) simp
  then show ?case
    by (auto simp: loaded_def intro!: exI [of _ "[]"])
next
  case (Cons c calls)
  obtain k v e where c: "c = (k, v, e)" by (metis prod_cases3)
  have ok: "record_ok (k, v, e)" and notin: "k \<notin> fst ` set calls"
    using Cons.prems c by auto
  obtain rs where rs: "those (map encode_record calls) = Some rs" and IH: "\<forall>data pre post footer m u n db.
      data = pre @ concat rs @ post \<longrightarrow> footer = length pre + length (concat rs) \<longrightarrow> in_i64 m \<longrightarrow> in_i64 u \<longrightarrow>
      db_wf db \<longrightarrow> db_full db \<longrightarrow> (\<forall>c \<in> set calls. ht_map (keyspace db) (fst c) = None) \<longrightarrow>
      (\<exists>db'. decode_records data footer m u (length pre) n db = Some (Inr (db', footer, n + length calls)) \<and>
        db_wf db' \<and> db_full db' \<and> db_view db' m = loaded m u calls (db_view db m))"
    using Cons.IH Cons.prems by auto
  obtain r where r: "encode_record (k, v, e) = Some r" "r \<noteq> []" and rb: "\<forall>data pre post m u db. data = pre @ r @ post \<longrightarrow>
      (\<exists>v'. decode_one_record data (length pre) m u db = Some (Inr (load_key k v' e m u db, length pre + length r)) \<and>
        val_invar v' \<and> val_abs v' = val_abs v)"
    using record_back [OF ok] by blast
  have "\<exists>db'. decode_records data footer m u (length pre) n db = Some (Inr (db', footer, n + length (c # calls))) \<and>
      db_wf db' \<and> db_full db' \<and> db_view db' m = loaded m u (c # calls) (db_view db m)"
    if d: "data = pre @ concat (r # rs) @ post" "footer = length pre + length (concat (r # rs))" and m: "in_i64 m" "in_i64 u"
      and db: "db_wf db" "db_full db" "\<forall>x \<in> set (c # calls). ht_map (keyspace db) (fst x) = None"
    for data pre post footer m u n db
  proof -
    obtain v' where v': "decode_one_record data (length pre) m u db = Some (Inr (load_key k v' e m u db, length pre + length r))"
      "val_invar v'" "val_abs v' = val_abs v"
      using rb [rule_format, of data pre "concat rs @ post" m u db] d(1) by auto
    have ne: "val_nonempty v'"
      using ok v'(2,3) element_count_abs [of v] element_count_abs [of v'] by (simp add: record_ok_def val_nonempty_def)
    let ?db = "load_key k v' e m u db"
    have L: "db_wf ?db" "db_full ?db" "db_view ?db m = (db_view db m)(k := restored m u (val_abs v, e))"
      "\<And>k'. k' \<noteq> k \<Longrightarrow> ht_map (keyspace ?db) k' = ht_map (keyspace db) k'"
      using load_key_view [OF db(1,2) v'(2) ne _ m, of k e] db(3) c ok v'(3) by (auto simp: record_ok_def)
    have fresh: "\<forall>x \<in> set calls. ht_map (keyspace ?db) (fst x) = None"
    proof
      fix x assume x: "x \<in> set calls"
      then have "fst x \<noteq> k" using notin by blast
      then show "ht_map (keyspace ?db) (fst x) = None"
        using L(4) [of "fst x"] db(3) x by simp
    qed
    obtain db' where db': "decode_records data footer m u (length (pre @ r)) (n + 1) ?db = Some (Inr (db', footer, n + 1 + length calls))"
      "db_wf db'" "db_full db'" "db_view db' m = loaded m u calls (db_view ?db m)"
      using IH [rule_format, of data "pre @ r" post footer m u ?db "n + 1"] d m L(1,2) fresh by auto
    have "loaded m u calls (db_view ?db m) = loaded m u (c # calls) (db_view db m)"
    proof
      fix x
      have "map_of calls k = None" using notin by (simp add: map_of_eq_None_iff)
      then show "loaded m u calls (db_view ?db m) x = loaded m u (c # calls) (db_view db m) x"
        unfolding L(3) by (cases "x = k") (simp_all add: loaded_def c split: option.split)
    qed
    moreover have "decode_records data footer m u (length pre) n db = decode_records data footer m u (length (pre @ r)) (n + 1) ?db"
      using d(2) r(2) v'(1) by (subst decode_records.simps) simp
    ultimately show ?thesis
      using db' by simp
  qed
  then show ?case
    using rs r c by (intro exI [of _ "r # rs"]) simp
qed

section \<open>Whole files\<close>

text \<open>The frame of a file: its fixed-size parts read back, and only the records are left.\<close>

definition finish_load :: "database \<Rightarrow> u64 \<Rightarrow> nat \<Rightarrow> string + database \<times> nat \<times> nat \<Rightarrow> string option \<times> database" where
  "finish_load target stored_record_count footer_start r = (case r of
     Inl e \<Rightarrow> (Some e, target)
   | Inr (scratch, end_offset, parsed) \<Rightarrow>
       if end_offset \<noteq> footer_start then (Some ''a record's length ran past the footer boundary'', target)
       else if (of_nat parsed :: u64) \<noteq> stored_record_count
       then (Some (''record count mismatch (footer says '' @ nat_to_string (unat stored_record_count) @ '', parsed '' @
              nat_to_string parsed @ '')''), target)
       else (None, scratch))"

lemma header_length [simp]: "length (snapshot_header c) = 16"
  by (simp add: snapshot_header_def)

lemma decode_framed:
  assumes body: "body = snapshot_header c @ recs @ write_u8 kEofTag @ write_u64 n"
    and bytes: "bytes = body @ write_u32 (crc32 body)"
  shows "decode_snapshot bytes target m u =
    map_option (finish_load target n (16 + length recs)) (decode_records bytes (16 + length recs) m u 16 0 db_empty_init)"
proof -
  let ?c = "write_u32 (crc32 body)" and ?e = "write_u8 kEofTag" and ?n = "write_u64 n"
  let ?h = "snapshot_header c" and ?v = "write_u16 kFormatVersion" and ?z = "write_u16 0 :: string" and ?t = "write_u64 (word_of_int c)"
  have len: "length bytes = 16 + length recs + 13" "length bytes - 4 = length body"
    by (simp_all add: bytes body)
  have b1: "bytes = ''GRDS'' @ ?v @ ?z @ ?t @ recs @ ?e @ ?n @ ?c"
    by (simp add: bytes body snapshot_header_def)
  have foot: "length bytes - kFooterSize = 16 + length recs" by (simp add: len kFooterSize_def)
  have h1: "read_u16 bytes 4 = Some (kFormatVersion, 6)" "read_u16 bytes 6 = Some (0, 8)" "read_u64 bytes 8 = Some (word_of_int c, 16)"
    using reads_back(2) [of "''GRDS''" kFormatVersion "?z @ ?t @ recs @ ?e @ ?n @ ?c"]
      reads_back(2) [of "''GRDS'' @ ?v" 0 "?t @ recs @ ?e @ ?n @ ?c"]
      reads_back(4) [of "''GRDS'' @ ?v @ ?z" "word_of_int c" "recs @ ?e @ ?n @ ?c"]
    by (simp_all add: b1 eval_nat_numeral)
  have f1: "read_u64 bytes (16 + length recs + 1) = Some (n, 25 + length recs)"
      "read_u32 bytes (25 + length recs) = Some (crc32 body, 29 + length recs)"
    using reads_back(4) [of "?h @ recs @ ?e" n ?c] reads_back(3) [of body "crc32 body" "[]"]
    by (simp_all add: bytes body add.commute)
  have "bytes ! (16 + length recs) = char_of kEofTag"
    using nth_append_length [of "?h @ recs" "char_of kEofTag" "?n @ ?c"] by (simp add: bytes body write_u8_def)
  then have eof: "of_char (bytes ! (16 + length recs)) = kEofTag" by (simp add: kEofTag_def)
  have crc: "crc32 (take (length bytes - 4) bytes) = crc32 body" by (simp only: len(2)) (simp add: bytes)
  have magic: "take 4 bytes = ''GRDS''" by (simp add: b1)
  have big: "\<not> length bytes < kHeaderSize + kFooterSize" by (simp add: len kHeaderSize_def kFooterSize_def)
  have fin: "finish_load target n (16 + length recs) = (\<lambda>r. case r of
      Inl e \<Rightarrow> (Some e, target)
    | Inr (scratch, end_offset, parsed) \<Rightarrow>
        if end_offset \<noteq> 16 + length recs then (Some ''a record's length ran past the footer boundary'', target)
        else if (of_nat parsed :: u64) \<noteq> n
        then (Some (''record count mismatch (footer says '' @ nat_to_string (unat n) @ '', parsed '' @ nat_to_string parsed @ '')''), target)
        else (None, scratch))"
    by (rule ext) (simp only: finish_load_def)
  show ?thesis
    unfolding decode_snapshot_def Let_def foot h1 or_unread_def option.case prod.case f1 crc eof fin
    using magic big by (simp add: bind_map_option map_conv_bind_option comp_def)
qed

text \<open>When a database can be written: its deadlines fit the wall clock and its sizes fit the file's 32-bit lengths.\<close>

definition snapshot_safe :: "int \<Rightarrow> int \<Rightarrow> database \<Rightarrow> bool" where
  "snapshot_safe now_mono now_unix db \<longleftrightarrow> (\<forall>k d. ht_map (expires db) k = Some d \<and> now_mono < d \<longrightarrow>
     in_i64 (d - now_mono) \<and> in_i64 (unix_of now_mono now_unix d))"

definition storable :: "database \<Rightarrow> bool" where
  "storable db \<longleftrightarrow> (\<forall>k v. ht_map (keyspace db) k = Some v \<longrightarrow> small k \<and> val_fits v)"

lemma live_deadline: "db_live db t k = Some (v, d) \<Longrightarrow> ht_map (keyspace db) k = Some v \<and> d = ht_map (expires db) k \<and> (\<forall>x. d = Some x \<longrightarrow> t < x)"
  by (auto simp: db_live_def live_def split: option.splits if_splits)

lemma calls_ok:
  assumes inv: "db_invar db" and safe: "snapshot_safe m u db" and st: "storable db" and dist: "distinct (map fst calls)"
    and calls: "map_of calls = (\<lambda>k. map_option (on_disk m u) (db_live db m k))"
  shows "list_all record_ok calls"
proof -
  have "record_ok (k, v, e)" if mem: "(k, v, e) \<in> set calls" for k v e
  proof -
    have "map_option (on_disk m u) (db_live db m k) = Some (v, e)"
      using map_of_is_SomeI [OF dist mem] calls by simp
    then obtain d where d: "db_live db m k = Some (v, d)" "e = map_option (unix_of m u) d"
      by (auto simp: on_disk_def)
    note L = live_deadline [OF d(1)]
    have "small k" "val_fits v" "val_invar v" "val_nonempty v"
      using L st inv db_wfD(5) by (auto simp: storable_def db_invar_def db_full_def)
    moreover have "in_i64 x" if "e = Some x" for x
      using that L safe d(2) by (auto simp: snapshot_safe_def)
    ultimately show ?thesis
      by (simp add: record_ok_def)
  qed
  then show ?thesis
    by (auto simp: list_all_iff)
qed

lemma encode_snapshot_frame:
  assumes "encode_snapshot m u db = Some (bytes, db')"
  obtains body recs n where "body = snapshot_header u @ recs @ write_u8 kEofTag @ write_u64 n" "bytes = body @ write_u32 (crc32 body)"
  using assms by (auto simp: encode_snapshot_def bind_eq_Some_conv)

lemma snapshot_roundtrip_core:
  assumes inv: "db_invar db" and safe: "snapshot_safe m1 u1 db" and st: "storable db" and now: "in_i64 m2" "in_i64 u2"
  shows "\<exists>bytes db1 db2. encode_snapshot m1 u1 db = Some (bytes, db1) \<and> db_invar db1 \<and> (\<forall>t. db_live db1 t = db_live db t) \<and>
    decode_snapshot bytes target m2 u2 = Some (None, db2) \<and> db_invar db2 \<and>
    (\<forall>k. db_view db2 m2 k = Option.bind (db_view db m1 k) (\<lambda>e. restored m2 u2 (on_disk m1 u1 e)))"
proof -
  obtain calls db1 where C: "for_each_for_snapshot m1 u1 db = Some (calls, db1)" "db_invar db1" "\<forall>t. db_live db1 t = db_live db t"
    "distinct (map fst calls)" "map_of calls = (\<lambda>k. map_option (on_disk m1 u1) (db_live db m1 k))"
    using for_each_for_snapshot_spec [of db m1 u1] inv safe by (auto simp: db_invar_def snapshot_safe_def)
  note ok = calls_ok [OF inv safe st C(4,5)]
  obtain rs where rs: "those (map encode_record calls) = Some rs" and dec: "\<forall>data pre post footer m u n db.
    data = pre @ concat rs @ post \<longrightarrow> footer = length pre + length (concat rs) \<longrightarrow> in_i64 m \<longrightarrow> in_i64 u \<longrightarrow>
    db_wf db \<longrightarrow> db_full db \<longrightarrow> (\<forall>c \<in> set calls. ht_map (keyspace db) (fst c) = None) \<longrightarrow>
    (\<exists>db'. decode_records data footer m u (length pre) n db = Some (Inr (db', footer, n + length calls)) \<and>
      db_wf db' \<and> db_full db' \<and> db_view db' m = loaded m u calls (db_view db m))"
    using records_back [OF ok C(4)] by blast
  let ?h = "snapshot_header u1" and ?n = "of_nat (length calls) :: u64"
  let ?tail = "write_u8 kEofTag @ write_u64 ?n"
  let ?body = "?h @ concat rs @ ?tail"
  let ?bytes = "?body @ write_u32 (crc32 ?body)"
  have empty: "db_wf db_empty_init" "db_full db_empty_init" "ht_map (keyspace db_empty_init) k = None" "db_view db_empty_init t = Map.empty" for k t
    using db_reset_spec(1,2) by (simp_all add: db_invar_def db_empty_init_def reset_to_empty_spec db_view_def)
  obtain db2 where db2: "decode_records ?bytes (16 + length (concat rs)) m2 u2 16 0 db_empty_init = Some (Inr (db2, 16 + length (concat rs), length calls))"
    "db_wf db2" "db_full db2" "db_view db2 m2 = loaded m2 u2 calls Map.empty"
    using dec [rule_format, of ?bytes ?h "?tail @ write_u32 (crc32 ?body)" "16 + length (concat rs)" m2 u2 db_empty_init 0] now empty
    by auto
  have enc: "encode_snapshot m1 u1 db = Some (?bytes, db1)"
    by (simp add: encode_snapshot_def C(1) rs Let_def)
  have dec2: "decode_snapshot ?bytes target m2 u2 = Some (None, db2)"
    unfolding decode_framed [OF refl refl] db2(1) by (simp add: finish_load_def)
  have view: "db_view db2 m2 k = Option.bind (db_view db m1 k) (\<lambda>e. restored m2 u2 (on_disk m1 u1 e))" for k
    unfolding db2(4) loaded_def C(5) by (cases "db_live db m1 k") (auto simp: db_view_def on_disk_def)
  show ?thesis
    using enc C(2,3) dec2 db2(2,3) view unfolding db_invar_def
    by (intro exI [of _ ?bytes] exI [of _ db1] exI [of _ db2]) simp
qed

text \<open>C14: a snapshot loads back. From a well-formed database whose deadlines and sizes fit, the encoder
  produces a file without undefined behaviour and without changing what clients see; loading the file,
  later and under other clocks, into whatever database, succeeds and yields a well-formed database with
  exactly the keys that have not expired meanwhile, their values, and deadlines that keep the same
  instant of the wall clock.\<close>
theorem snapshot_roundtrip:
  assumes inv: "db_invar db" and safe: "snapshot_safe m1 u1 db" and st: "storable db" and now: "in_i64 m2" "in_i64 u2"
  shows "\<exists>bytes db1 db2. encode_snapshot m1 u1 db = Some (bytes, db1) \<and> db_invar db1 \<and> (\<forall>t. db_live db1 t = db_live db t) \<and>
    decode_snapshot bytes target m2 u2 = Some (None, db2) \<and> db_invar db2 \<and>
    (\<forall>k. db_view db2 m2 k = Option.bind (db_view db m1 k) (\<lambda>e. restored m2 u2 (on_disk m1 u1 e)))"
  using assms by (rule snapshot_roundtrip_core)

definition demo_db :: database where
  "demo_db = snd (expire_at ''k'' 5000 1000 (db_set ''k'' (VString ''v'') db_empty_init))"

lemma demo_db_ok: "db_invar demo_db" "snapshot_safe 1000 9000 demo_db" "storable demo_db"
proof -
  let ?db = "db_set ''k'' (VString ''v'') db_empty_init"
  have w: "db_wf ?db" "db_full ?db" and l: "db_live ?db t = [''k'' \<mapsto> (VString ''v'', None)]" for t
    using db_set_spec [of db_empty_init "VString ''v''" "''k''"] db_reset_spec(1,2) by (simp_all add: db_invar_def val_nonempty_def)
  obtain b db' where e: "expire_at ''k'' 5000 1000 ?db = (b, db')" by force
  have i: "in_i64 5000" by (simp add: i64_defs)
  have f: "demo_db = db'" by (simp add: demo_db_def e)
  have wf: "db_wf demo_db" and full: "db_full demo_db"
    unfolding f using expire_at_spec(2,3) [OF w(1) i e] w(2) by simp_all
  then show "db_invar demo_db" by (simp add: db_invar_def)
  have "ht_for_each (keyspace demo_db) = [(''k'', VString ''v'')]" "ht_for_each (expires demo_db) = [(''k'', 5000)]"
    by code_simp+
  then have "ht_map (keyspace demo_db) = [''k'' \<mapsto> VString ''v'']" "ht_map (expires demo_db) = [''k'' \<mapsto> 5000]"
    using ht_for_each_spec(1) [OF db_wfD(1) [OF wf]] ht_for_each_spec(1) [OF db_wfD(2) [OF wf]] by simp_all
  then show "storable demo_db" "snapshot_safe 1000 9000 demo_db"
    by (auto simp: storable_def snapshot_safe_def unix_of_def i64_defs split: if_splits)
qed

theorem snapshot_roundtrip_witness:
  "\<exists>bytes db1 db2. encode_snapshot 1000 9000 demo_db = Some (bytes, db1) \<and> db_invar db1 \<and> (\<forall>t. db_live db1 t = db_live demo_db t) \<and>
    decode_snapshot bytes db_empty_init 20 9500 = Some (None, db2) \<and> db_invar db2 \<and>
    (\<forall>k. db_view db2 20 k = Option.bind (db_view demo_db 1000 k) (\<lambda>e. restored 20 9500 (on_disk 1000 9000 e)))"
  by (rule snapshot_roundtrip) (simp_all add: demo_db_ok i64_defs)

section \<open>Damaged files\<close>

lemma decode_bad_crc:
  assumes stored: "read_u32 bytes (length bytes - 4) = Some (s, o')" and bad: "crc32 (take (length bytes - 4) bytes) \<noteq> s"
  shows "\<exists>e. decode_snapshot bytes target m u = Some (Some e, target)"
proof (cases "length bytes < kHeaderSize + kFooterSize")
  case True
  then show ?thesis by (simp add: decode_snapshot_def)
next
  case False
  let ?f = "length bytes - kFooterSize"
  have "read_u64 bytes (?f + 1) = Some (read_le 8 (take 8 (drop (?f + 1) bytes)), length bytes - 4)"
    using False by (simp add: read_u64_def read_chunk_def kFooterSize_def kHeaderSize_def) arith
  then have "or_unread (read_u64 bytes (?f + 1)) (?f + 1) = (read_le 8 (take 8 (drop (?f + 1) bytes)), length bytes - 4)"
    by (simp add: or_unread_def)
  moreover have "or_unread (read_u32 bytes (length bytes - 4)) (length bytes - 4) = (s, o')"
    by (simp add: or_unread_def stored)
  ultimately show ?thesis
    using bad unfolding decode_snapshot_def Let_def by (simp split: prod.splits)
qed

lemma read_last_u32:
  assumes "length ch = 4"
  shows "read_u32 (body @ ch) (length (body @ ch) - 4) = Some (read_le 4 ch, length (body @ ch))"
  using read_chunk_at [OF assms, of body "[]"] assms by (simp add: read_u32_def)

lemma decode_wrong_tail:
  assumes "length ch = 4" "ch \<noteq> write_u32 (crc32 body)"
  shows "\<exists>e. decode_snapshot (body @ ch) target m u = Some (Some e, target)"
proof (rule decode_bad_crc [OF read_last_u32 [OF assms(1)]])
  have "crc32 body \<noteq> read_le 4 ch"
    using assms write_le_read_le [where 'a = 32, of 4 ch] by (auto simp: write_u32_def)
  then show "crc32 (take (length (body @ ch) - 4) (body @ ch)) \<noteq> read_le 4 ch"
    using assms(1) by simp
qed

lemma write_u32_inj: "write_u32 a = write_u32 b \<Longrightarrow> a = b"
proof -
  have "read_le 4 (write_u32 c) = c" for c :: u32
    by (simp add: write_u32_def read_le_write_le)
  then show "write_u32 a = write_u32 b \<Longrightarrow> a = b"
    by metis
qed

lemma encode_snapshot_defined:
  assumes inv: "db_invar db" and safe: "snapshot_safe m u db" and st: "storable db"
  shows "\<exists>bytes db1. encode_snapshot m u db = Some (bytes, db1) \<and> db_invar db1 \<and> (\<forall>t. db_live db1 t = db_live db t)"
proof -
  obtain calls db1 where C: "for_each_for_snapshot m u db = Some (calls, db1)" "db_invar db1" "\<forall>t. db_live db1 t = db_live db t"
    "distinct (map fst calls)" "map_of calls = (\<lambda>k. map_option (on_disk m u) (db_live db m k))"
    using for_each_for_snapshot_spec [of db m u] inv safe by (auto simp: db_invar_def snapshot_safe_def)
  obtain rs where "those (map encode_record calls) = Some rs"
    using records_back [OF calls_ok [OF inv safe st C(4,5)] C(4)] by blast
  then show ?thesis
    using C by (simp add: encode_snapshot_def Let_def)
qed

text \<open>C15: no single damaged byte goes unnoticed. Replace any one byte of a file the encoder wrote, wherever
  it stands (header, record, footer or the checksum itself), by a different one: the loader rejects the
  file with an error and leaves the target database as it was.\<close>
theorem snapshot_detects_damage:
  assumes enc: "encode_snapshot m1 u1 db = Some (bytes, db1)" and i: "i < length bytes" and c: "c \<noteq> bytes ! i"
  shows "\<exists>e. decode_snapshot (bytes[i := c]) target m2 u2 = Some (Some e, target)"
proof -
  obtain body where b: "bytes = body @ write_u32 (crc32 body)"
    by (rule encode_snapshot_frame [OF enc])
  show ?thesis
  proof (cases "i < length body")
    case True
    have "crc32 (body[i := c]) \<noteq> crc32 body"
      using crc32_update [OF True] c True by (auto simp: b nth_append)
    then show ?thesis
      using decode_wrong_tail [of "write_u32 (crc32 body)" "body[i := c]" target m2 u2] True write_u32_inj [of "crc32 body" "crc32 (body[i := c])"]
      by (simp add: b list_update_append1) metis
  next
    case False
    let ?ch = "(write_u32 (crc32 body))[i - length body := c]"
    have "?ch ! (i - length body) \<noteq> write_u32 (crc32 body) ! (i - length body)"
      using c i False by (simp add: b nth_append)
    then have "?ch \<noteq> write_u32 (crc32 body)" by metis
    moreover have "bytes[i := c] = body @ ?ch"
      using False by (simp add: b list_update_append)
    ultimately show ?thesis
      using decode_wrong_tail [of ?ch body] by simp
  qed
qed

theorem snapshot_detects_damage_witness:
  "(\<exists>bytes db1. encode_snapshot 1000 9000 demo_db = Some (bytes, db1) \<and>
    (\<forall>i c. i < length bytes \<longrightarrow> c \<noteq> bytes ! i \<longrightarrow>
      (\<exists>e. decode_snapshot (bytes[i := c]) db_empty_init 20 9500 = Some (Some e, db_empty_init))))"
proof -
  obtain bytes db1 where e: "encode_snapshot 1000 9000 demo_db = Some (bytes, db1)"
    using encode_snapshot_defined [OF demo_db_ok] by blast
  then show ?thesis
    using snapshot_detects_damage [OF e] by blast
qed

end
