(* ===== verification/Cmd_Persist.thy ===== *)
theory Cmd_Persist
  imports Snapshot Cmd_Keys
begin

text \<open>
  Persistence as commands and at startup: \<^verbatim>\<open>SAVE\<close>, \<^verbatim>\<open>BGSAVE\<close> and \<^verbatim>\<open>LASTSAVE\<close> of \<^verbatim>\<open>commands/cmd_persist.cpp\<close>
  with the functions of \<^verbatim>\<open>net/server.cpp\<close> behind them, what the worker and the completion of a background
  save do, and loading at startup. The theory joins the codec to the file writer: a \<^verbatim>\<open>SAVE\<close> that reports
  success survives a restart.
\<close>

section \<open>Saving and loading\<close>

definition no_path_text :: string where
  "no_path_text = ''no snapshot path configured (start gredis-server with --snapshot <path>)''"

text \<open>The result is the error text, if any. \<^term>\<open>None\<close> covers undefined behaviour of the encoder and a
  write that has not returned.\<close>

definition save_snapshot :: "ctx \<Rightarrow> (string option \<times> ctx) ub" where
  "save_snapshot c =
    (let s = psave c in
     if snapshot_path s = [] then Some (Some no_path_text, c)
     else do {
       (bytes, d) \<leftarrow> encode_snapshot (clk_mono c) (clk_unix c) (db c);
       (e, fs, rest) \<leftarrow> write_snapshot_file (snapshot_path s) bytes (io s) (disk s);
       let s' = s\<lparr>disk := fs, io := rest\<rparr>;
       Some (e, c\<lparr>db := d, psave := (if e = None then s'\<lparr>lastsave_unix_ms := clk_unix c\<rparr> else s')\<rparr>)
     })"

definition start_bgsave :: "ctx \<Rightarrow> (string option \<times> ctx) ub" where
  "start_bgsave c =
    (let s = psave c in
     if snapshot_path s = [] then Some (Some no_path_text, c)
     else if bgsave_in_progress s then Some (Some ''Background save already in progress'', c)
     else do {
       (bytes, d) \<leftarrow> encode_snapshot (clk_mono c) (clk_unix c) (db c);
       Some (None, run_in_background (WriteSnapshot (snapshot_path s) bytes (clk_unix c))
               (c\<lparr>db := d, psave := s\<lparr>bgsave_in_progress := True\<rparr>\<rparr>))
     })"

definition last_save_unix_s :: "save_state \<Rightarrow> int" where
  "last_save_unix_s s = cdiv (lastsave_unix_ms s) 1000"

definition cmd_save :: "string list \<Rightarrow> ctx \<Rightarrow> ctx ub" where
  "cmd_save argv c = do {
     (e, c') \<leftarrow> save_snapshot c;
     Some (case e of Some msg \<Rightarrow> reply_error (''ERR '' @ msg) c' | None \<Rightarrow> reply_simple ''OK'' c')
   }"

definition cmd_bgsave :: "string list \<Rightarrow> ctx \<Rightarrow> ctx ub" where
  "cmd_bgsave argv c = do {
     (e, c') \<leftarrow> start_bgsave c;
     Some (case e of Some msg \<Rightarrow> reply_error (''ERR '' @ msg) c' | None \<Rightarrow> reply_simple ''Background saving started'' c')
   }"

definition cmd_lastsave :: "string list \<Rightarrow> ctx \<Rightarrow> ctx ub" where
  "cmd_lastsave argv c = Some (reply_integer (last_save_unix_s (psave c)) c)"

text \<open>What the worker's task does with the disk, and the completion it posts: the error text and the time
  the snapshot was taken.\<close>

definition bgsave_task :: "string \<Rightarrow> string \<Rightarrow> int \<Rightarrow> save_state \<Rightarrow> ((string option \<times> int) \<times> save_state) option" where
  "bgsave_task path bytes now_unix s = do {
     (e, fs, rest) \<leftarrow> write_snapshot_file path bytes (io s) (disk s);
     Some ((e, now_unix), s\<lparr>disk := fs, io := rest\<rparr>)
   }"

definition bgsave_completion :: "string option \<times> int \<Rightarrow> save_state \<Rightarrow> save_state" where
  "bgsave_completion r s = (case r of (e, now_unix) \<Rightarrow>
     let s' = s\<lparr>bgsave_in_progress := False\<rparr> in
     if e = None then s'\<lparr>lastsave_unix_ms := now_unix\<rparr> else s')"

text \<open>At startup: an error text means that the process exits.\<close>

definition load_snapshot_at_startup :: "string \<Rightarrow> int \<Rightarrow> int \<Rightarrow> sys list \<Rightarrow> fsys \<Rightarrow> database \<Rightarrow> ((string + database) \<times> sys list) ub" where
  "load_snapshot_at_startup path now_mono now_unix rs fs d =
    (case rs of
       [] \<Rightarrow> None
     | Ret _ # rest \<Rightarrow>
         (if dir fs path = None then Some (Inr d, rest)
          else do {
            (r, rest2) \<leftarrow> read_snapshot_file path rest fs;
            case r of
              Inl e \<Rightarrow> Some (Inl (''failed to read snapshot '' @ quoted path @ '': '' @ e), rest2)
            | Inr bytes \<Rightarrow> do {
                (e, d') \<leftarrow> decode_snapshot bytes d now_mono now_unix;
                Some (case e of Some msg \<Rightarrow> Inl (''corrupt snapshot '' @ quoted path @ '': '' @ msg) | None \<Rightarrow> Inr d', rest2)
              }
          })
     | r # rest \<Rightarrow> Some (Inl (''cannot stat snapshot '' @ quoted path @ '': '' @ strerror r), rest))"

section \<open>What saving does\<close>

text \<open>When a save can run to its end: the database can be written and the kernel answers often enough.\<close>

definition can_save :: "ctx \<Rightarrow> bool" where
  "can_save c \<longleftrightarrow> snapshot_safe (clk_mono c) (clk_unix c) (db c) \<and> storable (db c) \<and> fs_ok (disk (psave c)) \<and>
     (\<forall>bytes d. encode_snapshot (clk_mono c) (clk_unix c) (db c) = Some (bytes, d) \<longrightarrow>
       length bytes + 5 \<le> length (filter productive (io (psave c))))"

lemma along_encoded:
  assumes ok: "ctx_ok c" and inv: "db_invar d" and live: "\<forall>t. db_live d t = db_live (db c) t"
    and c': "out c' = out c" "crng c' = crng c" "clk_mono c' = clk_mono c" "clk_unix c' = clk_unix c" "db c' = d"
  shows "along c c' [] (view c)"
proof -
  have "db_view d t = purge t (view c)" if "clk_mono c \<le> t" for t
    using live db_view_purge [OF that, of "db c"] by (simp add: db_view_def view_def)
  then show ?thesis
    using ok inv c' by (simp add: along_def ctx_ok_def clock_ok_def same_clock_def shows_db_def)
qed

lemma save_snapshot_spec:
  assumes ok: "ctx_ok c" and can: "can_save c"
  shows "\<exists>e c'. save_snapshot c = Some (e, c') \<and> along c c' [] (view c) \<and> fs_ok (disk (psave c')) \<and>
    (e = None \<longrightarrow> snapshot_path (psave c) \<noteq> [] \<and> lastsave_unix_ms (psave c') = clk_unix c \<and>
      (\<exists>bytes d. encode_snapshot (clk_mono c) (clk_unix c) (db c) = Some (bytes, d) \<and>
        file_at (disk (psave c')) (snapshot_path (psave c)) = Some (bytes, True))) \<and>
    (e \<noteq> None \<longrightarrow> lastsave_unix_ms (psave c') = lastsave_unix_ms (psave c) \<and>
      file_at (disk (psave c')) (snapshot_path (psave c)) = file_at (disk (psave c)) (snapshot_path (psave c)))"
proof (cases "snapshot_path (psave c) = []")
  case True
  have "along c c [] (view c)"
    using along_encoded [OF ok, of "db c" c] ok by (simp add: ctx_ok_def)
  then show ?thesis
    using True can by (simp add: save_snapshot_def can_save_def)
next
  case False
  let ?p = "snapshot_path (psave c)"
  obtain bytes d where enc: "encode_snapshot (clk_mono c) (clk_unix c) (db c) = Some (bytes, d)" "db_invar d" "\<forall>t. db_live d t = db_live (db c) t"
    using encode_snapshot_defined [of "db c" "clk_mono c" "clk_unix c"] ok can unfolding ctx_ok_def can_save_def by blast
  have fs: "fs_ok (disk (psave c))" and n: "length bytes + 5 \<le> length (filter productive (io (psave c)))"
    using can enc(1) by (auto simp: can_save_def)
  obtain e fs' rest where w: "write_snapshot_file ?p bytes (io (psave c)) (disk (psave c)) = Some (e, fs', rest)"
    using write_snapshot_file_returns [OF fs n, of ?p] by auto
  note W = write_snapshot_file_spec [OF fs w]
  let ?s = "(psave c)\<lparr>disk := fs', io := rest\<rparr>"
  let ?c = "c\<lparr>db := d, psave := (if e = None then ?s\<lparr>lastsave_unix_ms := clk_unix c\<rparr> else ?s)\<rparr>"
  have "save_snapshot c = Some (e, ?c)"
    using False enc(1) w by (simp add: save_snapshot_def Let_def)
  moreover have "along c ?c [] (view c)"
    by (rule along_encoded [OF ok enc(2,3)]) simp_all
  ultimately show ?thesis
    using W enc(1) False by (intro exI [of _ e] exI [of _ ?c]) simp
qed

definition allows_save :: "string \<Rightarrow> amap \<Rightarrow> reply \<Rightarrow> amap \<Rightarrow> bool" where
  "allows_save ok_text M r M' \<longleftrightarrow> M' = M \<and> (r = RSimple ok_text \<or> (\<exists>e. r = RError (''ERR '' @ e)))"

lemma sanitize_err: "\<exists>e. sanitize_error_text (''ERR '' @ msg) = ''ERR '' @ e"
  by (simp add: sanitize_error_text_def CR_def LF_def)

lemma saved_achieves:
  assumes a: "along c c' [] (view c)"
  shows "achieves c (Some (reply_error (''ERR '' @ msg) c')) (allows_save t (view c))"
    "no_crlf t \<Longrightarrow> achieves c (Some (reply_simple t c')) (allows_save t (view c))"
  using sanitize_err [of msg] performs_reply(1,2) [OF a]
  by (metis (no_types, lifting) performs_achieves allows_save_def)+

lemma save_achieves:
  assumes "ctx_ok c" "can_save c"
  shows "achieves c (cmd_save argv c) (allows_save ''OK'' (view c))"
proof -
  obtain e c' where s: "save_snapshot c = Some (e, c')" "along c c' [] (view c)"
    using save_snapshot_spec [OF assms] by blast
  show ?thesis
    using saved_achieves [OF s(2)] s(1) by (cases e) (simp_all add: cmd_save_def CR_def LF_def)
qed

lemma bgsave_achieves:
  assumes ok: "ctx_ok c" and can: "snapshot_safe (clk_mono c) (clk_unix c) (db c)" "storable (db c)"
  shows "achieves c (cmd_bgsave argv c) (allows_save ''Background saving started'' (view c))"
proof -
  obtain bytes d where enc: "encode_snapshot (clk_mono c) (clk_unix c) (db c) = Some (bytes, d)" "db_invar d" "\<forall>t. db_live d t = db_live (db c) t"
    using encode_snapshot_defined [of "db c" "clk_mono c" "clk_unix c"] ok can unfolding ctx_ok_def by blast
  have self: "along c c [] (view c)"
    using along_encoded [OF ok, of "db c" c] ok by (simp add: ctx_ok_def)
  obtain e c' where s: "start_bgsave c = Some (e, c')" "along c c' [] (view c)"
  proof (cases "snapshot_path (psave c) = [] \<or> bgsave_in_progress (psave c)")
    case True
    then have "\<exists>e. start_bgsave c = Some (e, c)" by (auto simp: start_bgsave_def Let_def)
    then show ?thesis using that self by blast
  next
    case False
    let ?c = "run_in_background (WriteSnapshot (snapshot_path (psave c)) bytes (clk_unix c)) (c\<lparr>db := d, psave := (psave c)\<lparr>bgsave_in_progress := True\<rparr>\<rparr>)"
    have "along c ?c [] (view c)"
      by (rule along_encoded [OF ok enc(2,3)]) (simp_all add: run_in_background_def)
    then show ?thesis
      using that [of None ?c] False enc(1) by (simp add: start_bgsave_def Let_def)
  qed
  show ?thesis
    using saved_achieves [OF s(2)] s(1) by (cases e) (simp_all add: cmd_bgsave_def CR_def LF_def)
qed

lemma lastsave_performs: "ctx_ok c \<Longrightarrow> performs c (cmd_lastsave argv c) (RInt (last_save_unix_s (psave c)), view c)"
  unfolding cmd_lastsave_def by (rule performs_looked(3) [OF looked_self])

text \<open>A save that reported success is what the next start loads, however the later clocks stand.\<close>

lemma load_after_save:
  assumes inv: "db_invar d" "snapshot_safe m1 u1 d" "storable d" and now: "in_i64 m2" "in_i64 u2"
    and enc: "encode_snapshot m1 u1 d = Some (bytes, d1)" and fl: "file_at fs path = Some (bytes, s)"
    and rs: "list_all gives_bytes rs" "length bytes + 3 \<le> length rs"
  shows "\<exists>d2 rest. load_snapshot_at_startup path m2 u2 rs fs d0 = Some (Inr d2, rest) \<and> db_invar d2 \<and>
    (\<forall>k. db_view d2 m2 k = Option.bind (db_view d m1 k) (\<lambda>e. restored m2 u2 (on_disk m1 u1 e)))"
proof -
  obtain d2 where d2: "decode_snapshot bytes d0 m2 u2 = Some (None, d2)" "db_invar d2"
    "\<forall>k. db_view d2 m2 k = Option.bind (db_view d m1 k) (\<lambda>e. restored m2 u2 (on_disk m1 u1 e))"
    using snapshot_roundtrip_core [OF inv now, of d0] enc by auto
  obtain r rs' where e: "rs = r # rs'" using rs(2) by (cases rs) auto
  then obtain n where r: "r = Ret n" using rs(1) by (cases r) auto
  have "list_all gives_bytes rs'" "length bytes + 2 \<le> length rs'" using rs e by simp_all
  then obtain rest where "read_snapshot_file path rs' fs = Some (Inr bytes, rest)"
    using read_snapshot_file_returns [OF fl] by blast
  moreover obtain i where "dir fs path = Some i" using fl by (auto simp: file_at_def)
  ultimately show ?thesis
    using d2 e r by (simp add: load_snapshot_at_startup_def)
qed

lemma save_survives_restart_core:
  assumes ok: "ctx_ok c" and can: "can_save c"
  shows "\<exists>e c'. save_snapshot c = Some (e, c') \<and> view c' = view c \<and>
    (e \<noteq> None \<longrightarrow> lastsave_unix_ms (psave c') = lastsave_unix_ms (psave c) \<and>
      file_at (disk (psave c')) (snapshot_path (psave c)) = file_at (disk (psave c)) (snapshot_path (psave c))) \<and>
    (e = None \<longrightarrow> lastsave_unix_ms (psave c') = clk_unix c \<and>
      (\<exists>bytes. file_at (disk (psave c')) (snapshot_path (psave c)) = Some (bytes, True) \<and>
        (\<forall>m u rs d0. in_i64 m \<and> in_i64 u \<and> list_all gives_bytes rs \<and> length bytes + 3 \<le> length rs \<longrightarrow>
          (\<exists>d2 rest. load_snapshot_at_startup (snapshot_path (psave c)) m u rs (disk (psave c')) d0 = Some (Inr d2, rest) \<and> db_invar d2 \<and>
            (\<forall>k. db_view d2 m k = Option.bind (view c k) (\<lambda>e. restored m u (on_disk (clk_mono c) (clk_unix c) e)))))))"
proof -
  obtain e c' where S: "save_snapshot c = Some (e, c')" "along c c' [] (view c)"
    "e = None \<longrightarrow> lastsave_unix_ms (psave c') = clk_unix c \<and> (\<exists>bytes d. encode_snapshot (clk_mono c) (clk_unix c) (db c) = Some (bytes, d) \<and>
        file_at (disk (psave c')) (snapshot_path (psave c)) = Some (bytes, True))"
    "e \<noteq> None \<longrightarrow> lastsave_unix_ms (psave c') = lastsave_unix_ms (psave c) \<and>
      file_at (disk (psave c')) (snapshot_path (psave c)) = file_at (disk (psave c)) (snapshot_path (psave c))"
    using save_snapshot_spec [OF ok can] by blast
  have "view c' = view c"
    using along_view [OF S(2)] by simp
  moreover have "\<exists>d2 rest. load_snapshot_at_startup (snapshot_path (psave c)) m u rs (disk (psave c')) d0 = Some (Inr d2, rest) \<and> db_invar d2 \<and>
      (\<forall>k. db_view d2 m k = Option.bind (view c k) (\<lambda>e. restored m u (on_disk (clk_mono c) (clk_unix c) e)))"
    if "encode_snapshot (clk_mono c) (clk_unix c) (db c) = Some (bytes, d)" "file_at (disk (psave c')) (snapshot_path (psave c)) = Some (bytes, True)"
      "in_i64 m" "in_i64 u" "list_all gives_bytes rs" "length bytes + 3 \<le> length rs" for bytes d m u rs d0
    using load_after_save [of "db c" "clk_mono c" "clk_unix c" m u bytes d "disk (psave c')" "snapshot_path (psave c)" True rs d0] that ok can
    by (simp add: ctx_ok_def can_save_def view_def)
  ultimately show ?thesis
    using S by (intro exI [of _ e] exI [of _ c']) metis
qed

text \<open>A save survives a restart. From a context in which a save can run, \<^verbatim>\<open>save_snapshot\<close> returns; if it
  reports success, \<^verbatim>\<open>LASTSAVE\<close> is the time of the save, and a later start of the server, reading the file
  that is now under the snapshot's name, comes up with exactly the keys that have not expired meanwhile;
  if it reports an error, the file under that name and the time of the last save are what they were.\<close>
theorem save_survives_restart:
  assumes ok: "ctx_ok c" and can: "can_save c"
  shows "\<exists>e c'. save_snapshot c = Some (e, c') \<and> view c' = view c \<and>
    (e \<noteq> None \<longrightarrow> lastsave_unix_ms (psave c') = lastsave_unix_ms (psave c) \<and>
      file_at (disk (psave c')) (snapshot_path (psave c)) = file_at (disk (psave c)) (snapshot_path (psave c))) \<and>
    (e = None \<longrightarrow> lastsave_unix_ms (psave c') = clk_unix c \<and>
      (\<exists>bytes. file_at (disk (psave c')) (snapshot_path (psave c)) = Some (bytes, True) \<and>
        (\<forall>m u rs d0. in_i64 m \<and> in_i64 u \<and> list_all gives_bytes rs \<and> length bytes + 3 \<le> length rs \<longrightarrow>
          (\<exists>d2 rest. load_snapshot_at_startup (snapshot_path (psave c)) m u rs (disk (psave c')) d0 = Some (Inr d2, rest) \<and> db_invar d2 \<and>
            (\<forall>k. db_view d2 m k = Option.bind (view c k) (\<lambda>e. restored m u (on_disk (clk_mono c) (clk_unix c) e)))))))"
  using assms by (rule save_survives_restart_core)

definition demo_save_ctx :: ctx where
  "demo_save_ctx = (ctx_on demo_db)\<lparr>psave := (psave (ctx_on demo_db))\<lparr>
     io := replicate (length (fst (the (encode_snapshot 1000 9000 demo_db))) + 5) (Ret 9)\<rparr>\<rparr>"

lemma demo_save_ctx_ok: "ctx_ok demo_save_ctx" "can_save demo_save_ctx"
  using ctx_on_ok [OF demo_db_ok(1)] demo_db_ok no_files_ok
  by (auto simp: demo_save_ctx_def can_save_def ctx_ok_def clock_ok_def ctx_on_def)

theorem save_survives_restart_witness:
  "\<exists>e c'. save_snapshot demo_save_ctx = Some (e, c') \<and> view c' = view demo_save_ctx"
  using save_survives_restart [OF demo_save_ctx_ok] by blast

end
