(* ===== verification/Dispatcher.thy ===== *)
theory Dispatcher
  imports Cmd_Server Cmd_String Cmd_Hash Cmd_Set Cmd_Zset Cmd_Persist
begin

text \<open>
  The dispatcher of \<^verbatim>\<open>commands/dispatcher.cpp\<close>: the command table, the arity check, the case-insensitive
  lookup and the unknown-command reply. Beside the table of handlers stands the table of what each command
  means on the abstract keyspace; the main result is that dispatching any request is free of undefined
  behaviour, keeps every invariant and does what the second table says.
\<close>

section \<open>Dispatch\<close>

type_synonym handler = "string list \<Rightarrow> ctx \<Rightarrow> ctx ub"

definition kCommands :: "(string \<times> handler \<times> int) list" where
  "kCommands = [
    (''ping'', cmd_ping, - 1),
    (''echo'', cmd_echo, 2),
    (''quit'', cmd_quit, 1),
    (''command'', cmd_command, - 1),
    (''config'', cmd_config, - 2),
    (''hello'', cmd_hello, - 1),
    (''dbsize'', cmd_dbsize, 1),
    (''flushall'', cmd_flushall, - 1),
    (''get'', cmd_get, 2),
    (''set'', cmd_set, - 3),
    (''mget'', cmd_mget, - 2),
    (''mset'', cmd_mset, - 3),
    (''incr'', cmd_incr, 2),
    (''decr'', cmd_decr, 2),
    (''incrby'', cmd_incrby, 3),
    (''decrby'', cmd_decrby, 3),
    (''append'', cmd_append, 3),
    (''strlen'', cmd_strlen, 2),
    (''del'', cmd_del, - 2),
    (''unlink'', cmd_unlink, - 2),
    (''exists'', cmd_exists, - 2),
    (''type'', cmd_type, 2),
    (''expire'', cmd_expire, 3),
    (''pexpire'', cmd_pexpire, 3),
    (''expireat'', cmd_expireat, 3),
    (''pexpireat'', cmd_pexpireat, 3),
    (''ttl'', cmd_ttl, 2),
    (''pttl'', cmd_pttl, 2),
    (''persist'', cmd_persist, 2),
    (''hset'', cmd_hset, - 4),
    (''hget'', cmd_hget, 3),
    (''hmget'', cmd_hmget, - 3),
    (''hdel'', cmd_hdel, - 3),
    (''hexists'', cmd_hexists, 3),
    (''hlen'', cmd_hlen, 2),
    (''hgetall'', cmd_hgetall, 2),
    (''hkeys'', cmd_hkeys, 2),
    (''hvals'', cmd_hvals, 2),
    (''hincrby'', cmd_hincrby, 4),
    (''lpush'', cmd_lpush, - 3),
    (''rpush'', cmd_rpush, - 3),
    (''lpop'', cmd_lpop, - 2),
    (''rpop'', cmd_rpop, - 2),
    (''llen'', cmd_llen, 2),
    (''lrange'', cmd_lrange, 4),
    (''lindex'', cmd_lindex, 3),
    (''sadd'', cmd_sadd, - 3),
    (''srem'', cmd_srem, - 3),
    (''sismember'', cmd_sismember, 3),
    (''smembers'', cmd_smembers, 2),
    (''scard'', cmd_scard, 2),
    (''spop'', cmd_spop, - 2),
    (''sinter'', cmd_sinter, - 2),
    (''zadd'', cmd_zadd, - 4),
    (''zrem'', cmd_zrem, - 3),
    (''zscore'', cmd_zscore, 3),
    (''zincrby'', cmd_zincrby, 4),
    (''zcard'', cmd_zcard, 2),
    (''zrank'', cmd_zrank, 3),
    (''zrevrank'', cmd_zrevrank, 3),
    (''zrange'', cmd_zrange, - 4),
    (''zrevrange'', cmd_zrevrange, - 4),
    (''zrangebyscore'', cmd_zrangebyscore, - 4),
    (''zcount'', cmd_zcount, 4),
    (''zpopmin'', cmd_zpopmin, - 2),
    (''save'', cmd_save, 1),
    (''bgsave'', cmd_bgsave, 1),
    (''lastsave'', cmd_lastsave, 1)]"

definition command_table :: "string \<Rightarrow> (handler \<times> int) option" where
  "command_table = map_of kCommands"

definition kMaxCommandNameLen :: nat where "kMaxCommandNameLen = 15"

definition arity_ok :: "int \<Rightarrow> nat \<Rightarrow> bool" where
  "arity_ok arity argc = (if 0 \<le> arity then argc = nat arity else nat (- arity) \<le> argc)"

definition unknown_command :: "string list \<Rightarrow> string" where
  "unknown_command argv = ''ERR unknown command '' @ quoted (hd argv) @ '', with args beginning with: '' @
     concat (map (\<lambda>a. quoted a @ '', '') (tl argv))"

definition dispatch :: "string list \<Rightarrow> ctx \<Rightarrow> ctx ub" where
  "dispatch argv c = do {
     raw_name \<leftarrow> arg argv 0;
     let spec = (if length raw_name \<le> kMaxCommandNameLen then command_table (map tolower raw_name) else None);
     case spec of
       None \<Rightarrow> Some (reply_error (unknown_command argv) c)
     | Some (handler, arity) \<Rightarrow>
         if \<not> arity_ok arity (length argv) then Some (reply_error (wrong_arity raw_name) c) else handler argv c
   }"

section \<open>The meaning of every command\<close>

definition exactly :: "reply \<times> amap \<Rightarrow> reply \<Rightarrow> amap \<Rightarrow> bool" where
  "exactly s r M \<longleftrightarrow> s = (r, M)"

type_synonym meaning = "string list \<Rightarrow> ctx \<Rightarrow> reply \<Rightarrow> amap \<Rightarrow> bool"

definition kMeanings :: "(string \<times> meaning) list" where
  "kMeanings = [
    (''ping'', \<lambda>argv c. exactly (spec_ping argv (view c))),
    (''echo'', \<lambda>argv c. exactly (RBulk (argv ! 1), view c)),
    (''quit'', \<lambda>argv c. exactly (RSimple ''OK'', view c)),
    (''command'', \<lambda>argv c. exactly (RArray [], view c)),
    (''config'', \<lambda>argv c. exactly (RArray [], view c)),
    (''hello'', \<lambda>argv c. exactly (RError (sanitize_error_text (''ERR unknown command '' @ quoted ''HELLO'')), view c)),
    (''dbsize'', \<lambda>argv c. allows_dbsize (view c)),
    (''flushall'', \<lambda>argv c. exactly (spec_flushall argv (view c))),
    (''get'', \<lambda>argv c. exactly (spec_get (argv ! 1) (view c))),
    (''set'', \<lambda>argv c. exactly (spec_set_args (argv ! 1) (argv ! 2) (drop 3 argv) (clk_mono c) (view c))),
    (''mget'', \<lambda>argv c. exactly (spec_mget (drop 1 argv) (view c))),
    (''mset'', \<lambda>argv c. exactly (if even (length argv) then (RError (wrong_arity ''mset''), view c) else (RSimple ''OK'', spec_mset (drop 1 argv) (view c)))),
    (''incr'', \<lambda>argv c. exactly (spec_incr (argv ! 1) 1 (view c))),
    (''decr'', \<lambda>argv c. exactly (spec_incr (argv ! 1) (- 1) (view c))),
    (''incrby'', \<lambda>argv c. exactly (spec_incrby (argv ! 1) (argv ! 2) (view c))),
    (''decrby'', \<lambda>argv c. exactly (spec_decrby (argv ! 1) (argv ! 2) (view c))),
    (''append'', \<lambda>argv c. exactly (spec_append (argv ! 1) (argv ! 2) (view c))),
    (''strlen'', \<lambda>argv c. exactly (spec_strlen (argv ! 1) (view c))),
    (''del'', \<lambda>argv c. exactly (spec_del (drop 1 argv) 0 (view c))),
    (''unlink'', \<lambda>argv c. exactly (spec_del (drop 1 argv) 0 (view c))),
    (''exists'', \<lambda>argv c. exactly (spec_exists (drop 1 argv) (view c))),
    (''type'', \<lambda>argv c. exactly (spec_type (argv ! 1) (view c))),
    (''expire'', \<lambda>argv c. exactly (spec_expire False True argv (clk_mono c) (clk_unix c) (view c))),
    (''pexpire'', \<lambda>argv c. exactly (spec_expire False False argv (clk_mono c) (clk_unix c) (view c))),
    (''expireat'', \<lambda>argv c. exactly (spec_expire True True argv (clk_mono c) (clk_unix c) (view c))),
    (''pexpireat'', \<lambda>argv c. exactly (spec_expire True False argv (clk_mono c) (clk_unix c) (view c))),
    (''ttl'', \<lambda>argv c. exactly (spec_ttl (argv ! 1) (clk_mono c) (view c))),
    (''pttl'', \<lambda>argv c. exactly (RInt (spec_pttl (view c (argv ! 1)) (clk_mono c)), view c)),
    (''persist'', \<lambda>argv c. exactly (spec_persist (argv ! 1) (view c))),
    (''hset'', \<lambda>argv c. exactly (if odd (length argv) then (RError (sanitize_error_text (wrong_arity (argv ! 0))), view c) else spec_hset (argv ! 1) (arg_pairs (drop 2 argv)) (view c))),
    (''hget'', \<lambda>argv c. exactly (spec_hget (argv ! 1) (argv ! 2) (view c))),
    (''hmget'', \<lambda>argv c. exactly (spec_hmget (argv ! 1) (drop 2 argv) (view c))),
    (''hdel'', \<lambda>argv c. exactly (spec_hdel (argv ! 1) (drop 2 argv) (view c))),
    (''hexists'', \<lambda>argv c. exactly (spec_hexists (argv ! 1) (argv ! 2) (view c))),
    (''hlen'', \<lambda>argv c. exactly (spec_hlen (argv ! 1) (view c))),
    (''hgetall'', \<lambda>argv c. allows_entries (\<lambda>(f, v). [f, v]) (argv ! 1) (view c)),
    (''hkeys'', \<lambda>argv c. allows_entries (\<lambda>e. [fst e]) (argv ! 1) (view c)),
    (''hvals'', \<lambda>argv c. allows_entries (\<lambda>e. [snd e]) (argv ! 1) (view c)),
    (''hincrby'', \<lambda>argv c. exactly (spec_hincrby (argv ! 1) (argv ! 2) (argv ! 3) (view c))),
    (''lpush'', \<lambda>argv c. exactly (spec_push True (argv ! 1) (drop 2 argv) (view c))),
    (''rpush'', \<lambda>argv c. exactly (spec_push False (argv ! 1) (drop 2 argv) (view c))),
    (''lpop'', \<lambda>argv c. exactly (spec_pop True argv (view c))),
    (''rpop'', \<lambda>argv c. exactly (spec_pop False argv (view c))),
    (''llen'', \<lambda>argv c. exactly (spec_llen (argv ! 1) (view c))),
    (''lrange'', \<lambda>argv c. exactly (spec_lrange argv (view c))),
    (''lindex'', \<lambda>argv c. exactly (spec_lindex argv (view c))),
    (''sadd'', \<lambda>argv c. exactly (spec_sadd (argv ! 1) (drop 2 argv) (view c))),
    (''srem'', \<lambda>argv c. exactly (spec_srem (argv ! 1) (drop 2 argv) (view c))),
    (''sismember'', \<lambda>argv c. exactly (spec_sismember (argv ! 1) (argv ! 2) (view c))),
    (''smembers'', \<lambda>argv c. allows_smembers (argv ! 1) (view c)),
    (''scard'', \<lambda>argv c. exactly (spec_scard (argv ! 1) (view c))),
    (''spop'', \<lambda>argv c. allows_spop argv (view c)),
    (''sinter'', \<lambda>argv c. allows_sinter (drop 1 argv) (view c)),
    (''zadd'', \<lambda>argv c. exactly (spec_zadd argv (view c))),
    (''zrem'', \<lambda>argv c. exactly (spec_zrem (argv ! 1) (drop 2 argv) (view c))),
    (''zscore'', \<lambda>argv c. exactly (spec_zscore (argv ! 1) (argv ! 2) (view c))),
    (''zincrby'', \<lambda>argv c. exactly (spec_zincrby argv (view c))),
    (''zcard'', \<lambda>argv c. exactly (spec_zcard (argv ! 1) (view c))),
    (''zrank'', \<lambda>argv c. exactly (spec_zrank False (argv ! 1) (argv ! 2) (view c))),
    (''zrevrank'', \<lambda>argv c. exactly (spec_zrank True (argv ! 1) (argv ! 2) (view c))),
    (''zrange'', \<lambda>argv c. allows_zrange False argv (view c)),
    (''zrevrange'', \<lambda>argv c. allows_zrange True argv (view c)),
    (''zrangebyscore'', \<lambda>argv c. allows_zrangebyscore argv (view c)),
    (''zcount'', \<lambda>argv c. exactly (spec_zcount argv (view c))),
    (''zpopmin'', \<lambda>argv c. allows_zpopmin argv (view c)),
    (''save'', \<lambda>argv c. allows_save ''OK'' (view c)),
    (''bgsave'', \<lambda>argv c. allows_save ''Background saving started'' (view c)),
    (''lastsave'', \<lambda>argv c. exactly (RInt (last_save_unix_s (psave c)), view c))]"

text \<open>
  What a caller owes: the keys of \<^verbatim>\<open>SINTER\<close> differ, no score argument is a NaN in disguise, and a save can run
  to its end. Each hypothesis has its counterexample in the code (see the findings of the components).
\<close>

definition call_ok :: "string \<Rightarrow> string list \<Rightarrow> ctx \<Rightarrow> bool" where
  "call_ok name argv c \<longleftrightarrow>
     (name = ''sinter'' \<longrightarrow> distinct (drop 1 argv)) \<and>
     (name \<in> {''zadd'', ''zincrby'', ''zrangebyscore'', ''zcount''} \<longrightarrow> no_nan argv) \<and>
     (name \<in> {''save'', ''bgsave''} \<longrightarrow> can_save c)"

definition implements :: "string \<Rightarrow> handler \<Rightarrow> int \<Rightarrow> meaning \<Rightarrow> bool" where
  "implements name h a s \<longleftrightarrow> (\<forall>argv c. ctx_ok c \<longrightarrow> arity_ok a (length argv) \<longrightarrow> call_ok name argv c \<longrightarrow> achieves c (h argv c) (s argv c))"

lemma implementsI:
  "(\<And>argv c. ctx_ok c \<Longrightarrow> arity_ok a (length argv) \<Longrightarrow> call_ok name argv c \<Longrightarrow> achieves c (h argv c) (s argv c)) \<Longrightarrow> implements name h a s"
  by (simp add: implements_def)

lemma achieves_exactly: "performs c res f \<Longrightarrow> achieves c res (exactly f)"
  by (simp add: performs_iff_achieves exactly_def [abs_def])

lemmas call_facts = arity_ok_def call_ok_def can_save_def

lemmas command_rules =
  ping_performs [THEN achieves_exactly] echo_performs [THEN achieves_exactly] quit_performs [THEN achieves_exactly]
  stub_performs [THEN achieves_exactly] flushall_performs [THEN achieves_exactly] get_performs [THEN achieves_exactly]
  set_performs [THEN achieves_exactly] mget_performs [THEN achieves_exactly] mset_performs [THEN achieves_exactly]
  incr_performs [THEN achieves_exactly] incrby_performs [THEN achieves_exactly] decrby_performs [THEN achieves_exactly]
  append_performs [THEN achieves_exactly] strlen_performs [THEN achieves_exactly] del_performs [THEN achieves_exactly]
  unlink_performs [THEN achieves_exactly] exists_performs [THEN achieves_exactly] type_performs [THEN achieves_exactly]
  expire_performs [THEN achieves_exactly] ttl_performs [THEN achieves_exactly] pttl_performs [THEN achieves_exactly]
  persist_performs [THEN achieves_exactly] hset_performs [THEN achieves_exactly] hget_performs [THEN achieves_exactly]
  hmget_performs [THEN achieves_exactly] hdel_performs [THEN achieves_exactly] hexists_performs [THEN achieves_exactly]
  hlen_performs [THEN achieves_exactly] hincrby_performs [THEN achieves_exactly] push_performs [THEN achieves_exactly]
  pop_performs [THEN achieves_exactly] llen_performs [THEN achieves_exactly] lrange_performs [THEN achieves_exactly]
  lindex_performs [THEN achieves_exactly] sadd_performs [THEN achieves_exactly] srem_performs [THEN achieves_exactly]
  sismember_performs [THEN achieves_exactly] scard_performs [THEN achieves_exactly]
  zadd_performs [THEN achieves_exactly] zrem_performs [THEN achieves_exactly] zscore_performs [THEN achieves_exactly]
  zincrby_performs [THEN achieves_exactly] zcard_performs [THEN achieves_exactly]
  zrank_performs [THEN achieves_exactly] zcount_performs [THEN achieves_exactly]
  lastsave_performs [THEN achieves_exactly]
  dbsize_achieves hgetall_achieves smembers_achieves spop_achieves sinter_achieves zrange_achieves
  zrangebyscore_achieves zpopmin_achieves save_achieves bgsave_achieves

lemma implements_server:
  "implements ''ping'' cmd_ping (- 1) (\<lambda>argv c. exactly (spec_ping argv (view c)))"
  "implements ''echo'' cmd_echo (2) (\<lambda>argv c. exactly (RBulk (argv ! 1), view c))"
  "implements ''quit'' cmd_quit (1) (\<lambda>argv c. exactly (RSimple ''OK'', view c))"
  "implements ''command'' cmd_command (- 1) (\<lambda>argv c. exactly (RArray [], view c))"
  "implements ''config'' cmd_config (- 2) (\<lambda>argv c. exactly (RArray [], view c))"
  "implements ''hello'' cmd_hello (- 1) (\<lambda>argv c. exactly (RError (sanitize_error_text (''ERR unknown command '' @ quoted ''HELLO'')), view c))"
  "implements ''dbsize'' cmd_dbsize (1) (\<lambda>argv c. allows_dbsize (view c))"
  "implements ''flushall'' cmd_flushall (- 1) (\<lambda>argv c. exactly (spec_flushall argv (view c)))"
  by (rule implementsI, (rule command_rules; simp add: call_facts))+

lemma implements_string:
  "implements ''get'' cmd_get (2) (\<lambda>argv c. exactly (spec_get (argv ! 1) (view c)))"
  "implements ''set'' cmd_set (- 3) (\<lambda>argv c. exactly (spec_set_args (argv ! 1) (argv ! 2) (drop 3 argv) (clk_mono c) (view c)))"
  "implements ''mget'' cmd_mget (- 2) (\<lambda>argv c. exactly (spec_mget (drop 1 argv) (view c)))"
  "implements ''mset'' cmd_mset (- 3) (\<lambda>argv c. exactly (if even (length argv) then (RError (wrong_arity ''mset''), view c) else (RSimple ''OK'', spec_mset (drop 1 argv) (view c))))"
  "implements ''incr'' cmd_incr (2) (\<lambda>argv c. exactly (spec_incr (argv ! 1) 1 (view c)))"
  "implements ''decr'' cmd_decr (2) (\<lambda>argv c. exactly (spec_incr (argv ! 1) (- 1) (view c)))"
  "implements ''incrby'' cmd_incrby (3) (\<lambda>argv c. exactly (spec_incrby (argv ! 1) (argv ! 2) (view c)))"
  "implements ''decrby'' cmd_decrby (3) (\<lambda>argv c. exactly (spec_decrby (argv ! 1) (argv ! 2) (view c)))"
  "implements ''append'' cmd_append (3) (\<lambda>argv c. exactly (spec_append (argv ! 1) (argv ! 2) (view c)))"
  "implements ''strlen'' cmd_strlen (2) (\<lambda>argv c. exactly (spec_strlen (argv ! 1) (view c)))"
  by (rule implementsI, (rule command_rules; simp add: call_facts))+

lemma implements_key:
  "implements ''del'' cmd_del (- 2) (\<lambda>argv c. exactly (spec_del (drop 1 argv) 0 (view c)))"
  "implements ''unlink'' cmd_unlink (- 2) (\<lambda>argv c. exactly (spec_del (drop 1 argv) 0 (view c)))"
  "implements ''exists'' cmd_exists (- 2) (\<lambda>argv c. exactly (spec_exists (drop 1 argv) (view c)))"
  "implements ''type'' cmd_type (2) (\<lambda>argv c. exactly (spec_type (argv ! 1) (view c)))"
  "implements ''expire'' cmd_expire (3) (\<lambda>argv c. exactly (spec_expire False True argv (clk_mono c) (clk_unix c) (view c)))"
  "implements ''pexpire'' cmd_pexpire (3) (\<lambda>argv c. exactly (spec_expire False False argv (clk_mono c) (clk_unix c) (view c)))"
  "implements ''expireat'' cmd_expireat (3) (\<lambda>argv c. exactly (spec_expire True True argv (clk_mono c) (clk_unix c) (view c)))"
  "implements ''pexpireat'' cmd_pexpireat (3) (\<lambda>argv c. exactly (spec_expire True False argv (clk_mono c) (clk_unix c) (view c)))"
  "implements ''ttl'' cmd_ttl (2) (\<lambda>argv c. exactly (spec_ttl (argv ! 1) (clk_mono c) (view c)))"
  "implements ''pttl'' cmd_pttl (2) (\<lambda>argv c. exactly (RInt (spec_pttl (view c (argv ! 1)) (clk_mono c)), view c))"
  "implements ''persist'' cmd_persist (2) (\<lambda>argv c. exactly (spec_persist (argv ! 1) (view c)))"
  unfolding cmd_expire_def cmd_pexpire_def cmd_expireat_def cmd_pexpireat_def
  by (rule implementsI, (rule command_rules; simp add: call_facts))+

lemma implements_hash:
  "implements ''hset'' cmd_hset (- 4) (\<lambda>argv c. exactly (if odd (length argv) then (RError (sanitize_error_text (wrong_arity (argv ! 0))), view c) else spec_hset (argv ! 1) (arg_pairs (drop 2 argv)) (view c)))"
  "implements ''hget'' cmd_hget (3) (\<lambda>argv c. exactly (spec_hget (argv ! 1) (argv ! 2) (view c)))"
  "implements ''hmget'' cmd_hmget (- 3) (\<lambda>argv c. exactly (spec_hmget (argv ! 1) (drop 2 argv) (view c)))"
  "implements ''hdel'' cmd_hdel (- 3) (\<lambda>argv c. exactly (spec_hdel (argv ! 1) (drop 2 argv) (view c)))"
  "implements ''hexists'' cmd_hexists (3) (\<lambda>argv c. exactly (spec_hexists (argv ! 1) (argv ! 2) (view c)))"
  "implements ''hlen'' cmd_hlen (2) (\<lambda>argv c. exactly (spec_hlen (argv ! 1) (view c)))"
  "implements ''hgetall'' cmd_hgetall (2) (\<lambda>argv c. allows_entries (\<lambda>(f, v). [f, v]) (argv ! 1) (view c))"
  "implements ''hkeys'' cmd_hkeys (2) (\<lambda>argv c. allows_entries (\<lambda>e. [fst e]) (argv ! 1) (view c))"
  "implements ''hvals'' cmd_hvals (2) (\<lambda>argv c. allows_entries (\<lambda>e. [snd e]) (argv ! 1) (view c))"
  "implements ''hincrby'' cmd_hincrby (4) (\<lambda>argv c. exactly (spec_hincrby (argv ! 1) (argv ! 2) (argv ! 3) (view c)))"
  by (rule implementsI, (rule command_rules; simp add: call_facts))+

lemma implements_list:
  "implements ''lpush'' cmd_lpush (- 3) (\<lambda>argv c. exactly (spec_push True (argv ! 1) (drop 2 argv) (view c)))"
  "implements ''rpush'' cmd_rpush (- 3) (\<lambda>argv c. exactly (spec_push False (argv ! 1) (drop 2 argv) (view c)))"
  "implements ''lpop'' cmd_lpop (- 2) (\<lambda>argv c. exactly (spec_pop True argv (view c)))"
  "implements ''rpop'' cmd_rpop (- 2) (\<lambda>argv c. exactly (spec_pop False argv (view c)))"
  "implements ''llen'' cmd_llen (2) (\<lambda>argv c. exactly (spec_llen (argv ! 1) (view c)))"
  "implements ''lrange'' cmd_lrange (4) (\<lambda>argv c. exactly (spec_lrange argv (view c)))"
  "implements ''lindex'' cmd_lindex (3) (\<lambda>argv c. exactly (spec_lindex argv (view c)))"
  unfolding cmd_lpush_def cmd_rpush_def cmd_lpop_def cmd_rpop_def
  by (rule implementsI, (rule command_rules; simp add: call_facts))+

lemma implements_set:
  "implements ''sadd'' cmd_sadd (- 3) (\<lambda>argv c. exactly (spec_sadd (argv ! 1) (drop 2 argv) (view c)))"
  "implements ''srem'' cmd_srem (- 3) (\<lambda>argv c. exactly (spec_srem (argv ! 1) (drop 2 argv) (view c)))"
  "implements ''sismember'' cmd_sismember (3) (\<lambda>argv c. exactly (spec_sismember (argv ! 1) (argv ! 2) (view c)))"
  "implements ''smembers'' cmd_smembers (2) (\<lambda>argv c. allows_smembers (argv ! 1) (view c))"
  "implements ''scard'' cmd_scard (2) (\<lambda>argv c. exactly (spec_scard (argv ! 1) (view c)))"
  "implements ''spop'' cmd_spop (- 2) (\<lambda>argv c. allows_spop argv (view c))"
  "implements ''sinter'' cmd_sinter (- 2) (\<lambda>argv c. allows_sinter (drop 1 argv) (view c))"
  by (rule implementsI, (rule command_rules; simp add: call_facts))+

lemma implements_zset:
  "implements ''zadd'' cmd_zadd (- 4) (\<lambda>argv c. exactly (spec_zadd argv (view c)))"
  "implements ''zrem'' cmd_zrem (- 3) (\<lambda>argv c. exactly (spec_zrem (argv ! 1) (drop 2 argv) (view c)))"
  "implements ''zscore'' cmd_zscore (3) (\<lambda>argv c. exactly (spec_zscore (argv ! 1) (argv ! 2) (view c)))"
  "implements ''zincrby'' cmd_zincrby (4) (\<lambda>argv c. exactly (spec_zincrby argv (view c)))"
  "implements ''zcard'' cmd_zcard (2) (\<lambda>argv c. exactly (spec_zcard (argv ! 1) (view c)))"
  "implements ''zrank'' cmd_zrank (3) (\<lambda>argv c. exactly (spec_zrank False (argv ! 1) (argv ! 2) (view c)))"
  "implements ''zrevrank'' cmd_zrevrank (3) (\<lambda>argv c. exactly (spec_zrank True (argv ! 1) (argv ! 2) (view c)))"
  "implements ''zrange'' cmd_zrange (- 4) (\<lambda>argv c. allows_zrange False argv (view c))"
  "implements ''zrevrange'' cmd_zrevrange (- 4) (\<lambda>argv c. allows_zrange True argv (view c))"
  "implements ''zrangebyscore'' cmd_zrangebyscore (- 4) (\<lambda>argv c. allows_zrangebyscore argv (view c))"
  "implements ''zcount'' cmd_zcount (4) (\<lambda>argv c. exactly (spec_zcount argv (view c)))"
  "implements ''zpopmin'' cmd_zpopmin (- 2) (\<lambda>argv c. allows_zpopmin argv (view c))"
  unfolding cmd_zrange_def cmd_zrevrange_def
  by (rule implementsI, (rule command_rules; simp add: call_facts))+

lemma implements_persist:
  "implements ''save'' cmd_save (1) (\<lambda>argv c. allows_save ''OK'' (view c))"
  "implements ''bgsave'' cmd_bgsave (1) (\<lambda>argv c. allows_save ''Background saving started'' (view c))"
  "implements ''lastsave'' cmd_lastsave (1) (\<lambda>argv c. exactly (RInt (last_save_unix_s (psave c)), view c))"
  by (rule implementsI, (rule command_rules; simp add: call_facts))+

lemmas implemented = implements_server implements_string implements_key implements_hash implements_list implements_set implements_zset
  implements_persist

lemma tables_agree:
  "list_all2 (\<lambda>(n, h, a) (n', s). n' = n \<and> implements n h a s) kCommands kMeanings"
  by (simp add: kCommands_def kMeanings_def implemented del: One_nat_def append_Cons)

lemma map_of_tables:
  assumes "list_all2 (\<lambda>(n, x) (n', y). n' = n \<and> P n x y) xs ys"
  shows "(map_of xs n = None \<and> map_of ys n = None) \<or> (\<exists>x y. map_of xs n = Some x \<and> map_of ys n = Some y \<and> P n x y)"
  using assms by (induction rule: list_all2_induct) auto

lemma command_meaning:
  "(command_table n = None \<and> map_of kMeanings n = None) \<or>
   (\<exists>h a s. command_table n = Some (h, a) \<and> map_of kMeanings n = Some s \<and> implements n h a s)"
proof -
  have "list_all2 (\<lambda>(n, x) (n', y). n' = n \<and> implements n (fst x) (snd x) y) kCommands kMeanings"
    by (rule list_all2_mono [OF tables_agree]) auto
  from map_of_tables [OF this, of n] show ?thesis
    by (auto simp: command_table_def)
qed

text \<open>No name of the table is too long for the dispatcher's buffer, so skipping the lookup loses nothing.\<close>

lemma long_names_unknown: "kMaxCommandNameLen < length n \<Longrightarrow> command_table n = None"
proof -
  have "list_all (\<lambda>e. length (fst e) \<le> kMaxCommandNameLen) kCommands"
    by (simp add: kCommands_def kMaxCommandNameLen_def)
  then show "kMaxCommandNameLen < length n \<Longrightarrow> command_table n = None"
    unfolding command_table_def map_of_eq_None_iff by (auto simp: list_all_iff)
qed

definition dispatch_allows :: "string list \<Rightarrow> ctx \<Rightarrow> reply \<Rightarrow> amap \<Rightarrow> bool" where
  "dispatch_allows argv c =
    (case (command_table (map tolower (hd argv)), map_of kMeanings (map tolower (hd argv))) of
       (Some (h, arity), Some s) \<Rightarrow>
         if arity_ok arity (length argv) then s argv c
         else exactly (RError (sanitize_error_text (wrong_arity (hd argv))), view c)
     | _ \<Rightarrow> exactly (RError (sanitize_error_text (unknown_command argv)), view c))"

lemma dispatch_achieves:
  assumes ok: "ctx_ok c" and ne: "argv \<noteq> []" and call: "call_ok (map tolower (hd argv)) argv c"
  shows "achieves c (dispatch argv c) (dispatch_allows argv c)"
proof -
  have err: "achieves c (Some (reply_error e c)) (exactly (RError (sanitize_error_text e), view c))" for e
    by (rule achieves_exactly) (rule performs_looked(6) [OF looked_self [OF ok]])
  have raw: "arg argv 0 = Some (hd argv)" using ne by (simp add: arg_def hd_conv_nth)
  have lookup: "(if length (hd argv) \<le> kMaxCommandNameLen then command_table (map tolower (hd argv)) else None) = command_table (map tolower (hd argv))"
    using long_names_unknown [of "map tolower (hd argv)"] by simp
  show ?thesis
    using command_meaning [of "map tolower (hd argv)"] call ok err
    unfolding dispatch_def dispatch_allows_def raw Let_def bind.simps lookup
    by (auto simp: implements_def)
qed

lemma dispatch_spec:
  assumes "ctx_ok c" "argv \<noteq> []" "call_ok (map tolower (hd argv)) argv c"
  shows "\<exists>c' r M. dispatch argv c = Some c' \<and> ctx_ok c' \<and> view c' = purge (clk_mono c) M \<and> reply_ok r \<and>
    buf_readable (out c') = buf_readable (out c) @ encode r \<and> dispatch_allows argv c r M"
  using dispatch_achieves [OF assms] unfolding achieves_def by (metis does_def does_view)

text \<open>C3: dispatching implements every command. For any non-empty request within \<open>call_ok\<close> (the keys of \<^verbatim>\<open>SINTER\<close> differ, no score argument of
  \<^verbatim>\<open>ZADD\<close>, \<^verbatim>\<open>ZINCRBY\<close>, \<^verbatim>\<open>ZRANGEBYSCORE\<close> or \<^verbatim>\<open>ZCOUNT\<close> is a NaN in disguise, and a save can run to its end; outside it the code does go wrong) in a
  well-formed context, \<^verbatim>\<open>dispatch\<close> runs without undefined behaviour, keeps the
  invariants of the database, the output buffer and the random source, appends exactly one well-formed reply
  to the connection's output, and reply and keyspace are what the table of meanings allows for that command,
  named in any mixture of cases; a wrong number of arguments or an unknown name yields the error reply and
  changes nothing that a client can see.\<close>
theorem dispatch_implements_commands:
  assumes ok: "ctx_ok c" and ne: "argv \<noteq> []" and call: "call_ok (map tolower (hd argv)) argv c"
  shows "\<exists>c' r M. dispatch argv c = Some c' \<and> ctx_ok c' \<and> view c' = purge (clk_mono c) M \<and> reply_ok r \<and>
    buf_readable (out c') = buf_readable (out c) @ encode r \<and> dispatch_allows argv c r M"
  using assms by (rule dispatch_spec)

theorem dispatch_implements_commands_witness:
  "\<exists>c' r M. dispatch [''SeT'', ''k'', ''v''] (ctx_on db_empty_init) = Some c' \<and> ctx_ok c' \<and>
    view c' = purge (clk_mono (ctx_on db_empty_init)) M \<and> reply_ok r \<and>
    buf_readable (out c') = buf_readable (out (ctx_on db_empty_init)) @ encode r \<and>
    dispatch_allows [''SeT'', ''k'', ''v''] (ctx_on db_empty_init) r M"
proof (rule dispatch_implements_commands)
  show "ctx_ok (ctx_on db_empty_init)" by (rule ctx_on_ok) (rule db_reset_spec(1))
  show "call_ok (map tolower (hd [''SeT'', ''k'', ''v''])) [''SeT'', ''k'', ''v''] (ctx_on db_empty_init)"
    by (simp add: call_ok_def tolower_def)
qed simp

end
