(* ===== verification/Resp_Parser.thy ===== *)
theory Resp_Parser
  imports Prelude
begin

text \<open>
  The request parser of \<^verbatim>\<open>protocol/resp_parser.cpp\<close>. Positions are indices into the input, as in the
  code; an index out of range is undefined behaviour (\<^verbatim>\<open>operator[]\<close>) and makes the result
  \<^term>\<open>None\<close>. Shown here: the parser is total on every input, stays within its limits and its input,
  does not change its mind when more bytes arrive, and reads back every encoded command.
\<close>

datatype parse_status = POk | PIncomplete | PError

record parser_limits =
  max_bulk_len :: nat
  max_array_len :: nat
  max_header_line_len :: nat

definition default_limits :: parser_limits where
  "default_limits = \<lparr>max_bulk_len = 64 * 1024 * 1024, max_array_len = 1048576, max_header_line_len = 64\<rparr>"

record parse_result =
  pstatus :: parse_status
  pargv :: "string list"
  consumed :: nat
  perr :: string

definition p_incomplete :: parse_result where
  "p_incomplete = \<lparr>pstatus = PIncomplete, pargv = [], consumed = 0, perr = []\<rparr>"

definition p_error :: "string \<Rightarrow> parse_result" where
  "p_error e = \<lparr>pstatus = PError, pargv = [], consumed = 0, perr = e\<rparr>"

definition p_ok :: "string list \<Rightarrow> nat \<Rightarrow> parse_result" where
  "p_ok args n = \<lparr>pstatus = POk, pargv = args, consumed = n, perr = []\<rparr>"

definition char_at :: "string \<Rightarrow> nat \<Rightarrow> char ub" where
  "char_at s i = (if i < length s then Some (s ! i) else None)"

definition substr :: "string \<Rightarrow> nat \<Rightarrow> nat \<Rightarrow> string" where
  "substr s pos n = take n (drop pos s)"

definition find_crlf_bounded :: "string \<Rightarrow> nat \<Rightarrow> nat \<Rightarrow> nat option" where
  "find_crlf_bounded data start limit =
    (if start \<ge> length data then None
     else let window_end = min (length data) (start + limit);
              window = substr data start (window_end - start)
          in map_option (\<lambda>rel. start + rel) (find_crlf window))"

definition parse_signed_line :: "string \<Rightarrow> nat \<Rightarrow> nat \<Rightarrow> int option" where
  "parse_signed_line data start stop =
    (if start \<ge> stop then None
     else case from_chars_i64 (substr data start (stop - start)) of
       Inl _ \<Rightarrow> None
     | Inr (v, rest) \<Rightarrow> if rest = [] then Some v else None)"

datatype header_line = HOk int nat | HIncomplete | HError string

definition parse_header_line :: "string \<Rightarrow> nat \<Rightarrow> nat \<Rightarrow> string \<Rightarrow> header_line" where
  "parse_header_line data marker_pos max_line_len what =
    (let digits_start = marker_pos + 1 in
     case find_crlf_bounded data digits_start max_line_len of
       None \<Rightarrow> if length data \<ge> digits_start + max_line_len
               then HError (''protocol error: '' @ what @ '' line too long'') else HIncomplete
     | Some crlf_pos \<Rightarrow>
         (case parse_signed_line data digits_start crlf_pos of
            None \<Rightarrow> HError (''protocol error: invalid '' @ what @ '' length'')
          | Some v \<Rightarrow> HOk v (crlf_pos + 2)))"

fun parse_bulks :: "parser_limits \<Rightarrow> string \<Rightarrow> nat \<Rightarrow> nat \<Rightarrow> string list \<Rightarrow> parse_result ub" where
  "parse_bulks limits data 0 pos parsed = Some (p_ok parsed pos)"
| "parse_bulks limits data (Suc n) pos parsed =
    (if pos \<ge> length data then Some p_incomplete
     else do {
       c \<leftarrow> char_at data pos;
       if c \<noteq> CHR ''$'' then
         Some (p_error (''protocol error: expected '' @ [CHR 0x27] @ ''$'' @ [CHR 0x27] @ '', got '' @ [CHR 0x27, c, CHR 0x27]))
       else case parse_header_line data pos (max_header_line_len limits) ''bulk'' of
         HIncomplete \<Rightarrow> Some p_incomplete
       | HError e \<Rightarrow> Some (p_error e)
       | HOk v payload_start \<Rightarrow>
           if v < 0 then Some (p_error ''protocol error: invalid bulk length'')
           else let len = nat v in
             if len > max_bulk_len limits then Some (p_error ''protocol error: invalid bulk length: too large'')
             else if length data < payload_start + len + 2 then Some p_incomplete
             else do {
               c1 \<leftarrow> char_at data (payload_start + len);
               c2 \<leftarrow> char_at data (payload_start + len + 1);
               if c1 \<noteq> CR \<or> c2 \<noteq> LF then Some (p_error ''protocol error: missing CRLF after bulk string'')
               else parse_bulks limits data n (payload_start + len + 2) (parsed @ [substr data payload_start len])
             }
     })"

definition parse_command :: "parser_limits \<Rightarrow> string \<Rightarrow> parse_result ub" where
  "parse_command limits data =
    (if data = [] then Some p_incomplete
     else do {
       c \<leftarrow> char_at data 0;
       if c \<noteq> CHR ''*'' then
         Some (p_error (''protocol error: expected '' @ [CHR 0x27] @ ''*'' @ [CHR 0x27] @ '', got '' @ [CHR 0x27, c, CHR 0x27]))
       else case parse_header_line data 0 (max_header_line_len limits) ''multibulk'' of
         HIncomplete \<Rightarrow> Some p_incomplete
       | HError e \<Rightarrow> Some (p_error e)
       | HOk v pos \<Rightarrow>
           if v < 0 then Some (p_error ''protocol error: invalid multibulk length'')
           else let count = nat v in
             if count > max_array_len limits then Some (p_error ''protocol error: invalid multibulk length: too large'')
             else if count = 0 then Some (p_ok [] pos)
             else parse_bulks limits data count pos []
     })"

section \<open>Header lines\<close>

lemma window_eq:
  assumes "start < length data"
  shows "substr data start (min (length data) (start + limit) - start) = take limit (drop start data)"
  using assms by (auto simp: substr_def min_def)

lemma find_crlf_bounded_eq:
  "find_crlf_bounded data start limit = map_option (\<lambda>rel. start + rel) (find_crlf (take limit (drop start data)))"
  by (auto simp: find_crlf_bounded_def window_eq)

lemma find_crlf_bounded_bound:
  assumes "find_crlf_bounded data start limit = Some i"
  shows "start \<le> i" "i + 2 \<le> length data"
  using assms find_crlf_bound by (fastforce simp: find_crlf_bounded_eq)+

lemma find_crlf_bounded_extend:
  assumes "find_crlf_bounded data start limit = Some i \<or> start + limit \<le> length data"
  shows "find_crlf_bounded (data @ extra) start limit = find_crlf_bounded data start limit"
  using assms
proof
  assume "find_crlf_bounded data start limit = Some i"
  then obtain r where r: "find_crlf (take limit (drop start data)) = Some r" "i = start + r"
    by (auto simp: find_crlf_bounded_eq)
  then have "start < length data"
    using find_crlf_bound [OF r(1)] by auto
  then have "take limit (drop start (data @ extra)) =
      take limit (drop start data) @ take (limit - (length data - start)) extra"
    by simp
  with r find_crlf_append [OF r(1)] show ?thesis
    by (simp add: find_crlf_bounded_eq)
next
  assume "start + limit \<le> length data"
  then show ?thesis
    by (simp add: find_crlf_bounded_eq)
qed

lemma parse_signed_line_extend:
  "stop \<le> length data \<Longrightarrow> parse_signed_line (data @ extra) start stop = parse_signed_line data start stop"
  by (simp add: parse_signed_line_def substr_def)

lemma parse_header_line_extend:
  assumes "parse_header_line data pos limit what \<noteq> HIncomplete"
  shows "parse_header_line (data @ extra) pos limit what = parse_header_line data pos limit what"
proof (cases "find_crlf_bounded data (pos + 1) limit")
  case None
  then have l: "pos + 1 + limit \<le> length data"
    using assms by (simp add: parse_header_line_def split: if_splits)
  have "find_crlf_bounded (data @ extra) (pos + 1) limit = None"
    using find_crlf_bounded_extend [of data "pos + 1" limit 0 extra] l None by auto
  then show ?thesis
    using None l by (simp add: parse_header_line_def)
next
  case (Some i)
  then show ?thesis
    using find_crlf_bounded_extend [of data "pos + 1" limit i extra] find_crlf_bounded_bound [OF Some]
    by (simp add: parse_header_line_def parse_signed_line_extend)
qed

lemma parse_header_line_HOk:
  assumes "parse_header_line data pos limit what = HOk v next_pos"
  shows "next_pos \<le> length data" "pos + 3 < next_pos" "in_i64 v"
proof -
  obtain i where i: "find_crlf_bounded data (pos + 1) limit = Some i" "next_pos = i + 2"
    "parse_signed_line data (pos + 1) i = Some v"
    using assms by (auto simp: parse_header_line_def Let_def split: option.splits if_splits)
  then show "next_pos \<le> length data"
    using find_crlf_bounded_bound [OF i(1)] by simp
  have "pos + 1 < i"
    using i(3) by (auto simp: parse_signed_line_def split: if_splits)
  then show "pos + 3 < next_pos"
    using i(2) by simp
  show "in_i64 v"
    using i(3) by (auto simp: parse_signed_line_def dest: from_chars_i64_range split: if_splits sum.splits)
qed

section \<open>Totality, bounds and stability\<close>

lemma char_at_lt [simp]: "i < length s \<Longrightarrow> char_at s i = Some (s ! i)"
  by (simp add: char_at_def)

lemma parse_bulks_total:
  assumes "pos \<le> length data"
  shows "\<exists>r. parse_bulks limits data n pos parsed = Some r \<and> consumed r \<le> length data \<and>
    (pstatus r \<noteq> POk \<longrightarrow> consumed r = 0 \<and> pargv r = []) \<and>
    (pstatus r = POk \<longrightarrow> length (pargv r) = length parsed + n \<and> pos \<le> consumed r \<and>
       (\<exists>new. pargv r = parsed @ new \<and> (\<forall>s \<in> set new. length s \<le> max_bulk_len limits)))"
  using assms
proof (induction n arbitrary: pos parsed)
  case 0
  then show ?case by (simp add: p_ok_def)
next
  case (Suc n)
  show ?case
  proof (cases "parse_header_line data pos (max_header_line_len limits) ''bulk''")
    case (HOk v start)
    note H = parse_header_line_HOk [OF HOk]
    let ?len = "nat v"
    show ?thesis
    proof (cases "start + ?len + 2 \<le> length data \<and> ?len \<le> max_bulk_len limits")
      case True
      let ?arg = "substr data start ?len"
      have arg: "length ?arg = ?len"
        using True by (auto simp: substr_def)
      have "\<exists>r. parse_bulks limits data n (start + ?len + 2) (parsed @ [?arg]) = Some r \<and> consumed r \<le> length data \<and>
        (pstatus r \<noteq> POk \<longrightarrow> consumed r = 0 \<and> pargv r = []) \<and>
        (pstatus r = POk \<longrightarrow> length (pargv r) = length (parsed @ [?arg]) + n \<and> start + ?len + 2 \<le> consumed r \<and>
          (\<exists>new. pargv r = (parsed @ [?arg]) @ new \<and> (\<forall>s \<in> set new. length s \<le> max_bulk_len limits)))"
        using True by (intro Suc.IH) simp
      then obtain r where r: "parse_bulks limits data n (start + ?len + 2) (parsed @ [?arg]) = Some r"
        "consumed r \<le> length data" "pstatus r \<noteq> POk \<longrightarrow> consumed r = 0 \<and> pargv r = []"
        "pstatus r = POk \<longrightarrow> length (pargv r) = length parsed + Suc n \<and> pos \<le> consumed r \<and>
          (\<exists>new. pargv r = parsed @ new \<and> (\<forall>s \<in> set new. length s \<le> max_bulk_len limits))"
        using H(2) arg True by (elim exE conjE) (auto simp del: parse_bulks.simps intro: that)
      then show ?thesis
        using True HOk H by (auto simp: p_error_def p_incomplete_def Let_def not_le)
    next
      case False
      then show ?thesis
        using HOk H by (auto simp: p_error_def p_incomplete_def Let_def not_le)
    qed
  qed (auto simp: p_error_def p_incomplete_def not_le)
qed

lemma parse_command_total:
  "\<exists>r. parse_command limits data = Some r \<and> consumed r \<le> length data \<and>
    (pstatus r \<noteq> POk \<longrightarrow> consumed r = 0 \<and> pargv r = []) \<and>
    (pstatus r = POk \<longrightarrow> 0 < consumed r \<and> length (pargv r) \<le> max_array_len limits \<and>
       (\<forall>s \<in> set (pargv r). length s \<le> max_bulk_len limits))"
proof (cases "parse_header_line data 0 (max_header_line_len limits) ''multibulk''")
  case (HOk v pos)
  note H = parse_header_line_HOk [OF HOk]
  obtain r where r: "parse_bulks limits data (nat v) pos [] = Some r" "consumed r \<le> length data"
    "pstatus r \<noteq> POk \<longrightarrow> consumed r = 0 \<and> pargv r = []"
    "pstatus r = POk \<longrightarrow> length (pargv r) = nat v \<and> pos \<le> consumed r \<and> (\<forall>s \<in> set (pargv r). length s \<le> max_bulk_len limits)"
    using parse_bulks_total [OF H(1), of limits "nat v" "[]"] by auto
  have "data \<noteq> []"
    using H by auto
  then show ?thesis
    using HOk H r by (auto simp: parse_command_def p_error_def p_incomplete_def p_ok_def Let_def)
qed (cases data; auto simp: parse_command_def p_error_def p_incomplete_def)+

lemma parse_bulks_extend:
  assumes "parse_bulks limits data n pos parsed = Some r" "pstatus r \<noteq> PIncomplete"
  shows "parse_bulks limits (data @ extra) n pos parsed = Some r"
  using assms
proof (induction n arbitrary: pos parsed)
  case 0
  then show ?case by simp
next
  case (Suc n)
  from Suc.prems have pos: "pos < length data"
    by (auto simp: p_incomplete_def split: if_splits)
  show ?case
  proof (cases "parse_header_line data pos (max_header_line_len limits) ''bulk''")
    case (HOk v start)
    then have e: "parse_header_line (data @ extra) pos (max_header_line_len limits) ''bulk'' = HOk v start"
      using parse_header_line_extend by simp
    show ?thesis
    proof (cases "start + nat v + 2 \<le> length data")
      case True
      then show ?thesis
        using Suc.prems Suc.IH pos HOk e by (auto simp: nth_append substr_def Let_def split: if_splits)
    next
      case False
      then show ?thesis
        using Suc.prems pos HOk e by (auto simp: nth_append p_incomplete_def Let_def split: if_splits)
    qed
  next
    case HIncomplete
    then show ?thesis
      using Suc.prems pos by (auto simp: nth_append p_incomplete_def split: if_splits)
  next
    case (HError m)
    then have "parse_header_line (data @ extra) pos (max_header_line_len limits) ''bulk'' = HError m"
      using parse_header_line_extend by simp
    then show ?thesis
      using Suc.prems pos HError by (auto simp: nth_append split: if_splits)
  qed
qed

lemma parse_command_extend:
  assumes r: "parse_command limits data = Some r" "pstatus r \<noteq> PIncomplete"
  shows "parse_command limits (data @ extra) = Some r"
proof -
  have ne: "data \<noteq> []"
    using r by (auto simp: parse_command_def p_incomplete_def)
  show ?thesis
  proof (cases "parse_header_line data 0 (max_header_line_len limits) ''multibulk''")
    case HIncomplete
    then show ?thesis
      using r ne by (auto simp: parse_command_def nth_append p_incomplete_def split: if_splits)
  next
    case (HOk v pos)
    then have "parse_header_line (data @ extra) 0 (max_header_line_len limits) ''multibulk'' = HOk v pos"
      using parse_header_line_extend by simp
    then show ?thesis
      using r ne HOk parse_bulks_extend [of limits data "nat v" pos "[]" r extra]
      by (auto simp: parse_command_def nth_append Let_def split: if_splits)
  next
    case (HError m)
    then have "parse_header_line (data @ extra) 0 (max_header_line_len limits) ''multibulk'' = HError m"
      using parse_header_line_extend by simp
    then show ?thesis
      using r ne HError by (auto simp: parse_command_def nth_append split: if_splits)
  qed
qed

section \<open>Encoded commands are read back\<close>

definition encode_bulk :: "string \<Rightarrow> string" where
  "encode_bulk s = CHR ''$'' # nat_to_string (length s) @ CRLF @ s @ CRLF"

definition encode_command :: "string list \<Rightarrow> string" where
  "encode_command args = CHR ''*'' # nat_to_string (length args) @ CRLF @ concat (map encode_bulk args)"

definition line_fits :: "parser_limits \<Rightarrow> nat \<Rightarrow> bool" where
  "line_fits limits n \<longleftrightarrow> length (nat_to_string n) + 2 \<le> max_header_line_len limits \<and> int n \<le> INT64_MAX"

definition command_fits :: "parser_limits \<Rightarrow> string list \<Rightarrow> bool" where
  "command_fits limits args \<longleftrightarrow> length args \<le> max_array_len limits \<and> line_fits limits (length args) \<and>
     list_all (\<lambda>s. length s \<le> max_bulk_len limits \<and> line_fits limits (length s)) args"

lemma parse_header_line_encoded:
  assumes fits: "line_fits limits n" and data: "data = pre @ c # nat_to_string n @ CRLF @ post"
  shows "parse_header_line data (length pre) (max_header_line_len limits) what =
    HOk (int n) (length pre + 1 + length (nat_to_string n) + 2)"
proof -
  let ?ds = "nat_to_string n" and ?L = "max_header_line_len limits"
  have d: "drop (length pre + 1) data = ?ds @ CRLF @ post"
    by (simp add: data)
  have L: "length (?ds @ CRLF) \<le> ?L"
    using fits by (simp add: line_fits_def CRLF_def)
  then obtain k where "?L = length (?ds @ CRLF) + k"
    using le_Suc_ex by blast
  then have "take ?L (?ds @ CRLF @ post) = ?ds @ CRLF @ take k post"
    by (simp add: CRLF_def)
  then have "find_crlf_bounded data (length pre + 1) ?L = Some (length pre + 1 + length ?ds)"
    using find_crlf_line [of ?ds "take k post"] by (simp only: find_crlf_bounded_eq d) simp
  moreover have "substr data (length pre + 1) (length ?ds) = ?ds"
    unfolding substr_def d by simp
  then have "parse_signed_line data (length pre + 1) (length pre + 1 + length ?ds) = Some (int n)"
    using from_chars_int_to_string [of "int n" "[]"] fits
    by (simp add: parse_signed_line_def line_fits_def int_to_string_def i64_defs)
  ultimately show ?thesis
    by (simp add: parse_header_line_def)
qed

lemma parse_bulks_encoded:
  assumes "list_all (\<lambda>s. length s \<le> max_bulk_len limits \<and> line_fits limits (length s)) args"
    "data = pre @ concat (map encode_bulk args) @ post"
  shows "parse_bulks limits data (length args) (length pre) parsed =
    Some (p_ok (parsed @ args) (length pre + length (concat (map encode_bulk args))))"
  using assms
proof (induction args arbitrary: pre parsed)
  case Nil
  then show ?case by simp
next
  case (Cons s args)
  let ?tail = "concat (map encode_bulk args) @ post"
  let ?n = "nat_to_string (length s)"
  have data: "data = pre @ CHR ''$'' # ?n @ CRLF @ (s @ CRLF @ ?tail)"
    using Cons.prems(2) by (simp add: encode_bulk_def [of s])
  define start where "start = length pre + 1 + length ?n + 2"
  have H: "parse_header_line data (length pre) (max_header_line_len limits) ''bulk'' = HOk (int (length s)) start"
    using parse_header_line_encoded [OF _ data] Cons.prems(1) by (simp add: start_def)
  have data': "data = (pre @ encode_bulk s) @ ?tail"
    using Cons.prems(2) by simp
  have ds: "data = (pre @ CHR ''$'' # ?n @ CRLF) @ s @ CR # LF # ?tail" "length (pre @ CHR ''$'' # ?n @ CRLF) = start"
    using data by (simp_all add: CRLF_def start_def)
  have "drop (length p) data = q" if "data = p @ q" for p q
    using that by simp
  from this [OF ds(1)] have dd: "drop start data = s @ CR # LF # ?tail"
    unfolding ds(2) .
  have le: "start \<le> length data" "length data - start = length (s @ CR # LF # ?tail)"
    using ds by (metis length_append le_add1, metis dd length_drop)
  have "data ! (start + i) = (s @ CR # LF # ?tail) ! i" for i
    using nth_drop [OF le(1), of i] by (simp only: dd)
  from this [of "length s"] this [of "Suc (length s)"]
  have sub: "substr data start (length s) = s" "start + length s + 2 \<le> length data"
    "data ! (start + length s) = CR" "data ! Suc (start + length s) = LF"
    using le by (simp_all add: substr_def dd nth_append)
  have next_pos: "start + length s + 2 = length (pre @ encode_bulk s)"
    by (simp add: start_def encode_bulk_def CRLF_def)
  have IH: "parse_bulks limits data (length args) (length (pre @ encode_bulk s)) (parsed @ [s]) =
      Some (p_ok ((parsed @ [s]) @ args) (length (pre @ encode_bulk s) + length (concat (map encode_bulk args))))"
    using Cons.prems(1) data' by (intro Cons.IH) simp_all
  have pos: "length pre < length data" "data ! length pre = CHR ''$''"
    by (simp_all add: data)
  show ?case
    using H pos sub IH Cons.prems(1) next_pos by (simp add: Let_def add.assoc)
qed

lemma parse_command_encoded:
  assumes "command_fits limits args"
  shows "parse_command limits (encode_command args @ extra) = Some (p_ok args (length (encode_command args)))"
proof -
  let ?n = "nat_to_string (length args)"
  let ?pre = "CHR ''*'' # ?n @ CRLF"
  let ?data = "encode_command args @ extra"
  have data: "?data = [] @ CHR ''*'' # ?n @ CRLF @ (concat (map encode_bulk args) @ extra)"
    "?data = ?pre @ concat (map encode_bulk args) @ extra"
    by (simp_all add: encode_command_def)
  have H: "parse_header_line ?data 0 (max_header_line_len limits) ''multibulk'' = HOk (int (length args)) (length ?pre)"
    using parse_header_line_encoded [OF _ data(1), of limits] assms by (simp add: command_fits_def CRLF_def)
  have B: "parse_bulks limits ?data (length args) (length ?pre) [] =
      Some (p_ok ([] @ args) (length ?pre + length (concat (map encode_bulk args))))"
    by (rule parse_bulks_encoded [OF _ data(2)]) (use assms in \<open>simp add: command_fits_def\<close>)
  have len: "length (encode_command args) = length ?pre + length (concat (map encode_bulk args))"
    by (simp add: encode_command_def)
  have h: "?data \<noteq> []" "char_at ?data 0 = Some (CHR ''*'')" "length args \<le> max_array_len limits"
    using assms by (simp_all add: encode_command_def command_fits_def char_at_def)
  show ?thesis
  proof (cases "args = []")
    case True
    then show ?thesis
      using H len h by (simp add: parse_command_def del: append_is_Nil_conv)
  next
    case False
    then show ?thesis
      using H B len h by (simp add: parse_command_def del: parse_bulks.simps append_is_Nil_conv)
  qed
qed

section \<open>Properties\<close>

text \<open>C20: the parser is total and bounded. On every input it returns without reading out of range; an
  accepted command consumed at least one byte and no more than there were, has at most
  \<^verbatim>\<open>max_array_len\<close> arguments of at most \<^verbatim>\<open>max_bulk_len\<close> bytes each; any other outcome consumes nothing
  and delivers no argument.\<close>

theorem parser_total_and_bounded:
  "\<exists>r. parse_command limits data = Some r \<and> consumed r \<le> length data \<and>
    (pstatus r \<noteq> POk \<longrightarrow> consumed r = 0 \<and> pargv r = []) \<and>
    (pstatus r = POk \<longrightarrow> 0 < consumed r \<and> length (pargv r) \<le> max_array_len limits \<and>
       (\<forall>s \<in> set (pargv r). length s \<le> max_bulk_len limits))"
  by (rule parse_command_total)

theorem parser_total_and_bounded_witness:
  "\<exists>r. parse_command default_limits ''*1'' = Some r \<and> consumed r \<le> length ''*1'' \<and>
    (pstatus r \<noteq> POk \<longrightarrow> consumed r = 0 \<and> pargv r = []) \<and>
    (pstatus r = POk \<longrightarrow> 0 < consumed r \<and> length (pargv r) \<le> max_array_len default_limits \<and>
       (\<forall>s \<in> set (pargv r). length s \<le> max_bulk_len default_limits))"
  by (rule parser_total_and_bounded)

text \<open>Arrival in pieces does not matter. Once the parser has decided on a prefix of the stream
  (a command or a protocol error), it decides the same, with the same arguments and the same number
  of bytes consumed, whatever bytes follow.\<close>

theorem parser_stable_under_more_bytes:
  assumes "parse_command limits data = Some r" "pstatus r \<noteq> PIncomplete"
  shows "parse_command limits (data @ extra) = Some r"
  using assms by (rule parse_command_extend)

text \<open>C21: every command that fits the limits, sent as an array of bulk strings, is read back with
  exactly its arguments, whatever bytes they contain, and exactly its bytes are consumed whatever
  follows them.\<close>

theorem encoded_command_reads_back:
  assumes "command_fits limits args"
  shows "parse_command limits (encode_command args @ extra) = Some (p_ok args (length (encode_command args)))"
  using assms by (rule parse_command_encoded)

lemma example_command_fits: "command_fits default_limits [''SET'', ''k'', CRLF @ ''$'']"
  by (simp add: command_fits_def default_limits_def line_fits_def INT64_MAX_def nat_to_string.simps CRLF_def)

theorem encoded_command_reads_back_witness:
  "parse_command default_limits (encode_command [''SET'', ''k'', CRLF @ ''$''] @ ''*'') =
    Some (p_ok [''SET'', ''k'', CRLF @ ''$''] (length (encode_command [''SET'', ''k'', CRLF @ ''$''])))"
  by (rule encoded_command_reads_back) (rule example_command_fits)

theorem parser_stable_under_more_bytes_witness:
  "parse_command default_limits (encode_command [''SET'', ''k'', CRLF @ ''$''] @ ''*'') =
    Some (p_ok [''SET'', ''k'', CRLF @ ''$''] (length (encode_command [''SET'', ''k'', CRLF @ ''$''])))"
  by (rule parser_stable_under_more_bytes)
    (use parse_command_encoded [OF example_command_fits, of "[]"] in \<open>simp_all add: p_ok_def\<close>)

end
