(* ===== verification/Timer_Queue.thy ===== *)
theory Timer_Queue
  imports Prio_Queue
begin

text \<open>
  The one-shot timers of \<^verbatim>\<open>net/timer_queue.cpp\<close>, on the priority queue of \<open>Prio_Queue\<close>. A callback is a label;
  what running it does to the queue and to the rest of the program is an argument of \<^verbatim>\<open>run_due\<close>, so the
  callbacks may add and cancel timers. The loop of \<^verbatim>\<open>run_due\<close> need not end: not returning is \<^term>\<open>None\<close>.
\<close>

section \<open>The queue\<close>

record 'c timer =
  t_deadline :: int
  t_id :: nat
  t_cb :: 'c

record 'c timer_queue =
  theap :: "'c timer list"
  tcancelled :: "nat list"
  tnext_id :: nat

definition tq_init :: "'c timer_queue" where
  "tq_init = \<lparr>theap = [], tcancelled = [], tnext_id = 1\<rparr>"

definition add_timer :: "int \<Rightarrow> 'c \<Rightarrow> 'c timer_queue \<Rightarrow> nat \<times> 'c timer_queue" where
  "add_timer d cb q =
    (tnext_id q, q\<lparr>theap := pq_push t_deadline \<lparr>t_deadline = d, t_id = tnext_id q, t_cb = cb\<rparr> (theap q), tnext_id := tnext_id q + 1\<rparr>)"

definition cancel :: "nat \<Rightarrow> 'c timer_queue \<Rightarrow> 'c timer_queue" where
  "cancel tid q = q\<lparr>tcancelled := List.insert tid (tcancelled q)\<rparr>"

definition tq_empty :: "'c timer_queue \<Rightarrow> bool" where
  "tq_empty q \<longleftrightarrow> theap q = []"

lemma pq_pop_shorter: "pq_pop q = Some q' \<Longrightarrow> length q' < length q"
  by (auto simp: pq_pop_def split: list.splits)

function discard_cancelled_top :: "'c timer_queue \<Rightarrow> 'c timer_queue ub" where
  "discard_cancelled_top q =
    (if theap q = [] then Some q
     else case (pq_top (theap q), pq_pop (theap q)) of
       (Some e, Some h) \<Rightarrow>
         if t_id e \<in> set (tcancelled q)
         then discard_cancelled_top (q\<lparr>theap := h, tcancelled := removeAll (t_id e) (tcancelled q)\<rparr>)
         else Some q
     | _ \<Rightarrow> None)"
  by pat_completeness auto
termination
  by (relation "measure (\<lambda>q. length (theap q))") (auto dest: pq_pop_shorter [OF sym])

declare discard_cancelled_top.simps [simp del]

definition next_timeout_ms :: "int \<Rightarrow> 'c timer_queue \<Rightarrow> (int \<times> 'c timer_queue) ub" where
  "next_timeout_ms now q = do {
     q1 \<leftarrow> discard_cancelled_top q;
     if theap q1 = [] then Some (- 1, q1)
     else do {
       e \<leftarrow> pq_top (theap q1);
       remaining \<leftarrow> (if now < t_deadline e then (if in_i64 (t_deadline e - now) then Some (t_deadline e - now) else None) else Some 0);
       Some (min remaining 1000, q1)
     }
   }"

partial_function (option) run_due ::
  "('c \<Rightarrow> 'c timer_queue \<times> 's \<Rightarrow> ('c timer_queue \<times> 's) ub) \<Rightarrow> int \<Rightarrow> 'c timer_queue \<times> 's \<Rightarrow> ('c timer_queue \<times> 's) option" where
  "run_due run now qs =
    (case discard_cancelled_top (fst qs) of
       None \<Rightarrow> None
     | Some q \<Rightarrow>
         (case (pq_top (theap q), pq_pop (theap q)) of
            (Some e, Some h) \<Rightarrow>
              if now < t_deadline e then Some (q, snd qs)
              else (case run (t_cb e) (q\<lparr>theap := h\<rparr>, snd qs) of
                      None \<Rightarrow> None
                    | Some qs' \<Rightarrow> run_due run now qs')
          | _ \<Rightarrow> Some (q, snd qs)))"

section \<open>Invariant\<close>

definition tq_ok :: "'c timer_queue \<Rightarrow> bool" where
  "tq_ok q \<longleftrightarrow> pq_ordered t_deadline (theap q) \<and> distinct (map t_id (theap q)) \<and> (\<forall>e \<in> set (theap q). t_id e < tnext_id q)"

lemma pq_push_set: "set (pq_push key x q) = insert x (set q)"
  using pq_push_mset [of key x q] by (metis set_mset_add_mset_insert set_mset_mset)

lemma tq_init_ok: "tq_ok tq_init"
  by (simp add: tq_ok_def tq_init_def pq_ordered_def)

lemma add_timer_ok:
  assumes "tq_ok q" "add_timer d cb q = (i, q')"
  shows "tq_ok q'" "i \<notin> t_id ` set (theap q)" "mset (theap q') = add_mset \<lparr>t_deadline = d, t_id = i, t_cb = cb\<rparr> (mset (theap q))"
    "tcancelled q' = tcancelled q"
proof -
  have q': "i = tnext_id q" "q' = q\<lparr>theap := pq_push t_deadline \<lparr>t_deadline = d, t_id = i, t_cb = cb\<rparr> (theap q), tnext_id := i + 1\<rparr>"
    using assms(2) by (auto simp: add_timer_def)
  show new: "i \<notin> t_id ` set (theap q)"
    using assms(1) q'(1) by (auto simp: tq_ok_def)
  show m: "mset (theap q') = add_mset \<lparr>t_deadline = d, t_id = i, t_cb = cb\<rparr> (mset (theap q))"
    by (simp add: q'(2) pq_push_mset)
  show "tcancelled q' = tcancelled q" by (simp add: q'(2))
  have "mset (map t_id (theap q')) = add_mset i (mset (map t_id (theap q)))"
    using m by simp
  then have "distinct (map t_id (theap q'))"
    using assms(1) new by (metis tq_ok_def distinct.simps(2) list.set_map mset.simps(2) mset_eq_imp_distinct_iff)
  then show "tq_ok q'"
    using assms(1) q' by (auto simp: tq_ok_def pq_push_ordered pq_push_set)
qed

lemma cancel_ok: "tq_ok q \<Longrightarrow> tq_ok (cancel i q)"
  by (simp add: tq_ok_def cancel_def)

text \<open>What a heap still has to run: the entries that are not cancelled.\<close>

definition pending :: "'c timer_queue \<Rightarrow> 'c timer list" where
  "pending q = filter (\<lambda>e. t_id e \<notin> set (tcancelled q)) (theap q)"

lemma discard_spec:
  assumes "tq_ok q"
  shows "\<exists>q'. discard_cancelled_top q = Some q' \<and> tq_ok q' \<and> pending q' = pending q \<and> length (theap q') \<le> length (theap q) \<and>
    tnext_id q' = tnext_id q \<and> (theap q' = [] \<or> t_id (hd (theap q')) \<notin> set (tcancelled q')) \<and> set (theap q') \<subseteq> set (theap q)"
  using assms
proof (induction q rule: discard_cancelled_top.induct)
  case (1 q)
  show ?case
  proof (cases "theap q")
    case Nil
    then show ?thesis using 1(2) by (simp add: discard_cancelled_top.simps [of q])
  next
    case (Cons e h)
    have tp: "pq_top (theap q) = Some e" "pq_pop (theap q) = Some h" by (simp_all add: Cons pq_top_def pq_pop_def)
    show ?thesis
    proof (cases "t_id e \<in> set (tcancelled q)")
      case False
      then show ?thesis
        using 1(2) Cons tp by (simp add: discard_cancelled_top.simps [of q])
    next
      case True
      let ?q = "q\<lparr>theap := h, tcancelled := removeAll (t_id e) (tcancelled q)\<rparr>"
      have ok: "tq_ok ?q" using 1(2) Cons by (simp add: tq_ok_def pq_ordered_def)
      have "t_id x \<noteq> t_id e" if "x \<in> set h" for x
        using 1(2) Cons that by (auto simp: tq_ok_def image_iff)
      then have "pending ?q = pending q"
        using True Cons by (auto simp: pending_def intro: filter_cong)
      moreover have "discard_cancelled_top q = discard_cancelled_top ?q"
        using True Cons tp by (subst discard_cancelled_top.simps) simp
      ultimately show ?thesis
        using 1(1) [OF _ refl, of e h] ok Cons True tp by auto
    qed
  qed
qed

section \<open>Running what is due\<close>

definition due :: "int \<Rightarrow> 'c timer_queue \<Rightarrow> 'c timer list" where
  "due now q = filter (\<lambda>e. t_deadline e \<le> now) (pending q)"

text \<open>After discarding, the head of the heap decides whether anything is due.\<close>

lemma head_decides:
  assumes ok: "tq_ok q" and hd: "theap q = [] \<or> t_id (hd (theap q)) \<notin> set (tcancelled q)"
  obtains "theap q = []" "due now q = []"
  | e h where "theap q = e # h" "now < t_deadline e" "due now q = []" "\<forall>x \<in> set (theap q). now < t_deadline x"
  | e h where "theap q = e # h" "t_deadline e \<le> now" "tq_ok (q\<lparr>theap := h\<rparr>)" "due now q = e # due now (q\<lparr>theap := h\<rparr>)"
proof (cases "theap q")
  case Nil
  then show ?thesis using that(1) by (simp add: due_def pending_def)
next
  case (Cons e h)
  have ord: "\<forall>x \<in> set h. t_deadline e \<le> t_deadline x" and ok': "tq_ok (q\<lparr>theap := h\<rparr>)"
    using ok Cons by (auto simp: tq_ok_def pq_ordered_def)
  show ?thesis
  proof (cases "now < t_deadline e")
    case True
    then have "\<forall>x \<in> set (theap q). now < t_deadline x" using ord Cons by auto
    moreover from this have "due now q = []" by (auto simp: due_def pending_def filter_empty_conv)
    ultimately show ?thesis using that(2) Cons True by blast
  next
    case False
    then show ?thesis using that(3) [OF Cons] ok' hd Cons by (simp add: due_def pending_def)
  qed
qed

text \<open>A callback that leaves the due timers as they are, or cancels some, but arms new ones only for later.\<close>

definition arms_later :: "('c \<Rightarrow> 'c timer_queue \<times> 's \<Rightarrow> ('c timer_queue \<times> 's) ub) \<Rightarrow> int \<Rightarrow> ('s \<Rightarrow> bool) \<Rightarrow> bool" where
  "arms_later run now P \<longleftrightarrow> (\<forall>cb q s. tq_ok q \<and> P s \<longrightarrow>
     (\<exists>q' s'. run cb (q, s) = Some (q', s') \<and> tq_ok q' \<and> P s' \<and> length (due now q') \<le> length (due now q)))"

lemma run_due_returns:
  assumes ok: "tq_ok q" and P: "P s" and cb: "arms_later run now P"
  shows "\<exists>q' s'. run_due run now (q, s) = Some (q', s') \<and> tq_ok q' \<and> P s' \<and> (\<forall>e \<in> set (theap q'). now < t_deadline e)"
  using ok P
proof (induction "length (due now q)" arbitrary: q s rule: less_induct)
  case less
  obtain q1 where d: "discard_cancelled_top q = Some q1" "tq_ok q1" "pending q1 = pending q"
    "theap q1 = [] \<or> t_id (hd (theap q1)) \<notin> set (tcancelled q1)"
    using discard_spec [OF less.prems(1)] by blast
  have due1: "due now q1 = due now q" by (simp add: due_def d(3))
  from d(2,4) show ?case
  proof (cases rule: head_decides [of q1 now])
    case 1
    then show ?thesis using d less.prems(2) by (subst run_due.simps) (simp add: pq_top_def)
  next
    case (2 e h)
    then show ?thesis using d less.prems(2) by (subst run_due.simps) (simp add: pq_top_def pq_pop_def)
  next
    case (3 e h)
    obtain q2 s2 where r: "run (t_cb e) (q1\<lparr>theap := h\<rparr>, s) = Some (q2, s2)" "tq_ok q2" "P s2"
      "length (due now q2) \<le> length (due now (q1\<lparr>theap := h\<rparr>))"
      using cb 3(3) less.prems(2) unfolding arms_later_def by blast
    have "length (due now q2) < length (due now q)"
      using r(4) 3(4) due1 by simp
    then show ?thesis
      using less.hyps [OF _ r(2,3)] d(1) 3(1,2) r(1) by (subst run_due.simps) (simp add: pq_top_def pq_pop_def)
  qed
qed

text \<open>A callback that cancels no pending timer and arms new ones, itself included, only for later than \<open>now\<close>; any invariant
  \<open>P\<close> of the rest of the program may be used. Timers are told apart by their ids, and new ones get fresh ids.\<close>

definition arms_only_later :: "('c \<Rightarrow> 'c timer_queue \<times> 's \<Rightarrow> ('c timer_queue \<times> 's) ub) \<Rightarrow> int \<Rightarrow> ('s \<Rightarrow> bool) \<Rightarrow> bool" where
  "arms_only_later run now P \<longleftrightarrow> (\<forall>cb q s. tq_ok q \<and> P s \<longrightarrow>
     (\<exists>q' s'. run cb (q, s) = Some (q', s') \<and> tq_ok q' \<and> P s' \<and> due now q' = due now q \<and> tnext_id q \<le> tnext_id q' \<and>
       {e \<in> set (pending q'). t_id e < tnext_id q} = set (pending q)))"

text \<open>The callbacks of a program with a trace of which ones have run, which shows the order.\<close>

definition logged :: "('c \<Rightarrow> 'c timer_queue \<times> 's \<Rightarrow> ('c timer_queue \<times> 's) ub) \<Rightarrow>
    'c \<Rightarrow> 'c timer_queue \<times> 'c list \<times> 's \<Rightarrow> ('c timer_queue \<times> 'c list \<times> 's) ub" where
  "logged run cb qs = map_option (\<lambda>r. (fst r, fst (snd qs) @ [cb], snd r)) (run cb (fst qs, snd (snd qs)))"

lemma run_due_logged:
  assumes cb: "arms_only_later run now P" and "tq_ok q" "P s"
  shows "\<exists>q' s'. run_due (logged run) now (q, xs, s) = Some (q', xs @ map t_cb (due now q), s') \<and> tq_ok q' \<and> P s' \<and>
    due now q' = [] \<and> tnext_id q \<le> tnext_id q' \<and>
    {e \<in> set (pending q'). t_id e < tnext_id q} = {e \<in> set (pending q). now < t_deadline e}"
  using assms(2,3)
proof (induction "length (due now q)" arbitrary: q xs s rule: less_induct)
  case less
  obtain q1 where d: "discard_cancelled_top q = Some q1" "tq_ok q1" "pending q1 = pending q" "tnext_id q1 = tnext_id q"
    "theap q1 = [] \<or> t_id (hd (theap q1)) \<notin> set (tcancelled q1)"
    using discard_spec [OF less.prems(1)] by blast
  have due1: "due now q1 = due now q" by (simp add: due_def d(3))
  have old: "t_id e < tnext_id q" if "e \<in> set (pending q)" for e
    using that less.prems(1) by (auto simp: tq_ok_def pending_def)
  from d(2,5) show ?case
  proof (cases rule: head_decides [of q1 now])
    case 1
    then show ?thesis using d less.prems(2) due1 old by (subst run_due.simps) (auto simp: pq_top_def pending_def)
  next
    case (2 e h)
    then have "\<forall>x \<in> set (pending q). now < t_deadline x" using d(3) [symmetric] by (auto simp: pending_def)
    then show ?thesis using 2 d less.prems(2) due1 old by (subst run_due.simps) (auto simp: pq_top_def pq_pop_def)
  next
    case (3 e h)
    let ?q = "q1\<lparr>theap := h\<rparr>"
    have n: "tnext_id ?q = tnext_id q" using d(4) by simp
    obtain q2 s2 where r: "run (t_cb e) (?q, s) = Some (q2, s2)" "tq_ok q2" "P s2" "due now q2 = due now ?q"
      "tnext_id q \<le> tnext_id q2" "{x \<in> set (pending q2). t_id x < tnext_id q} = set (pending ?q)"
      using cb 3(3) less.prems(2) unfolding arms_only_later_def n [symmetric] by blast
    have "length (due now q2) < length (due now q)" using 3(4) due1 r(4) by simp
    from less.hyps [OF this r(2,3), of "xs @ [t_cb e]"] obtain q' s' where
      q': "run_due (logged run) now (q2, xs @ [t_cb e], s2) = Some (q', (xs @ [t_cb e]) @ map t_cb (due now q2), s')"
      "tq_ok q'" "P s'" "due now q' = []" "tnext_id q2 \<le> tnext_id q'"
      "{x \<in> set (pending q'). t_id x < tnext_id q2} = {x \<in> set (pending q2). now < t_deadline x}" by blast
    have "{x \<in> set (pending q'). t_id x < tnext_id q} = {x \<in> {x \<in> set (pending q2). now < t_deadline x}. t_id x < tnext_id q}"
      using r(5) unfolding q'(6) [symmetric] by auto
    also have "\<dots> = {x \<in> set (pending ?q). now < t_deadline x}" unfolding r(6) [symmetric] by auto
    also have "\<dots> = {x \<in> set (pending q1). now < t_deadline x}" using 3(1,2) by (auto simp: pending_def)
    finally have "{x \<in> set (pending q'). t_id x < tnext_id q} = {x \<in> set (pending q). now < t_deadline x}" by (simp only: d(3))
    then show ?thesis
      using q' d 3 r due1 by (subst run_due.simps) (simp add: pq_top_def pq_pop_def logged_def)
  qed
qed

lemma due_sorted: "tq_ok q \<Longrightarrow> sorted (map t_deadline (due now q))"
  by (auto simp: tq_ok_def pq_ordered_def due_def pending_def sorted_map intro!: sorted_wrt_filter)

text \<open>C22: every due timer runs exactly once, in the order of deadlines. The callbacks may use the queue: each one returns, cancels
  no pending timer and arms timers, itself included, only for later than \<open>now\<close>. Then on a well-formed queue \<^verbatim>\<open>run_due\<close> returns;
  the callbacks it has run are those of the timers that were due and not cancelled, sorted by deadline, each once. What is
  pending afterwards is later than \<open>now\<close>: the timers that were pending for later, all of them, and timers armed by the callbacks,
  with fresh ids. (A callback that arms itself for a deadline that has passed is another matter, see
  \<open>rearming_for_the_past_never_returns\<close>.)\<close>
theorem timers_run_once_in_order:
  assumes "tq_ok q" "P s" "arms_only_later run now P"
  shows "\<exists>q' s' ran. run_due (logged run) now (q, [], s) = Some (q', map t_cb ran, s') \<and> ran = due now q \<and> sorted (map t_deadline ran) \<and>
    distinct (map t_id ran) \<and> tq_ok q' \<and> P s' \<and> (\<forall>e \<in> set (pending q'). now < t_deadline e) \<and> tnext_id q \<le> tnext_id q' \<and>
    {e \<in> set (pending q'). t_id e < tnext_id q} = {e \<in> set (pending q). now < t_deadline e}"
proof -
  have "distinct (map t_id (due now q))"
    using assms(1) unfolding tq_ok_def due_def pending_def filter_filter by (simp add: distinct_map_filter)
  moreover have "\<forall>e \<in> set (pending q'). now < t_deadline e" if "due now q' = []" for q' :: "'a timer_queue"
    using that by (simp add: due_def filter_empty_conv not_le)
  ultimately show ?thesis
    using run_due_logged [OF assms(3,1,2), of "[]"] due_sorted [OF assms(1), of now] by fastforce
qed

text \<open>A callback that arms itself again for a fixed deadline.\<close>

definition rearm :: "int \<Rightarrow> 'c \<Rightarrow> 'c timer_queue \<times> 's \<Rightarrow> ('c timer_queue \<times> 's) ub" where
  "rearm d cb qs = Some (snd (add_timer d cb (fst qs)), snd qs)"

lemma filter_pq_push: "\<not> Q x \<Longrightarrow> filter Q (pq_push key x q) = filter Q q"
  unfolding pq_push_def by (subst (3) takeWhile_dropWhile_id [of "\<lambda>y. key y \<le> key x" q, symmetric]) (simp del: takeWhile_dropWhile_id)

lemma rearm_only_later:
  assumes "now < d"
  shows "arms_only_later (rearm d) now (\<lambda>_. True)"
proof -
  have "tq_ok q' \<and> due now q' = due now q \<and> tnext_id q \<le> tnext_id q' \<and> {e \<in> set (pending q'). t_id e < tnext_id q} = set (pending q)"
    if "tq_ok q" "q' = snd (add_timer d cb q)" for cb :: 'a and q q'
  proof -
    obtain i q2 where a: "add_timer d cb q = (i, q2)" by force
    have "tq_ok q'" using add_timer_ok(1) [OF that(1) a] a that(2) by simp
    then show ?thesis using that assms
      by (auto simp: add_timer_def due_def pending_def pq_push_set tq_ok_def filter_filter filter_pq_push)
  qed
  then show ?thesis by (simp add: arms_only_later_def rearm_def)
qed

definition demo_timers :: "string timer_queue" where
  "demo_timers = cancel 2 (snd (add_timer 30 ''c'' (snd (add_timer 10 ''b'' (snd (add_timer 20 ''a'' tq_init))))))"

lemma demo_timers_ok: "tq_ok demo_timers"
proof -
  have add: "tq_ok (snd (add_timer d cb q))" if "tq_ok q" for d and cb :: string and q
    using add_timer_ok(1) [OF that, of d cb] by (cases "add_timer d cb q") simp
  show ?thesis unfolding demo_timers_def by (intro cancel_ok add tq_init_ok)
qed

theorem timers_run_once_in_order_witness:
  "\<exists>q' s'. run_due (logged (rearm 40)) 30 (demo_timers, [], ()) = Some (q', [''a'', ''c''], s') \<and> tq_ok q' \<and> list_all (\<lambda>e. 30 < t_deadline e) (pending q')"
proof -
  have "map t_cb (due 30 demo_timers) = [''a'', ''c'']" by code_simp
  then show ?thesis
    using timers_run_once_in_order [OF demo_timers_ok, of "\<lambda>_. True" "()" "rearm 40" 30] rearm_only_later [of 30 40]
    by (auto simp: list_all_iff)
qed

text \<open>Nothing cancelled and a due timer on top.\<close>

definition top_due :: "int \<Rightarrow> 'c timer_queue \<Rightarrow> bool" where
  "top_due now q \<longleftrightarrow> tq_ok q \<and> tcancelled q = [] \<and> theap q \<noteq> [] \<and> t_deadline (hd (theap q)) \<le> now"

lemma rearm_top_due:
  assumes "tq_ok q" "tcancelled q = []" "d \<le> now"
  shows "top_due now (snd (add_timer d cb q))"
proof -
  obtain i q' where a: "add_timer d cb q = (i, q')" by force
  note A = add_timer_ok [OF assms(1) a]
  have mem: "\<lparr>t_deadline = d, t_id = i, t_cb = cb\<rparr> \<in> set (theap q')"
    using A(3) by (metis set_mset_mset union_single_eq_member)
  then obtain e h where h: "theap q' = e # h" by (cases "theap q'") auto
  have "t_deadline e \<le> d"
    using mem A(1) by (auto simp: h tq_ok_def pq_ordered_def)
  then show ?thesis
    using A assms h a by (simp add: top_due_def)
qed

lemma rearm_never_returns:
  "run_due run t qs = Some y \<Longrightarrow> run = rearm d \<longrightarrow> d \<le> t \<longrightarrow> \<not> top_due t (fst qs)"
proof (erule run_due.raw_induct [rotated, where P = "\<lambda>run t qs y. run = rearm d \<longrightarrow> d \<le> t \<longrightarrow> \<not> top_due t (fst qs)"], intro impI notI)
  fix rd run t y and qs :: "'a timer_queue \<times> 'b"
  let ?q = "fst qs"
  assume IH: "\<And>run t qs y. rd run t qs = Some y \<Longrightarrow> run = rearm d \<longrightarrow> d \<le> t \<longrightarrow> \<not> top_due t (fst qs)"
    and body: "(case discard_cancelled_top (fst qs) of None \<Rightarrow> None
        | Some q \<Rightarrow> (case (pq_top (theap q), pq_pop (theap q)) of
            (Some e, Some h) \<Rightarrow> if t < t_deadline e then Some (q, snd qs)
              else (case run (t_cb e) (q\<lparr>theap := h\<rparr>, snd qs) of None \<Rightarrow> None | Some qs' \<Rightarrow> rd run t qs')
          | _ \<Rightarrow> Some (q, snd qs))) = Some y"
    and run: "run = rearm d" and d: "d \<le> t" and td: "top_due t ?q"
  obtain e h where h: "theap ?q = e # h" "t_deadline e \<le> t" using td by (cases "theap ?q") (auto simp: top_due_def)
  have dc: "discard_cancelled_top ?q = Some ?q"
    using td h(1) by (simp add: discard_cancelled_top.simps [of ?q] top_due_def pq_top_def pq_pop_def)
  have ok: "tq_ok (?q\<lparr>theap := h\<rparr>)" using td h by (simp add: top_due_def tq_ok_def pq_ordered_def)
  have "rd run t (snd (add_timer d (t_cb e) (?q\<lparr>theap := h\<rparr>)), snd qs) = Some y"
    using body run dc h by (simp add: pq_top_def pq_pop_def rearm_def)
  from IH [OF this] show False
    using rearm_top_due [OF ok _ d] td run d by (simp add: top_due_def)
qed

text \<open>A timer that arms itself again for a deadline that has passed keeps \<^verbatim>\<open>run_due\<close> from ever returning:
  contrary to the comment beside it, the new entry is visited again in the same call.\<close>
theorem rearming_for_the_past_never_returns:
  assumes ok: "tq_ok q" "tcancelled q = []" and d: "t0 \<le> now" "d \<le> now"
  shows "run_due (rearm d) now (snd (add_timer t0 cb q), s) = None"
proof (rule ccontr)
  assume "\<not> ?thesis"
  then obtain y where "run_due (rearm d) now (snd (add_timer t0 cb q), s) = Some y" by blast
  from rearm_never_returns [OF this] show False
    using rearm_top_due [OF ok d(1)] d(2) by simp
qed

theorem rearming_for_the_past_never_returns_witness:
  "run_due (rearm 5) 5 (snd (add_timer 3 ''cron'' tq_init), ()) = None"
  by (rule rearming_for_the_past_never_returns [OF tq_init_ok]) (simp_all add: tq_init_def)

lemma next_timeout_spec:
  assumes ok: "tq_ok q" and now: "0 \<le> now" and dl: "\<forall>e \<in> set (theap q). in_i64 (t_deadline e)"
  shows "\<exists>r q'. next_timeout_ms now q = Some (r, q') \<and> tq_ok q' \<and> pending q' = pending q \<and>
    (if pending q = [] then r = - 1 else 0 \<le> r \<and> r \<le> 1000 \<and> (\<forall>e \<in> set (pending q). r \<le> max 0 (t_deadline e - now)))"
proof -
  obtain q1 where d: "discard_cancelled_top q = Some q1" "tq_ok q1" "pending q1 = pending q"
    "theap q1 = [] \<or> t_id (hd (theap q1)) \<notin> set (tcancelled q1)" "set (theap q1) \<subseteq> set (theap q)"
    using discard_spec [OF ok] by blast
  show ?thesis
  proof (cases "theap q1")
    case Nil
    then show ?thesis using d by (simp add: next_timeout_ms_def) (simp add: pending_def)
  next
    case (Cons e h)
    have "in_i64 (t_deadline e)" using d(5) Cons dl by simp
    then have i: "now < t_deadline e \<Longrightarrow> in_i64 (t_deadline e - now)" using now by (simp add: i64_defs)
    have "e \<in> set (pending q1)" using d(4) Cons by (simp add: pending_def)
    then have ne: "pending q \<noteq> []" using d(3) by auto
    have "t_deadline e \<le> t_deadline x" if "x \<in> set (pending q)" for x
      using that d(2) Cons unfolding d(3) [symmetric] by (auto simp: pending_def tq_ok_def pq_ordered_def split: if_splits)
    then show ?thesis
      using d(1-3) Cons ne i by (auto simp: next_timeout_ms_def pq_top_def min_def max_def) (smt (verit))+
  qed
qed

text \<open>The poll timeout never oversleeps a timer. With no timer pending it is -1; otherwise it lies between 0
  and 1000 milliseconds and no pending timer comes due before it has passed; asking for it changes no
  pending timer.\<close>
theorem next_timeout_never_oversleeps:
  assumes "tq_ok q" "0 \<le> now" "\<forall>e \<in> set (theap q). in_i64 (t_deadline e)"
  shows "\<exists>r q'. next_timeout_ms now q = Some (r, q') \<and> tq_ok q' \<and> pending q' = pending q \<and>
    (if pending q = [] then r = - 1 else 0 \<le> r \<and> r \<le> 1000 \<and> (\<forall>e \<in> set (pending q). r \<le> max 0 (t_deadline e - now)))"
  using assms by (rule next_timeout_spec)

theorem next_timeout_never_oversleeps_witness:
  "\<exists>r q'. next_timeout_ms 5 demo_timers = Some (r, q') \<and> tq_ok q' \<and> pending q' = pending demo_timers \<and>
    (if pending demo_timers = [] then r = - 1 else 0 \<le> r \<and> r \<le> 1000 \<and> (\<forall>e \<in> set (pending demo_timers). r \<le> max 0 (t_deadline e - 5)))"
proof (rule next_timeout_never_oversleeps [OF demo_timers_ok])
  have "map t_deadline (theap demo_timers) = [10, 20, 30]" by code_simp
  then have "list_all in_i64 (map t_deadline (theap demo_timers))" by (simp add: i64_defs)
  then show "\<forall>e \<in> set (theap demo_timers). in_i64 (t_deadline e)"
    by (simp add: list_all_iff)
qed simp

end
