(* ===== verification/Config.thy ===== *)
theory Config
  imports Parse
begin

text \<open>
  The command line of \<^verbatim>\<open>config.cpp\<close>: \<^verbatim>\<open>parse_args\<close> over all its options, with every error text. The fields of
  type \<^verbatim>\<open>int\<close> are 32 bits wide and are filled by a narrowing conversion from \<^verbatim>\<open>long long\<close>.
\<close>

section \<open>Options\<close>

datatype log_level = LDebug | LInfo | LWarn | LError

record config =
  cfg_bind :: string
  cfg_port :: int
  cfg_maxclients :: int
  cfg_idle_timeout_sec :: int
  cfg_threads :: int
  cfg_snapshot_path :: string
  cfg_log_level :: log_level
  cfg_soft_limit :: int
  cfg_hard_limit :: int
  cfg_max_query_buf :: int

definition default_config :: config where
  "default_config = \<lparr>cfg_bind = ''127.0.0.1'', cfg_port = 6380, cfg_maxclients = 10000, cfg_idle_timeout_sec = 0, cfg_threads = 2,
     cfg_snapshot_path = [], cfg_log_level = LInfo, cfg_soft_limit = 1024 * 1024, cfg_hard_limit = 256 * 1024 * 1024,
     cfg_max_query_buf = 128 * 1024 * 1024\<rparr>"

datatype args_result = ArgsOk config | ArgsHelp | ArgsError string

text \<open>\<^verbatim>\<open>static_cast<int>\<close> and \<^verbatim>\<open>static_cast<uint16_t>\<close> of a \<^verbatim>\<open>long long\<close>.\<close>

definition to_i32 :: "int \<Rightarrow> int" where "to_i32 n = sint (word_of_int n :: u32)"
definition to_u16 :: "int \<Rightarrow> int" where "to_u16 n = uint (word_of_int n :: u16)"

definition strict_parse_int :: "string \<Rightarrow> int option" where
  "strict_parse_int s =
    (if s = [] \<or> hd s = CHR ''+'' then None
     else case from_chars_i64 s of
       Inl _ \<Rightarrow> None
     | Inr (value, rest) \<Rightarrow> if rest = [] then Some value else None)"

definition parse_log_level :: "string \<Rightarrow> log_level option" where
  "parse_log_level s =
    (if s = ''debug'' then Some LDebug else if s = ''info'' then Some LInfo
     else if s = ''warn'' then Some LWarn else if s = ''error'' then Some LError else None)"

definition quote :: "string \<Rightarrow> string" where "quote s = [CHR 0x27] @ s @ [CHR 0x27]"

definition invalid :: "string \<Rightarrow> string \<Rightarrow> string \<Rightarrow> string" where
  "invalid opt v why = ''invalid value for '' @ quote opt @ '': '' @ quote v @ '' ('' @ why @ '')''"

text \<open>An integer option: parsed, range-checked, stored.\<close>

definition int_opt :: "string \<Rightarrow> string \<Rightarrow> (int \<Rightarrow> bool) \<Rightarrow> string \<Rightarrow> (int \<Rightarrow> config) \<Rightarrow> string + config" where
  "int_opt opt v good why store =
    (case strict_parse_int v of
       None \<Rightarrow> Inl (invalid opt v why)
     | Some n \<Rightarrow> if good n then Inr (store n) else Inl (invalid opt v why))"

text \<open>One option with its value.\<close>

definition set_option :: "string \<Rightarrow> string \<Rightarrow> config \<Rightarrow> string + config" where
  "set_option opt v cfg =
    (if opt = ''--bind'' then Inr (cfg\<lparr>cfg_bind := v\<rparr>)
     else if opt = ''--port'' then int_opt opt v (\<lambda>n. 1 \<le> n \<and> n \<le> 65535) ''must be 1-65535'' (\<lambda>n. cfg\<lparr>cfg_port := to_u16 n\<rparr>)
     else if opt = ''--maxclients'' then int_opt opt v (\<lambda>n. 1 \<le> n) ''must be >= 1'' (\<lambda>n. cfg\<lparr>cfg_maxclients := to_i32 n\<rparr>)
     else if opt = ''--idle-timeout-sec'' then int_opt opt v (\<lambda>n. 0 \<le> n) ''must be >= 0'' (\<lambda>n. cfg\<lparr>cfg_idle_timeout_sec := to_i32 n\<rparr>)
     else if opt = ''--threads'' then int_opt opt v (\<lambda>n. 1 \<le> n \<and> n \<le> 64) ''must be 1-64'' (\<lambda>n. cfg\<lparr>cfg_threads := to_i32 n\<rparr>)
     else if opt = ''--snapshot'' then Inr (cfg\<lparr>cfg_snapshot_path := v\<rparr>)
     else if opt = ''--log-level'' then
       (case parse_log_level v of None \<Rightarrow> Inl (invalid opt v ''must be debug|info|warn|error'') | Some l \<Rightarrow> Inr (cfg\<lparr>cfg_log_level := l\<rparr>))
     else if opt = ''--client-output-soft-limit'' then int_opt opt v (\<lambda>n. 1 \<le> n) ''must be >= 1'' (\<lambda>n. cfg\<lparr>cfg_soft_limit := n\<rparr>)
     else if opt = ''--client-output-hard-limit'' then int_opt opt v (\<lambda>n. 1 \<le> n) ''must be >= 1'' (\<lambda>n. cfg\<lparr>cfg_hard_limit := n\<rparr>)
     else int_opt opt v (\<lambda>n. 1 \<le> n) ''must be >= 1'' (\<lambda>n. cfg\<lparr>cfg_max_query_buf := n\<rparr>))"

definition known_options :: "string list" where
  "known_options = [''--bind'', ''--port'', ''--maxclients'', ''--idle-timeout-sec'', ''--threads'', ''--snapshot'', ''--log-level'',
     ''--client-output-soft-limit'', ''--client-output-hard-limit'', ''--max-query-buf'']"

fun parse_options :: "string list \<Rightarrow> config \<Rightarrow> args_result" where
  "parse_options [] cfg =
    (if cfg_hard_limit cfg < cfg_soft_limit cfg
     then ArgsError ''--client-output-soft-limit must not be greater than --client-output-hard-limit''
     else ArgsOk cfg)"
| "parse_options (opt # rest) cfg =
    (if opt = ''--help'' \<or> opt = ''-h'' then ArgsHelp
     else if opt \<notin> set known_options then ArgsError (''unknown option '' @ quote opt)
     else case rest of
       [] \<Rightarrow> ArgsError (''missing value for '' @ quote opt)
     | v # rest' \<Rightarrow> (case set_option opt v cfg of Inl e \<Rightarrow> ArgsError e | Inr cfg' \<Rightarrow> parse_options rest' cfg'))"

text \<open>The argument vector without the program name.\<close>

definition parse_args :: "string list \<Rightarrow> args_result" where
  "parse_args args = parse_options args default_config"

section \<open>What an accepted command line guarantees\<close>

definition int32 :: "int \<Rightarrow> bool" where "int32 n \<longleftrightarrow> - (2 ^ 31) \<le> n \<and> n < 2 ^ 31"

definition config_ok :: "config \<Rightarrow> bool" where
  "config_ok cfg \<longleftrightarrow> 1 \<le> cfg_port cfg \<and> cfg_port cfg \<le> 65535 \<and> 1 \<le> cfg_threads cfg \<and> cfg_threads cfg \<le> 64 \<and>
     int32 (cfg_maxclients cfg) \<and> int32 (cfg_idle_timeout_sec cfg) \<and>
     1 \<le> cfg_soft_limit cfg \<and> 1 \<le> cfg_hard_limit cfg \<and> 1 \<le> cfg_max_query_buf cfg"

lemma to_i32_range: "int32 (to_i32 n)"
  using sint_greater_eq [of "word_of_int n :: u32"] sint_lt [of "word_of_int n :: u32"] by (simp add: int32_def to_i32_def)

lemma to_i32_fits: "int32 n \<Longrightarrow> to_i32 n = n"
  by (simp add: int32_def to_i32_def signed_of_int signed_take_bit_int_eq_self)

lemma to_u16_fits: "0 \<le> n \<Longrightarrow> n < 65536 \<Longrightarrow> to_u16 n = n"
  by (simp add: to_u16_def unsigned_of_int take_bit_int_eq_self)

lemma default_config_ok: "config_ok default_config"
  by (simp add: config_ok_def default_config_def int32_def)

lemma int_opt_Inr: "int_opt opt v good why store = Inr cfg' \<Longrightarrow> \<exists>n. good n \<and> cfg' = store n"
  by (auto simp: int_opt_def split: option.splits if_splits)

lemma if_cases: "(if b then x else y) = r \<Longrightarrow> (x = r \<Longrightarrow> P) \<Longrightarrow> (y = r \<Longrightarrow> P) \<Longrightarrow> P"
  by (cases b) simp_all

lemma to_i32_small: "1 \<le> n \<Longrightarrow> n \<le> 64 \<Longrightarrow> to_i32 n = n"
  by (rule to_i32_fits) (simp add: int32_def)

lemma set_option_ok: "config_ok cfg \<Longrightarrow> set_option opt v cfg = Inr cfg' \<Longrightarrow> config_ok cfg'"
  unfolding set_option_def
  by (elim if_cases; (drule int_opt_Inr)?)
    (auto simp: config_ok_def to_u16_fits to_i32_small to_i32_range split: option.splits)

lemma parse_options_ok:
  "config_ok cfg \<Longrightarrow> parse_options args cfg = ArgsOk cfg' \<Longrightarrow> config_ok cfg' \<and> cfg_soft_limit cfg' \<le> cfg_hard_limit cfg'"
  by (induction args cfg rule: parse_options.induct) (auto split: if_splits list.splits sum.splits dest: set_option_ok)

text \<open>C23: an accepted command line yields a usable configuration: a port in range, between 1 and 64 worker
  threads, positive buffer limits with the soft one not above the hard one.\<close>
theorem accepted_config_is_sane:
  assumes "parse_args args = ArgsOk cfg"
  shows "1 \<le> cfg_port cfg \<and> cfg_port cfg \<le> 65535 \<and> 1 \<le> cfg_threads cfg \<and> cfg_threads cfg \<le> 64 \<and>
    1 \<le> cfg_soft_limit cfg \<and> cfg_soft_limit cfg \<le> cfg_hard_limit cfg \<and> 1 \<le> cfg_max_query_buf cfg"
  using parse_options_ok [OF default_config_ok] assms by (auto simp: parse_args_def config_ok_def)

theorem accepted_config_is_sane_witness:
  "\<exists>cfg. parse_args [''--port'', ''7000'', ''--threads'', ''4''] = ArgsOk cfg \<and> cfg_port cfg = 7000 \<and> cfg_threads cfg \<le> 64"
proof -
  have "(case parse_args [''--port'', ''7000'', ''--threads'', ''4''] of ArgsOk cfg \<Rightarrow> cfg_port cfg = 7000 | _ \<Rightarrow> False)"
    by code_simp
  then obtain cfg where c: "parse_args [''--port'', ''7000'', ''--threads'', ''4''] = ArgsOk cfg" "cfg_port cfg = 7000"
    by (auto split: args_result.splits)
  then show ?thesis
    using accepted_config_is_sane [OF c(1)] by blast
qed

text \<open>The client limit wraps. \<^verbatim>\<open>--maxclients\<close> is checked to be at least 1 as a 64-bit number and then cut to
  32 bits: for every \<open>n\<close> of the option's range the stored limit is \<open>n\<close> modulo \<open>2\<^sup>32\<close> read as a signed number,
  so a value such as \<open>2\<^sup>32\<close> is accepted and stored as 0, a limit that no connection passes.\<close>
theorem maxclients_is_cut_to_32_bits:
  assumes "in_i64 n" "1 \<le> n"
  shows "\<exists>cfg. parse_args [''--maxclients'', int_to_string n] = ArgsOk cfg \<and>
    cfg_maxclients cfg = (n + 2 ^ 31) mod 2 ^ 32 - 2 ^ 31"
proof -
  have hd: "int_to_string n \<noteq> []" "hd (int_to_string n) \<noteq> CHR ''+''"
    using assms(2) nat_to_string_hd [of "nat n"] by (auto simp: int_to_string_def is_digit_def)
  have "strict_parse_int (int_to_string n) = Some n"
    using from_chars_int_to_string [OF assms(1), of "[]"] hd by (simp add: strict_parse_int_def)
  moreover have "to_i32 n = (n + 2 ^ 31) mod 2 ^ 32 - 2 ^ 31"
    by (simp add: to_i32_def signed_of_int signed_take_bit_eq_take_bit_shift take_bit_eq_mod add.commute)
  ultimately show ?thesis
    using assms(2) by (simp add: parse_args_def known_options_def set_option_def int_opt_def default_config_def)
qed

theorem maxclients_is_cut_to_32_bits_witness:
  "\<exists>cfg. parse_args [''--maxclients'', int_to_string 4294967296] = ArgsOk cfg \<and> cfg_maxclients cfg = 0"
  using maxclients_is_cut_to_32_bits [of 4294967296] by (simp add: i64_defs)

end
