(* ===== verification/Connection.thy ===== *)
theory Connection
  imports Dispatcher Resp_Parser Timer_Queue Config
begin

text \<open>
  The requests of one client: \<^verbatim>\<open>process\<close> of \<^verbatim>\<open>net/server.cpp\<close> on the input buffer of a connection. The readings
  of the clocks are an argument, indexed by the number of the command. The theory shows that the loop on
  the buffer is a loop on the byte stream, that it does not matter in which pieces the bytes arrive, and
  that every request is answered once and in order.
\<close>

section \<open>Requests in a byte stream\<close>

type_synonym clocks = "nat \<Rightarrow> int \<times> int"

definition at_clock :: "int \<times> int \<Rightarrow> ctx \<Rightarrow> ctx" where
  "at_clock t c = c\<lparr>clk_mono := fst t, clk_unix := snd t\<rparr>"

definition ctx_close :: "ctx \<Rightarrow> ctx" where
  "ctx_close c = c\<lparr>want_close := True\<rparr>"

text \<open>\<^verbatim>\<open>process\<close> on the input buffer; \<open>n\<close> counts the commands dispatched in this wakeup.\<close>

function process_loop :: "clocks \<Rightarrow> nat \<Rightarrow> buffer \<Rightarrow> ctx \<Rightarrow> (nat \<times> buffer \<times> ctx) ub" where
  "process_loop clk n inb c =
    (case parse_command default_limits (buf_readable inb) of
       None \<Rightarrow> None
     | Some r \<Rightarrow>
         if pstatus r = PIncomplete then Some (n, inb, c)
         else if pstatus r = PError then Some (n, inb, ctx_close (reply_error (perr r) c))
         else let inb' = buf_consume (consumed r) inb in
           if pargv r = [] then process_loop clk n inb' c
           else (case dispatch (pargv r) (at_clock (clk n) c) of
                   None \<Rightarrow> None
                 | Some c' \<Rightarrow> if want_close c' then Some (n + 1, inb', c') else process_loop clk (n + 1) inb' c'))"
  by pat_completeness auto

text \<open>The same on the bytes themselves.\<close>

function process_bytes :: "clocks \<Rightarrow> nat \<Rightarrow> string \<Rightarrow> ctx \<Rightarrow> (nat \<times> string \<times> ctx) ub" where
  "process_bytes clk n data c =
    (case parse_command default_limits data of
       None \<Rightarrow> None
     | Some r \<Rightarrow>
         if pstatus r = PIncomplete then Some (n, data, c)
         else if pstatus r = PError then Some (n, data, ctx_close (reply_error (perr r) c))
         else let data' = drop (consumed r) data in
           if pargv r = [] then process_bytes clk n data' c
           else (case dispatch (pargv r) (at_clock (clk n) c) of
                   None \<Rightarrow> None
                 | Some c' \<Rightarrow> if want_close c' then Some (n + 1, data', c') else process_bytes clk (n + 1) data' c'))"
  by pat_completeness auto

lemma parsed_progress:
  assumes "parse_command default_limits data = Some r" "pstatus r \<noteq> PIncomplete" "pstatus r \<noteq> PError"
  shows "0 < consumed r" "consumed r \<le> length data" "length (drop (consumed r) data) < length data"
proof -
  have "pstatus r = POk" using assms(2,3) by (cases "pstatus r") simp_all
  then show "0 < consumed r" "consumed r \<le> length data"
    using parse_command_total [of default_limits data] assms(1) by auto
  then show "length (drop (consumed r) data) < length data" by simp
qed

lemma consume_shorter:
  assumes "0 < k" "k \<le> length (buf_readable b)"
  shows "length (buf_readable (buf_consume k b)) < length (buf_readable b)"
  using assms by (auto simp: buf_consume_def buf_readable_def Let_def buf_clear_def)

termination process_loop
  by (relation "measure (\<lambda>(clk, n, inb, c). length (buf_readable inb))") (auto intro!: consume_shorter dest: parsed_progress)

termination process_bytes
  by (relation "measure (\<lambda>(clk, n, data, c). length data)") (auto dest: parsed_progress)

declare process_loop.simps [simp del] process_bytes.simps [simp del]

lemma process_loop_refines:
  assumes "buf_invar inb"
  shows "(process_loop clk n inb c = None \<and> process_bytes clk n (buf_readable inb) c = None) \<or>
    (\<exists>n' inb' c'. process_loop clk n inb c = Some (n', inb', c') \<and> buf_invar inb' \<and>
      process_bytes clk n (buf_readable inb) c = Some (n', buf_readable inb', c'))"
  using assms
proof (induction clk n inb c rule: process_loop.induct)
  case (1 clk n inb c)
  obtain r where r: "parse_command default_limits (buf_readable inb) = Some r"
    using parse_command_total [of default_limits "buf_readable inb"] by blast
  show ?case
  proof (cases "pstatus r = PIncomplete \<or> pstatus r = PError")
    case True
    then show ?thesis
      using r 1(3) by (auto simp: process_loop.simps [of _ _ inb] process_bytes.simps [of _ _ "buf_readable inb"])
  next
    case False
    then have st: "pstatus r \<noteq> PIncomplete" "pstatus r \<noteq> PError" by simp_all
    let ?b = "buf_consume (consumed r) inb"
    have C: "buf_invar ?b" "buf_readable ?b = drop (consumed r) (buf_readable inb)"
      using buf_consume_spec [OF 1(3), of "consumed r"] parsed_progress(2) [OF r st] buf_size_readable [OF 1(3)] by simp_all
    show ?thesis
    proof (cases "pargv r = []")
      case True
      then show ?thesis
        using 1(1) [OF r st refl True C(1)] r st C
        by (simp add: process_loop.simps [of _ _ inb] process_bytes.simps [of _ _ "buf_readable inb"] Let_def)
    next
      case ne: False
      show ?thesis
      proof (cases "dispatch (pargv r) (at_clock (clk n) c)")
        case None
        then show ?thesis
          using r st ne by (simp add: process_loop.simps [of _ _ inb] process_bytes.simps [of _ _ "buf_readable inb"] Let_def)
      next
        case (Some c')
        show ?thesis
        proof (cases "want_close c'")
          case True
          then show ?thesis
            using r st ne Some C by (simp add: process_loop.simps [of _ _ inb] process_bytes.simps [of _ _ "buf_readable inb"] Let_def)
        next
          case False
          then show ?thesis
            using 1(2) [OF r st refl ne Some False C(1)] r st ne Some C
            by (simp add: process_loop.simps [of _ _ inb] process_bytes.simps [of _ _ "buf_readable inb"] Let_def)
        qed
      qed
    qed
  qed
qed

section \<open>Arrival in pieces\<close>

lemma process_bytes_extend:
  assumes "process_bytes clk n a c = Some (n1, rest, c1)" "\<not> want_close c"
  shows "process_bytes clk n (a @ b) c =
    (if want_close c1 then Some (n1, rest @ b, c1) else process_bytes clk n1 (rest @ b) c1)"
  using assms
proof (induction clk n a c rule: process_bytes.induct)
  case (1 clk n a c)
  obtain r where r: "parse_command default_limits a = Some r"
    using parse_command_total [of default_limits a] by blast
  show ?case
  proof (cases "pstatus r = PIncomplete")
    case True
    then show ?thesis using r 1(3,4) by (simp add: process_bytes.simps [of _ _ a])
  next
    case ni: False
    note rb = parse_command_extend [OF r ni, of b]
    show ?thesis
    proof (cases "pstatus r = PError")
      case True
      have "process_bytes clk n x c = Some (n, x, ctx_close (reply_error (perr r) c))" if "parse_command default_limits x = Some r" for x
        using True that by (simp add: process_bytes.simps [of _ _ x])
      then show ?thesis
        using r rb 1(3) by (simp add: ctx_close_def) (auto simp: ctx_close_def)
    next
      case ne: False
      have d: "drop (consumed r) (a @ b) = drop (consumed r) a @ b"
        using parsed_progress(2) [OF r ni ne] by simp
      note step = process_bytes.simps [of clk n a] process_bytes.simps [of clk n "a @ b"] Let_def
      show ?thesis
        using 1(1) [OF r ni ne refl] 1(2) [OF r ni ne refl] 1(3,4) r rb ni ne d
        by (auto simp: step split: if_splits option.splits)
    qed
  qed
qed

lemma process_bytes_fails_extended:
  assumes "process_bytes clk n a c = None"
  shows "process_bytes clk n (a @ b) c = None"
  using assms
proof (induction clk n a c rule: process_bytes.induct)
  case (1 clk n a c)
  obtain r where r: "parse_command default_limits a = Some r"
    using parse_command_total [of default_limits a] by blast
  have st: "pstatus r \<noteq> PIncomplete" "pstatus r \<noteq> PError"
    using 1(3) r by (auto simp: process_bytes.simps [of _ _ a])
  note rb = parse_command_extend [OF r st(1), of b]
  have d: "drop (consumed r) (a @ b) = drop (consumed r) a @ b"
    using parsed_progress(2) [OF r st] by simp
  note step = process_bytes.simps [of clk n a] process_bytes.simps [of clk n "a @ b"] Let_def
  show ?case
    using 1(1) [OF r st refl] 1(2) [OF r st refl] 1(3) r rb st d
    by (auto simp: step split: if_splits option.splits)
qed

text \<open>What one successful \<^verbatim>\<open>recv\<close> does to the input buffer.\<close>

definition kReadChunkSize :: nat where "kReadChunkSize = 16 * 1024"

definition receive :: "string \<Rightarrow> buffer \<Rightarrow> buffer" where
  "receive bytes b = commit_written (length bytes) (fill_written bytes (prepare_write kReadChunkSize b))"

lemma receive_spec:
  "buf_invar b \<Longrightarrow> length bytes \<le> kReadChunkSize \<Longrightarrow> buf_invar (receive bytes b)"
  "buf_invar b \<Longrightarrow> length bytes \<le> kReadChunkSize \<Longrightarrow> buf_readable (receive bytes b) = buf_readable b @ bytes"
  unfolding receive_def by (rule prepare_commit, assumption+)+

text \<open>A connection that reads and processes one piece after the other.\<close>

fun serve_chunks :: "clocks \<Rightarrow> nat \<Rightarrow> buffer \<Rightarrow> string list \<Rightarrow> ctx \<Rightarrow> (nat \<times> buffer \<times> ctx) ub" where
  "serve_chunks clk n inb [] c = Some (n, inb, c)"
| "serve_chunks clk n inb (x # xs) c =
    (case process_loop clk n (receive x inb) c of
       None \<Rightarrow> None
     | Some (n', inb', c') \<Rightarrow> if want_close c' then Some (n', inb', c') else serve_chunks clk n' inb' xs c')"

definition effect :: "(nat \<times> 'b \<times> ctx) ub \<Rightarrow> (nat \<times> ctx) ub" where
  "effect r = map_option (\<lambda>(n, _, c). (n, c)) r"

lemma effect_simps [simp]: "effect None = None" "effect (Some (n, b, c)) = Some (n, c)"
  by (simp_all add: effect_def)

lemma serve_chunks_whole:
  assumes "buf_invar inb" "\<not> want_close c" "\<forall>x \<in> set xs. length x \<le> kReadChunkSize"
    and "process_bytes clk n (buf_readable inb) c = Some (n, buf_readable inb, c)"
  shows "effect (serve_chunks clk n inb xs c) = effect (process_bytes clk n (buf_readable inb @ concat xs) c)"
  using assms
proof (induction xs arbitrary: n inb c)
  case Nil
  then show ?case by simp
next
  case (Cons x xs)
  let ?b = "receive x inb"
  have b: "buf_invar ?b" "buf_readable ?b = buf_readable inb @ x"
    using Cons.prems(1,3) by (simp_all add: receive_spec)
  have split: "buf_readable inb @ concat (x # xs) = buf_readable ?b @ concat xs" using b by simp
  show ?case
  proof (cases "process_loop clk n ?b c")
    case None
    then have "process_bytes clk n (buf_readable ?b) c = None"
      using process_loop_refines [OF b(1), of clk n c] by auto
    then show ?thesis
      unfolding split using None by (simp add: process_bytes_fails_extended)
  next
    case (Some t)
    obtain n1 b1 c1 where t: "t = (n1, b1, c1)" by (cases t)
    have P: "buf_invar b1" "process_bytes clk n (buf_readable ?b) c = Some (n1, buf_readable b1, c1)"
      using process_loop_refines [OF b(1), of clk n c] Some t by auto
    note whole = process_bytes_extend [OF P(2) Cons.prems(2)]
    show ?thesis
    proof (cases "want_close c1")
      case True
      then show ?thesis unfolding split using Some t whole [of "concat xs"] by simp
    next
      case False
      then have "process_bytes clk n1 (buf_readable b1) c1 = Some (n1, buf_readable b1, c1)"
        using whole [of "[]"] P(2) by simp
      then show ?thesis
        unfolding split using Cons.IH [OF P(1) False] Cons.prems(3) False Some t whole [of "concat xs"] by simp
    qed
  qed
qed

text \<open>C28: it does not matter in which pieces a client's bytes arrive. On a connection whose input buffer
  holds at most the beginning of a command, reading and processing any sequence of pieces executes exactly the
  commands, with exactly the replies, the same database and the same decision to close, as processing all the bytes at once.\<close>
theorem pieces_do_not_matter:
  assumes "buf_invar inb" "\<not> want_close c" "\<forall>x \<in> set xs. length x \<le> kReadChunkSize"
    and "process_bytes clk n (buf_readable inb) c = Some (n, buf_readable inb, c)"
  shows "effect (serve_chunks clk n inb xs c) = effect (process_bytes clk n (buf_readable inb @ concat xs) c)"
  using assms by (rule serve_chunks_whole)

theorem pieces_do_not_matter_witness:
  "effect (serve_chunks (\<lambda>_. (1000, 9000)) 0 buf_init [''*1'', CRLF @ ''$4'', CRLF @ ''PING'' @ CRLF] (ctx_on db_empty_init)) =
   effect (process_bytes (\<lambda>_. (1000, 9000)) 0 (buf_readable buf_init @ concat [''*1'', CRLF @ ''$4'', CRLF @ ''PING'' @ CRLF]) (ctx_on db_empty_init))"
proof (rule pieces_do_not_matter)
  have "parse_command default_limits [] = Some p_incomplete" by (simp add: parse_command_def)
  then show "process_bytes (\<lambda>_. (1000, 9000)) 0 (buf_readable buf_init) (ctx_on db_empty_init) = Some (0, buf_readable buf_init, ctx_on db_empty_init)"
    by (simp add: process_bytes.simps [of _ _ "[]"] buf_init_spec p_incomplete_def)
qed (simp_all add: buf_init_spec ctx_on_def kReadChunkSize_def CRLF_def)

section \<open>Every request is answered\<close>

datatype tail = NeedMore string | BadProtocol string

text \<open>The commands a stream of bytes asks for, and what follows the last of them.\<close>

function requests :: "string \<Rightarrow> string list list \<times> tail" where
  "requests data =
    (case parse_command default_limits data of
       None \<Rightarrow> ([], NeedMore data)
     | Some r \<Rightarrow>
         if pstatus r = PIncomplete then ([], NeedMore data)
         else if pstatus r = PError then ([], BadProtocol (perr r))
         else let (rs, e) = requests (drop (consumed r) data) in (if pargv r = [] then rs else pargv r # rs, e))"
  by pat_completeness auto
termination requests
  by (relation "measure length") (auto dest: parsed_progress)

declare requests.simps [simp del]

text \<open>What is asked of the clocks and of the commands, each in the context in which it is executed.\<close>

fun calls_ok :: "clocks \<Rightarrow> nat \<Rightarrow> string list list \<Rightarrow> ctx \<Rightarrow> bool" where
  "calls_ok clk n [] c = True"
| "calls_ok clk n (argv # rest) c =
    (clock_ok (at_clock (clk n) c) \<and> call_ok (map tolower (hd argv)) argv (at_clock (clk n) c) \<and>
     (case dispatch argv (at_clock (clk n) c) of
        None \<Rightarrow> True | Some c' \<Rightarrow> want_close c' \<or> calls_ok clk (n + 1) rest c'))"

text \<open>Serving a list of commands one at a time: \<open>answered clk n argvs c rs c'\<close> says that the replies \<open>rs\<close>, one
  for each command served, and the context \<open>c'\<close> are what the meanings of the commands allow. A command that
  closes the connection is the last one served.\<close>

inductive answered :: "clocks \<Rightarrow> nat \<Rightarrow> string list list \<Rightarrow> ctx \<Rightarrow> reply list \<Rightarrow> ctx \<Rightarrow> bool" where
  Nothing: "answered clk n [] c [] c"
| Last: "dispatch_allows argv (at_clock (clk n) c) r M \<Longrightarrow> view c' = purge (clk_mono c') M \<Longrightarrow> clk_mono c' = fst (clk n) \<Longrightarrow> reply_ok r \<Longrightarrow> want_close c' \<Longrightarrow>
    answered clk n (argv # argvs) c [r] c'"
| Then: "dispatch_allows argv (at_clock (clk n) c) r M \<Longrightarrow> view c1 = purge (clk_mono c1) M \<Longrightarrow> clk_mono c1 = fst (clk n) \<Longrightarrow> reply_ok r \<Longrightarrow> \<not> want_close c1 \<Longrightarrow>
    answered clk (n + 1) argvs c1 rs c' \<Longrightarrow> answered clk n (argv # argvs) c (r # rs) c'"

definition close_reply :: "tail \<Rightarrow> ctx \<Rightarrow> reply list" where
  "close_reply e c = (case e of NeedMore _ \<Rightarrow> [] | BadProtocol msg \<Rightarrow> if want_close c then [] else [RError (sanitize_error_text msg)])"

lemma dispatch_answers:
  assumes "ctx_ok c" "argv \<noteq> []" "call_ok (map tolower (hd argv)) argv c"
  obtains c' r M where "dispatch argv c = Some c'" "ctx_ok c'" "clk_mono c' = clk_mono c" "view c' = purge (clk_mono c') M"
    "reply_ok r" "buf_readable (out c') = buf_readable (out c) @ encode r" "dispatch_allows argv c r M"
proof -
  from dispatch_achieves [OF assms] obtain c' r M where
    d: "dispatch argv c = Some c'" "does c c' r M" "dispatch_allows argv c r M"
    by (auto simp: achieves_def)
  then show ?thesis
    using that [of c' M r] does_view [OF d(2)] by (simp add: does_def same_clock_def)
qed

lemma at_clock_ok: "ctx_ok c \<Longrightarrow> clock_ok (at_clock t c) \<Longrightarrow> ctx_ok (at_clock t c)"
  by (simp add: ctx_ok_def at_clock_def)

lemma close_error_ok: "ctx_ok c \<Longrightarrow> ctx_ok (ctx_close (reply_error e c))"
  by (simp add: ctx_ok_def ctx_close_def clock_ok_def)

lemma process_bytes_answers:
  assumes "ctx_ok c" "\<not> want_close c" "calls_ok clk n (fst (requests data)) c"
  shows "\<exists>n' rest c' rs c1. process_bytes clk n data c = Some (n', rest, c') \<and> ctx_ok c' \<and>
    answered clk n (fst (requests data)) c rs c1 \<and> db c' = db c1 \<and> n' = n + length rs \<and>
    buf_readable (out c') = buf_readable (out c) @ concat (map encode (rs @ close_reply (snd (requests data)) c1)) \<and>
    (want_close c' \<longleftrightarrow> want_close c1 \<or> (\<exists>m. snd (requests data) = BadProtocol m)) \<and>
    (\<not> want_close c' \<longrightarrow> snd (requests data) = NeedMore rest)"
  using assms
proof (induction clk n data c rule: process_bytes.induct)
  case (1 clk n data c)
  obtain r where r: "parse_command default_limits data = Some r"
    using parse_command_total [of default_limits data] by blast
  have out: "buf_invar (out c)" using 1(3) by (simp add: ctx_ok_def)
  show ?case
  proof (cases "pstatus r = PIncomplete \<or> pstatus r = PError")
    case True
    then have "answered clk n (fst (requests data)) c [] c"
      using r by (auto simp: requests.simps [of data] intro: Nothing)
    then show ?thesis
      using True r 1(3,4) out close_error_ok [OF 1(3)]
      by (auto simp: process_bytes.simps [of _ _ data] requests.simps [of data] close_reply_def ctx_close_def intro!: exI [of _ "[]"] exI [of _ c])
  next
    case False
    then have st: "pstatus r \<noteq> PIncomplete" "pstatus r \<noteq> PError" by simp_all
    let ?d = "drop (consumed r) data"
    have req: "requests data = (if pargv r = [] then fst (requests ?d) else pargv r # fst (requests ?d), snd (requests ?d))"
      using r st by (simp add: requests.simps [of data] case_prod_unfold Let_def)
    show ?thesis
    proof (cases "pargv r = []")
      case True
      then have "process_bytes clk n data c = process_bytes clk n ?d c"
        using r st by (simp add: process_bytes.simps [of _ _ data])
      then show ?thesis
        using 1(1) [OF r st refl True 1(3,4)] 1(5) req True by simp
    next
      case ne: False
      let ?c = "at_clock (clk n) c"
      have c: "ctx_ok ?c" "call_ok (map tolower (hd (pargv r))) (pargv r) ?c"
        using 1(5) at_clock_ok [OF 1(3)] req ne by simp_all
      obtain c1 a M where D: "dispatch (pargv r) ?c = Some c1" "ctx_ok c1" "clk_mono c1 = clk_mono ?c" "view c1 = purge (clk_mono c1) M"
        "reply_ok a" "buf_readable (out c1) = buf_readable (out ?c) @ encode a" "dispatch_allows (pargv r) ?c a M"
        using dispatch_answers [OF c(1) ne c(2)] by blast
      have cm: "clk_mono c1 = fst (clk n)" "out ?c = out c" using D(3) by (simp_all add: at_clock_def)
      show ?thesis
      proof (cases "want_close c1")
        case True
        have "answered clk n (fst (requests data)) c [a] c1"
          unfolding req using ne Last [where clk = clk and n = n and c = c, OF D(7,4) cm(1) D(5) True] by simp
        moreover have "process_bytes clk n data c = Some (n + 1, ?d, c1)"
          using r st ne D(1) True by (simp add: process_bytes.simps [of _ _ data])
        ultimately show ?thesis
          using D(2,6) cm True by (auto simp: close_reply_def split: tail.splits intro!: exI [of _ "[a]"] exI [of _ c1])
      next
        case open_: False
        have ok: "calls_ok clk (n + 1) (fst (requests ?d)) c1"
          using 1(5) req ne D(1) open_ by simp
        have eq: "process_bytes clk n data c = process_bytes clk (n + 1) ?d c1"
          using r st ne D(1) open_ by (simp add: process_bytes.simps [of _ _ data])
        obtain n' rest c' rs c2 where I: "process_bytes clk (n + 1) ?d c1 = Some (n', rest, c')" "ctx_ok c'"
          "answered clk (n + 1) (fst (requests ?d)) c1 rs c2" "n' = n + 1 + length rs" "db c' = db c2"
          "buf_readable (out c') = buf_readable (out c1) @ concat (map encode (rs @ close_reply (snd (requests ?d)) c2))"
          "want_close c' \<longleftrightarrow> want_close c2 \<or> (\<exists>m. snd (requests ?d) = BadProtocol m)"
          "\<not> want_close c' \<longrightarrow> snd (requests ?d) = NeedMore rest"
          using 1(2) [OF r st refl ne D(1) open_ D(2) open_ ok] by blast
        have "answered clk n (fst (requests data)) c (a # rs) c2"
          unfolding req using ne Then [where clk = clk and n = n and c = c, OF D(7,4) cm(1) D(5) open_ I(3)] by simp
        moreover have "buf_readable (out c') = buf_readable (out c) @ concat (map encode ((a # rs) @ close_reply (snd (requests data)) c2))"
          unfolding I(6) D(6) cm(2) req by simp
        moreover have "n' = n + length (a # rs)" using I(4) by simp
        moreover have "snd (requests data) = snd (requests ?d)" unfolding req by simp
        ultimately show ?thesis
          using eq I(1,2,5,7,8) by metis
      qed
    qed
  qed
qed

lemma process_loop_answers:
  assumes inb: "buf_invar inb" and "ctx_ok c" "\<not> want_close c" "calls_ok clk n (fst (requests (buf_readable inb))) c"
  shows "\<exists>n' inb' c' rs c1. process_loop clk n inb c = Some (n', inb', c') \<and> buf_invar inb' \<and> ctx_ok c' \<and>
    answered clk n (fst (requests (buf_readable inb))) c rs c1 \<and> db c' = db c1 \<and> n' = n + length rs \<and>
    buf_readable (out c') = buf_readable (out c) @ concat (map encode (rs @ close_reply (snd (requests (buf_readable inb))) c1)) \<and>
    (want_close c' \<longleftrightarrow> want_close c1 \<or> (\<exists>m. snd (requests (buf_readable inb)) = BadProtocol m)) \<and>
    (\<not> want_close c' \<longrightarrow> snd (requests (buf_readable inb)) = NeedMore (buf_readable inb'))"
proof -
  let ?rq = "requests (buf_readable inb)"
  obtain n' rest c' rs c1 where P: "process_bytes clk n (buf_readable inb) c = Some (n', rest, c')" "ctx_ok c'"
    "answered clk n (fst ?rq) c rs c1" "db c' = db c1" "n' = n + length rs"
    "buf_readable (out c') = buf_readable (out c) @ concat (map encode (rs @ close_reply (snd ?rq) c1))"
    "want_close c' \<longleftrightarrow> want_close c1 \<or> (\<exists>m. snd ?rq = BadProtocol m)" "\<not> want_close c' \<longrightarrow> snd ?rq = NeedMore rest"
    using process_bytes_answers [OF assms(2-4)] by blast
  obtain inb' where L: "process_loop clk n inb c = Some (n', inb', c')" "buf_invar inb'" and rest: "rest = buf_readable inb'"
    using process_loop_refines [OF inb, of clk n c] P(1) by auto
  show ?thesis
    using L P(2-8) unfolding rest by blast
qed

text \<open>C27: every request in the input is answered once and in order. Provided every command of the input is within \<open>call_ok\<close> when
  its turn comes (\<open>calls_ok\<close>: no score that is a NaN in disguise, no repeated key of \<^verbatim>\<open>SINTER\<close>, a save that can run to its end),
  processing an input buffer never has undefined behaviour and keeps the invariants; it executes the commands of the stream one at a time up to
  the first that closes the connection, each reply being what the command's meaning allows on the keyspace
  that its predecessors left, leaves the keyspace as the last of them left it, and writes exactly those replies, followed by one error reply if the stream
  then breaks the protocol, in which case the connection is to be closed; otherwise what is left in the
  buffer is the unfinished end of the stream.\<close>
theorem every_request_answered_in_order:
  assumes inb: "buf_invar inb" and "ctx_ok c" "\<not> want_close c" "calls_ok clk n (fst (requests (buf_readable inb))) c"
  shows "\<exists>n' inb' c' rs c1. process_loop clk n inb c = Some (n', inb', c') \<and> buf_invar inb' \<and> ctx_ok c' \<and>
    answered clk n (fst (requests (buf_readable inb))) c rs c1 \<and> db c' = db c1 \<and> n' = n + length rs \<and>
    buf_readable (out c') = buf_readable (out c) @ concat (map encode (rs @ close_reply (snd (requests (buf_readable inb))) c1)) \<and>
    (want_close c' \<longleftrightarrow> want_close c1 \<or> (\<exists>m. snd (requests (buf_readable inb)) = BadProtocol m)) \<and>
    (\<not> want_close c' \<longrightarrow> snd (requests (buf_readable inb)) = NeedMore (buf_readable inb'))"
  using assms by (rule process_loop_answers)

lemma requests_encoded:
  assumes "command_fits default_limits args" "args \<noteq> []"
  shows "requests (encode_command args @ data) = (args # fst (requests data), snd (requests data))"
  using parse_command_encoded [OF assms(1), of data] assms(2)
  by (simp add: requests.simps [of "encode_command args @ data"] p_ok_def case_prod_unfold Let_def)

lemma requests_empty: "requests [] = ([], NeedMore [])"
  by (simp add: requests.simps [of "[]"] parse_command_def p_incomplete_def)

definition demo_input :: string where
  "demo_input = encode_command [''SET'', ''k'', ''v''] @ encode_command [''GET'', ''k'']"

lemma demo_requests: "fst (requests demo_input) = [[''SET'', ''k'', ''v''], [''GET'', ''k'']] \<and> snd (requests demo_input) = NeedMore []"
proof -
  have "command_fits default_limits [''SET'', ''k'', ''v'']" "command_fits default_limits [''GET'', ''k'']"
    by (simp_all add: command_fits_def default_limits_def line_fits_def INT64_MAX_def nat_to_string.simps)
  then show ?thesis using requests_encoded [of "[''GET'', ''k'']" "[]"] by (simp add: demo_input_def requests_encoded requests_empty)
qed

lemma ctx_on_out: "buf_readable (out (ctx_on d)) = []" "\<not> want_close (ctx_on d)"
  by (simp_all add: ctx_on_def buf_init_spec)

theorem every_request_answered_in_order_witness:
  "\<exists>n' inb' c' rs c1. process_loop (\<lambda>n. (1000 + int n, 9000)) 0 (buf_append demo_input buf_init) (ctx_on db_empty_init) = Some (n', inb', c') \<and>
    answered (\<lambda>n. (1000 + int n, 9000)) 0 [[''SET'', ''k'', ''v''], [''GET'', ''k'']] (ctx_on db_empty_init) rs c1 \<and>
    buf_readable (out c') = concat (map encode rs)"
proof -
  let ?clk = "\<lambda>n. (1000 + int n, 9000)" and ?b = "buf_append demo_input buf_init" and ?c = "ctx_on db_empty_init"
  have b: "buf_invar ?b" "buf_readable ?b = demo_input"
    using buf_append_spec [OF buf_init_spec(1)] by (simp_all add: buf_init_spec)
  have ok: "ctx_ok ?c" by (rule ctx_on_ok) (rule db_reset_spec(1))
  have calls: "calls_ok ?clk 0 (fst (requests (buf_readable ?b))) ?c"
    unfolding b(2) using demo_requests
    by (simp add: clock_ok_def at_clock_def ctx_on_def call_ok_def tolower_def i64_defs split: option.split)
  show ?thesis
    using every_request_answered_in_order [OF b(1) ok _ calls] demo_requests
    unfolding b(2) by (simp add: close_reply_def ctx_on_out) blast
qed

text \<open>Without the assumption that the connection is open: the invariants are kept all the same.\<close>

lemma process_loop_safe:
  assumes "buf_invar inb" "ctx_ok c" "calls_ok clk n (fst (requests (buf_readable inb))) c"
  shows "\<exists>n' inb' c'. process_loop clk n inb c = Some (n', inb', c') \<and> buf_invar inb' \<and> ctx_ok c'"
  using assms
proof (induction clk n inb c rule: process_loop.induct)
  case (1 clk n inb c)
  obtain r where r: "parse_command default_limits (buf_readable inb) = Some r"
    using parse_command_total [of default_limits "buf_readable inb"] by blast
  show ?case
  proof (cases "pstatus r = PIncomplete \<or> pstatus r = PError")
    case True
    then show ?thesis
      using r 1(3,4) close_error_ok [OF 1(4)] by (auto simp: process_loop.simps [of _ _ inb])
  next
    case False
    then have st: "pstatus r \<noteq> PIncomplete" "pstatus r \<noteq> PError" by simp_all
    let ?b = "buf_consume (consumed r) inb" and ?c = "at_clock (clk n) c"
    have C: "buf_invar ?b" "buf_readable ?b = drop (consumed r) (buf_readable inb)"
      using buf_consume_spec [OF 1(3), of "consumed r"] parsed_progress(2) [OF r st] buf_size_readable [OF 1(3)] by simp_all
    have req: "fst (requests (buf_readable inb)) = (if pargv r = [] then fst (requests (buf_readable ?b)) else pargv r # fst (requests (buf_readable ?b)))"
      using r st C(2) by (simp add: requests.simps [of "buf_readable inb"] case_prod_unfold Let_def)
    note step = process_loop.simps [of _ _ inb] Let_def
    show ?thesis
    proof (cases "pargv r = []")
      case True
      then show ?thesis
        using 1(1) [OF r st refl True C(1) 1(4)] 1(5) req r st by (simp add: step)
    next
      case ne: False
      have c: "ctx_ok ?c" "call_ok (map tolower (hd (pargv r))) (pargv r) ?c"
        using 1(5) at_clock_ok [OF 1(4)] req ne by simp_all
      obtain c1 where D: "dispatch (pargv r) ?c = Some c1" "ctx_ok c1"
        using dispatch_answers [OF c(1) ne c(2)] by blast
      show ?thesis
        using 1(2) [OF r st refl ne D(1) _ C(1) D(2)] 1(5) req ne r st D C(1) by (cases "want_close c1") (simp_all add: step)
    qed
  qed
qed

end
