(* ===== verification/Server.thy ===== *)
theory Server
  imports Connection Cmd_Persist "HOL-Library.AList"
begin

text \<open>
  The event loop of \<^verbatim>\<open>net/server.cpp\<close> with the connections of \<^verbatim>\<open>net/connection.h\<close> and the registrations of
  \<^verbatim>\<open>net/event_loop.cpp\<close>. What \<^verbatim>\<open>accept4\<close>, \<^verbatim>\<open>recv\<close>, \<^verbatim>\<open>send\<close>, \<^verbatim>\<open>epoll_wait\<close> and the clocks return is an argument of each
  handler, indexed by the number of the call. A handler works on the connection it was handed and on the
  rest of the server; the connection is put back when it is done. \<^term>\<open>None\<close> is undefined behaviour, the exit of the
  process on a failed \<^verbatim>\<open>epoll_ctl\<close>, or not returning.
\<close>

section \<open>State\<close>

record conn =
  k_fd :: int
  k_in :: buffer
  k_out :: buffer
  k_close :: bool
  k_paused :: bool
  k_ep_read :: bool
  k_ep_write :: bool
  k_id :: u64
  k_active :: int
  k_wire :: string

text \<open>\<open>k_wire\<close> is a ghost: what \<^verbatim>\<open>send\<close> has accepted so far.\<close>

definition new_conn :: "int \<Rightarrow> u64 \<Rightarrow> int \<Rightarrow> conn" where
  "new_conn fd i now = \<lparr>k_fd = fd, k_in = buf_init, k_out = buf_init, k_close = False, k_paused = False, k_ep_read = True,
     k_ep_write = False, k_id = i, k_active = now, k_wire = []\<rparr>"

datatype callback = Cron_tick

text \<open>The idle list holds descriptors in place of pointers. \<open>epoll_set\<close> is the kernel's interest list.\<close>

record server =
  cfg :: config
  epoll_set :: "(int \<times> bool \<times> bool) list"
  listener :: int
  completion_eventfd :: int
  signal_fd :: int
  reserve_fd :: bool
  shutting_down :: bool
  timers :: "callback timer_queue"
  conns :: "(int \<times> conn) list"
  next_connection_id :: u64
  idle_list :: "int list"
  sdb :: database
  srng :: rng
  stasks :: "bg_task list"
  ssave :: save_state
  completions :: "(string option \<times> int) list"

section \<open>Registrations\<close>

text \<open>The kernel refuses to add a descriptor twice and to modify one that is not registered; both are fatal.\<close>

definition loop_add :: "int \<Rightarrow> bool \<Rightarrow> bool \<Rightarrow> server \<Rightarrow> server ub" where
  "loop_add fd r w s = (if map_of (epoll_set s) fd = None then Some (s\<lparr>epoll_set := epoll_set s @ [(fd, r, w)]\<rparr>) else None)"

definition loop_modify :: "int \<Rightarrow> bool \<Rightarrow> bool \<Rightarrow> server \<Rightarrow> server ub" where
  "loop_modify fd r w s = (if map_of (epoll_set s) fd = None then None else Some (s\<lparr>epoll_set := AList.update fd (r, w) (epoll_set s)\<rparr>))"

definition loop_remove :: "int \<Rightarrow> server \<Rightarrow> server" where
  "loop_remove fd s = s\<lparr>epoll_set := AList.delete fd (epoll_set s)\<rparr>"

section \<open>One connection\<close>

datatype recv_result = Received string | RecvEof | RecvAgain | RecvIntr | RecvError
datatype send_result = Sent nat | SendAgain | SendIntr | SendError

text \<open>What the outside world does during one wakeup of a connection: the \<open>i\<close>-th \<^verbatim>\<open>recv\<close>, the \<open>i\<close>-th \<^verbatim>\<open>send\<close> of that many
  bytes, and the clocks read after them and by the \<open>i\<close>-th command.\<close>

record wakeup =
  rx :: "nat \<Rightarrow> recv_result"
  rx_clock :: "nat \<Rightarrow> int"
  cmd_clock :: clocks
  tx :: "nat \<Rightarrow> nat \<Rightarrow> send_result"
  tx_clock :: "nat \<Rightarrow> int"

definition close_later :: "conn \<Rightarrow> conn" where
  "close_later k = k\<lparr>k_close := True\<rparr>"

definition mark_active :: "int \<Rightarrow> conn \<times> server \<Rightarrow> conn \<times> server" where
  "mark_active now ks = (case ks of (k, s) \<Rightarrow>
     (k\<lparr>k_active := now\<rparr>, s\<lparr>idle_list := filter (\<lambda>fd. fd \<noteq> k_fd k) (idle_list s) @ [k_fd k]\<rparr>))"

definition kMaxRecvsPerWakeup :: nat where "kMaxRecvsPerWakeup = 4"

text \<open>The receive loop; \<open>left\<close> iterations remain.\<close>

fun read_more :: "wakeup \<Rightarrow> nat \<Rightarrow> nat \<Rightarrow> conn \<times> server \<Rightarrow> conn \<times> server" where
  "read_more w i 0 (k, s) = (k, s)"
| "read_more w i (Suc left) (k, s) =
    (case rx w i of
       Received bytes \<Rightarrow>
         let ks = mark_active (rx_clock w i) (k\<lparr>k_in := receive bytes (k_in k)\<rparr>, s) in
         if length bytes < kReadChunkSize then ks else read_more w (i + 1) left ks
     | RecvEof \<Rightarrow> (close_later (k\<lparr>k_in := receive [] (k_in k)\<rparr>), s)
     | RecvAgain \<Rightarrow> (k\<lparr>k_in := receive [] (k_in k)\<rparr>, s)
     | RecvIntr \<Rightarrow> read_more w (i + 1) left (k\<lparr>k_in := receive [] (k_in k)\<rparr>, s)
     | RecvError \<Rightarrow> (close_later (k\<lparr>k_in := receive [] (k_in k)\<rparr>), s))"

definition ctx_of :: "wakeup \<Rightarrow> conn \<times> server \<Rightarrow> ctx" where
  "ctx_of w ks = (case ks of (k, s) \<Rightarrow>
     \<lparr>out = k_out k, want_close = k_close k, db = sdb s, clk_mono = fst (cmd_clock w 0), clk_unix = snd (cmd_clock w 0),
      crng = srng s, tasks = stasks s, psave = ssave s\<rparr>)"

definition process :: "wakeup \<Rightarrow> conn \<times> server \<Rightarrow> (conn \<times> server) ub" where
  "process w ks = (case ks of (k, s) \<Rightarrow>
     do {
       (n, inb, c) \<leftarrow> process_loop (cmd_clock w) 0 (k_in k) (ctx_of w (k, s));
       Some (k\<lparr>k_in := inb, k_out := out c, k_close := want_close c\<rparr>,
             s\<lparr>sdb := db c, srng := crng c, stasks := tasks c, ssave := psave c\<rparr>)
     })"

definition query_limit_text :: string where
  "query_limit_text = ''protocol error: query buffer limit exceeded''"

definition handle_read :: "wakeup \<Rightarrow> conn \<times> server \<Rightarrow> (conn \<times> server) ub" where
  "handle_read w ks =
    (case read_more w 0 kMaxRecvsPerWakeup ks of (k, s) \<Rightarrow>
       if \<not> k_close k \<and> cfg_max_query_buf (cfg s) < int (buf_size (k_in k))
       then Some (close_later (k\<lparr>k_out := resp_error query_limit_text (k_out k)\<rparr>), s)
       else process w (k, s))"

text \<open>A peer that interrupts \<^verbatim>\<open>send\<close> for ever would keep the loop from ending.\<close>

partial_function (option) attempt_write :: "wakeup \<Rightarrow> nat \<Rightarrow> conn \<times> server \<Rightarrow> (conn \<times> server) option" where
  "attempt_write w i ks =
    (if buf_empty (k_out (fst ks)) then Some ks
     else case tx w i (buf_size (k_out (fst ks))) of
       Sent n \<Rightarrow>
         if 0 < n
         then attempt_write w (i + 1) (mark_active (tx_clock w i)
                ((fst ks)\<lparr>k_out := buf_consume n (k_out (fst ks)), k_wire := k_wire (fst ks) @ take n (buf_readable (k_out (fst ks)))\<rparr>, snd ks))
         else Some (close_later ((fst ks)\<lparr>k_out := buf_clear (k_out (fst ks))\<rparr>), snd ks)
     | SendAgain \<Rightarrow> Some ks
     | SendIntr \<Rightarrow> attempt_write w (i + 1) ks
     | SendError \<Rightarrow> Some (close_later ((fst ks)\<lparr>k_out := buf_clear (k_out (fst ks))\<rparr>), snd ks))"

definition update_backpressure :: "conn \<times> server \<Rightarrow> conn \<times> server" where
  "update_backpressure ks = (case ks of (k, s) \<Rightarrow>
     (if cfg_hard_limit (cfg s) < int (buf_size (k_out k))
      then close_later (k\<lparr>k_out := buf_clear (k_out k), k_paused := False\<rparr>)
      else if cfg_soft_limit (cfg s) < int (buf_size (k_out k)) then k\<lparr>k_paused := True\<rparr>
      else if buf_empty (k_out k) then k\<lparr>k_paused := False\<rparr>
      else k, s))"

definition update_epoll_interest :: "conn \<times> server \<Rightarrow> (conn \<times> server) ub" where
  "update_epoll_interest ks = (case ks of (k, s) \<Rightarrow>
     let want_read = (\<not> k_close k \<and> \<not> k_paused k); want_write = (\<not> buf_empty (k_out k)) in
     if want_read = k_ep_read k \<and> want_write = k_ep_write k then Some (k, s)
     else do {
       s' \<leftarrow> loop_modify (k_fd k) want_read want_write s;
       Some (k\<lparr>k_ep_read := want_read, k_ep_write := want_write\<rparr>, s')
     })"

record readiness =
  r_readable :: bool
  r_writable :: bool
  r_error :: bool
  r_hangup :: bool

definition put :: "conn \<times> server \<Rightarrow> server" where
  "put ks = (case ks of (k, s) \<Rightarrow> s\<lparr>conns := AList.update (k_fd k) k (conns s)\<rparr>)"

definition on_client_event :: "int \<Rightarrow> readiness \<Rightarrow> wakeup \<Rightarrow> server \<Rightarrow> server ub" where
  "on_client_event fd r w s =
    (case map_of (conns s) fd of
       None \<Rightarrow> Some s
     | Some k \<Rightarrow> do {
         (k1, s1) \<leftarrow> (if r_readable r \<or> r_error r \<or> r_hangup r then handle_read w (k, s) else Some (k, s));
         ks2 \<leftarrow> attempt_write w 0 (if r_error r then close_later k1 else k1, s1);
         ks3 \<leftarrow> update_epoll_interest (update_backpressure ks2);
         Some (put ks3)
       })"

section \<open>Accepting\<close>

datatype accept_result = Accepted int | AcceptAgain | AcceptIntr | AcceptNoFds | AcceptError

definition kMaxAcceptsPerWakeup :: nat where "kMaxAcceptsPerWakeup = 1000"

text \<open>\<^verbatim>\<open>static_cast<size_t>\<close> of an \<^verbatim>\<open>int\<close>.\<close>

definition to_size_t :: "int \<Rightarrow> nat" where "to_size_t n = nat (n mod 2 ^ 64)"

text \<open>The results of the \<^verbatim>\<open>accept4\<close> calls, the clock read for each accepted client, and whether the reserve
  descriptor could be opened again. The client dropped for want of descriptors leaves no trace.\<close>

record arrivals =
  acc :: "nat \<Rightarrow> accept_result"
  acc_clock :: "nat \<Rightarrow> int"
  reopened :: bool

definition register_conn :: "int \<Rightarrow> int \<Rightarrow> server \<Rightarrow> server ub" where
  "register_conn raw_fd now s =
    (let conn = new_conn raw_fd (next_connection_id s) now;
         s1 = s\<lparr>next_connection_id := next_connection_id s + 1\<rparr> in
     do {
       s2 \<leftarrow> loop_add (k_fd conn) True False s1;
       let s3 = s2\<lparr>idle_list := idle_list s2 @ [k_fd conn]\<rparr>;
       Some (if map_of (conns s3) raw_fd = None then s3\<lparr>conns := conns s3 @ [(raw_fd, conn)]\<rparr> else s3)
     })"

fun accept_loop :: "arrivals \<Rightarrow> nat \<Rightarrow> nat \<Rightarrow> server \<Rightarrow> server ub" where
  "accept_loop a i 0 s = Some s"
| "accept_loop a i (Suc left) s =
    (case acc a i of
       AcceptAgain \<Rightarrow> Some s
     | AcceptIntr \<Rightarrow> accept_loop a (i + 1) left s
     | AcceptNoFds \<Rightarrow> Some (s\<lparr>reserve_fd := reopened a\<rparr>)
     | AcceptError \<Rightarrow> accept_loop a (i + 1) left s
     | Accepted raw_fd \<Rightarrow>
         if to_size_t (cfg_maxclients (cfg s)) \<le> length (conns s) then accept_loop a (i + 1) left s
         else do { s' \<leftarrow> register_conn raw_fd (acc_clock a i) s; accept_loop a (i + 1) left s' })"

definition on_listener_readable :: "arrivals \<Rightarrow> server \<Rightarrow> server ub" where
  "on_listener_readable a s = accept_loop a 0 kMaxAcceptsPerWakeup s"

section \<open>Closing, idle connections and the cron timer\<close>

fun reap_loop :: "(int \<times> conn) list \<Rightarrow> server \<Rightarrow> server" where
  "reap_loop [] s = s"
| "reap_loop ((fd, k) # rest) s =
    (if k_close k \<and> buf_empty (k_out k)
     then (let s1 = loop_remove (k_fd k) s; s2 = s1\<lparr>idle_list := remove1 (k_fd k) (idle_list s1)\<rparr> in
           reap_loop rest (s2\<lparr>conns := AList.delete fd (conns s2)\<rparr>))
     else reap_loop rest s)"

definition reap_closed :: "server \<Rightarrow> server" where
  "reap_closed s = reap_loop (conns s) s"

text \<open>An entry of the idle list without its connection would be a dangling pointer.\<close>

fun sweep_loop :: "int \<Rightarrow> int \<Rightarrow> int list \<Rightarrow> server \<Rightarrow> server ub" where
  "sweep_loop now timeout [] s = Some s"
| "sweep_loop now timeout (fd # fds) s = do {
     k \<leftarrow> map_of (conns s) fd;
     if now - k_active k < timeout then Some s
     else sweep_loop now timeout fds (s\<lparr>conns := AList.update fd (close_later k) (conns s)\<rparr>)
   }"

definition sweep_idle_connections :: "int \<Rightarrow> server \<Rightarrow> server ub" where
  "sweep_idle_connections now s =
    (if cfg_idle_timeout_sec (cfg s) \<le> 0 then Some s
     else sweep_loop now (cfg_idle_timeout_sec (cfg s) * 1000) (idle_list s) s)"

definition kCronIntervalMs :: int where "kCronIntervalMs = 100"
definition kExpiryBudgetKeys :: nat where "kExpiryBudgetKeys = 2000"
definition kCronRehashBudget :: nat where "kCronRehashBudget = 100"

text \<open>\<open>late\<close> tells for each pass whether the cycle's wall-clock budget is used up.\<close>

definition cron_tick :: "int \<Rightarrow> (nat \<Rightarrow> bool) \<Rightarrow> server \<Rightarrow> server ub" where
  "cron_tick now late s = do {
     (expired, d) \<leftarrow> run_active_expiration_cycle now kExpiryBudgetKeys late (sdb s);
     s1 \<leftarrow> sweep_idle_connections now (s\<lparr>sdb := db_rehash_step kCronRehashBudget d\<rparr>);
     Some (s1\<lparr>timers := snd (add_timer (now + kCronIntervalMs) Cron_tick (timers s1))\<rparr>)
   }"

section \<open>Completions and signals\<close>

definition post_completion :: "string option \<times> int \<Rightarrow> server \<Rightarrow> server" where
  "post_completion r s = s\<lparr>completions := completions s @ [r]\<rparr>"

definition on_completion_readable :: "server \<Rightarrow> server" where
  "on_completion_readable s =
    (let due = completions s in fold (\<lambda>r s. s\<lparr>ssave := bgsave_completion r (ssave s)\<rparr>) due (s\<lparr>completions := []\<rparr>))"

definition on_signal_readable :: "bool \<Rightarrow> server \<Rightarrow> server" where
  "on_signal_readable whole s = (if whole then s\<lparr>shutting_down := True\<rparr> else s)"

section \<open>The loop\<close>

text \<open>One event of \<^verbatim>\<open>epoll_wait\<close> with what the outside world answers while it is handled.\<close>

record event =
  e_fd :: int
  e_ready :: readiness
  e_arrivals :: arrivals
  e_wakeup :: wakeup
  e_whole :: bool

definition on_event :: "event \<Rightarrow> server \<Rightarrow> server ub" where
  "on_event e s =
    (if e_fd e = listener s then on_listener_readable (e_arrivals e) s
     else if e_fd e = completion_eventfd s then Some (on_completion_readable s)
     else if e_fd e = signal_fd s then Some (on_signal_readable (e_whole e) s)
     else on_client_event (e_fd e) (e_ready e) (e_wakeup e) s)"

fun run_events :: "event list \<Rightarrow> server \<Rightarrow> server ub" where
  "run_events [] s = Some s"
| "run_events (e # es) s = do { s' \<leftarrow> on_event e s; run_events es s' }"

definition kPollTimeoutMs :: int where "kPollTimeoutMs = 1000"

text \<open>One pass of the loop in \<^verbatim>\<open>run\<close>: the poll timeout, the batch of events, the deferred closes, the timers. \<open>cron\<close> is
  the clock that \<^verbatim>\<open>cron_tick\<close> reads and its wall-clock budget.\<close>

definition poll_timeout :: "int \<Rightarrow> server \<Rightarrow> (int \<times> server) ub" where
  "poll_timeout now s = do {
     (t, q) \<leftarrow> next_timeout_ms now (timers s);
     Some (if 0 \<le> t then t else kPollTimeoutMs, s\<lparr>timers := q\<rparr>)
   }"

definition cron_callback :: "int \<times> (nat \<Rightarrow> bool) \<Rightarrow> callback \<Rightarrow> callback timer_queue \<times> server \<Rightarrow> (callback timer_queue \<times> server) ub" where
  "cron_callback cron cb qs = do {
     s' \<leftarrow> cron_tick (fst cron) (snd cron) ((snd qs)\<lparr>timers := fst qs\<rparr>);
     Some (timers s', s')
   }"

definition run_timers :: "int \<Rightarrow> int \<times> (nat \<Rightarrow> bool) \<Rightarrow> server \<Rightarrow> server ub" where
  "run_timers now cron s = do {
     (q, s') \<leftarrow> run_due (cron_callback cron) now (timers s, s);
     Some (s'\<lparr>timers := q\<rparr>)
   }"

definition run_turn :: "int \<Rightarrow> event list \<Rightarrow> int \<Rightarrow> int \<times> (nat \<Rightarrow> bool) \<Rightarrow> server \<Rightarrow> server ub" where
  "run_turn now0 events now1 cron s = do {
     (t, s1) \<leftarrow> poll_timeout now0 s;
     s2 \<leftarrow> run_events events s1;
     run_timers now1 cron (reap_closed s2)
   }"

text \<open>Before the loop: the constructor, and the descriptors and the timer that \<^verbatim>\<open>run\<close> sets up. The snapshot has been loaded
  into \<open>d\<close> by then.\<close>

definition server_init :: "config \<Rightarrow> database \<Rightarrow> rng \<Rightarrow> save_state \<Rightarrow> server" where
  "server_init c d g sv = \<lparr>cfg = c, epoll_set = [], listener = - 1, completion_eventfd = - 1, signal_fd = - 1, reserve_fd = False,
     shutting_down = False, timers = tq_init, conns = [], next_connection_id = 1, idle_list = [], sdb = d, srng = g, stasks = [],
     ssave = sv, completions = []\<rparr>"

definition start_loop :: "int \<Rightarrow> int \<Rightarrow> int \<Rightarrow> int \<Rightarrow> server \<Rightarrow> server ub" where
  "start_loop lfd cfd sfd now s0 = do {
     s1 \<leftarrow> loop_add lfd True False (s0\<lparr>listener := lfd\<rparr>);
     s2 \<leftarrow> loop_add cfd True False (s1\<lparr>completion_eventfd := cfd\<rparr>);
     s3 \<leftarrow> loop_add sfd True False (s2\<lparr>signal_fd := sfd\<rparr>);
     Some (s3\<lparr>reserve_fd := True, timers := snd (add_timer now Cron_tick (timers s3))\<rparr>)
   }"

text \<open>After the loop.\<close>

definition final_ctx :: "int \<Rightarrow> int \<Rightarrow> server \<Rightarrow> ctx" where
  "final_ctx now_mono now_unix s = \<lparr>out = buf_init, want_close = False, db = sdb s, clk_mono = now_mono, clk_unix = now_unix,
     crng = srng s, tasks = stasks s, psave = ssave s\<rparr>"

definition shut_down :: "int \<Rightarrow> int \<Rightarrow> server \<Rightarrow> (string option \<times> server) ub" where
  "shut_down now_mono now_unix s0 =
    (let s = loop_remove (listener s0) s0; c = final_ctx now_mono now_unix s in
     do {
       (e, c') \<leftarrow> (if snapshot_path (ssave s) \<noteq> [] then save_snapshot c else Some (None, c));
       Some (e, s\<lparr>sdb := db c', ssave := psave c', conns := [], idle_list := []\<rparr>)
     })"

text \<open>The destructor of the thread pool, which runs when the server goes out of scope in \<^verbatim>\<open>main\<close>, lets the workers finish what
  is queued or running. Freeing memory leaves no trace; a background save writes its file, and the completion it posts
  is not handled any more. \<open>unfinished\<close> are the tasks submitted before that have not been finished when the loop ends.\<close>

fun run_bg_task :: "bg_task \<Rightarrow> save_state \<Rightarrow> save_state option" where
  "run_bg_task (FreeValue v) sv = Some sv"
| "run_bg_task (FreeKeyspace ks) sv = Some sv"
| "run_bg_task (WriteSnapshot path bytes now_unix) sv = map_option snd (bgsave_task path bytes now_unix sv)"

fun drain_pool :: "bg_task list \<Rightarrow> save_state \<Rightarrow> save_state option" where
  "drain_pool [] sv = Some sv"
| "drain_pool (task # rest) sv = do { sv' \<leftarrow> run_bg_task task sv; drain_pool rest sv' }"

definition server_exit :: "bg_task list \<Rightarrow> int \<Rightarrow> int \<Rightarrow> server \<Rightarrow> (string option \<times> server) ub" where
  "server_exit unfinished now_mono now_unix s = do {
     (e, s1) \<leftarrow> shut_down now_mono now_unix s;
     sv \<leftarrow> drain_pool unfinished (ssave s1);
     Some (e, s1\<lparr>ssave := sv, stasks := []\<rparr>)
   }"

section \<open>Lists in order of activity\<close>

text \<open>\<open>xs\<close> lists every entry once, the least recently active first, and nothing is later than \<open>t\<close>.\<close>

definition lru_ok :: "int \<Rightarrow> 'a list \<Rightarrow> ('a \<Rightarrow> int) \<Rightarrow> bool" where
  "lru_ok t xs f \<longleftrightarrow> distinct xs \<and> sorted_wrt (\<lambda>a b. f a \<le> f b) xs \<and> (\<forall>x \<in> set xs. f x \<le> t)"

lemma lru_nil: "lru_ok t [] f"
  by (simp add: lru_ok_def)

lemma lru_cong:
  assumes "lru_ok t xs f" "\<And>x. x \<in> set xs \<Longrightarrow> g x = f x" "t \<le> t'"
  shows "lru_ok t' xs g"
proof -
  have "sorted_wrt (\<lambda>a b. g a \<le> g b) xs"
    using assms(1) by (simp add: lru_ok_def assms(2) sorted_wrt_mono_rel [of xs "\<lambda>a b. f a \<le> f b"])
  moreover have "g x \<le> t'" if "x \<in> set xs" for x
    using assms(1,3) assms(2) [OF that] that by (force simp: lru_ok_def)
  ultimately show ?thesis using assms(1) by (simp add: lru_ok_def)
qed

lemma lru_push:
  assumes "lru_ok t xs f" "x \<notin> set xs" "t \<le> now" "\<And>y. y \<in> set xs \<Longrightarrow> g y = f y" "g x = now"
  shows "lru_ok now (xs @ [x]) g"
  using lru_cong [OF assms(1,4,3)] assms(2,5) by (auto simp: lru_ok_def sorted_wrt_append)

lemma lru_filter: "lru_ok t xs f \<Longrightarrow> lru_ok t (filter P xs) f"
  by (auto simp: lru_ok_def intro: sorted_wrt_filter)

lemma lru_touch:
  assumes "lru_ok t xs f" "t \<le> now" "\<And>y. y \<noteq> x \<Longrightarrow> g y = f y" "g x = now"
  shows "lru_ok now (filter (\<lambda>y. y \<noteq> x) xs @ [x]) g"
  by (rule lru_push [OF lru_filter [OF assms(1)] _ assms(2)]) (auto simp: assms(3,4))

text \<open>In such a list the entries not active since \<open>d\<close> come first.\<close>

lemma lru_prefix:
  assumes "lru_ok t xs f"
  shows "set (takeWhile (\<lambda>x. f x \<le> d) xs) = {x \<in> set xs. f x \<le> d}"
  using assms
proof (induction xs)
  case Nil
  then show ?case by simp
next
  case (Cons x xs)
  then have "lru_ok t xs f" "\<forall>y \<in> set xs. f x \<le> f y" by (auto simp: lru_ok_def)
  then show ?case using Cons.IH by fastforce
qed

section \<open>Invariants\<close>

definition activity :: "(int \<rightharpoonup> conn) \<Rightarrow> int \<Rightarrow> int" where
  "activity M fd = (case M fd of Some k \<Rightarrow> k_active k | None \<Rightarrow> 0)"

definition own_fds :: "server \<Rightarrow> int set" where
  "own_fds s = {listener s, completion_eventfd s, signal_fd s}"

definition limits_ok :: "config \<Rightarrow> bool" where
  "limits_ok c \<longleftrightarrow> 0 \<le> cfg_soft_limit c \<and> 0 \<le> cfg_hard_limit c"

text \<open>\<open>M\<close> is the table of connections; in the middle of a handler it differs from \<^term>\<open>conns s\<close> at the connection in hand.\<close>

definition conn_wf :: "int \<Rightarrow> conn \<Rightarrow> bool" where
  "conn_wf fd k \<longleftrightarrow> k_fd k = fd \<and> buf_invar (k_in k) \<and> buf_invar (k_out k)"

definition interest :: "(int \<rightharpoonup> conn) \<Rightarrow> server \<Rightarrow> int \<Rightarrow> (bool \<times> bool) option" where
  "interest M s fd = (if fd \<in> own_fds s then Some (True, False) else map_option (\<lambda>k. (k_ep_read k, k_ep_write k)) (M fd))"

definition one_cron :: "callback timer_queue \<Rightarrow> bool" where
  "one_cron q \<longleftrightarrow> tq_ok q \<and> tcancelled q = [] \<and> length (theap q) = 1 \<and> (\<forall>e \<in> set (theap q). in_i64 (t_deadline e))"

definition base_inv :: "int \<Rightarrow> (int \<rightharpoonup> conn) \<Rightarrow> server \<Rightarrow> bool" where
  "base_inv t M s \<longleftrightarrow>
     (\<forall>fd k. M fd = Some k \<longrightarrow> conn_wf fd k \<and> fd \<notin> own_fds s) \<and>
     lru_ok t (idle_list s) (activity M) \<and> set (idle_list s) = dom M \<and>
     map_of (epoll_set s) = interest M s \<and> distinct (map fst (epoll_set s)) \<and>
     db_invar (sdb s) \<and> rng_fair (srng s) \<and> limits_ok (cfg s)"

text \<open>What holds of a connection that no handler is working on. The last two lines say that it cannot be
  forgotten: whoever may be read from is registered for reading, and whoever has output for writing.\<close>

definition settled :: "config \<Rightarrow> conn \<Rightarrow> bool" where
  "settled c k \<longleftrightarrow>
     int (buf_size (k_out k)) \<le> cfg_hard_limit c \<and>
     (k_paused k \<longrightarrow> \<not> buf_empty (k_out k)) \<and>
     (k_ep_read k \<longrightarrow> \<not> k_paused k) \<and>
     (\<not> k_close k \<and> \<not> k_paused k \<longrightarrow> k_ep_read k) \<and>
     (k_ep_write k \<longleftrightarrow> \<not> buf_empty (k_out k))"

definition srv_inv :: "int \<Rightarrow> server \<Rightarrow> bool" where
  "srv_inv t s \<longleftrightarrow> base_inv t (map_of (conns s)) s \<and> distinct (map fst (conns s)) \<and>
     (\<forall>fd k. map_of (conns s) fd = Some k \<longrightarrow> settled (cfg s) k) \<and> length (conns s) \<le> to_size_t (cfg_maxclients (cfg s)) \<and>
     one_cron (timers s)"

lemma base_inv_later: "base_inv t M s \<Longrightarrow> t \<le> t' \<Longrightarrow> base_inv t' M s"
  by (auto simp: base_inv_def intro: lru_cong)

lemma base_inv_conn:
  assumes "base_inv t M s" "M fd = Some k" "conn_wf fd k'" "k_active k' = k_active k"
    "k_ep_read k' = k_ep_read k" "k_ep_write k' = k_ep_write k"
  shows "base_inv t (M(fd \<mapsto> k')) s"
proof -
  have "activity (M(fd \<mapsto> k')) = activity M" "interest (M(fd \<mapsto> k')) s = interest M s" "dom (M(fd \<mapsto> k')) = dom M"
    using assms(2,4-6) by (auto simp: activity_def interest_def fun_eq_iff)
  then show ?thesis using assms(1-3) unfolding base_inv_def by auto
qed

lemma base_inv_data:
  assumes "base_inv t M s" "db_invar d" "rng_fair g"
  shows "base_inv t M (s\<lparr>sdb := d, srng := g, stasks := ts, ssave := sv\<rparr>)"
  using assms by (simp add: base_inv_def own_fds_def interest_def fun_eq_iff)

lemma base_inv_active:
  assumes inv: "base_inv t M s" and k: "M fd = Some k" "k_fd k = fd" and t: "t \<le> now" and m: "mark_active now (k, s) = (k', s')"
  shows "base_inv now (M(fd \<mapsto> k')) s'"
proof -
  have e: "k' = k\<lparr>k_active := now\<rparr>" "s' = s\<lparr>idle_list := filter (\<lambda>y. y \<noteq> fd) (idle_list s) @ [fd]\<rparr>"
    using m k(2) by (simp_all add: mark_active_def)
  have "lru_ok now (idle_list s') (activity (M(fd \<mapsto> k')))"
    unfolding e using inv t by (auto intro!: lru_touch [where t = t and f = "activity M"] simp: base_inv_def activity_def)
  moreover have "interest (M(fd \<mapsto> k')) s' = interest M s" "set (idle_list s') = dom (M(fd \<mapsto> k'))"
    using inv k by (auto simp: interest_def own_fds_def e fun_eq_iff base_inv_def)
  ultimately show ?thesis
    using inv k unfolding base_inv_def by (auto simp: e conn_wf_def own_fds_def)
qed

lemma base_inv_modify:
  assumes inv: "base_inv t M s" and k: "M fd = Some k" "k_fd k = fd"
  obtains s' where "loop_modify fd r w s = Some s'" "base_inv t (M(fd \<mapsto> k\<lparr>k_ep_read := r, k_ep_write := w\<rparr>)) s'"
    "conns s' = conns s" "cfg s' = cfg s" "timers s' = timers s" "own_fds s' = own_fds s"
proof -
  let ?s = "s\<lparr>epoll_set := AList.update fd (r, w) (epoll_set s)\<rparr>" and ?k = "k\<lparr>k_ep_read := r, k_ep_write := w\<rparr>"
  have fd: "fd \<notin> own_fds s" and ep: "map_of (epoll_set s) = interest M s" using inv k by (auto simp: base_inv_def)
  then have "loop_modify fd r w s = Some ?s" using k by (simp add: loop_modify_def interest_def)
  moreover have "base_inv t (M(fd \<mapsto> ?k)) ?s"
  proof -
    have "map_of (epoll_set ?s) = interest (M(fd \<mapsto> ?k)) ?s"
      using fd ep by (auto simp: update_conv' interest_def own_fds_def fun_eq_iff)
    moreover have "activity (M(fd \<mapsto> ?k)) = activity M" "dom (M(fd \<mapsto> ?k)) = dom M" using k by (auto simp: activity_def fun_eq_iff)
    ultimately show ?thesis
      using inv k unfolding base_inv_def by (auto simp: conn_wf_def own_fds_def distinct_update)
  qed
  ultimately show ?thesis using that by (simp add: own_fds_def)
qed

section \<open>What a wakeup may bring\<close>

text \<open>Readings of the monotonic clock, from \<open>lo\<close> to \<open>hi\<close>.\<close>

definition ticks :: "int \<Rightarrow> (nat \<Rightarrow> int) \<Rightarrow> int \<Rightarrow> bool" where
  "ticks lo f hi \<longleftrightarrow> lo \<le> hi \<and> mono f \<and> (\<forall>i. lo \<le> f i \<and> f i \<le> hi)"

text \<open>What the system calls promise: \<^verbatim>\<open>recv\<close> fills at most the space it is given, \<^verbatim>\<open>send\<close> takes no more than it is
  offered, and neither is interrupted for ever.\<close>

definition sockets_ok :: "wakeup \<Rightarrow> bool" where
  "sockets_ok w \<longleftrightarrow> (\<forall>i bytes. rx w i = Received bytes \<longrightarrow> bytes \<noteq> [] \<and> length bytes \<le> kReadChunkSize) \<and>
     (\<forall>i len n. tx w i len = Sent n \<longrightarrow> n \<le> len) \<and> (\<forall>i. \<exists>j \<ge> i. \<forall>len. tx w j len \<noteq> SendIntr)"

definition same_reg :: "conn \<Rightarrow> conn \<Rightarrow> bool" where
  "same_reg k k' \<longleftrightarrow> k_fd k' = k_fd k \<and> k_ep_read k' = k_ep_read k \<and> k_ep_write k' = k_ep_write k \<and> k_paused k' = k_paused k \<and> k_id k' = k_id k"

lemma same_reg_trans [trans]: "same_reg k k' \<Longrightarrow> same_reg k' k'' \<Longrightarrow> same_reg k k''"
  by (simp add: same_reg_def)

lemma same_reg_fd: "same_reg k k' \<Longrightarrow> k_fd k' = k_fd k"
  by (simp add: same_reg_def)

definition idle_only :: "server \<Rightarrow> server \<Rightarrow> bool" where
  "idle_only s s' \<longleftrightarrow> (\<exists>xs. s' = s\<lparr>idle_list := xs\<rparr>)"

lemma idle_only_refl [simp]: "idle_only s s"
  unfolding idle_only_def by (rule exI [of _ "idle_list s"]) simp

lemma idle_only_trans [trans]: "idle_only s s' \<Longrightarrow> idle_only s' s'' \<Longrightarrow> idle_only s s''"
  by (auto simp: idle_only_def)

lemma idle_only_same:
  assumes "idle_only s s'"
  shows "conns s' = conns s" "cfg s' = cfg s" "timers s' = timers s" "sdb s' = sdb s" "srng s' = srng s" "stasks s' = stasks s" "ssave s' = ssave s"
    "listener s' = listener s" "completion_eventfd s' = completion_eventfd s" "signal_fd s' = signal_fd s"
  using assms by (auto simp: idle_only_def)

lemma mark_active_frame:
  assumes "mark_active now (k, s) = (k', s')"
  shows "same_reg k k'" "idle_only s s'" "k_in k' = k_in k" "k_out k' = k_out k" "k_close k' = k_close k" "k_wire k' = k_wire k"
  using assms by (auto simp: mark_active_def same_reg_def idle_only_def)

text \<open>The connection in hand, \<open>k\<close>, takes its place in the table.\<close>

definition held :: "int \<Rightarrow> (int \<rightharpoonup> conn) \<Rightarrow> conn \<times> server \<Rightarrow> bool" where
  "held t M ks \<longleftrightarrow> base_inv t (M(k_fd (fst ks) \<mapsto> fst ks)) (snd ks)"

lemma held_bufs: "held t M (k, s) \<Longrightarrow> buf_invar (k_in k) \<and> buf_invar (k_out k)"
proof -
  assume "held t M (k, s)"
  then have "\<forall>fd k'. (M(k_fd k \<mapsto> k)) fd = Some k' \<longrightarrow> conn_wf fd k'"
    unfolding held_def base_inv_def fst_conv snd_conv by blast
  from this [rule_format, of "k_fd k" k] show ?thesis by (simp add: conn_wf_def)
qed

lemma held_later: "held t M ks \<Longrightarrow> t \<le> t' \<Longrightarrow> held t' M ks"
  by (simp add: held_def base_inv_later)

lemma held_conn:
  assumes "held t M (k, s)" "same_reg k k'" "k_active k' = k_active k" "buf_invar (k_in k')" "buf_invar (k_out k')"
  shows "held t M (k', s)"
  using base_inv_conn [of t "M(k_fd k \<mapsto> k)" s "k_fd k" k k'] assms by (simp add: held_def same_reg_def conn_wf_def)

lemma held_paused:
  assumes "held t M (k, s)" shows "held t M (k\<lparr>k_paused := b\<rparr>, s)"
  using base_inv_conn [of t "M(k_fd k \<mapsto> k)" s "k_fd k" k "k\<lparr>k_paused := b\<rparr>"] assms held_bufs [OF assms]
  by (simp add: held_def conn_wf_def)

lemma held_active:
  assumes "held t M (k, s)" "t \<le> now" "mark_active now (k, s) = (k', s')"
  shows "held now M (k', s')"
  using base_inv_active [of t "M(k_fd k \<mapsto> k)" s "k_fd k" k now k' s'] assms same_reg_fd [OF mark_active_frame(1) [OF assms(3)]]
  by (simp add: held_def)

lemma read_more_spec:
  assumes "held t M (k, s)" "sockets_ok w" "mono (rx_clock w)" "t \<le> rx_clock w i" "t \<le> hi" "\<forall>j. rx_clock w j \<le> hi"
  shows "\<exists>k' s' data. read_more w i n (k, s) = (k', s') \<and> held hi M (k', s') \<and> same_reg k k' \<and> idle_only s s' \<and>
    k_out k' = k_out k \<and> k_wire k' = k_wire k \<and> (k_close k \<longrightarrow> k_close k') \<and> buf_readable (k_in k') = buf_readable (k_in k) @ data \<and> length data \<le> n * kReadChunkSize"
  using assms
proof (induction n arbitrary: t i k s)
  case 0
  then show ?case by (auto simp: same_reg_def intro: held_later)
next
  case (Suc n)
  have b: "buf_invar (k_in k)" "buf_invar (k_out k)" using held_bufs [OF Suc.prems(1)] by simp_all
  let ?e = "k\<lparr>k_in := receive [] (k_in k)\<rparr>"
  have e: "held t M (?e, s)" "same_reg k ?e" "buf_readable (k_in ?e) = buf_readable (k_in k)"
    using b receive_spec [OF b(1), of "[]"] by (auto intro!: held_conn [OF Suc.prems(1)] simp: same_reg_def)
  have c: "held t M (close_later ?e, s)" "same_reg k (close_later ?e)"
    using e b receive_spec(1) [OF b(1), of "[]"] by (auto intro!: held_conn [OF e(1)] simp: same_reg_def close_later_def)
  show ?case
  proof (cases "rx w i")
    case (Received bytes)
    let ?k = "k\<lparr>k_in := receive bytes (k_in k)\<rparr>" and ?t = "rx_clock w i"
    have len: "length bytes \<le> kReadChunkSize" using Suc.prems(2) Received by (simp add: sockets_ok_def)
    note r = receive_spec [OF b(1) len]
    obtain k1 s1 where m: "mark_active ?t (?k, s) = (k1, s1)" by fastforce
    have "held t M (?k, s)" using b r by (auto intro!: held_conn [OF Suc.prems(1)] simp: same_reg_def)
    then have h: "held ?t M (k1, s1)" using held_active [OF _ Suc.prems(4) m] by simp
    note F = mark_active_frame [OF m]
    have sr: "same_reg k k1" using F(1) by (simp add: same_reg_def)
    show ?thesis
    proof (cases "length bytes < kReadChunkSize")
      case True
      have "held hi M (k1, s1)" using h Suc.prems(6) by (blast intro: held_later)
      then show ?thesis
        using Received True m F sr r(2) len by (auto intro!: exI [of _ bytes])
    next
      case False
      have nx: "?t \<le> rx_clock w (i + 1)" using Suc.prems(3) by (simp add: monoD)
      obtain k' s' data where I: "read_more w (i + 1) n (k1, s1) = (k', s')" "held hi M (k', s')" "same_reg k1 k'"
        "idle_only s1 s'" "k_out k' = k_out k1" "k_wire k' = k_wire k1" "k_close k1 \<longrightarrow> k_close k'"
        "buf_readable (k_in k') = buf_readable (k_in k1) @ data" "length data \<le> n * kReadChunkSize"
        using Suc.IH [OF h Suc.prems(2,3) nx _ Suc.prems(6)] Suc.prems(6) by blast
      show ?thesis
        using Received False m I F sr r(2) len same_reg_trans [OF sr I(3)] idle_only_trans [OF F(2) I(4)] by (auto intro!: exI [of _ "bytes @ data"])
    qed
  next
    case RecvIntr
    have nx: "t \<le> rx_clock w (i + 1)" using Suc.prems(3,4) by (meson dual_order.trans le_add1 monoD)
    show ?thesis
      using Suc.IH [OF e(1) Suc.prems(2,3) nx Suc.prems(5,6)] RecvIntr e same_reg_trans [OF e(2)] by fastforce
  qed (use e c held_later [OF _ Suc.prems(5)] in \<open>auto simp: close_later_def\<close>)
qed

section \<open>The handlers keep the invariants\<close>

definition same_srv :: "server \<Rightarrow> server \<Rightarrow> bool" where
  "same_srv s s' \<longleftrightarrow> conns s' = conns s \<and> cfg s' = cfg s \<and> timers s' = timers s \<and> own_fds s' = own_fds s"

lemma idle_only_same_srv: "idle_only s s' \<Longrightarrow> same_srv s s'"
  by (auto simp: same_srv_def idle_only_def own_fds_def)

lemma same_srv_trans [trans]: "same_srv s s' \<Longrightarrow> same_srv s' s'' \<Longrightarrow> same_srv s s''"
  by (simp add: same_srv_def)

text \<open>What is asked of the commands that a wakeup brings.\<close>

definition commands_ok :: "wakeup \<Rightarrow> conn \<times> server \<Rightarrow> bool" where
  "commands_ok w ks = (let ks1 = read_more w 0 kMaxRecvsPerWakeup ks in
     clock_ok (ctx_of w ks1) \<and> calls_ok (cmd_clock w) 0 (fst (requests (buf_readable (k_in (fst ks1))))) (ctx_of w ks1))"

lemma resp_error_buf:
  assumes "buf_invar b"
  shows "buf_invar (resp_error e b)"
proof -
  have "buf_invar (out (reply_error e (ctx_on db_empty_init\<lparr>out := b\<rparr>)))"
    using assms by simp
  then show ?thesis by (simp add: reply_error_def)
qed

lemma process_spec:
  assumes h: "held t M (k, s)" and ok: "clock_ok (ctx_of w (k, s))" "calls_ok (cmd_clock w) 0 (fst (requests (buf_readable (k_in k)))) (ctx_of w (k, s))"
  shows "\<exists>k' s'. process w (k, s) = Some (k', s') \<and> held t M (k', s') \<and> same_reg k k' \<and> same_srv s s' \<and> k_wire k' = k_wire k"
proof -
  have b: "buf_invar (k_in k)" "buf_invar (k_out k)" using held_bufs [OF h] by simp_all
  have "db_invar (sdb s)" "rng_fair (srng s)" using h by (simp_all add: held_def base_inv_def)
  then have "ctx_ok (ctx_of w (k, s))" using b ok(1) by (simp add: ctx_ok_def ctx_of_def)
  then obtain n inb c where P: "process_loop (cmd_clock w) 0 (k_in k) (ctx_of w (k, s)) = Some (n, inb, c)" "buf_invar inb" "ctx_ok c"
    using process_loop_safe [OF b(1) _ ok(2)] by blast
  let ?k = "k\<lparr>k_in := inb, k_out := out c, k_close := want_close c\<rparr>"
  let ?s = "s\<lparr>sdb := db c, srng := crng c, stasks := tasks c, ssave := psave c\<rparr>"
  have c: "buf_invar (out c)" "db_invar (db c)" "rng_fair (crng c)" using P(3) by (simp_all add: ctx_ok_def)
  have "held t M (k, ?s)" using base_inv_data [OF _ c(2,3)] h by (simp add: held_def)
  then have "held t M (?k, ?s)" by (rule held_conn) (simp_all add: same_reg_def P(2) c(1))
  moreover have "process w (k, s) = Some (?k, ?s)" by (simp add: process_def P(1))
  ultimately show ?thesis by (auto simp: same_reg_def same_srv_def own_fds_def)
qed

lemma handle_read_spec:
  assumes h: "held t M (k, s)" and w: "sockets_ok w" "ticks t (rx_clock w) hi" and ok: "commands_ok w (k, s)"
  shows "\<exists>k' s'. handle_read w (k, s) = Some (k', s') \<and> held hi M (k', s') \<and> same_reg k k' \<and> same_srv s s' \<and> k_wire k' = k_wire k"
proof -
  obtain k1 s1 where R: "read_more w 0 kMaxRecvsPerWakeup (k, s) = (k1, s1)" "held hi M (k1, s1)" "same_reg k k1" "idle_only s s1" "k_wire k1 = k_wire k"
    using read_more_spec [OF h w(1), of 0 hi kMaxRecvsPerWakeup] w(2) by (auto simp: ticks_def)
  note b = held_bufs [OF R(2)]
  show ?thesis
  proof (cases "\<not> k_close k1 \<and> cfg_max_query_buf (cfg s1) < int (buf_size (k_in k1))")
    case True
    let ?k = "close_later (k1\<lparr>k_out := resp_error query_limit_text (k_out k1)\<rparr>)"
    have "held hi M (?k, s1)"
      using R(2) by (rule held_conn) (use b resp_error_buf in \<open>simp_all add: same_reg_def close_later_def\<close>)
    moreover have "same_reg k ?k" using R(3) by (simp add: same_reg_def close_later_def)
    ultimately show ?thesis
      using R True idle_only_same_srv by (auto simp: handle_read_def close_later_def)
  next
    case False
    have "clock_ok (ctx_of w (k1, s1))" "calls_ok (cmd_clock w) 0 (fst (requests (buf_readable (k_in k1)))) (ctx_of w (k1, s1))"
      using ok R(1) by (simp_all add: commands_ok_def Let_def)
    then obtain k2 s2 where P: "process w (k1, s1) = Some (k2, s2)" "held hi M (k2, s2)" "same_reg k1 k2" "same_srv s1 s2" "k_wire k2 = k_wire k1"
      using process_spec [OF R(2)] by blast
    have "handle_read w (k, s) = Some (k2, s2)" using False R(1) P(1) by (auto simp: handle_read_def)
    then show ?thesis
      using P R same_reg_trans [OF R(3) P(3)] same_srv_trans [OF idle_only_same_srv [OF R(4)] P(4)] by simp
  qed
qed

text \<open>What a write attempt leaves: everything that was to be sent is on the wire or still buffered, in order;
  or the rest was dropped and the connection is to be closed.\<close>

definition written :: "conn \<Rightarrow> conn \<Rightarrow> bool" where
  "written k k' \<longleftrightarrow>
     (k_wire k' @ buf_readable (k_out k') = k_wire k @ buf_readable (k_out k) \<and> k_close k' = k_close k) \<or>
     (k_close k' \<and> buf_readable (k_out k') = [] \<and> (\<exists>lost. k_wire k' @ lost = k_wire k @ buf_readable (k_out k)))"

lemma written_refl: "written k k"
  by (simp add: written_def)

lemma written_step:
  assumes "written k1 k'" "k_wire k1 @ buf_readable (k_out k1) = k_wire k @ buf_readable (k_out k)" "k_close k1 = k_close k"
  shows "written k k'"
  using assms by (auto simp: written_def)

lemma buf_empty_readable: "buf_invar b \<Longrightarrow> buf_empty b \<longleftrightarrow> buf_readable b = []"
  by (auto simp: buf_empty_def buf_readable_def buf_invar_def)

lemma attempt_write_spec:
  assumes "held t M (k, s)" "sockets_ok w" "mono (tx_clock w)" "t \<le> tx_clock w i" "t \<le> hi" "\<forall>j. tx_clock w j \<le> hi"
  shows "\<exists>k' s'. attempt_write w i (k, s) = Some (k', s') \<and> held hi M (k', s') \<and> same_reg k k' \<and> idle_only s s' \<and> written k k'"
  using assms
proof (induction "length (buf_readable (k_out k))" arbitrary: t i k s rule: less_induct)
  case (less k t i s)
  note w = less.prems(2,3,6)
  have b: "buf_invar (k_in k)" "buf_invar (k_out k)" using held_bufs [OF less.prems(1)] by simp_all
  let ?claim = "\<lambda>i. \<exists>k' s'. attempt_write w i (k, s) = Some (k', s') \<and> held hi M (k', s') \<and> same_reg k k' \<and> idle_only s s' \<and> written k k'"
  have stay: "held hi M (k, s) \<and> same_reg k k \<and> idle_only s s \<and> written k k"
    using held_later [OF less.prems(1,5)] written_refl by (simp add: same_reg_def)
  let ?d = "close_later (k\<lparr>k_out := buf_clear (k_out k)\<rparr>)"
  have d: "held hi M (?d, s) \<and> same_reg k ?d \<and> idle_only s s \<and> written k ?d"
    using stay b buf_clear_spec(1) [OF b(2)] by (auto intro!: held_conn [of hi M k] simp: same_reg_def close_later_def written_def buf_clear_spec(2))
  have now: "?claim i" if t: "t \<le> tx_clock w i" and ni: "tx w i (buf_size (k_out k)) \<noteq> SendIntr" for i
  proof (cases "buf_empty (k_out k)")
    case True
    then show ?thesis using stay by (simp add: attempt_write.simps [of w i])
  next
    case ne: False
    note step = attempt_write.simps [of w i "(k, s)"]
    show ?thesis
    proof (cases "tx w i (buf_size (k_out k))")
      case (Sent n)
      show ?thesis
      proof (cases "0 < n")
        case False
        then show ?thesis using Sent ne d by (simp add: step)
      next
        case True
        let ?k = "k\<lparr>k_out := buf_consume n (k_out k), k_wire := k_wire k @ take n (buf_readable (k_out k))\<rparr>"
        have n: "n \<le> buf_size (k_out k)" using w(1) Sent by (simp add: sockets_ok_def)
        note c = buf_consume_spec [OF b(2) n]
        obtain k1 s1 where m: "mark_active (tx_clock w i) (?k, s) = (k1, s1)" by fastforce
        note F = mark_active_frame [OF m]
        have "held t M (?k, s)" using less.prems(1) by (rule held_conn) (use b c in \<open>simp_all add: same_reg_def\<close>)
        then have h1: "held (tx_clock w i) M (k1, s1)" using held_active [OF _ t m] by simp
        have sr: "same_reg k k1" using F(1) by (simp add: same_reg_def)
        have "length (buf_readable (k_out k1)) < length (buf_readable (k_out k))"
          using True ne F(4) c(2) buf_empty_readable [OF b(2)] by simp
        moreover have "tx_clock w i \<le> tx_clock w (i + 1)" using w(2) by (simp add: monoD)
        ultimately obtain k' s' where I: "attempt_write w (i + 1) (k1, s1) = Some (k', s')" "held hi M (k', s')" "same_reg k1 k'" "idle_only s1 s'" "written k1 k'"
          using less.hyps [OF _ h1 w(1,2) _ _ w(3)] w(3) by blast
        have "written k k'" by (rule written_step [OF I(5)]) (simp_all add: F c(2))
        then show ?thesis
          using ne Sent True m I same_reg_trans [OF sr I(3)] idle_only_trans [OF F(2) I(4)] by (simp add: step)
      qed
    qed (use ne ni stay d in \<open>simp_all add: step\<close>)
  qed
  obtain j where j: "i \<le> j" "\<forall>len. tx w j len \<noteq> SendIntr" using w(1) unfolding sockets_ok_def by blast
  have "?claim i'" if "i' + n = j" "t \<le> tx_clock w i'" for i' n
    using that
  proof (induction n arbitrary: i')
    case 0
    then show ?case using now [of i'] j(2) by simp
  next
    case (Suc n)
    show ?case
    proof (cases "tx w i' (buf_size (k_out k)) = SendIntr \<and> \<not> buf_empty (k_out k)")
      case True
      have "t \<le> tx_clock w (i' + 1)" using Suc.prems(2) w(2) by (meson dual_order.trans le_add1 monoD)
      then show ?thesis using Suc.IH [of "i' + 1"] Suc.prems(1) True by (simp add: attempt_write.simps [of w i'])
    next
      case False
      then show ?thesis using now [OF Suc.prems(2)] stay by (cases "buf_empty (k_out k)") (simp_all add: attempt_write.simps [of w i'])
    qed
  qed
  then show ?case using j(1) less.prems(4) by (metis le_add_diff_inverse)
qed

lemma backpressure_spec:
  assumes h: "held t M (k, s)" and ub: "update_backpressure (k, s) = (k', s')"
  shows "held t M (k', s')" "s' = s" "k_fd k' = k_fd k" "int (buf_size (k_out k')) \<le> cfg_hard_limit (cfg s)"
    "k_paused k' \<Longrightarrow> \<not> buf_empty (k_out k') \<or> k_paused k"
    "buf_empty (k_out k') \<Longrightarrow> \<not> k_paused k'"
proof -
  have b: "buf_invar (k_in k)" "buf_invar (k_out k)" using held_bufs [OF h] by simp_all
  have lim: "limits_ok (cfg s)" using h by (simp add: held_def base_inv_def)
  let ?d = "close_later (k\<lparr>k_out := buf_clear (k_out k)\<rparr>)"
  have "held t M (?d, s)" using b buf_clear_spec by (intro held_conn [OF h]) (auto simp: same_reg_def close_later_def)
  from held_paused [OF this, of False] have d: "held t M (?d\<lparr>k_paused := False\<rparr>, s)" .
  have e: "(?d\<lparr>k_paused := False\<rparr>) = close_later (k\<lparr>k_out := buf_clear (k_out k), k_paused := False\<rparr>)" by (simp add: close_later_def)
  have z: "buf_size (buf_clear b) = 0" "buf_empty b \<Longrightarrow> buf_size b = 0" for b by (simp_all add: buf_size_def buf_clear_def buf_empty_def)
  show "s' = s" "k_fd k' = k_fd k" using ub by (auto simp: update_backpressure_def close_later_def)
  show "held t M (k', s')" using ub h d held_paused [OF h] unfolding e by (auto simp: update_backpressure_def split: if_splits)
  show "int (buf_size (k_out k')) \<le> cfg_hard_limit (cfg s)" "k_paused k' \<Longrightarrow> \<not> buf_empty (k_out k') \<or> k_paused k"
    "buf_empty (k_out k') \<Longrightarrow> \<not> k_paused k'"
    using ub lim z by (auto simp: update_backpressure_def limits_ok_def close_later_def split: if_splits)
qed

lemma epoll_interest_spec:
  assumes h: "held t M (k, s)"
  defines "k' \<equiv> k\<lparr>k_ep_read := (\<not> k_close k \<and> \<not> k_paused k), k_ep_write := (\<not> buf_empty (k_out k))\<rparr>"
  shows "\<exists>s'. update_epoll_interest (k, s) = Some (k', s') \<and> held t M (k', s') \<and> same_srv s s'"
proof (cases "(\<not> k_close k \<and> \<not> k_paused k) = k_ep_read k \<and> (\<not> buf_empty (k_out k)) = k_ep_write k")
  case True
  then have "k' = k" by (simp add: k'_def)
  then show ?thesis using True h by (simp add: update_epoll_interest_def same_srv_def)
next
  case False
  let ?M = "M(k_fd k \<mapsto> k)" and ?r = "\<not> k_close k \<and> \<not> k_paused k" and ?w = "\<not> buf_empty (k_out k)"
  have "base_inv t ?M s" "?M (k_fd k) = Some k" using h by (simp_all add: held_def)
  then obtain s' where m: "loop_modify (k_fd k) ?r ?w s = Some s'" "base_inv t (?M(k_fd k \<mapsto> k')) s'" "same_srv s s'"
    using base_inv_modify [of t ?M s "k_fd k" k ?r ?w] by (auto simp: k'_def same_srv_def)
  moreover have "update_epoll_interest (k, s) = Some (k', s')"
    using False m(1) by (auto simp: update_epoll_interest_def Let_def k'_def)
  ultimately show ?thesis by (simp add: held_def k'_def)
qed

lemma srv_inv_later: "srv_inv t s \<Longrightarrow> t \<le> t' \<Longrightarrow> srv_inv t' s"
  by (auto simp: srv_inv_def intro: base_inv_later)

lemma length_update_known: "map_of xs a = Some b \<Longrightarrow> length (AList.update a c xs) = length xs"
  by (induction xs) (auto split: if_splits)

definition ids :: "server \<Rightarrow> int \<Rightarrow> u64 option" where
  "ids s fd = map_option k_id (map_of (conns s) fd)"

lemma put_inv:
  assumes h: "held t (map_of (conns s)) (k, s)" and k0: "map_of (conns s) (k_fd k) = Some k0" and st: "settled (cfg s) k"
    and inv: "distinct (map fst (conns s))" "\<forall>fd k. map_of (conns s) fd = Some k \<longrightarrow> settled (cfg s) k"
      "length (conns s) \<le> to_size_t (cfg_maxclients (cfg s))" "one_cron (timers s)"
  shows "srv_inv t (put (k, s))"
proof -
  let ?s = "put (k, s)"
  have m: "map_of (conns ?s) = (map_of (conns s))(k_fd k \<mapsto> k)" by (simp add: put_def update_conv')
  have "base_inv t (map_of (conns ?s)) ?s"
    unfolding m using h by (simp add: held_def put_def base_inv_def own_fds_def interest_def fun_eq_iff)
  moreover have "\<forall>fd k. map_of (conns ?s) fd = Some k \<longrightarrow> settled (cfg ?s) k"
    unfolding m using st inv(2) by (simp add: put_def)
  ultimately show ?thesis
    using inv(1,3,4) length_update_known [OF k0, of k] by (simp add: srv_inv_def put_def distinct_update)
qed

lemma client_event_spec:
  assumes inv: "srv_inv t s" and w: "sockets_ok w" "ticks t (rx_clock w) mid" "ticks mid (tx_clock w) hi"
    and ok: "\<forall>k. map_of (conns s) fd = Some k \<longrightarrow> commands_ok w (k, s)"
  shows "\<exists>s'. on_client_event fd r w s = Some s' \<and> srv_inv hi s' \<and> cfg s' = cfg s \<and> timers s' = timers s \<and> own_fds s' = own_fds s \<and> ids s' = ids s"
proof (cases "map_of (conns s) fd")
  case None
  have "t \<le> hi" using w(2,3) by (simp add: ticks_def)
  then have "srv_inv hi s" by (rule srv_inv_later [OF inv])
  then show ?thesis using None by (simp add: on_client_event_def)
next
  case (Some k)
  let ?M = "map_of (conns s)"
  have k: "k_fd k = fd" "?M(fd \<mapsto> k) = ?M" using inv Some by (auto simp: srv_inv_def base_inv_def conn_wf_def)
  then have h0: "held t ?M (k, s)" using inv by (simp add: held_def srv_inv_def)
  have tm: "t \<le> mid" "mid \<le> hi" using w(2,3) by (simp_all add: ticks_def)
  obtain k1 s1 where R: "(if r_readable r \<or> r_error r \<or> r_hangup r then handle_read w (k, s) else Some (k, s)) = Some (k1, s1)"
    "held mid ?M (k1, s1)" "same_reg k k1" "same_srv s s1"
  proof (cases "r_readable r \<or> r_error r \<or> r_hangup r")
    case True
    then show ?thesis using that handle_read_spec [OF h0 w(1,2)] ok Some by auto
  next
    case False
    then show ?thesis using that [of k s] held_later [OF h0 tm(1)] by (auto simp: same_reg_def same_srv_def)
  qed
  let ?k1 = "if r_error r then close_later k1 else k1"
  have "held mid ?M (?k1, s1)"
    using R(2) held_bufs [OF R(2)] by (auto intro!: held_conn [OF R(2)] simp: close_later_def same_reg_def)
  then obtain k2 s2 where W: "attempt_write w 0 (?k1, s1) = Some (k2, s2)" "held hi ?M (k2, s2)" "same_reg ?k1 k2" "same_srv s1 s2"
    using attempt_write_spec [OF _ w(1), of mid ?M ?k1 s1 0 hi] w(3) idle_only_same_srv by (auto simp: ticks_def)
  obtain k3 where b: "update_backpressure (k2, s2) = (k3, s2)" by (auto simp: update_backpressure_def)
  note B = backpressure_spec [OF W(2) b]
  let ?k4 = "k3\<lparr>k_ep_read := (\<not> k_close k3 \<and> \<not> k_paused k3), k_ep_write := (\<not> buf_empty (k_out k3))\<rparr>"
  obtain s4 where E: "update_epoll_interest (k3, s2) = Some (?k4, s4)" "held hi ?M (?k4, s4)" "same_srv s2 s4"
    using epoll_interest_spec [OF B(1)] by blast
  have F: "same_srv s s4" using R(4) W(4) E(3) by (blast intro: same_srv_trans)
  have fd: "k_fd ?k4 = fd" using B(3) same_reg_fd [OF W(3)] same_reg_fd [OF R(3)] k(1) by (simp add: close_later_def split: if_splits)
  have "k_id k3 = k_id k2" using b by (auto simp: update_backpressure_def close_later_def split: if_splits)
  then have kid: "k_id ?k4 = k_id k" using W(3) R(3) by (simp add: same_reg_def close_later_def split: if_splits)
  have st: "settled (cfg s4) ?k4"
    using B(4-6) W(4) E(3) by (auto simp: settled_def same_srv_def)
  have "srv_inv hi (put (?k4, s4))"
    using E(2) F inv Some fd by (intro put_inv [OF _ _ st, of hi k]) (simp_all add: srv_inv_def same_srv_def)
  moreover have "on_client_event fd r w s = Some (put (?k4, s4))"
    using Some R(1) W(1) b E(1) by (auto simp: on_client_event_def)
  moreover have "ids (put (?k4, s4)) = ids s"
    using F Some kid fd by (auto simp: ids_def put_def update_conv' same_srv_def fun_eq_iff)
  ultimately show ?thesis
    using F by (simp add: put_def same_srv_def own_fds_def)
qed

section \<open>Accepting and closing\<close>

text \<open>The kernel never hands out a descriptor that is open: neither one of the server's own nor one of a client it still has.\<close>

fun fresh_fds :: "arrivals \<Rightarrow> nat \<Rightarrow> nat \<Rightarrow> server \<Rightarrow> bool" where
  "fresh_fds a i 0 s = True"
| "fresh_fds a i (Suc left) s =
    (case acc a i of
       Accepted fd \<Rightarrow> fd \<notin> own_fds s \<and> map_of (conns s) fd = None \<and>
         (if to_size_t (cfg_maxclients (cfg s)) \<le> length (conns s) then fresh_fds a (i + 1) left s
          else case register_conn fd (acc_clock a i) s of None \<Rightarrow> True | Some s' \<Rightarrow> fresh_fds a (i + 1) left s')
     | AcceptIntr \<Rightarrow> fresh_fds a (i + 1) left s
     | AcceptError \<Rightarrow> fresh_fds a (i + 1) left s
     | _ \<Rightarrow> True)"

definition same_srv' :: "server \<Rightarrow> server \<Rightarrow> bool" where
  "same_srv' s s' \<longleftrightarrow> cfg s' = cfg s \<and> timers s' = timers s \<and> own_fds s' = own_fds s"

lemma register_conn_spec:
  assumes inv: "srv_inv t s" and t: "t \<le> now" and new: "fd \<notin> own_fds s" "map_of (conns s) fd = None"
    and room: "length (conns s) < to_size_t (cfg_maxclients (cfg s))"
  shows "\<exists>s'. register_conn fd now s = Some s' \<and> srv_inv now s' \<and> same_srv' s s' \<and> ids s \<subseteq>\<^sub>m ids s'"
proof -
  let ?k = "new_conn fd (next_connection_id s) now" and ?M = "map_of (conns s)"
  let ?s = "s\<lparr>next_connection_id := next_connection_id s + 1, epoll_set := epoll_set s @ [(fd, True, False)], idle_list := idle_list s @ [fd],
    conns := conns s @ [(fd, ?k)]\<rparr>"
  have B: "base_inv t ?M s" using inv by (simp add: srv_inv_def)
  have no: "map_of (epoll_set s) fd = None" using B new by (simp add: base_inv_def interest_def)
  then have reg: "register_conn fd now s = Some ?s"
    using new(2) by (simp add: register_conn_def Let_def loop_add_def new_conn_def)
  have M: "map_of (conns ?s) = ?M(fd \<mapsto> ?k)" using new(2) by (auto simp: map_add_def fun_eq_iff split: option.splits)
  have "base_inv now (map_of (conns ?s)) ?s"
  proof -
    have "lru_ok now (idle_list ?s) (activity (map_of (conns ?s)))"
      unfolding M using B new(2) t by (auto intro!: lru_push [where t = t and f = "activity ?M"] simp: base_inv_def activity_def new_conn_def dom_def)
    moreover have "map_of (epoll_set ?s) = interest (map_of (conns ?s)) ?s"
      unfolding M using B new no by (auto simp: map_add_def interest_def own_fds_def base_inv_def fun_eq_iff new_conn_def split: option.splits)
    moreover have "distinct (map fst (epoll_set ?s))"
      using B no [unfolded map_of_eq_None_iff] by (simp add: base_inv_def)
    ultimately show ?thesis
      using B new unfolding base_inv_def M by (auto simp: conn_wf_def own_fds_def new_conn_def buf_init_spec)
  qed
  moreover have "settled (cfg s) ?k"
    using B by (auto simp: settled_def new_conn_def buf_init_def buf_size_def buf_empty_def base_inv_def limits_ok_def)
  ultimately have "srv_inv now ?s"
    using inv room new(2) M by (auto simp: srv_inv_def map_of_eq_None_iff)
  moreover have "ids s \<subseteq>\<^sub>m ids ?s" unfolding map_le_def ids_def M using new(2) by auto
  ultimately show ?thesis using reg by (auto simp: same_srv'_def own_fds_def)
qed

lemma accept_loop_spec:
  assumes "srv_inv t s" "fresh_fds a i n s" "mono (acc_clock a)" "t \<le> acc_clock a i" "t \<le> hi" "\<forall>j. acc_clock a j \<le> hi"
  shows "\<exists>s'. accept_loop a i n s = Some s' \<and> srv_inv hi s' \<and> same_srv' s s' \<and> ids s \<subseteq>\<^sub>m ids s'"
  using assms
proof (induction n arbitrary: t i s)
  case 0
  then show ?case using srv_inv_later by (auto simp: same_srv'_def)
next
  case (Suc n)
  have up: "t \<le> acc_clock a (i + 1)" "acc_clock a i \<le> acc_clock a (i + 1)"
    using Suc.prems(3,4) by (meson dual_order.trans le_add1 monoD)+
  note IH = Suc.IH [OF _ _ Suc.prems(3) _ _ Suc.prems(6)]
  have stay: "srv_inv hi s" by (rule srv_inv_later [OF Suc.prems(1,5)])
  show ?case
  proof (cases "acc a i")
    case (Accepted fd)
    note fr = Suc.prems(2) [unfolded fresh_fds.simps Accepted accept_result.case]
    show ?thesis
    proof (cases "to_size_t (cfg_maxclients (cfg s)) \<le> length (conns s)")
      case True
      then show ?thesis using Accepted fr IH [OF Suc.prems(1) _ up(1) Suc.prems(5)] by simp
    next
      case False
      then obtain s1 where r: "register_conn fd (acc_clock a i) s = Some s1" "srv_inv (acc_clock a i) s1" "same_srv' s s1" "ids s \<subseteq>\<^sub>m ids s1"
        using register_conn_spec [OF Suc.prems(1,4)] fr by auto
      then show ?thesis
        using Accepted False fr IH [OF r(2) _ up(2)] Suc.prems(6) map_le_trans [OF r(4)] by (fastforce simp: same_srv'_def)
    qed
  next
    case AcceptNoFds
    then show ?thesis using stay by (auto simp: same_srv'_def srv_inv_def base_inv_def own_fds_def interest_def fun_eq_iff ids_def map_le_def)
  qed (use stay IH [OF Suc.prems(1) _ up(1) Suc.prems(5)] Suc.prems(2) in \<open>simp_all add: same_srv'_def\<close>)
qed

text \<open>Closing one connection.\<close>

lemma srv_inv_close:
  assumes inv: "srv_inv t s" and k: "map_of (conns s) fd = Some k"
  defines "s' \<equiv> s\<lparr>epoll_set := AList.delete fd (epoll_set s), idle_list := remove1 fd (idle_list s), conns := AList.delete fd (conns s)\<rparr>"
  shows "srv_inv t s'" "map_of (conns s') = (map_of (conns s))(fd := None)"
proof -
  let ?M = "map_of (conns s)"
  have B: "base_inv t ?M s" using inv by (simp add: srv_inv_def)
  have fd: "fd \<notin> own_fds s" using B k by (auto simp: base_inv_def)
  show M: "map_of (conns s') = ?M(fd := None)" by (simp add: s'_def delete_conv')
  have "distinct (idle_list s)" using B by (simp add: base_inv_def lru_ok_def)
  then have idle: "idle_list s' = filter (\<lambda>y. fd \<noteq> y) (idle_list s)"
    by (simp add: s'_def distinct_remove1_removeAll removeAll_filter_not_eq)
  have "base_inv t (map_of (conns s')) s'"
  proof -
    have "lru_ok t (idle_list s') (activity (map_of (conns s')))"
      unfolding idle M by (rule lru_cong [OF lru_filter, of t _ "activity ?M"]) (use B in \<open>auto simp: base_inv_def activity_def [of "?M(fd := None)"] activity_def [of ?M]\<close>)
    moreover have "set (idle_list s') = dom (map_of (conns s'))" unfolding idle M using B by (auto simp: base_inv_def)
    moreover have "map_of (epoll_set s') = interest (map_of (conns s')) s'"
      unfolding M using B fd by (auto simp: s'_def delete_conv' interest_def own_fds_def base_inv_def fun_eq_iff)
    ultimately show ?thesis
      using B unfolding base_inv_def M by (auto simp: s'_def own_fds_def distinct_delete)
  qed
  moreover have "length (conns s') \<le> length (conns s)" by (simp add: s'_def length_delete_le)
  ultimately show "srv_inv t s'"
    using inv M by (auto simp: srv_inv_def s'_def distinct_delete)
qed

definition finished :: "conn \<Rightarrow> bool" where
  "finished k \<longleftrightarrow> k_close k \<and> buf_empty (k_out k)"

definition same_srv_db :: "server \<Rightarrow> server \<Rightarrow> bool" where
  "same_srv_db s s' \<longleftrightarrow> same_srv' s s' \<and> sdb s' = sdb s \<and> ssave s' = ssave s"

lemma reap_loop_spec:
  assumes "srv_inv t s" "\<forall>(fd, k) \<in> set xs. map_of (conns s) fd = Some k" "distinct (map fst xs)"
  shows "srv_inv t (reap_loop xs s) \<and> same_srv_db s (reap_loop xs s) \<and>
    map_of (conns (reap_loop xs s)) = (\<lambda>fd. case map_of xs fd of Some k \<Rightarrow> if finished k then None else Some k | None \<Rightarrow> map_of (conns s) fd)"
  using assms
proof (induction xs arbitrary: s)
  case Nil
  then show ?case by (simp add: same_srv_db_def same_srv'_def)
next
  case (Cons e xs)
  obtain fd k where e: "e = (fd, k)" by (cases e)
  have k: "map_of (conns s) fd = Some k" "map_of xs fd = None" "k_fd k = fd"
    using Cons.prems e by (auto simp: map_of_eq_None_iff srv_inv_def base_inv_def conn_wf_def)
  show ?case
  proof (cases "finished k")
    case True
    let ?s = "s\<lparr>epoll_set := AList.delete fd (epoll_set s), idle_list := remove1 fd (idle_list s), conns := AList.delete fd (conns s)\<rparr>"
    note C = srv_inv_close [OF Cons.prems(1) k(1)]
    have "\<forall>(fd', k') \<in> set xs. map_of (conns ?s) fd' = Some k'"
      unfolding C(2) using Cons.prems(2,3) e by (force simp: image_iff)
    then have I: "srv_inv t (reap_loop xs ?s) \<and> same_srv_db ?s (reap_loop xs ?s) \<and>
      map_of (conns (reap_loop xs ?s)) = (\<lambda>fd. case map_of xs fd of Some k \<Rightarrow> if finished k then None else Some k | None \<Rightarrow> map_of (conns ?s) fd)"
      using Cons.IH [OF C(1)] Cons.prems(3) by simp
    have step: "reap_loop (e # xs) s = reap_loop xs ?s"
      using True by (simp add: e finished_def loop_remove_def k(3))
    have "same_srv_db s (reap_loop xs ?s)"
      using I by (simp add: same_srv_db_def same_srv'_def own_fds_def)
    then show ?thesis
      unfolding step using I C(2) e k(2) True by (auto simp: fun_eq_iff split: option.splits)
  next
    case False
    then have step: "reap_loop (e # xs) s = reap_loop xs s" by (auto simp: e finished_def)
    show ?thesis
      unfolding step using Cons.IH [OF Cons.prems(1)] Cons.prems(2,3) e k False by (auto simp: fun_eq_iff split: option.splits)
  qed
qed

lemma reap_closed_spec:
  assumes inv: "srv_inv t s"
  shows "srv_inv t (reap_closed s)" "same_srv_db s (reap_closed s)"
    "map_of (conns (reap_closed s)) = (\<lambda>fd. case map_of (conns s) fd of Some k \<Rightarrow> if finished k then None else Some k | None \<Rightarrow> None)"
proof -
  have "distinct (map fst (conns s))" using inv by (simp add: srv_inv_def)
  then have "\<forall>(fd, k) \<in> set (conns s). map_of (conns s) fd = Some k" by (auto simp: map_of_eq_Some_iff)
  with reap_loop_spec [OF inv this] \<open>distinct (map fst (conns s))\<close>
  show "srv_inv t (reap_closed s)" "same_srv_db s (reap_closed s)"
    "map_of (conns (reap_closed s)) = (\<lambda>fd. case map_of (conns s) fd of Some k \<Rightarrow> if finished k then None else Some k | None \<Rightarrow> None)"
    by (auto simp: reap_closed_def fun_eq_iff split: option.splits)
qed

section \<open>Idle connections and the cron timer\<close>

lemma map_fst_update_known: "map_of xs a = Some b \<Longrightarrow> map fst (AList.update a c xs) = map fst xs"
  by (induction xs) (auto split: if_splits)

lemma sweep_loop_spec:
  assumes "set fds \<subseteq> dom (map_of (conns s))" "distinct fds"
  shows "\<exists>cs. sweep_loop now timeout fds s = Some (s\<lparr>conns := cs\<rparr>) \<and> map fst cs = map fst (conns s) \<and>
    map_of cs = (\<lambda>fd. if fd \<in> set (takeWhile (\<lambda>fd. activity (map_of (conns s)) fd \<le> now - timeout) fds)
      then map_option close_later (map_of (conns s) fd) else map_of (conns s) fd)"
  using assms
proof (induction fds arbitrary: s)
  case Nil
  then show ?case by (auto intro!: exI [of _ "conns s"])
next
  case (Cons fd fds)
  let ?M = "map_of (conns s)"
  obtain k where k: "?M fd = Some k" using Cons.prems(1) by auto
  show ?case
  proof (cases "now - k_active k < timeout")
    case True
    then show ?thesis using k by (auto simp: activity_def intro!: exI [of _ "conns s"])
  next
    case False
    let ?s = "s\<lparr>conns := AList.update fd (close_later k) (conns s)\<rparr>"
    have M: "map_of (conns ?s) = ?M(fd \<mapsto> close_later k)" by (simp add: update_conv')
    have act: "activity (?M(fd \<mapsto> close_later k)) = activity ?M"
      using k by (auto simp: activity_def close_later_def fun_eq_iff)
    have "set fds \<subseteq> dom (map_of (conns ?s))" unfolding M using Cons.prems(1) by auto
    then obtain cs where I: "sweep_loop now timeout fds ?s = Some (?s\<lparr>conns := cs\<rparr>)" "map fst cs = map fst (conns ?s)"
      "map_of cs = (\<lambda>fd. if fd \<in> set (takeWhile (\<lambda>fd. activity (map_of (conns ?s)) fd \<le> now - timeout) fds)
        then map_option close_later (map_of (conns ?s) fd) else map_of (conns ?s) fd)"
      using Cons.IH [of ?s] Cons.prems(2) by auto
    have hd: "activity ?M fd \<le> now - timeout" using False k by (simp add: activity_def)
    have "fd \<notin> set (takeWhile P fds)" for P using Cons.prems(2) by (auto dest: set_takeWhileD)
    then have "map_of cs = (\<lambda>x. if x \<in> set (takeWhile (\<lambda>fd. activity ?M fd \<le> now - timeout) (fd # fds))
      then map_option close_later (?M x) else ?M x)"
      unfolding I(3) M act using hd k by (auto simp: fun_eq_iff)
    then show ?thesis
      using I(1,2) k False map_fst_update_known [OF k, of "close_later k"] by (auto intro!: exI [of _ cs])
  qed
qed

definition idle_since :: "int \<Rightarrow> server \<Rightarrow> conn \<Rightarrow> bool" where
  "idle_since now s k \<longleftrightarrow> 0 < cfg_idle_timeout_sec (cfg s) \<and> cfg_idle_timeout_sec (cfg s) * 1000 \<le> now - k_active k"

lemma sweep_spec:
  assumes "base_inv t (map_of (conns s)) s"
  shows "\<exists>cs. sweep_idle_connections now s = Some (s\<lparr>conns := cs\<rparr>) \<and> map fst cs = map fst (conns s) \<and>
    map_of cs = (\<lambda>fd. map_option (\<lambda>k. if idle_since now s k then close_later k else k) (map_of (conns s) fd))"
proof (cases "cfg_idle_timeout_sec (cfg s) \<le> 0")
  case True
  have "(\<lambda>k. if idle_since now s k then close_later k else k) = (\<lambda>k. k)" using True by (auto simp: idle_since_def)
  then show ?thesis
    using True by (auto simp: sweep_idle_connections_def option.map_ident intro!: exI [of _ "conns s"])
next
  case False
  let ?M = "map_of (conns s)" and ?d = "now - cfg_idle_timeout_sec (cfg s) * 1000"
  have lru: "lru_ok t (idle_list s) (activity ?M)" and dom: "set (idle_list s) = dom ?M" using assms by (simp_all add: base_inv_def)
  have "distinct (idle_list s)" using lru by (simp add: lru_ok_def)
  then obtain cs where S: "sweep_loop now (cfg_idle_timeout_sec (cfg s) * 1000) (idle_list s) s = Some (s\<lparr>conns := cs\<rparr>)" "map fst cs = map fst (conns s)"
    "map_of cs = (\<lambda>fd. if fd \<in> set (takeWhile (\<lambda>fd. activity ?M fd \<le> ?d) (idle_list s)) then map_option close_later (?M fd) else ?M fd)"
    using sweep_loop_spec [of "idle_list s" s now "cfg_idle_timeout_sec (cfg s) * 1000"] dom by auto
  have "map_of cs = (\<lambda>fd. map_option (\<lambda>k. if idle_since now s k then close_later k else k) (?M fd))"
    unfolding S(3) lru_prefix [OF lru] dom using False by (auto simp: fun_eq_iff activity_def idle_since_def split: option.splits)
  then show ?thesis
    using False S by (auto simp: sweep_idle_connections_def)
qed

text \<open>Readings that leave room for the next deadline.\<close>

definition cron_clock :: "int \<Rightarrow> bool" where
  "cron_clock now \<longleftrightarrow> 0 \<le> now \<and> now + kCronIntervalMs \<le> INT64_MAX"

lemma settled_close: "settled c k \<Longrightarrow> settled c (close_later k)"
  by (simp add: settled_def close_later_def)

lemma base_inv_sweep:
  assumes "base_inv t M s" "\<forall>fd. M' fd = map_option f (M fd)" "\<forall>k. f k = k \<or> f k = close_later k" "db_invar d"
  shows "base_inv t M' (s\<lparr>sdb := d, conns := cs, timers := q\<rparr>)"
proof -
  have f: "k_active (f k) = k_active k" "k_ep_read (f k) = k_ep_read k" "k_ep_write (f k) = k_ep_write k" "conn_wf fd (f k) = conn_wf fd k" for k fd
    using assms(3) [rule_format, of k] by (auto simp: close_later_def conn_wf_def)
  have "activity M' = activity M" "interest M' s = interest M s" "dom M' = dom M"
    by (auto simp: fun_eq_iff activity_def interest_def assms(2) f option.map_comp comp_def split: option.splits)
  moreover have "interest M' (s\<lparr>sdb := d, conns := cs, timers := q\<rparr>) = interest M' s" for d cs q
    by (simp add: interest_def own_fds_def fun_eq_iff)
  moreover have "\<forall>fd k. M' fd = Some k \<longrightarrow> conn_wf fd k \<and> fd \<notin> own_fds s"
    using assms(1) by (auto simp: base_inv_def assms(2) f)
  ultimately show ?thesis
    using assms(1,4) by (simp add: base_inv_def own_fds_def)
qed

lemma cron_tick_spec:
  assumes inv: "srv_inv t s" and q: "theap q = []" "tcancelled q = []" and now: "cron_clock now"
  shows "\<exists>s'. cron_tick now late (s\<lparr>timers := q\<rparr>) = Some s' \<and> srv_inv t s' \<and>
    cfg s' = cfg s \<and> own_fds s' = own_fds s \<and> map t_deadline (theap (timers s')) = [now + kCronIntervalMs] \<and>
    (\<forall>u \<ge> now. db_live (sdb s') u = db_live (sdb s) u) \<and>
    map_of (conns s') = (\<lambda>fd. map_option (\<lambda>k. if idle_since now s k then close_later k else k) (map_of (conns s) fd))"
proof -
  let ?M = "map_of (conns s)" and ?f = "\<lambda>k. if idle_since now s k then close_later k else k"
  have B: "base_inv t ?M s" using inv by (simp add: srv_inv_def)
  then have db: "db_wf (sdb s)" "db_full (sdb s)" by (simp_all add: base_inv_def db_invar_def)
  obtain n d where E: "run_active_expiration_cycle now kExpiryBudgetKeys late (sdb s) = Some (n, d)" "db_wf d" "db_full d"
    "\<forall>u \<ge> now. db_live d u = db_live (sdb s) u"
    using expiration_cycle_spec [OF db(1), of now kExpiryBudgetKeys late] db(2) by blast
  let ?d = "db_rehash_step kCronRehashBudget d"
  have d: "db_invar ?d" "\<forall>u \<ge> now. db_live ?d u = db_live (sdb s) u"
    using db_rehash_spec [OF E(2)] E(3,4) by (simp_all add: db_invar_def)
  let ?s = "s\<lparr>timers := q, sdb := ?d\<rparr>"
  have swap: "s\<lparr>sdb := ?d, timers := q\<rparr> = ?s" by (cases s) simp
  have "\<forall>fd. ?M fd = map_option (\<lambda>k. k) (?M fd)" by (simp add: option.map_ident)
  from base_inv_sweep [OF B this _ d(1), of q "conns s"] have "base_inv t (map_of (conns ?s)) ?s" by (simp add: swap)
  then obtain cs where S: "sweep_idle_connections now ?s = Some (?s\<lparr>conns := cs\<rparr>)" "map fst cs = map fst (conns s)"
    "map_of cs = (\<lambda>fd. map_option ?f (?M fd))"
    using sweep_spec [of t ?s now] by (auto simp: idle_since_def)
  let ?q = "snd (add_timer (now + kCronIntervalMs) Cron_tick q)"
  let ?r = "s\<lparr>sdb := ?d, conns := cs, timers := ?q\<rparr>"
  have qok: "one_cron ?q" "map t_deadline (theap ?q) = [now + kCronIntervalMs]"
    using q now by (auto simp: one_cron_def tq_ok_def add_timer_def pq_push_def pq_ordered_def cron_clock_def i64_defs kCronIntervalMs_def)
  have "base_inv t (map_of cs) ?r" by (rule base_inv_sweep [OF B, where f = ?f]) (simp_all add: S(3) d(1))
  moreover have "length cs = length (conns s)" using S(2) by (metis length_map)
  moreover have "\<forall>fd k. map_of cs fd = Some k \<longrightarrow> settled (cfg s) k"
    using inv settled_close by (auto simp: S(3) srv_inv_def)
  ultimately have "srv_inv t ?r"
    using inv S(2) qok(1) by (simp add: srv_inv_def)
  moreover have "cron_tick now late (s\<lparr>timers := q\<rparr>) = Some ?r"
    using E(1) S(1) by (cases s) (simp add: cron_tick_def)
  ultimately show ?thesis
    using qok(2) d(2) S(3) by (simp add: own_fds_def)
qed

lemma discard_nothing: "tcancelled q = [] \<Longrightarrow> discard_cancelled_top q = Some q"
  by (simp add: discard_cancelled_top.simps [of q] pq_top_def pq_pop_def split: list.split)

text \<open>With the cron timer alone in the queue, \<^verbatim>\<open>run_due\<close> runs it at most once.\<close>

lemma run_timers_spec:
  assumes inv: "srv_inv t s" and now: "now1 \<le> fst cron" "cron_clock (fst cron)"
  shows "\<exists>s'. run_timers now1 cron s = Some s' \<and> srv_inv t s' \<and> cfg s' = cfg s \<and> own_fds s' = own_fds s \<and>
    (\<forall>e \<in> set (theap (timers s')). now1 < t_deadline e \<and> t_deadline e \<le> max (fst cron + kCronIntervalMs) (t_deadline (hd (theap (timers s))))) \<and>
    (\<forall>u \<ge> fst cron. db_live (sdb s') u = db_live (sdb s) u) \<and>
    (if now1 < t_deadline (hd (theap (timers s))) then s' = s
     else map_of (conns s') = (\<lambda>fd. map_option (\<lambda>k. if idle_since (fst cron) s k then close_later k else k) (map_of (conns s) fd)))"
proof -
  let ?q = "timers s"
  obtain e where e: "theap ?q = [e]" and can: "tcancelled ?q = []"
    using inv by (auto simp: srv_inv_def one_cron_def length_Suc_conv)
  note unf = run_due.simps [of _ now1]
  show ?thesis
  proof (cases "now1 < t_deadline e")
    case True
    then have "run_due (cron_callback cron) now1 (?q, s) = Some (?q, s)"
      using discard_nothing [OF can] e by (simp add: unf pq_top_def pq_pop_def)
    then show ?thesis using inv True e by (simp add: run_timers_def)
  next
    case False
    let ?h = "?q\<lparr>theap := []\<rparr>"
    obtain s' where C: "cron_tick (fst cron) (snd cron) (s\<lparr>timers := ?h\<rparr>) = Some s'" "srv_inv t s'" "cfg s' = cfg s" "own_fds s' = own_fds s"
      "map t_deadline (theap (timers s')) = [fst cron + kCronIntervalMs]" "\<forall>u \<ge> fst cron. db_live (sdb s') u = db_live (sdb s) u"
      "map_of (conns s') = (\<lambda>fd. map_option (\<lambda>k. if idle_since (fst cron) s k then close_later k else k) (map_of (conns s) fd))"
      using cron_tick_spec [OF inv, of ?h "fst cron" "snd cron"] can now(2) by auto
    obtain e' where e': "theap (timers s') = [e']" "t_deadline e' = fst cron + kCronIntervalMs" using C(5) by auto
    have can': "tcancelled (timers s') = []" using C(2) by (simp add: srv_inv_def one_cron_def)
    have late: "now1 < t_deadline e'" using e'(2) now(1) by (simp add: kCronIntervalMs_def)
    have "run_due (cron_callback cron) now1 (timers s', s') = Some (timers s', s')"
      using discard_nothing [OF can'] e'(1) late by (simp add: unf pq_top_def pq_pop_def)
    then have "run_due (cron_callback cron) now1 (?q, s) = Some (timers s', s')"
      using discard_nothing [OF can] e False C(1) by (simp add: unf [of _ "(timers s, s)"] pq_top_def pq_pop_def cron_callback_def)
    then have "run_timers now1 cron s = Some s'" by (simp add: run_timers_def)
    then show ?thesis using C e e' late False by simp
  qed
qed

section \<open>The server as a state machine\<close>

text \<open>What an event may bring, between the clock readings \<open>lo\<close> and \<open>hi\<close>.\<close>

definition event_ok :: "int \<Rightarrow> int \<Rightarrow> event \<Rightarrow> server \<Rightarrow> bool" where
  "event_ok lo hi e s \<longleftrightarrow> lo \<le> hi \<and>
     (if e_fd e = listener s then fresh_fds (e_arrivals e) 0 kMaxAcceptsPerWakeup s \<and> ticks lo (acc_clock (e_arrivals e)) hi
      else e_fd e \<in> own_fds s \<or>
        (sockets_ok (e_wakeup e) \<and> (\<exists>mid. ticks lo (rx_clock (e_wakeup e)) mid \<and> ticks mid (tx_clock (e_wakeup e)) hi) \<and>
         (\<forall>k. map_of (conns s) (e_fd e) = Some k \<longrightarrow> commands_ok (e_wakeup e) (k, s))))"

lemma srv_inv_bits:
  assumes "srv_inv t s"
  shows "srv_inv t (s\<lparr>shutting_down := b\<rparr>)" "srv_inv t (s\<lparr>completions := xs, ssave := sv\<rparr>)" "srv_inv t (s\<lparr>completions := xs\<rparr>)"
  using assms by (simp_all add: srv_inv_def base_inv_def own_fds_def interest_def fun_eq_iff)

lemma completions_fold:
  "fold (\<lambda>r s. s\<lparr>ssave := bgsave_completion r (ssave s)\<rparr>) rs s = s\<lparr>ssave := fold bgsave_completion rs (ssave s)\<rparr>"
  by (induction rs arbitrary: s) simp_all

lemma event_spec:
  assumes inv: "srv_inv t s" and ok: "event_ok t hi e s"
  shows "\<exists>s'. on_event e s = Some s' \<and> srv_inv hi s' \<and> cfg s' = cfg s \<and> timers s' = timers s \<and> own_fds s' = own_fds s \<and> ids s \<subseteq>\<^sub>m ids s'"
proof -
  have hi: "t \<le> hi" using ok by (simp add: event_ok_def)
  note later = srv_inv_later [OF inv hi]
  consider "e_fd e = listener s" | "e_fd e \<noteq> listener s" "e_fd e \<in> own_fds s" | "e_fd e \<notin> own_fds s"
    by (auto simp: own_fds_def)
  then show ?thesis
  proof cases
    case 1
    then have "fresh_fds (e_arrivals e) 0 kMaxAcceptsPerWakeup s" "ticks t (acc_clock (e_arrivals e)) hi"
      using ok by (simp_all add: event_ok_def)
    then show ?thesis
      using accept_loop_spec [OF inv, of "e_arrivals e" 0 kMaxAcceptsPerWakeup hi] 1
      by (auto simp: on_event_def on_listener_readable_def ticks_def same_srv'_def)
  next
    case 2
    have "ids (s\<lparr>shutting_down := b\<rparr>) = ids s" "ids (s\<lparr>completions := xs, ssave := sv\<rparr>) = ids s" for b xs sv
      by (simp_all add: ids_def fun_eq_iff)
    then show ?thesis
      using 2 later srv_inv_bits [OF later]
      by (auto simp: on_event_def own_fds_def on_completion_readable_def on_signal_readable_def completions_fold)
  next
    case 3
    then have "sockets_ok (e_wakeup e)" "\<forall>k. map_of (conns s) (e_fd e) = Some k \<longrightarrow> commands_ok (e_wakeup e) (k, s)"
      and "\<exists>mid. ticks t (rx_clock (e_wakeup e)) mid \<and> ticks mid (tx_clock (e_wakeup e)) hi"
      using ok by (auto simp: event_ok_def own_fds_def)
    then have "\<exists>s'. on_client_event (e_fd e) (e_ready e) (e_wakeup e) s = Some s' \<and> srv_inv hi s' \<and> cfg s' = cfg s \<and> timers s' = timers s \<and>
      own_fds s' = own_fds s \<and> ids s' = ids s"
      using client_event_spec [OF inv] by blast
    then show ?thesis using 3 by (auto simp: on_event_def own_fds_def)
  qed
qed

text \<open>The passes of the loop in \<^verbatim>\<open>run\<close>, one handler at a time, with completions posted by workers at any moment. A step
  that fails leads to \<^term>\<open>None\<close>. The relation admits only events within \<open>event_ok\<close>: requests outside \<open>call_ok\<close>, on which the code is known to go
  wrong, are not among its steps.\<close>

datatype phase = Poll | Batch | Due

inductive server_step :: "phase \<times> int \<times> server \<Rightarrow> phase \<times> int \<times> server option \<Rightarrow> bool" where
  SPoll: "t \<le> now \<Longrightarrow> 0 \<le> now \<Longrightarrow> \<not> shutting_down s \<Longrightarrow> server_step (Poll, t, s) (Batch, now, map_option snd (poll_timeout now s))"
| SEvent: "event_ok t t' e s \<Longrightarrow> server_step (Batch, t, s) (Batch, t', on_event e s)"
| SReap: "server_step (Batch, t, s) (Due, t, Some (reap_closed s))"
| STimers: "t \<le> now \<Longrightarrow> now \<le> fst cron \<Longrightarrow> cron_clock (fst cron) \<Longrightarrow> server_step (Due, t, s) (Poll, fst cron, run_timers now cron s)"
| SPost: "server_step (p, t, s) (p, t, Some (post_completion r s))"

text \<open>The state in which the loop starts.\<close>

definition started :: "int \<Rightarrow> server \<Rightarrow> bool" where
  "started t s \<longleftrightarrow> (\<exists>c d g sv lfd cfd sfd. limits_ok c \<and> db_invar d \<and> rng_fair g \<and> distinct [lfd, cfd, sfd] \<and> in_i64 t \<and>
     start_loop lfd cfd sfd t (server_init c d g sv) = Some s)"

inductive server_reach :: "phase \<Rightarrow> int \<Rightarrow> server \<Rightarrow> bool" where
  RStart: "started t s \<Longrightarrow> server_reach Poll t s"
| RStep: "server_reach p t s \<Longrightarrow> server_step (p, t, s) (p', t', Some s') \<Longrightarrow> server_reach p' t' s'"

lemma started_inv:
  assumes "started t s"
  shows "srv_inv t s"
proof -
  obtain c d g sv lfd cfd sfd where a: "limits_ok c" "db_invar d" "rng_fair g" "distinct [lfd, cfd, sfd]" "in_i64 t"
    and st: "start_loop lfd cfd sfd t (server_init c d g sv) = Some s"
    using assms by (auto simp: started_def)
  have s: "s = (server_init c d g sv)\<lparr>listener := lfd, completion_eventfd := cfd, signal_fd := sfd,
      epoll_set := [(lfd, True, False), (cfd, True, False), (sfd, True, False)],
      reserve_fd := True, timers := snd (add_timer t Cron_tick tq_init)\<rparr>"
    using st a(4) by (auto simp: start_loop_def loop_add_def server_init_def split: if_splits)
  have "one_cron (timers s)"
    using a(5) by (simp add: s one_cron_def tq_ok_def add_timer_def tq_init_def pq_push_def pq_ordered_def)
  moreover have "base_inv t (map_of (conns s)) s"
    using a by (auto simp: s server_init_def base_inv_def lru_nil interest_def own_fds_def fun_eq_iff)
  ultimately show ?thesis by (simp add: s server_init_def srv_inv_def)
qed

lemma poll_spec:
  assumes inv: "srv_inv t s" and now: "0 \<le> now"
  obtains r where "poll_timeout now s = Some (r, s)" "0 \<le> r" "r \<le> 1000" "r \<le> max 0 (t_deadline (hd (theap (timers s))) - now)"
proof -
  obtain e where e: "theap (timers s) = [e]" "tcancelled (timers s) = []" "in_i64 (t_deadline e)"
    using inv by (auto simp: srv_inv_def one_cron_def length_Suc_conv)
  let ?r = "min (if now < t_deadline e then t_deadline e - now else 0) 1000"
  have "now < t_deadline e \<Longrightarrow> in_i64 (t_deadline e - now)" using e(3) now by (simp add: i64_defs)
  then have "next_timeout_ms now (timers s) = Some (?r, timers s)"
    using discard_nothing [OF e(2)] e(1) by (simp add: next_timeout_ms_def pq_top_def)
  then have "poll_timeout now s = Some (?r, s)" by (simp add: poll_timeout_def)
  then show ?thesis by (rule that) (auto simp: e(1))
qed

lemma step_inv:
  assumes inv: "srv_inv t s" and st: "server_step (p, t, s) (p', t', r)"
  shows "\<exists>s'. r = Some s' \<and> srv_inv t' s'"
  using st
proof (cases rule: server_step.cases)
  case SPoll
  obtain x where "poll_timeout t' s = Some (x, s)" using poll_spec [OF inv] SPoll by blast
  then show ?thesis using SPoll srv_inv_later [OF inv, of t'] by auto
next
  case (SEvent e)
  then show ?thesis using event_spec [OF inv, of t' e] by auto
next
  case SReap
  then show ?thesis using reap_closed_spec(1) [OF inv] by simp
next
  case (STimers now cron)
  then have "t \<le> fst cron" by simp
  from srv_inv_later [OF inv this] show ?thesis using run_timers_spec [of "fst cron" s now cron] STimers by auto
next
  case (SPost c)
  then show ?thesis using srv_inv_bits(3) [OF inv] by (simp add: post_completion_def)
qed

lemma reach_inv: "server_reach p t s \<Longrightarrow> srv_inv t s"
  by (induction rule: server_reach.induct) (auto dest: started_inv step_inv)

text \<open>A batch of events, handled one after the other.\<close>

fun events_ok :: "int \<Rightarrow> int \<Rightarrow> event list \<Rightarrow> server \<Rightarrow> bool" where
  "events_ok lo hi [] s = (lo \<le> hi)"
| "events_ok lo hi (e # es) s = (\<exists>mid. event_ok lo mid e s \<and> (case on_event e s of None \<Rightarrow> True | Some s' \<Rightarrow> events_ok mid hi es s'))"

lemma run_events_spec:
  assumes "srv_inv t s" "events_ok t hi es s"
  shows "\<exists>s'. run_events es s = Some s' \<and> srv_inv hi s'"
  using assms
proof (induction es arbitrary: t s)
  case Nil
  then show ?case by (auto intro: srv_inv_later)
next
  case (Cons e es)
  then obtain mid where m: "event_ok t mid e s" "case on_event e s of None \<Rightarrow> True | Some s' \<Rightarrow> events_ok mid hi es s'" by auto
  then show ?case using event_spec [OF Cons.prems(1) m(1)] Cons.IH [of mid] by auto
qed

section \<open>What the server promises\<close>

text \<open>C2: the server's parts stay consistent, and no admitted step fails. The steps of \<open>server_step\<close> interleave reads, writes, arrivals,
  timers and completions of workers in any order, under what \<open>event_ok\<close> asks of each event: sockets and clocks behave as documented, and every command
  that a wakeup brings is within \<open>call_ok\<close> (no score that is a NaN in disguise, no repeated key of \<^verbatim>\<open>SINTER\<close>, saves that can run to their end). In
  every state reached by such steps the table of connections, the list in order of activity,
  the kernel's registrations, the cron timer, the client limit, the buffers and the database satisfy their
  invariants, and no such step from there has undefined behaviour, exits or fails to return.\<close>
theorem server_stays_consistent:
  assumes "server_reach p t s"
  shows "srv_inv t s \<and> (\<forall>p' t' r. server_step (p, t, s) (p', t', r) \<longrightarrow> r \<noteq> None)"
  using reach_inv [OF assms] step_inv [OF reach_inv [OF assms]] by blast

text \<open>C29: no connection is forgotten. In every reachable state a connection is registered with the kernel
  under exactly the interest it remembers; it is registered for writing exactly when it has unsent output; it
  is registered for reading if it is neither closing nor paused; it is paused only while it has output, so that
  a write will wake it; and its output does not exceed the hard limit.\<close>
theorem no_connection_forgotten:
  assumes r: "server_reach p t s" and k: "map_of (conns s) fd = Some k"
  shows "map_of (epoll_set s) fd = Some (k_ep_read k, k_ep_write k) \<and> (k_ep_write k \<longleftrightarrow> buf_readable (k_out k) \<noteq> []) \<and>
    (\<not> k_close k \<and> \<not> k_paused k \<longrightarrow> k_ep_read k) \<and> (k_paused k \<longrightarrow> k_ep_write k \<and> \<not> k_ep_read k) \<and>
    int (length (buf_readable (k_out k))) \<le> cfg_hard_limit (cfg s)"
proof -
  have inv: "srv_inv t s" by (rule reach_inv [OF r])
  have st: "settled (cfg s) k" and wf: "conn_wf fd k" "fd \<notin> own_fds s" and ep: "map_of (epoll_set s) = interest (map_of (conns s)) s"
    using inv k by (auto simp: srv_inv_def base_inv_def)
  have "buf_invar (k_out k)" using wf(1) by (simp add: conn_wf_def)
  then show ?thesis
    using st wf(2) k buf_empty_readable buf_size_readable by (auto simp: settled_def ep interest_def)
qed

text \<open>C31: the idle sweep closes exactly the idle connections. Although it stops at the first entry of its list that is
  recent enough, in every reachable state it marks for closing all connections without activity for the
  timeout and no other, and it never follows a dangling entry.\<close>
theorem sweep_closes_exactly_the_idle:
  assumes r: "server_reach p t s"
  shows "\<exists>s'. sweep_idle_connections now s = Some s' \<and>
    (\<forall>fd. map_of (conns s') fd = map_option (\<lambda>k. if idle_since now s k then k\<lparr>k_close := True\<rparr> else k) (map_of (conns s) fd))"
proof -
  have "base_inv t (map_of (conns s)) s" using reach_inv [OF r] by (simp add: srv_inv_def)
  from sweep_spec [OF this, of now, unfolded close_later_def] show ?thesis by auto
qed

inductive in_batch :: "int \<times> server \<Rightarrow> int \<times> server \<Rightarrow> bool" for ts where
  BStart: "in_batch ts ts"
| BEvent: "in_batch ts (t1, s1) \<Longrightarrow> event_ok t1 t2 e s1 \<Longrightarrow> on_event e s1 = Some s2 \<Longrightarrow> in_batch ts (t2, s2)"

lemma in_batch_ids:
  assumes "in_batch (t, s) ts'" "srv_inv t s"
  shows "srv_inv (fst ts') (snd ts') \<and> ids s \<subseteq>\<^sub>m ids (snd ts')"
  using assms(1)
proof (induction rule: in_batch.induct)
  case BStart
  then show ?case using assms(2) by simp
next
  case (BEvent t1 s1 t2 e s2)
  then have "srv_inv t2 s2" "ids s1 \<subseteq>\<^sub>m ids s2" using event_spec [of t1 s1 t2 e] by auto
  then show ?case using BEvent.IH map_le_trans by auto
qed

text \<open>C30: an event never reaches a connection other than the one it was reported for. Because closing is deferred to the end
  of the batch, whatever has been handled and accepted since, a descriptor that belonged to a connection when
  the batch was reported still belongs to the connection with the same id.\<close>
theorem batch_never_reuses_a_descriptor:
  assumes r: "server_reach Batch t s" and b: "in_batch (t, s) (t', s')" and k: "map_of (conns s) fd = Some k"
  shows "\<exists>k'. map_of (conns s') fd = Some k' \<and> k_id k' = k_id k"
proof -
  have "ids s \<subseteq>\<^sub>m ids s'" using in_batch_ids [OF b reach_inv [OF r]] by simp
  moreover have "ids s fd = Some (k_id k)" using k by (simp add: ids_def)
  ultimately have "ids s' fd = Some (k_id k)" by (metis domI map_le_def)
  then show ?thesis by (auto simp: ids_def)
qed

text \<open>C32: writing returns and keeps the byte stream. From every reachable state, whatever \<^verbatim>\<open>send\<close> accepts, as long as it
  is not interrupted for ever, \<^verbatim>\<open>attempt_write\<close> returns; what has been sent followed by what is still
  buffered is what had been sent followed by the output, or the connection is to be closed, its output is
  empty and what has been sent is a prefix of it.\<close>
theorem writing_keeps_the_stream:
  assumes r: "server_reach p t s" and k: "map_of (conns s) fd = Some k" and w: "sockets_ok w" "ticks t (tx_clock w) hi"
  shows "\<exists>k' s'. attempt_write w 0 (k, s) = Some (k', s') \<and>
    ((k_wire k' @ buf_readable (k_out k') = k_wire k @ buf_readable (k_out k) \<and> k_close k' = k_close k) \<or>
     (k_close k' \<and> buf_readable (k_out k') = [] \<and> (\<exists>lost. k_wire k' @ lost = k_wire k @ buf_readable (k_out k))))"
proof -
  have inv: "base_inv t (map_of (conns s)) s" using reach_inv [OF r] by (simp add: srv_inv_def)
  then have "k_fd k = fd" using k by (auto simp: base_inv_def conn_wf_def)
  then have "held t (map_of (conns s)) (k, s)" using inv k by (simp add: held_def fun_upd_idem)
  then show ?thesis
    using attempt_write_spec [of t "map_of (conns s)" k s w 0 hi] w by (auto simp: ticks_def written_def)
qed

text \<open>C33: the loop turns and never sleeps past its cron tick. In every reachable state exactly one timer is armed, so the
  poll timeout is between 0 and one second, never passes the deadline, and the fallback for an empty queue is
  never used. A whole pass of the loop returns with the tick armed for later than the time at which the timers were run, for every batch of
  events within \<open>events_ok\<close>: sockets and clocks behave as documented, and every command the clients send is within \<open>call_ok\<close> (no score that is a NaN in
  disguise, no repeated key of \<^verbatim>\<open>SINTER\<close>, saves that can run to their end).\<close>
theorem loop_turns_with_cron_armed:
  assumes r: "server_reach p t s" and now: "0 \<le> now0" "t \<le> now0" "events_ok now0 hi es s" "hi \<le> now1" "now1 \<le> fst cron" "cron_clock (fst cron)"
  shows "length (theap (timers s)) = 1 \<and>
    (\<exists>d. poll_timeout now0 s = Some (d, s) \<and> 0 \<le> d \<and> d \<le> 1000 \<and> d \<le> max 0 (t_deadline (hd (theap (timers s))) - now0)) \<and>
    (\<exists>s'. run_turn now0 es now1 cron s = Some s' \<and> length (theap (timers s')) = 1 \<and> now1 < t_deadline (hd (theap (timers s'))))"
proof -
  have inv: "srv_inv t s" by (rule reach_inv [OF r])
  obtain s1 where e: "run_events es s = Some s1" "srv_inv hi s1"
    using run_events_spec [OF srv_inv_later [OF inv now(2)] now(3)] by blast
  obtain s' where s': "run_timers now1 cron (reap_closed s1) = Some s'" "srv_inv hi s'" "\<forall>e \<in> set (theap (timers s')). now1 < t_deadline e"
    using run_timers_spec [OF reap_closed_spec(1) [OF e(2)] now(5,6)] by blast
  obtain d where d: "poll_timeout now0 s = Some (d, s)" "0 \<le> d" "d \<le> 1000" "d \<le> max 0 (t_deadline (hd (theap (timers s))) - now0)"
    using poll_spec [OF inv now(1)] by blast
  have "run_turn now0 es now1 cron s = Some s'" using d(1) e(1) s'(1) by (simp add: run_turn_def)
  moreover have "length (theap (timers s)) = 1" "length (theap (timers s')) = 1" using inv s'(2) by (simp_all add: srv_inv_def one_cron_def)
  moreover from this have "hd (theap (timers s')) \<in> set (theap (timers s'))" by (cases "theap (timers s')") simp_all
  ultimately show ?thesis using d s'(3) by blast
qed

section \<open>An example run\<close>

definition demo_config :: config where
  "demo_config = default_config\<lparr>cfg_idle_timeout_sec := 1\<rparr>"

definition demo_init :: server where
  "demo_init = server_init demo_config db_empty_init \<lparr>draws = \<lambda>q. q, dpos = 0\<rparr>
     \<lparr>snapshot_path = ''d'', lastsave_unix_ms = 0, bgsave_in_progress = False, disk = no_files, io = []\<rparr>"

definition demo_start :: server where
  "demo_start = demo_init\<lparr>listener := 3, completion_eventfd := 4, signal_fd := 5,
      epoll_set := [(3, True, False), (4, True, False), (5, True, False)],
      reserve_fd := True, timers := snd (add_timer 1000 Cron_tick tq_init)\<rparr>"

text \<open>One client connects, on descriptor 7.\<close>

definition demo_event :: event where
  "demo_event = \<lparr>e_fd = 3, e_ready = \<lparr>r_readable = True, r_writable = False, r_error = False, r_hangup = False\<rparr>,
     e_arrivals = \<lparr>acc = (\<lambda>i. if i = 0 then Accepted 7 else AcceptAgain), acc_clock = (\<lambda>_. 1000), reopened = True\<rparr>,
     e_wakeup = \<lparr>rx = (\<lambda>_. RecvAgain), rx_clock = (\<lambda>_. 1000), cmd_clock = (\<lambda>_. (1000, 9000)), tx = (\<lambda>_ _. SendAgain), tx_clock = (\<lambda>_. 1000)\<rparr>,
     e_whole = True\<rparr>"

definition demo_server :: server where
  "demo_server = demo_start\<lparr>next_connection_id := 2, epoll_set := [(3, True, False), (4, True, False), (5, True, False), (7, True, False)],
     idle_list := [7], conns := [(7, new_conn 7 1 1000)]\<rparr>"

lemma demo_started: "started 1000 demo_start"
proof -
  have "start_loop 3 4 5 1000 demo_init = Some demo_start"
    by (simp add: start_loop_def loop_add_def demo_start_def demo_init_def server_init_def)
  moreover have "limits_ok demo_config" by (simp add: limits_ok_def demo_config_def default_config_def)
  ultimately show ?thesis
    unfolding started_def demo_init_def using db_reset_spec(1) rng_fair_id
    by (intro exI conjI) (auto simp: i64_defs)
qed

lemma demo_accept:
  "fresh_fds (e_arrivals demo_event) 0 kMaxAcceptsPerWakeup demo_start" "on_event demo_event demo_start = Some demo_server"
proof -
  obtain n where k: "kMaxAcceptsPerWakeup = Suc (Suc n)"
    using that [of 998] by (simp add: kMaxAcceptsPerWakeup_def)
  have reg: "register_conn 7 1000 demo_start = Some demo_server"
    by (simp add: register_conn_def loop_add_def demo_start_def demo_init_def server_init_def new_conn_def demo_server_def Let_def)
  have room: "\<not> to_size_t (cfg_maxclients (cfg demo_start)) \<le> length (conns demo_start)" "conns demo_start = []" "own_fds demo_start = {3, 4, 5}" "listener demo_start = 3"
    by (simp_all add: demo_start_def demo_init_def server_init_def demo_config_def default_config_def to_size_t_def own_fds_def)
  show "fresh_fds (e_arrivals demo_event) 0 kMaxAcceptsPerWakeup demo_start"
    unfolding k using reg room by (simp add: demo_event_def)
  show "on_event demo_event demo_start = Some demo_server"
    unfolding on_event_def on_listener_readable_def k using reg room by (simp add: demo_event_def)
qed

lemma demo_event_ok: "event_ok 1000 1000 demo_event demo_start"
proof -
  have "listener demo_start = 3" "e_fd demo_event = 3" "acc_clock (e_arrivals demo_event) = (\<lambda>_. 1000)"
    by (simp_all add: demo_start_def demo_event_def)
  then show ?thesis using demo_accept(1) by (simp add: event_ok_def ticks_def mono_def)
qed

lemma demo_polled: "server_reach Batch 1000 demo_start"
proof -
  obtain d where "poll_timeout 1000 demo_start = Some (d, demo_start)"
    using poll_spec [OF started_inv [OF demo_started], of 1000] by auto
  moreover have "\<not> shutting_down demo_start" by (simp add: demo_start_def demo_init_def server_init_def)
  ultimately show ?thesis
    using RStep [OF RStart [OF demo_started], of Batch 1000] SPoll [of 1000 1000 demo_start] by simp
qed

lemma demo_reach: "server_reach Batch 1000 demo_server"
  using RStep [OF demo_polled, of Batch 1000] SEvent [OF demo_event_ok] demo_accept(2) by simp

lemma demo_conn: "map_of (conns demo_server) 7 = Some (new_conn 7 1 1000)"
  by (simp add: demo_server_def)

theorem server_stays_consistent_witness:
  "srv_inv 1000 demo_server \<and> (\<nexists>p' t'. server_step (Batch, 1000, demo_server) (p', t', None))"
  using server_stays_consistent [OF demo_reach] by blast

theorem no_connection_forgotten_witness:
  "map_of (epoll_set demo_server) 7 = Some (k_ep_read (new_conn 7 1 1000), k_ep_write (new_conn 7 1 1000))"
  using no_connection_forgotten [OF demo_reach demo_conn] by simp

theorem sweep_closes_exactly_the_idle_witness:
  "\<exists>s'. sweep_idle_connections 5000 demo_server = Some s' \<and> map_of (conns s') 7 = Some ((new_conn 7 1 1000)\<lparr>k_close := True\<rparr>)"
proof -
  have "idle_since 5000 demo_server (new_conn 7 1 1000)"
    by (simp add: idle_since_def demo_server_def demo_start_def demo_init_def server_init_def demo_config_def new_conn_def)
  then show ?thesis
    using sweep_closes_exactly_the_idle [OF demo_reach, of 5000] demo_conn by auto
qed

theorem loop_turns_with_cron_armed_witness:
  "\<exists>s'. run_turn 1000 [demo_event] 1001 (1002, \<lambda>_. False) demo_start = Some s' \<and> length (theap (timers s')) = 1 \<and> 1001 < t_deadline (hd (theap (timers s')))"
proof -
  have "events_ok 1000 1000 [demo_event] demo_start" using demo_event_ok demo_accept(2) by auto
  from loop_turns_with_cron_armed [OF demo_polled _ _ this, of 1001 "(1002, \<lambda>_. False)"] show ?thesis
    by (simp add: cron_clock_def kCronIntervalMs_def INT64_MAX_def)
qed

section \<open>Requests of a connection that is to be closed\<close>

lemma dispatch_small:
  "dispatch [''PING''] c = Some (reply_simple ''PONG'' c)"
  "dispatch [''QUIT''] c = Some ((reply_simple ''OK'' c)\<lparr>want_close := True\<rparr>)"
proof -
  have low: "map tolower ''PING'' = ''ping''" "map tolower ''QUIT'' = ''quit''" by code_simp+
  have "command_table ''ping'' = Some (cmd_ping, - 1)" "command_table ''quit'' = Some (cmd_quit, 1)"
    by (simp_all add: command_table_def kCommands_def)
  then show "dispatch [''PING''] c = Some (reply_simple ''PONG'' c)" "dispatch [''QUIT''] c = Some ((reply_simple ''OK'' c)\<lparr>want_close := True\<rparr>)"
    by (simp_all add: dispatch_def arg_def low kMaxCommandNameLen_def arity_ok_def cmd_ping_def cmd_quit_def del: list.map)
qed

lemma process_last:
  assumes k: "buf_invar (k_in k)" "buf_readable (k_in k) = encode_command argv @ later"
    and fits: "command_fits default_limits argv" "argv \<noteq> []"
    and d: "dispatch argv (at_clock (cmd_clock w 0) (ctx_of w (k, s))) = Some c" "want_close c"
  shows "\<exists>inb. process w (k, s) = Some (k\<lparr>k_in := inb, k_out := out c, k_close := True\<rparr>,
      s\<lparr>sdb := db c, srng := crng c, stasks := tasks c, ssave := psave c\<rparr>) \<and> buf_invar inb \<and> buf_readable inb = later"
proof -
  let ?n = "length (encode_command argv)" and ?b = "buf_consume (length (encode_command argv)) (k_in k)"
  have "?n \<le> buf_size (k_in k)" using k buf_size_readable by simp
  then have b: "buf_invar ?b" "buf_readable ?b = later" using buf_consume_spec [OF k(1)] k(2) by simp_all
  have "parse_command default_limits (buf_readable (k_in k)) = Some (p_ok argv ?n)"
    unfolding k(2) by (rule parse_command_encoded [OF fits(1)])
  then have "process_loop (cmd_clock w) 0 (k_in k) (ctx_of w (k, s)) = Some (1, ?b, c)"
    using d fits(2) by (simp add: process_loop.simps [of _ _ "k_in k"] p_ok_def)
  then have "process w (k, s) = Some (k\<lparr>k_in := ?b, k_out := out c, k_close := True\<rparr>,
      s\<lparr>sdb := db c, srng := crng c, stasks := tasks c, ssave := psave c\<rparr>)"
    using d(2) by (simp add: process_def)
  then show ?thesis using b by blast
qed

lemma small_fits: "command_fits default_limits [''PING'']" "command_fits default_limits [''QUIT'']"
  by (simp_all add: command_fits_def default_limits_def line_fits_def INT64_MAX_def nat_to_string.simps)

lemma process_closing_ping:
  assumes k: "k_close k" "buf_invar (k_in k)" "buf_readable (k_in k) = encode_command [''PING''] @ later"
  shows "\<exists>inb. process w (k, s) = Some (k\<lparr>k_in := inb, k_out := resp_simple ''PONG'' (k_out k), k_close := True\<rparr>, s) \<and>
    buf_invar inb \<and> buf_readable inb = later"
  using process_last [OF k(2,3) small_fits(1), where w = w and s = s and c = "reply_simple ''PONG'' (at_clock (cmd_clock w 0) (ctx_of w (k, s)))"]
  by (simp add: dispatch_small(1) k(1) at_clock_def ctx_of_def reply_simple_def)

text \<open>C35: the end of the stream cuts a pipeline short. When a client's requests fill a read of \<^verbatim>\<open>kReadChunkSize\<close>
  bytes exactly and the next \<^verbatim>\<open>recv\<close> of the same wakeup reports that the client has finished sending, the
  first request is executed and answered and the connection is marked for closing with the others, which have
  arrived, left unread in its buffer.\<close>
theorem end_of_stream_drops_requests:
  assumes k: "buf_invar (k_in k)" "buf_readable (k_in k) = []" "buf_invar (k_out k)"
    and rx: "rx w 0 = Received (encode_command [''PING''] @ later)" "length (encode_command [''PING''] @ later) = kReadChunkSize" "rx w 1 = RecvEof"
  shows "\<exists>k' s'. handle_read w (k, s) = Some (k', s') \<and> k_close k' \<and> buf_readable (k_in k') = later \<and>
    buf_readable (k_out k') = buf_readable (k_out k) @ encode (RSimple ''PONG'')"
proof -
  let ?data = "encode_command [''PING''] @ later"
  let ?s = "s\<lparr>idle_list := filter (\<lambda>fd. fd \<noteq> k_fd k) (idle_list s) @ [k_fd k]\<rparr>"
  let ?k = "close_later (k\<lparr>k_in := receive [] (receive ?data (k_in k)), k_active := rx_clock w 0\<rparr>)"
  have len: "length ?data \<le> kReadChunkSize" "\<not> length ?data < kReadChunkSize" unfolding rx(2) by simp_all
  note r1 = receive_spec [OF k(1) len(1)]
  note r2 = receive_spec [OF r1(1), of "[]"]
  have four: "kMaxRecvsPerWakeup = Suc (Suc (Suc (Suc 0)))" by (simp add: kMaxRecvsPerWakeup_def)
  have read: "read_more w 0 kMaxRecvsPerWakeup (k, s) = (?k, ?s)"
    unfolding four using rx(1,3) len(2) by (simp add: mark_active_def close_later_def Let_def del: length_append)
  have "k_close ?k" "buf_invar (k_in ?k)" "buf_readable (k_in ?k) = encode_command [''PING''] @ later"
    using r1 r2 k(2) by (simp_all add: close_later_def)
  then obtain inb where P: "process w (?k, ?s) = Some (?k\<lparr>k_in := inb, k_out := resp_simple ''PONG'' (k_out ?k), k_close := True\<rparr>, ?s)"
    "buf_readable inb = later"
    using process_closing_ping by blast
  have "buf_readable (resp_simple ''PONG'' (k_out k)) = buf_readable (k_out k) @ encode (RSimple ''PONG'')"
    using reply_out(1) [of "ctx_on db_empty_init\<lparr>out := k_out k\<rparr>" "''PONG''"] k(3) by (simp add: reply_simple_def)
  then show ?thesis
    using P by (simp add: handle_read_def read) (simp add: close_later_def)
qed

definition demo_pipeline :: string where
  "demo_pipeline = encode_command [''ECHO'', replicate 16346 (CHR ''x'')]"

definition demo_eof :: wakeup where
  "demo_eof = (e_wakeup demo_event)\<lparr>rx := \<lambda>i. if i = 0 then Received (encode_command [''PING''] @ demo_pipeline) else RecvEof\<rparr>"

theorem end_of_stream_drops_requests_witness:
  "\<exists>k' s'. handle_read demo_eof (new_conn 7 1 1000, demo_server) = Some (k', s') \<and> k_close k' \<and> buf_readable (k_in k') = demo_pipeline \<and>
    buf_readable (k_out k') = buf_readable (k_out (new_conn 7 1 1000)) @ encode (RSimple ''PONG'')"
proof (rule end_of_stream_drops_requests)
  show "length (encode_command [''PING''] @ demo_pipeline) = kReadChunkSize"
    by (simp add: demo_pipeline_def encode_command_def encode_bulk_def nat_to_string.simps CRLF_def kReadChunkSize_def)
qed (simp_all add: new_conn_def buf_init_spec demo_eof_def)

section \<open>From a client's bytes to its replies\<close>

text \<open>What one short read does to a connection in hand.\<close>

definition after_read :: "wakeup \<Rightarrow> string \<Rightarrow> conn \<times> server \<Rightarrow> conn \<times> server" where
  "after_read w data ks = mark_active (rx_clock w 0) ((fst ks)\<lparr>k_in := receive data (k_in (fst ks))\<rparr>, snd ks)"

lemma read_short:
  assumes "rx w 0 = Received data" "length data < kReadChunkSize"
  shows "read_more w 0 kMaxRecvsPerWakeup (k, s) = after_read w data (k, s)"
proof -
  have four: "kMaxRecvsPerWakeup = Suc (Suc (Suc (Suc 0)))" by (simp add: kMaxRecvsPerWakeup_def)
  show ?thesis unfolding four using assms by (simp add: after_read_def Let_def)
qed

lemma write_all:
  assumes inv: "buf_invar (k_out k)" and tx: "\<forall>i len. tx w i len = Sent len"
  shows "\<exists>k' s'. attempt_write w i (k, s) = Some (k', s') \<and> k_wire k' = k_wire k @ buf_readable (k_out k) \<and> buf_readable (k_out k') = [] \<and>
    k_close k' = k_close k \<and> k_paused k' = k_paused k"
proof (cases "buf_empty (k_out k)")
  case True
  then show ?thesis using buf_empty_readable [OF inv] by (simp add: attempt_write.simps [of w i])
next
  case False
  let ?n = "buf_size (k_out k)"
  let ?k = "k\<lparr>k_out := buf_consume ?n (k_out k), k_wire := k_wire k @ take ?n (buf_readable (k_out k))\<rparr>"
  obtain k1 s1 where m: "mark_active (tx_clock w i) (?k, s) = (k1, s1)" by fastforce
  note F = mark_active_frame [OF m]
  note C = buf_consume_spec [OF inv order.refl]
  have n: "?n = length (buf_readable (k_out k))" by (rule buf_size_readable [OF inv])
  then have e: "buf_readable (k_out k1) = []" "k_wire k1 = k_wire k @ buf_readable (k_out k)" using C(2) F by simp_all
  then have "buf_empty (k_out k1)" using buf_empty_readable C(1) F(4) by simp
  moreover have "0 < ?n" using False n buf_empty_readable [OF inv] by simp
  ultimately have "attempt_write w i (k, s) = Some (k1, s1)"
    using False m tx by (simp add: attempt_write.simps [of w i] attempt_write.simps [of w "Suc i"])
  then show ?thesis using e F(1,5) by (simp add: same_reg_def)
qed

lemma backpressure_drained:
  assumes "update_backpressure (k, s) = (k', s')" "buf_readable (k_out k) = []"
  shows "k_wire k' = k_wire k \<and> buf_readable (k_out k') = []"
proof -
  have "k' \<in> {close_later (k\<lparr>k_out := buf_clear (k_out k), k_paused := False\<rparr>), k\<lparr>k_paused := True\<rparr>, k\<lparr>k_paused := False\<rparr>, k}"
    using assms(1) by (auto simp: update_backpressure_def split: if_splits)
  then show ?thesis using assms(2) by (auto simp: close_later_def buf_clear_spec(2))
qed

lemma client_served:
  assumes inv: "srv_inv t s" and k: "map_of (conns s) fd = Some k" "\<not> k_close k" and r: "r_readable r" "\<not> r_error r"
    and rx: "rx w 0 = Received data" "data \<noteq> []" "length data < kReadChunkSize"
      "int (length (buf_readable (k_in k) @ data)) \<le> cfg_max_query_buf (cfg s)"
    and tx: "\<forall>i len. tx w i len = Sent len" and w: "sockets_ok w" "ticks t (rx_clock w) mid" "ticks mid (tx_clock w) hi"
    and ok: "commands_ok w (k, s)"
  shows "\<exists>s' k' rs c1. on_client_event fd r w s = Some s' \<and> map_of (conns s') fd = Some k' \<and>
    answered (cmd_clock w) 0 (fst (requests (buf_readable (k_in k) @ data))) (ctx_of w (after_read w data (k, s))) rs c1 \<and>
    k_wire k' = k_wire k @ buf_readable (k_out k) @ concat (map encode (rs @ close_reply (snd (requests (buf_readable (k_in k) @ data))) c1)) \<and>
    buf_readable (k_out k') = [] \<and> sdb s' = db c1"
proof -
  let ?M = "map_of (conns s)" and ?rq = "requests (buf_readable (k_in k) @ data)"
  have B: "base_inv t ?M s" using inv by (simp add: srv_inv_def)
  then have kfd: "k_fd k = fd" using k by (auto simp: base_inv_def conn_wf_def)
  then have h0: "held t ?M (k, s)" using B k by (simp add: held_def fun_upd_idem)
  obtain k1 s1 where m: "after_read w data (k, s) = (k1, s1)" by fastforce
  note F = mark_active_frame [OF m [unfolded after_read_def fst_conv snd_conv]]
  have b: "buf_invar (k_in k)" "buf_invar (k_out k)" using held_bufs [OF h0] by simp_all
  have rd: "read_more w 0 kMaxRecvsPerWakeup (k, s) = (k1, s1)" using read_short [OF rx(1,3)] m by simp
  have h1: "held mid ?M (k1, s1)"
    using read_more_spec [OF h0 w(1), of 0 mid kMaxRecvsPerWakeup] w(2) rd by (auto simp: ticks_def)
  have in1: "buf_invar (k_in k1)" "buf_readable (k_in k1) = buf_readable (k_in k) @ data"
    using receive_spec [OF b(1), of data] rx(3) F(3) by simp_all
  have cx: "clock_ok (ctx_of w (k1, s1))" "calls_ok (cmd_clock w) 0 (fst (requests (buf_readable (k_in k1)))) (ctx_of w (k1, s1))"
    using ok rd by (simp_all add: commands_ok_def Let_def)
  have "db_invar (sdb s1)" "rng_fair (srng s1)" using h1 by (simp_all add: held_def base_inv_def)
  then have "ctx_ok (ctx_of w (k1, s1))" "\<not> want_close (ctx_of w (k1, s1))"
    using cx(1) held_bufs [OF h1] F(5) k(2) by (simp_all add: ctx_ok_def ctx_of_def)
  then obtain n' inb c rs c1 where P: "process_loop (cmd_clock w) 0 (k_in k1) (ctx_of w (k1, s1)) = Some (n', inb, c)" "buf_invar inb" "ctx_ok c"
    "answered (cmd_clock w) 0 (fst ?rq) (ctx_of w (k1, s1)) rs c1"
    "buf_readable (out c) = buf_readable (out (ctx_of w (k1, s1))) @ concat (map encode (rs @ close_reply (snd ?rq) c1))" "db c = db c1"
    using process_loop_answers [OF in1(1) _ _ cx(2), unfolded in1(2)] by blast
  have oc: "out (ctx_of w (k1, s1)) = k_out k1" by (simp add: ctx_of_def)
  let ?k2 = "k1\<lparr>k_in := inb, k_out := out c, k_close := want_close c\<rparr>"
  obtain s2 where pr: "process w (k1, s1) = Some (?k2, s2)" "sdb s2 = db c1" using P(1,6) by (simp add: process_def)
  have "held mid ?M (?k2, s2)" using process_spec [OF h1 cx] pr by auto
  moreover have hr: "handle_read w (k, s) = Some (?k2, s2)"
    using rd pr rx(4) in1 buf_size_readable idle_only_same(2) [OF F(2)] F(3) by (simp add: handle_read_def)
  ultimately obtain k3 s3 where W: "attempt_write w 0 (?k2, s2) = Some (k3, s3)" "held hi ?M (k3, s3)" "idle_only s2 s3" "same_reg ?k2 k3"
    using attempt_write_spec [of mid ?M ?k2 s2 w 0 hi] w by (auto simp: ticks_def)
  have out3: "k_wire k3 = k_wire k @ buf_readable (out c)" "buf_readable (k_out k3) = []"
    using write_all [of ?k2 w 0 s2] tx W(1) P(3) F(6) by (auto simp: ctx_ok_def)
  obtain k4 where bp: "update_backpressure (k3, s3) = (k4, s3)" by (auto simp: update_backpressure_def)
  note BP = backpressure_spec [OF W(2) bp]
  have out4: "k_wire k4 = k_wire k3" "buf_readable (k_out k4) = []" "k_fd k4 = fd"
  proof -
    show "k_wire k4 = k_wire k3" "buf_readable (k_out k4) = []" using backpressure_drained [OF bp out3(2)] by simp_all
    show "k_fd k4 = fd" using BP(3) same_reg_fd [OF W(4)] same_reg_fd [OF F(1)] kfd by simp
  qed
  obtain s5 where E: "update_epoll_interest (k4, s3) = Some (k4\<lparr>k_ep_read := (\<not> k_close k4 \<and> \<not> k_paused k4), k_ep_write := (\<not> buf_empty (k_out k4))\<rparr>, s5)"
    using epoll_interest_spec [OF BP(1)] by blast
  have db5: "sdb s5 = db c1"
    using E pr(2) W(3) by (auto simp: update_epoll_interest_def loop_modify_def idle_only_def Let_def split: if_splits Option.bind_splits)
  let ?k5 = "k4\<lparr>k_ep_read := (\<not> k_close k4 \<and> \<not> k_paused k4), k_ep_write := (\<not> buf_empty (k_out k4))\<rparr>"
  have "on_client_event fd r w s = Some (put (?k5, s5))"
    using k(1) r hr W(1) bp E by (simp add: on_client_event_def)
  moreover have "map_of (conns (put (?k5, s5))) fd = Some ?k5" using out4(3) by (simp add: put_def update_conv')
  moreover have "sdb (put (?k5, s5)) = db c1" using db5 by (simp add: put_def)
  ultimately show ?thesis
    using P(4) P(5) [unfolded oc] m out3 out4 F(4) by (intro exI conjI) (assumption | simp)+
qed

section \<open>Requests behind a QUIT\<close>

lemma ok_reply:
  assumes "buf_invar b"
  shows "buf_invar (resp_simple ''OK'' b)" "buf_readable (resp_simple ''OK'' b) = buf_readable b @ encode (RSimple ''OK'')"
  using reply_out(1,10) [of "ctx_on db_empty_init\<lparr>out := b\<rparr>" "''OK''"] assms by (simp_all add: reply_simple_def)

lemma dispatch_set:
  "dispatch [''SET'', key, v] c = Some (reply_simple ''OK'' (ctx_set key (VString v) (snd (ctx_lookup key c))))"
proof -
  have low: "map tolower ''SET'' = ''set''" by code_simp
  have "command_table ''set'' = Some (cmd_set, - 3)" by (simp add: command_table_def kCommands_def)
  then show ?thesis
    by (simp add: dispatch_def arg_def low kMaxCommandNameLen_def arity_ok_def cmd_set_def set_options_init_def case_prod_unfold Let_def del: list.map)
qed

lemma set_stores:
  assumes "db_invar (db c)"
  shows "db_live (db (ctx_set key (VString v) (snd (ctx_lookup key c)))) u key = Some (VString v, None)"
proof -
  obtain w d where l: "lookup_and_expire key (clk_mono c) (db c) = (w, d)" by force
  have "db_wf d" using lookup_spec(2) [OF _ l] assms by (simp add: db_invar_def)
  from db_set_spec(3) [OF this, of "VString v" key] show ?thesis by (simp add: ctx_set_def ctx_lookup_def lookup_write_def l)
qed

lemma backpressure_short:
  assumes "update_backpressure (k, s) = (k', s')" "int (buf_size (k_out k)) \<le> cfg_hard_limit (cfg s)"
  shows "s' = s \<and> k_in k' = k_in k \<and> k_out k' = k_out k \<and> k_close k' = k_close k \<and> k_fd k' = k_fd k"
  using assms by (auto simp: update_backpressure_def split: if_splits)

lemma epoll_frame:
  assumes "update_epoll_interest (k, s) = Some (k', s')"
  shows "conns s' = conns s \<and> sdb s' = sdb s \<and> k_in k' = k_in k \<and> k_out k' = k_out k \<and> k_close k' = k_close k \<and> k_fd k' = k_fd k"
  using assms by (auto simp: update_epoll_interest_def loop_modify_def Let_def split: if_splits Option.bind_splits)

lemma epoll_registered:
  assumes "map_of (epoll_set s) (k_fd k) \<noteq> None"
  obtains k' s' where "update_epoll_interest (k, s) = Some (k', s')"
proof -
  have "update_epoll_interest (k, s) \<noteq> None" using assms by (auto simp: update_epoll_interest_def loop_modify_def Let_def)
  then show ?thesis using that by auto
qed

text \<open>The wakeup that brings a \<^verbatim>\<open>QUIT\<close> with more behind it, when the socket does not take the reply yet.\<close>

lemma quit_leaves_input:
  assumes inv: "srv_inv t s" and k: "map_of (conns s) fd = Some k" "buf_readable (k_in k) = []" "buf_readable (k_out k) = []"
    and lim: "5 \<le> cfg_hard_limit (cfg s)" "int (length data) \<le> cfg_max_query_buf (cfg s)"
    and data: "data = encode_command [''QUIT''] @ rest" "length data < kReadChunkSize"
    and r: "r_readable r" "\<not> r_error r" and io: "rx w 0 = Received data" "\<forall>len. tx w 0 len = SendAgain"
    and ev: "on_client_event fd r w s = Some s'"
  shows "\<exists>k'. map_of (conns s') fd = Some k' \<and> k_close k' \<and> buf_readable (k_in k') = rest \<and> buf_readable (k_out k') = encode (RSimple ''OK'') \<and> sdb s' = sdb s"
proof -
  have kw: "k_fd k = fd" "buf_invar (k_in k)" "buf_invar (k_out k)" using inv k(1) by (auto simp: srv_inv_def base_inv_def conn_wf_def)
  let ?s = "s\<lparr>idle_list := filter (\<lambda>f. f \<noteq> k_fd k) (idle_list s) @ [k_fd k]\<rparr>"
  let ?k = "k\<lparr>k_in := receive data (k_in k), k_active := rx_clock w 0\<rparr>"
  have read: "read_more w 0 kMaxRecvsPerWakeup (k, s) = (?k, ?s)"
    using read_short [OF io(1) data(2)] by (simp add: after_read_def mark_active_def)
  have b: "buf_invar (k_in ?k)" "buf_readable (k_in ?k) = encode_command [''QUIT''] @ rest"
    using receive_spec [OF kw(2), of data] data k(2) by simp_all
  let ?c = "(reply_simple ''OK'' (at_clock (cmd_clock w 0) (ctx_of w (?k, ?s))))\<lparr>want_close := True\<rparr>"
  obtain inb where Q: "process w (?k, ?s) = Some (?k\<lparr>k_in := inb, k_out := out ?c, k_close := True\<rparr>,
      ?s\<lparr>sdb := db ?c, srng := crng ?c, stasks := tasks ?c, ssave := psave ?c\<rparr>)" "buf_invar inb" "buf_readable inb = rest"
    using process_last [OF b small_fits(2), where w = w and s = ?s and c = ?c] dispatch_small(2) by auto
  have o: "out ?c = resp_simple ''OK'' (k_out k)" "db ?c = sdb s" by (simp_all add: reply_simple_def at_clock_def ctx_of_def)
  let ?k1 = "?k\<lparr>k_in := inb, k_out := out ?c, k_close := True\<rparr>"
  let ?s1 = "?s\<lparr>sdb := db ?c, srng := crng ?c, stasks := tasks ?c, ssave := psave ?c\<rparr>"
  have ob: "buf_invar (out ?c)" "buf_readable (out ?c) = encode (RSimple ''OK'')" unfolding o using ok_reply [OF kw(3)] k(3) by simp_all
  then have size: "buf_size (out ?c) = 5" "\<not> buf_empty (out ?c)"
    using buf_size_readable [OF ob(1)] buf_empty_readable [OF ob(1)] by (simp_all add: CRLF_def)
  have "int (buf_size (k_in ?k)) \<le> cfg_max_query_buf (cfg s)" using lim(2) buf_size_readable [OF b(1)] b(2) data(1) by simp
  then have hr: "handle_read w (k, s) = Some (?k1, ?s1)" unfolding handle_read_def read using Q(1) by simp
  have aw: "attempt_write w 0 (?k1, ?s1) = Some (?k1, ?s1)" using size io(2) by (simp add: attempt_write.simps [of w 0])
  obtain k2 s2 where bp: "update_backpressure (?k1, ?s1) = (k2, s2)" by force
  have B: "s2 = ?s1" "k_in k2 = inb" "k_out k2 = out ?c" "k_close k2" "k_fd k2 = fd"
    using backpressure_short [OF bp] lim(1) size kw(1) by simp_all
  obtain k3 s3 where E: "update_epoll_interest (k2, s2) = Some (k3, s3)" "s' = put (k3, s3)"
    using ev k(1) r hr aw bp by (auto simp: on_client_event_def split: Option.bind_splits)
  note F = epoll_frame [OF E(1)]
  have "map_of (conns s') fd = Some k3" "sdb s' = sdb s" using F B(1,5) o(2) unfolding E(2) put_def by (auto simp: update_conv')
  then show ?thesis using F B Q(3) ob(2) by auto
qed

text \<open>A wakeup for a hangup on a connection that is to be closed, with a \<^verbatim>\<open>SET\<close> unread in its buffer.\<close>

lemma hangup_executes_set:
  assumes inv: "srv_inv t s" and k: "map_of (conns s) fd = Some k" "k_close k"
    and data: "buf_readable (k_in k) = encode_command [''SET'', key, v] @ rest" "command_fits default_limits [''SET'', key, v]"
    and r: "r_hangup r" and io: "rx w 0 \<in> {RecvEof, RecvError}" "\<forall>len. tx w 0 len = SendError"
  shows "\<exists>s'. on_client_event fd r w s = Some s' \<and> db_live (sdb s') u key = Some (VString v, None)"
proof -
  have kw: "k_fd k = fd" "buf_invar (k_in k)" "buf_invar (k_out k)" "fd \<notin> own_fds s" "db_invar (sdb s)" "map_of (epoll_set s) = interest (map_of (conns s)) s"
    using inv k(1) by (auto simp: srv_inv_def base_inv_def conn_wf_def)
  then have reg: "map_of (epoll_set s) fd \<noteq> None" using k(1) by (simp add: interest_def)
  let ?k = "close_later (k\<lparr>k_in := receive [] (k_in k)\<rparr>)"
  have four: "kMaxRecvsPerWakeup = Suc (Suc (Suc (Suc 0)))" by (simp add: kMaxRecvsPerWakeup_def)
  have read: "read_more w 0 kMaxRecvsPerWakeup (k, s) = (?k, s)" unfolding four using io(1) by auto
  have b: "buf_invar (k_in ?k)" "buf_readable (k_in ?k) = encode_command [''SET'', key, v] @ rest" "k_close ?k"
    using receive_spec [OF kw(2), of "[]"] data(1) by (simp_all add: close_later_def)
  let ?ini = "at_clock (cmd_clock w 0) (ctx_of w (?k, s))"
  let ?c = "reply_simple ''OK'' (ctx_set key (VString v) (snd (ctx_lookup key ?ini)))"
  have "db (reply_simple ''OK'' c') = db c'" for c' by (simp add: reply_simple_def)
  then have dc: "db ?c = db (ctx_set key (VString v) (snd (ctx_lookup key ?ini)))" .
  have wc: "want_close ?c" "out ?c = resp_simple ''OK'' (k_out k)"
    by (simp_all add: reply_simple_def ctx_set_def ctx_lookup_def case_prod_unfold Let_def at_clock_def ctx_of_def close_later_def)
  obtain inb where Q: "process w (?k, s) = Some (?k\<lparr>k_in := inb, k_out := out ?c, k_close := True\<rparr>,
      s\<lparr>sdb := db ?c, srng := crng ?c, stasks := tasks ?c, ssave := psave ?c\<rparr>)"
    using process_last [OF b(1,2) data(2), where w = w and s = s and c = ?c] dispatch_set [of key v ?ini] wc(1) by auto
  let ?k1 = "?k\<lparr>k_in := inb, k_out := out ?c, k_close := True\<rparr>"
  let ?s1 = "s\<lparr>sdb := db ?c, srng := crng ?c, stasks := tasks ?c, ssave := psave ?c\<rparr>"
  have live: "db_live (db ?c) u key = Some (VString v, None)"
    unfolding dc by (rule set_stores) (use kw(5) in \<open>simp add: at_clock_def ctx_of_def\<close>)
  have hr: "handle_read w (k, s) = Some (?k1, ?s1)" unfolding handle_read_def read using Q b(3) by simp
  have "\<not> buf_empty (out ?c)" unfolding wc(2) using ok_reply [OF kw(3)] buf_empty_readable by simp
  then have aw: "attempt_write w 0 (if r_error r then close_later ?k1 else ?k1, ?s1) = Some (close_later (?k1\<lparr>k_out := buf_clear (out ?c)\<rparr>), ?s1)"
    using io(2) by (simp add: attempt_write.simps [of w 0] close_later_def)
  obtain k2 s2 where bp: "update_backpressure (close_later (?k1\<lparr>k_out := buf_clear (out ?c)\<rparr>), ?s1) = (k2, s2)" by force
  then have B: "s2 = ?s1" "k_fd k2 = fd" using kw(1) by (auto simp: update_backpressure_def close_later_def split: if_splits)
  then have "map_of (epoll_set s2) (k_fd k2) \<noteq> None" using reg by simp
  then obtain k3 s3 where E: "update_epoll_interest (k2, s2) = Some (k3, s3)" by (rule epoll_registered)
  have "on_client_event fd r w s = Some (put (k3, s3))"
    using k(1) r hr aw bp E by (simp add: on_client_event_def)
  moreover have "sdb (put (k3, s3)) = db ?c" using epoll_frame [OF E] B(1) by (auto simp: put_def)
  ultimately show ?thesis using live by simp
qed

text \<open>C36: a connection that has been told to quit still executes what follows. In any reachable state of the server, a client
  that has no unread input and no unsent output pipelines \<^verbatim>\<open>QUIT\<close> and a \<^verbatim>\<open>SET\<close> (and anything behind it) within one short read
  and the query limit, and the socket does not take the reply at once. Then handling the event returns with the connection marked for
  closing, the \<^verbatim>\<open>SET\<close> unread in its buffer and the keyspace as it was; the deferred closes keep the connection, as its output has not drained;
  and when the next event reports a hangup, with \<^verbatim>\<open>recv\<close> reporting the end of the stream or an error and \<^verbatim>\<open>send\<close> failing, the \<^verbatim>\<open>SET\<close> is executed: the key
  holds its value.\<close>
theorem requests_after_quit_are_executed:
  assumes reach: "server_reach p t s" and k: "map_of (conns s) fd = Some k" "buf_readable (k_in k) = []" "buf_readable (k_out k) = []"
    and lim: "5 \<le> cfg_hard_limit (cfg s)" "int (length data) \<le> cfg_max_query_buf (cfg s)"
    and data: "data = encode_command [''QUIT''] @ encode_command [''SET'', key, v] @ later" "length data < kReadChunkSize"
      "command_fits default_limits [''SET'', key, v]"
    and r1: "r_readable r1" "\<not> r_error r1" and io1: "rx w1 0 = Received data" "\<forall>len. tx w1 0 len = SendAgain"
    and w1: "sockets_ok w1" "ticks t (rx_clock w1) mid" "ticks mid (tx_clock w1) t1" "commands_ok w1 (k, s)"
    and r2: "r_hangup r2" and io2: "rx w2 0 \<in> {RecvEof, RecvError}" "\<forall>len. tx w2 0 len = SendError"
  shows "\<exists>s1 k1 s2. on_client_event fd r1 w1 s = Some s1 \<and> sdb s1 = sdb s \<and> map_of (conns (reap_closed s1)) fd = Some k1 \<and>
    k_close k1 \<and> buf_readable (k_in k1) = encode_command [''SET'', key, v] @ later \<and>
    on_client_event fd r2 w2 (reap_closed s1) = Some s2 \<and> db_live (sdb s2) u key = Some (VString v, None)"
proof -
  have inv: "srv_inv t s" by (rule reach_inv [OF reach])
  obtain s1 where E: "on_client_event fd r1 w1 s = Some s1" "srv_inv t1 s1"
    using client_event_spec [OF inv w1(1-3), of fd r1] w1(4) k(1) by auto
  obtain k1 where K: "map_of (conns s1) fd = Some k1" "k_close k1" "buf_readable (k_in k1) = encode_command [''SET'', key, v] @ later"
    "buf_readable (k_out k1) = encode (RSimple ''OK'')" "sdb s1 = sdb s"
    using quit_leaves_input [OF inv k lim data(1,2) r1 io1 E(1)] by blast
  have "buf_invar (k_out k1)" using E(2) K(1) by (auto simp: srv_inv_def base_inv_def conn_wf_def)
  then have "\<not> finished k1" using K(4) buf_empty_readable by (simp add: finished_def)
  then have K2: "map_of (conns (reap_closed s1)) fd = Some k1" using reap_closed_spec(3) [OF E(2)] K(1) by simp
  show ?thesis
    using hangup_executes_set [OF reap_closed_spec(1) [OF E(2)] K2 K(2,3) data(3) r2 io2, of u] E(1) K K2 by blast
qed

definition quit_input :: string where
  "quit_input = encode_command [''QUIT''] @ encode_command [''SET'', ''k'', ''v''] @ encode_command [''PING'']"

definition demo_quit :: wakeup where
  "demo_quit = (e_wakeup demo_event)\<lparr>rx := \<lambda>i. if i = 0 then Received quit_input else RecvAgain\<rparr>"

definition demo_gone :: wakeup where
  "demo_gone = (e_wakeup demo_event)\<lparr>rx := \<lambda>i. RecvEof, tx := \<lambda>i len. SendError\<rparr>"

lemma quit_input_length: "length quit_input = 55"
  by (simp add: quit_input_def encode_command_def encode_bulk_def nat_to_string.simps CRLF_def)

lemma demo_quit_commands: "commands_ok demo_quit (new_conn 7 1 1000, demo_server)"
proof -
  let ?k = "new_conn 7 1 1000"
  have len: "length quit_input < kReadChunkSize" by (simp add: quit_input_length kReadChunkSize_def)
  have rd: "read_more demo_quit 0 kMaxRecvsPerWakeup (?k, demo_server) = after_read demo_quit quit_input (?k, demo_server)"
    by (rule read_short) (use len in \<open>simp_all add: demo_quit_def\<close>)
  obtain k1 s1 where a: "after_read demo_quit quit_input (?k, demo_server) = (k1, s1)" by fastforce
  then have "k_in k1 = receive quit_input buf_init" by (auto simp: after_read_def mark_active_def new_conn_def)
  then have "buf_readable (k_in k1) = quit_input" using receive_spec(2) [OF buf_init_spec(1), of quit_input] len by (simp add: buf_init_spec)
  then obtain rest where "fst (requests (buf_readable (k_in k1))) = [''QUIT''] # rest"
    using requests_encoded [OF small_fits(2)] by (simp add: quit_input_def)
  moreover have "map tolower ''QUIT'' = ''quit''" by code_simp
  then have "call_ok (map tolower (hd [''QUIT''])) [''QUIT''] c" for c by (simp add: call_ok_def)
  ultimately show ?thesis
    unfolding commands_ok_def rd a Let_def
    by (simp add: dispatch_small(2) clock_ok_def ctx_of_def at_clock_def demo_quit_def demo_event_def i64_defs)
qed

text \<open>The same wakeup as an event of the loop: a reachable state with output that the socket has not taken.\<close>

definition demo_quit_event :: event where
  "demo_quit_event = demo_event\<lparr>e_fd := 7, e_wakeup := demo_quit\<rparr>"

definition demo_slow :: wakeup where
  "demo_slow = (e_wakeup demo_event)\<lparr>tx := \<lambda>i len. if i = 0 then Sent (min 2 len) else SendAgain\<rparr>"

lemma demo_quit_io:
  "sockets_ok demo_quit" "ticks 1000 (rx_clock demo_quit) 1000" "ticks 1000 (tx_clock demo_quit) 1000"
  "rx demo_quit 0 = Received quit_input" "\<forall>len. tx demo_quit 0 len = SendAgain"
  "5 \<le> cfg_hard_limit (cfg demo_server)" "int (length quit_input) \<le> cfg_max_query_buf (cfg demo_server)" "length quit_input < kReadChunkSize"
  "r_readable (e_ready demo_event)" "\<not> r_error (e_ready demo_event)"
  "buf_readable (k_in (new_conn 7 1 1000)) = []" "buf_readable (k_out (new_conn 7 1 1000)) = []"
proof -
  show "sockets_ok demo_quit"
    by (auto simp: sockets_ok_def demo_quit_def demo_event_def quit_input_length kReadChunkSize_def) (simp add: quit_input_def encode_command_def)
qed (simp_all add: ticks_def demo_quit_def demo_event_def mono_def quit_input_length kReadChunkSize_def new_conn_def buf_init_spec
    demo_server_def demo_start_def demo_init_def server_init_def demo_config_def default_config_def)

theorem requests_after_quit_are_executed_witness:
  "\<exists>s1 s2. on_client_event 7 (e_ready demo_event) demo_quit demo_server = Some s1 \<and> sdb s1 = db_empty_init \<and>
    on_client_event 7 \<lparr>r_readable = False, r_writable = False, r_error = False, r_hangup = True\<rparr> demo_gone (reap_closed s1) = Some s2 \<and>
    db_live (sdb s2) 1000 ''k'' = Some (VString ''v'', None)"
proof -
  have fits: "command_fits default_limits [''SET'', ''k'', ''v'']"
    by (simp add: command_fits_def default_limits_def line_fits_def INT64_MAX_def nat_to_string.simps)
  have gone: "rx demo_gone 0 \<in> {RecvEof, RecvError}" "\<forall>len. tx demo_gone 0 len = SendError" by (simp_all add: demo_gone_def)
  have "sdb demo_server = db_empty_init" by (simp add: demo_server_def demo_start_def demo_init_def server_init_def)
  then show ?thesis
    using requests_after_quit_are_executed [OF demo_reach demo_conn demo_quit_io(11,12,6,7) quit_input_def demo_quit_io(8) fits demo_quit_io(9,10,4,5,1-3)
        demo_quit_commands _ gone, of "\<lparr>r_readable = False, r_writable = False, r_error = False, r_hangup = True\<rparr>" 1000] by auto
qed

lemma demo_quit_step:
  obtains s1 k1 where "event_ok 1000 1000 demo_quit_event demo_server" "on_event demo_quit_event demo_server = Some s1" "server_reach Batch 1000 s1"
    "map_of (conns s1) 7 = Some k1" "buf_readable (k_out k1) = encode (RSimple ''OK'')"
proof -
  have fds: "listener demo_server = 3" "completion_eventfd demo_server = 4" "signal_fd demo_server = 5" "e_fd demo_quit_event = 7"
    "e_wakeup demo_quit_event = demo_quit" "e_ready demo_quit_event = e_ready demo_event"
    by (simp_all add: demo_server_def demo_start_def demo_quit_event_def)
  have ok: "event_ok 1000 1000 demo_quit_event demo_server"
    using demo_quit_io(1-3) demo_quit_commands demo_conn by (auto simp: event_ok_def fds)
  have ev: "on_event demo_quit_event demo_server = on_client_event 7 (e_ready demo_event) demo_quit demo_server" by (simp add: on_event_def fds)
  obtain s1 where s1: "on_event demo_quit_event demo_server = Some s1"
    using event_spec [OF reach_inv [OF demo_reach] ok] by blast
  have "server_reach Batch 1000 s1" using RStep [OF demo_reach, of Batch 1000] SEvent [OF ok] s1 by simp
  moreover obtain k1 where "map_of (conns s1) 7 = Some k1" "buf_readable (k_out k1) = encode (RSimple ''OK'')"
    using quit_leaves_input [OF reach_inv [OF demo_reach] demo_conn demo_quit_io(11,12,6,7) quit_input_def demo_quit_io(8-10,4,5), of s1] ev s1 by auto
  ultimately show ?thesis using that ok s1 by blast
qed

theorem batch_never_reuses_a_descriptor_witness:
  "\<exists>s1 k'. on_event demo_quit_event demo_server = Some s1 \<and> map_of (conns s1) 7 = Some k' \<and> k_id k' = k_id (new_conn 7 1 1000)"
proof -
  obtain s1 where s1: "event_ok 1000 1000 demo_quit_event demo_server" "on_event demo_quit_event demo_server = Some s1" using demo_quit_step by blast
  then show ?thesis using batch_never_reuses_a_descriptor [OF demo_reach BEvent [OF BStart s1] demo_conn] by blast
qed

theorem writing_keeps_the_stream_witness:
  "\<exists>s1 k1 k' s'. on_event demo_quit_event demo_server = Some s1 \<and> map_of (conns s1) 7 = Some k1 \<and> buf_readable (k_out k1) = encode (RSimple ''OK'') \<and>
    attempt_write demo_slow 0 (k1, s1) = Some (k', s') \<and>
    ((k_wire k' @ buf_readable (k_out k') = k_wire k1 @ buf_readable (k_out k1) \<and> k_close k' = k_close k1) \<or>
     (k_close k' \<and> buf_readable (k_out k') = [] \<and> (\<exists>lost. k_wire k' @ lost = k_wire k1 @ buf_readable (k_out k1))))"
proof -
  obtain s1 k1 where s1: "on_event demo_quit_event demo_server = Some s1" "server_reach Batch 1000 s1" "map_of (conns s1) 7 = Some k1"
    "buf_readable (k_out k1) = encode (RSimple ''OK'')" by (rule demo_quit_step)
  have w: "sockets_ok demo_slow" "ticks 1000 (tx_clock demo_slow) 1000"
    by (auto simp: demo_slow_def demo_event_def sockets_ok_def ticks_def mono_def split: if_splits)
  show ?thesis using writing_keeps_the_stream [OF s1(2,3) w] s1(1,3,4) by blast
qed

section \<open>Leaving\<close>

definition writes_snapshot :: "bg_task \<Rightarrow> bool" where
  "writes_snapshot task = (case task of WriteSnapshot path bytes now_unix \<Rightarrow> True | _ \<Rightarrow> False)"

lemma drain_without_saves: "list_all (\<lambda>task. \<not> writes_snapshot task) unfinished \<Longrightarrow> drain_pool unfinished sv = Some sv"
  by (induction unfinished) (auto simp: writes_snapshot_def split: bg_task.splits)

text \<open>Why \<open>unfinished\<close> matters: a background save that is still queued when the loop ends is written after the save of the
  shutdown and replaces it by the older keyspace.\<close>

lemma queued_bgsave_replaces_final_save:
  assumes sd: "shut_down m u s = Some (e, s1)" "fs_ok (disk (ssave s1))"
    and w: "write_snapshot_file path bytes (io (ssave s1)) (disk (ssave s1)) = Some (None, fs, rest)"
  shows "\<exists>s'. server_exit [WriteSnapshot path bytes t] m u s = Some (e, s') \<and> file_at (disk (ssave s')) path = Some (bytes, True)"
  using sd(1) w write_snapshot_file_spec(2) [OF sd(2) w] by (simp add: server_exit_def bgsave_task_def)

end
