(* ===== verification/Thread_Pool.thy ===== *)
theory Thread_Pool
  imports Prelude "HOL-Library.Multiset"
begin

text \<open>
  The worker pool of \<^verbatim>\<open>util/thread_pool.cpp\<close> as a state machine. One step is one critical section of the
  mutex, one notification of the condition variable, or the end of a task; any interleaving of the loop
  thread and the workers is a path of the step relation, spurious wakeups included. The waits and
  notifications are kept apart from the queue operations, as in the code, so that a lost wakeup would be
  visible. Two ghost fields record which tasks were submitted and which have been run.
\<close>

section \<open>The pool\<close>

datatype 'a worker = Checking | Asleep | Running 'a | Exited

record 'a pool =
  pqueue :: "'a list"
  pstop :: bool
  pworkers :: "'a worker list"
  pending_one :: nat
  pending_all :: bool
  submitted :: "'a list"
  completed :: "'a list"

text \<open>The constructor starts the workers at the top of \<^verbatim>\<open>worker_loop\<close>.\<close>

definition pool_start :: "nat \<Rightarrow> 'a pool" where
  "pool_start worker_count = \<lparr>pqueue = [], pstop = False, pworkers = replicate worker_count Checking,
     pending_one = 0, pending_all = False, submitted = [], completed = []\<rparr>"

text \<open>\<^verbatim>\<open>submit\<close>: the push under the lock; \<^verbatim>\<open>notify_one\<close> comes after the unlock.\<close>

definition submit_push :: "'a \<Rightarrow> 'a pool \<Rightarrow> 'a pool" where
  "submit_push t p = p\<lparr>pqueue := pqueue p @ [t], pending_one := pending_one p + 1, submitted := submitted p @ [t]\<rparr>"

text \<open>The destructor: \<^verbatim>\<open>stop_\<close> under the lock, then \<^verbatim>\<open>notify_all\<close>; joining waits for every worker to be \<^term>\<open>Exited\<close>.\<close>

definition stop_request :: "'a pool \<Rightarrow> 'a pool" where
  "stop_request p = p\<lparr>pstop := True, pending_all := True\<rparr>"

definition wake :: "'a worker \<Rightarrow> 'a worker" where
  "wake w = (if w = Asleep then Checking else w)"

definition notify_one :: "nat \<Rightarrow> 'a pool \<Rightarrow> 'a pool" where
  "notify_one i p = p\<lparr>pending_one := pending_one p - 1, pworkers := (pworkers p)[i := wake (pworkers p ! i)]\<rparr>"

definition notify_all :: "'a pool \<Rightarrow> 'a pool" where
  "notify_all p = p\<lparr>pending_all := False, pworkers := map wake (pworkers p)\<rparr>"

text \<open>One pass of \<^verbatim>\<open>worker_loop\<close> through its critical section: wait, leave, or take the front task.\<close>

definition worker_check :: "nat \<Rightarrow> 'a pool \<Rightarrow> 'a pool" where
  "worker_check i p =
    (if \<not> (pstop p \<or> pqueue p \<noteq> []) then p\<lparr>pworkers := (pworkers p)[i := Asleep]\<rparr>
     else case pqueue p of
       [] \<Rightarrow> p\<lparr>pworkers := (pworkers p)[i := Exited]\<rparr>
     | t # rest \<Rightarrow> p\<lparr>pqueue := rest, pworkers := (pworkers p)[i := Running t]\<rparr>)"

text \<open>The task returns, or throws and is caught: the loop goes on either way.\<close>

definition worker_done :: "nat \<Rightarrow> 'a \<Rightarrow> 'a pool \<Rightarrow> 'a pool" where
  "worker_done i t p = p\<lparr>pworkers := (pworkers p)[i := Checking], completed := completed p @ [t]\<rparr>"

inductive pool_step :: "'a pool \<Rightarrow> 'a pool \<Rightarrow> bool" where
  Submit: "\<not> pstop p \<Longrightarrow> pool_step p (submit_push t p)"
| Stop: "\<not> pstop p \<Longrightarrow> pending_one p = 0 \<Longrightarrow> pool_step p (stop_request p)"
| NotifyOne: "0 < pending_one p \<Longrightarrow> i < length (pworkers p) \<Longrightarrow> pworkers p ! i = Asleep \<or> Asleep \<notin> set (pworkers p) \<Longrightarrow>
    pool_step p (notify_one i p)"
| NotifyAll: "pending_all p \<Longrightarrow> pool_step p (notify_all p)"
| Spurious: "i < length (pworkers p) \<Longrightarrow> pworkers p ! i = Asleep \<Longrightarrow> pool_step p (p\<lparr>pworkers := (pworkers p)[i := Checking]\<rparr>)"
| Check: "i < length (pworkers p) \<Longrightarrow> pworkers p ! i = Checking \<Longrightarrow> pool_step p (worker_check i p)"
| Done: "i < length (pworkers p) \<Longrightarrow> pworkers p ! i = Running t \<Longrightarrow> pool_step p (worker_done i t p)"

inductive pool_reach :: "nat \<Rightarrow> 'a pool \<Rightarrow> bool" for n where
  Start: "pool_reach n (pool_start n)"
| Step: "pool_reach n p \<Longrightarrow> pool_step p p' \<Longrightarrow> pool_reach n p'"

section \<open>Invariant\<close>

fun running :: "'a worker \<Rightarrow> 'a list" where
  "running (Running t) = [t]" | "running Checking = []" | "running Asleep = []" | "running Exited = []"

definition in_progress :: "'a pool \<Rightarrow> 'a multiset" where
  "in_progress p = mset (concat (map running (pworkers p)))"

text \<open>A worker that will look at the queue again without being notified.\<close>

fun awake :: "'a worker \<Rightarrow> bool" where
  "awake Checking = True" | "awake (Running t) = True" | "awake Asleep = False" | "awake Exited = False"

definition pool_inv :: "nat \<Rightarrow> 'a pool \<Rightarrow> bool" where
  "pool_inv n p \<longleftrightarrow>
     length (pworkers p) = n \<and>
     mset (submitted p) = mset (completed p) + in_progress p + mset (pqueue p) \<and>
     (\<exists>taken. submitted p = taken @ pqueue p) \<and>
     (Exited \<in> set (pworkers p) \<longrightarrow> pstop p \<and> pqueue p = []) \<and>
     (pending_all p \<longrightarrow> pstop p) \<and>
     (pstop p \<longrightarrow> pending_one p = 0) \<and>
     (pstop p \<and> \<not> pending_all p \<longrightarrow> Asleep \<notin> set (pworkers p)) \<and>
     (pqueue p \<noteq> [] \<and> \<not> pstop p \<and> 0 < n \<longrightarrow> 0 < pending_one p \<or> (\<exists>w \<in> set (pworkers p). awake w))"

lemma in_progress_update:
  assumes "i < length ws"
  shows "mset (concat (map running (ws[i := w]))) + mset (running (ws ! i)) = mset (concat (map running ws)) + mset (running w)"
proof -
  have "ws = take i ws @ ws ! i # drop (Suc i) ws" using assms by (simp add: id_take_nth_drop)
  then obtain xs ys where "ws = xs @ ws ! i # ys" "length xs = i" using assms by (metis length_take min.absorb4)
  then have "map running ws = map running xs @ running (ws ! i) # map running ys" "ws[i := w] = xs @ w # ys"
    by (metis list.simps(9) map_append, metis list_update_length)
  then show ?thesis by (simp add: add.commute add.left_commute)
qed

lemma awake_update: "i < length ws \<Longrightarrow> awake w \<Longrightarrow> \<exists>x \<in> set (ws[i := w]). awake x"
  by (metis set_update_memI)

lemma wake_simps [simp]: "wake Asleep = Checking" "wake Checking = Checking" "wake (Running t) = Running t" "wake Exited = Exited"
  by (simp_all add: wake_def)

lemma running_wake [simp]: "running (wake w) = running w"
  by (cases w) simp_all

lemma pool_start_inv: "pool_inv n (pool_start n)"
  by (induction n) (auto simp: pool_inv_def pool_start_def in_progress_def)

lemma in_progress_set:
  assumes "i < length (pworkers p)" "running (pworkers p ! i) = xs"
  shows "in_progress (p\<lparr>pworkers := (pworkers p)[i := w]\<rparr>) + mset xs = in_progress p + mset (running w)"
  using in_progress_update [OF assms(1), of w] assms(2) by (simp add: in_progress_def)

lemma set_update_iff: "i < length ws \<Longrightarrow> x \<in> set (ws[i := w]) \<Longrightarrow> x = w \<or> x \<in> set ws"
  by (meson insertE set_update_subset_insert subsetD)

lemma not_asleep_awake:
  assumes "pool_inv n p" "\<not> pstop p" "i < length (pworkers p)" "pworkers p ! i \<noteq> Asleep"
  shows "awake (pworkers p ! i)"
  using assms nth_mem [OF assms(3)] by (cases "pworkers p ! i") (auto simp: pool_inv_def)

lemma notify_one_inv:
  assumes inv: "pool_inv n p" and pos: "0 < pending_one p" and i: "i < length (pworkers p)"
    and c: "pworkers p ! i = Asleep \<or> Asleep \<notin> set (pworkers p)"
  shows "pool_inv n (notify_one i p)"
proof -
  let ?w = "wake (pworkers p ! i)"
  have ns: "\<not> pstop p" using inv pos by (auto simp: pool_inv_def)
  have "awake ?w"
    using not_asleep_awake [OF inv ns i] by (cases "pworkers p ! i = Asleep") (auto simp: wake_def)
  then have aw: "\<exists>x \<in> set ((pworkers p)[i := ?w]). awake x" by (rule awake_update [OF i])
  have "in_progress (p\<lparr>pworkers := (pworkers p)[i := ?w]\<rparr>) = in_progress p"
    using in_progress_set [OF i refl, of ?w] by simp
  then have ip: "in_progress (notify_one i p) = in_progress p" by (simp add: notify_one_def in_progress_def)
  have "Exited \<notin> set (pworkers p)" using inv ns by (auto simp: pool_inv_def)
  then have ex: "Exited \<notin> set ((pworkers p)[i := ?w])"
    using set_update_iff [OF i, of Exited ?w] \<open>awake ?w\<close> by auto
  show ?thesis
    using inv ns ip aw ex unfolding pool_inv_def by (simp add: notify_one_def)
qed

lemma notify_all_inv: "pool_inv n p \<Longrightarrow> pending_all p \<Longrightarrow> pool_inv n (notify_all p)"
proof -
  assume inv: "pool_inv n p" and pa: "pending_all p"
  have "in_progress (notify_all p) = in_progress p"
    by (simp add: in_progress_def notify_all_def comp_def)
  moreover have "Asleep \<notin> set (map wake (pworkers p))" "Exited \<in> set (map wake (pworkers p)) \<Longrightarrow> Exited \<in> set (pworkers p)"
    by (auto simp: wake_def split: if_splits)
  ultimately show ?thesis
    using inv pa unfolding pool_inv_def by (simp add: notify_all_def)
qed

lemma spurious_inv:
  assumes inv: "pool_inv n p" and i: "i < length (pworkers p)" "pworkers p ! i = Asleep"
  shows "pool_inv n (p\<lparr>pworkers := (pworkers p)[i := Checking]\<rparr>)"
proof -
  have "in_progress (p\<lparr>pworkers := (pworkers p)[i := Checking]\<rparr>) = in_progress p"
    using in_progress_set [OF i(1), of "[]" Checking] i(2) by simp
  moreover have "\<exists>x \<in> set ((pworkers p)[i := Checking]). awake x" by (rule awake_update [OF i(1)]) simp
  moreover have "x \<in> set ((pworkers p)[i := Checking]) \<Longrightarrow> x \<noteq> Checking \<Longrightarrow> x \<in> set (pworkers p)" for x
    using set_update_iff [OF i(1)] by blast
  ultimately show ?thesis
    using inv unfolding pool_inv_def by simp (metis worker.distinct(1,5))
qed

lemma check_inv:
  assumes inv: "pool_inv n p" and i: "i < length (pworkers p)" "pworkers p ! i = Checking"
  shows "pool_inv n (worker_check i p)"
proof -
  have ip: "in_progress (p\<lparr>pworkers := (pworkers p)[i := w]\<rparr>) = in_progress p + mset (running w)" for w
    using in_progress_set [OF i(1), of "[]" w] i(2) by simp
  have mem: "x \<in> set ((pworkers p)[i := w]) \<Longrightarrow> x \<noteq> w \<Longrightarrow> x \<in> set (pworkers p)" for x w
    using set_update_iff [OF i(1)] by blast
  consider "\<not> pstop p" "pqueue p = []" | "pstop p" "pqueue p = []" | t rest where "pqueue p = t # rest"
    by (cases "pqueue p") auto
  then show ?thesis
  proof cases
    case 1
    then show ?thesis
      using inv ip [of Asleep] mem [of Exited Asleep] unfolding pool_inv_def by (auto simp: worker_check_def)
  next
    case 2
    then show ?thesis
      using inv ip [of Exited] mem [of Asleep Exited] unfolding pool_inv_def by (auto simp: worker_check_def)
  next
    case 3
    have "in_progress (p\<lparr>pqueue := rest, pworkers := (pworkers p)[i := Running t]\<rparr>) = in_progress p + {#t#}"
      using ip [of "Running t"] by (simp add: in_progress_def)
    moreover have "\<exists>x \<in> set ((pworkers p)[i := Running t]). awake x" by (rule awake_update [OF i(1)]) simp
    moreover have "Exited \<notin> set ((pworkers p)[i := Running t])" "Asleep \<in> set ((pworkers p)[i := Running t]) \<Longrightarrow> Asleep \<in> set (pworkers p)"
      using inv 3 mem [of Exited "Running t"] mem [of Asleep "Running t"] by (auto simp: pool_inv_def)
    moreover obtain taken where "submitted p = (taken @ [t]) @ rest" using inv 3 by (auto simp: pool_inv_def)
    ultimately show ?thesis
      using inv 3 unfolding pool_inv_def by (simp add: worker_check_def) blast
  qed
qed

lemma done_inv:
  assumes inv: "pool_inv n p" and i: "i < length (pworkers p)" "pworkers p ! i = Running t"
  shows "pool_inv n (worker_done i t p)"
proof -
  have "in_progress (worker_done i t p) + {#t#} = in_progress p"
    using in_progress_set [OF i(1), of "[t]" Checking] i(2) by (simp add: in_progress_def worker_done_def)
  then have "mset (completed (worker_done i t p)) + in_progress (worker_done i t p) = mset (completed p) + in_progress p"
    by (simp add: worker_done_def)
  moreover have "\<exists>x \<in> set ((pworkers p)[i := Checking]). awake x" by (rule awake_update [OF i(1)]) simp
  moreover have "x \<in> set ((pworkers p)[i := Checking]) \<Longrightarrow> x \<noteq> Checking \<Longrightarrow> x \<in> set (pworkers p)" for x
    using set_update_iff [OF i(1)] by blast
  ultimately show ?thesis
    using inv unfolding pool_inv_def by (simp add: worker_done_def) (metis worker.distinct(1,5))
qed

lemma pool_step_inv: "pool_step p p' \<Longrightarrow> pool_inv n p \<Longrightarrow> pool_inv n p'"
proof (induction rule: pool_step.induct)
  case (Submit p t)
  then show ?case by (auto simp: pool_inv_def submit_push_def in_progress_def)
next
  case (Stop p)
  then show ?case by (auto simp: pool_inv_def stop_request_def in_progress_def)
qed (blast intro: notify_one_inv notify_all_inv spurious_inv check_inv done_inv)+

lemma pool_reach_inv: "pool_reach n p \<Longrightarrow> pool_inv n p"
  by (induction rule: pool_reach.induct) (auto intro: pool_start_inv pool_step_inv)

section \<open>What the pool promises\<close>

text \<open>C25: no task is lost or run twice. In every reachable state, however the threads were interleaved, the
  submitted tasks are exactly those completed, being run and queued; tasks leave the queue in the order of
  submission; and once every worker has exited, as the destructor waits for, every submitted task has been
  run.\<close>
theorem pool_runs_every_task_once:
  assumes r: "pool_reach n p" and n: "0 < n"
  shows "mset (submitted p) = mset (completed p) + in_progress p + mset (pqueue p) \<and> (\<exists>taken. submitted p = taken @ pqueue p) \<and>
    ((\<forall>w \<in> set (pworkers p). w = Exited) \<longrightarrow> mset (completed p) = mset (submitted p))"
proof -
  have inv: "pool_inv n p" by (rule pool_reach_inv [OF r])
  have "in_progress p = {#} \<and> pqueue p = []" if all: "\<forall>w \<in> set (pworkers p). w = Exited"
  proof -
    have "pworkers p \<noteq> []" using inv n by (auto simp: pool_inv_def)
    then have "Exited \<in> set (pworkers p)" using all by (metis list.set_intros(1) neq_Nil_conv)
    moreover have "concat (map running (pworkers p)) = []" using all by auto
    ultimately show ?thesis using inv by (simp add: pool_inv_def in_progress_def)
  qed
  then show ?thesis
    using inv by (auto simp: pool_inv_def)
qed

text \<open>C26: no wakeup is lost. In every reachable state in which a task is queued, or the pool has been told to
  stop and a worker has not left, someone can move: a notification is still to be delivered, or a worker is
  running a task or about to look at the queue.\<close>
theorem pool_never_stuck:
  assumes r: "pool_reach n p" and n: "0 < n" and work: "pqueue p \<noteq> [] \<or> (pstop p \<and> (\<exists>w \<in> set (pworkers p). w \<noteq> Exited))"
  shows "0 < pending_one p \<or> pending_all p \<or> (\<exists>w \<in> set (pworkers p). awake w)"
proof -
  have inv: "pool_inv n p" by (rule pool_reach_inv [OF r])
  show ?thesis
  proof (cases "pstop p \<and> \<not> pending_all p")
    case True
    obtain w where w: "w \<in> set (pworkers p)" "w \<noteq> Exited"
    proof (cases "pqueue p = []")
      case True
      then show ?thesis using that work by blast
    next
      case False
      then have "Exited \<notin> set (pworkers p)" "hd (pworkers p) \<in> set (pworkers p)"
        using inv n by (auto simp: pool_inv_def)
      then show ?thesis using that by metis
    qed
    have "w \<noteq> Asleep" using True inv w(1) by (auto simp: pool_inv_def)
    with w(2) have "awake w" by (cases w) simp_all
    then show ?thesis using w(1) by blast
  next
    case False
    then show ?thesis using work inv n by (auto simp: pool_inv_def)
  qed
qed

lemma demo_pool_reach:
  "pool_reach 1 (worker_done 0 ''t'' (worker_check 0 (stop_request (notify_one 0 (submit_push ''t'' (worker_check 0 (pool_start 1)))))))"
proof -
  let ?a = "pool_start 1 :: string pool"
  let ?b = "worker_check 0 ?a"
  let ?c = "submit_push ''t'' ?b"
  let ?d = "notify_one 0 ?c"
  let ?e = "stop_request ?d"
  let ?f = "worker_check 0 ?e"
  note S = pool_start_def worker_check_def submit_push_def notify_one_def stop_request_def worker_done_def wake_def
  have "pool_reach 1 ?b" by (rule Step [OF Start Check]) (simp_all add: S)
  then have "pool_reach 1 ?c" by (rule Step [OF _ Submit]) (simp add: S)
  then have "pool_reach 1 ?d" by (rule Step [OF _ NotifyOne]) (simp_all add: S)
  then have "pool_reach 1 ?e" by (rule Step [OF _ Stop]) (simp_all add: S)
  then have "pool_reach 1 ?f" by (rule Step [OF _ Check]) (simp_all add: S)
  then show ?thesis by (rule Step [OF _ Done]) (simp_all add: S)
qed

definition demo_pool :: "string pool" where
  "demo_pool = worker_done 0 ''t'' (worker_check 0 (stop_request (notify_one 0 (submit_push ''t'' (worker_check 0 (pool_start 1))))))"

theorem pool_runs_every_task_once_witness:
  "mset (submitted demo_pool) = mset (completed demo_pool) + in_progress demo_pool + mset (pqueue demo_pool) \<and> submitted demo_pool = [''t'']"
proof -
  have "submitted demo_pool = [''t'']" by code_simp
  then show ?thesis
    using pool_runs_every_task_once [OF demo_pool_reach [folded demo_pool_def]] by simp
qed

theorem pool_never_stuck_witness:
  "0 < pending_one demo_pool \<or> pending_all demo_pool \<or> (\<exists>w \<in> set (pworkers demo_pool). awake w)"
proof (rule pool_never_stuck [OF demo_pool_reach [folded demo_pool_def]])
  have "pstop demo_pool" "pworkers demo_pool = [Checking]" by code_simp+
  then show "pqueue demo_pool \<noteq> [] \<or> (pstop demo_pool \<and> (\<exists>w \<in> set (pworkers demo_pool). w \<noteq> Exited))" by simp
qed simp

end
