(* ===== verification/Reply_Parser.thy ===== *)
theory Reply_Parser
  imports Parse Resp_Writer
begin

text \<open>
  The reply parser of the load generator, \<^verbatim>\<open>bench/loadgen/reply_parser.cpp\<close>: the other end of the wire. It only
  finds out how many bytes one reply takes. Recursion and element loop are mutually recursive with fuel;
  every call consumes input, so twice the length of the input is enough. The theory shows that the parser
  is total and recognises every reply the server writes, provided its header lines are within the
  parser's limit.
\<close>

section \<open>The parser\<close>

datatype reply_status = ReplyOk | ReplyIncomplete | ReplyError

definition kMaxHeaderLineLen :: nat where "kMaxHeaderLineLen = 512"

definition lg_find_crlf :: "string \<Rightarrow> nat \<Rightarrow> nat option" where
  "lg_find_crlf data from = map_option (\<lambda>i. from + i) (find_crlf (take (kMaxHeaderLineLen + 2) (drop from data)))"

definition lg_parse_i64 :: "string \<Rightarrow> int option" where
  "lg_parse_i64 s =
    (if s = [] then None
     else case from_chars_i64 s of Inl _ \<Rightarrow> None | Inr (v, rest) \<Rightarrow> if rest \<noteq> [] then None else Some v)"

definition line_type :: "char \<Rightarrow> bool" where "line_type c \<longleftrightarrow> c = CHR ''+'' \<or> c = CHR ''-'' \<or> c = CHR '':''"
definition known_type :: "char \<Rightarrow> bool" where "known_type c \<longleftrightarrow> line_type c \<or> c = CHR ''$'' \<or> c = CHR ''*''"

text \<open>The payload of a bulk string of \<open>n\<close> bytes whose header line ends at \<open>line_end\<close>.\<close>

definition bulk_value :: "string \<Rightarrow> nat \<Rightarrow> nat \<Rightarrow> nat \<Rightarrow> reply_status \<times> nat" where
  "bulk_value data pos line_end n =
    (let body_start = line_end + 2; body_needed = n + 2 in
     if length data < body_start + body_needed then (ReplyIncomplete, 0)
     else if data ! (body_start + n) \<noteq> CR \<or> data ! (body_start + n + 1) \<noteq> LF then (ReplyError, 0)
     else (ReplyOk, body_start + body_needed - pos))"

fun parse_value :: "nat \<Rightarrow> string \<Rightarrow> nat \<Rightarrow> (reply_status \<times> nat) option"
  and parse_elements :: "nat \<Rightarrow> string \<Rightarrow> nat \<Rightarrow> nat \<Rightarrow> (reply_status \<times> nat) option" where
  "parse_value 0 data pos = None"
| "parse_value (Suc f) data pos =
    (if length data \<le> pos then Some (ReplyIncomplete, 0)
     else let type = data ! pos in
       if \<not> known_type type then Some (ReplyError, 0)
       else case lg_find_crlf data (pos + 1) of
         None \<Rightarrow> Some (ReplyIncomplete, 0)
       | Some line_end \<Rightarrow>
           let line = take (line_end - (pos + 1)) (drop (pos + 1) data) in
           if line_type type then Some (ReplyOk, line_end + 2 - pos)
           else case lg_parse_i64 line of
             None \<Rightarrow> Some (ReplyError, 0)
           | Some n \<Rightarrow>
               if n < - 1 then Some (ReplyError, 0)
               else if n = - 1 then Some (ReplyOk, line_end + 2 - pos)
               else if type = CHR ''$'' then Some (bulk_value data pos line_end (nat n))
               else case parse_elements f data (nat n) (line_end + 2) of
                 None \<Rightarrow> None
               | Some (st, cursor) \<Rightarrow> if st = ReplyOk then Some (ReplyOk, cursor - pos) else Some (st, 0))"
| "parse_elements 0 data n cursor = None"
| "parse_elements (Suc f) data 0 cursor = Some (ReplyOk, cursor)"
| "parse_elements (Suc f) data (Suc n) cursor =
    (case parse_value f data cursor of
       None \<Rightarrow> None
     | Some (st, c) \<Rightarrow> if st \<noteq> ReplyOk then Some (st, 0) else parse_elements f data n (cursor + c))"

record reply_result =
  rp_status :: reply_status
  rp_consumed :: nat
  rp_is_error :: bool

definition parse_reply :: "string \<Rightarrow> reply_result option" where
  "parse_reply data = do {
     (st, c) \<leftarrow> parse_value (2 * length data + 1) data 0;
     Some (if st = ReplyOk then \<lparr>rp_status = ReplyOk, rp_consumed = c, rp_is_error = (data \<noteq> [] \<and> hd data = CHR ''-'')\<rparr>
           else \<lparr>rp_status = st, rp_consumed = 0, rp_is_error = False\<rparr>)
   }"

section \<open>The parser is total\<close>

lemma lg_find_crlf_bound: "lg_find_crlf data from = Some i \<Longrightarrow> from \<le> i \<and> i + 2 \<le> length data"
  using find_crlf_bound by (fastforce simp: lg_find_crlf_def)

lemma parse_total:
  "2 * (length data - pos) + 1 \<le> f \<Longrightarrow> \<exists>st c. parse_value f data pos = Some (st, c) \<and> (st = ReplyOk \<longrightarrow> 3 \<le> c \<and> pos + c \<le> length data)"
  "2 * (length data - cur) + 2 \<le> f \<Longrightarrow> cur \<le> length data \<Longrightarrow>
    \<exists>st c. parse_elements f data n cur = Some (st, c) \<and> (st = ReplyOk \<longrightarrow> cur \<le> c \<and> c \<le> length data)"
proof (induction f data pos and f data n cur rule: parse_value_parse_elements.induct)
  case (2 f data pos)
  show ?case
  proof (cases "length data \<le> pos \<or> \<not> known_type (data ! pos) \<or> lg_find_crlf data (pos + 1) = None")
    case True
    then show ?thesis by (auto simp: Let_def)
  next
    case False
    then obtain e where e: "lg_find_crlf data (pos + 1) = Some e" by auto
    note b = lg_find_crlf_bound [OF e]
    let ?line = "take (e - (pos + 1)) (drop (pos + 1) data)"
    have known: "pos < length data" "known_type (data ! pos)" using False by auto
    note step = parse_value.simps(2) [of f data pos] Let_def
    consider "line_type (data ! pos)" | "\<not> line_type (data ! pos)" "lg_parse_i64 ?line = None"
      | n where "\<not> line_type (data ! pos)" "lg_parse_i64 ?line = Some n" "n \<le> - 1 \<or> data ! pos = CHR ''$''"
      | n where "\<not> line_type (data ! pos)" "lg_parse_i64 ?line = Some n" "\<not> n < - 1" "n \<noteq> - 1" "data ! pos \<noteq> CHR ''$''"
      by force
    then show ?thesis
    proof cases
      case (3 n)
      have "\<exists>st c. bulk_value data pos e (nat n) = (st, c) \<and> (st = ReplyOk \<longrightarrow> 3 \<le> c \<and> pos + c \<le> length data)"
        using b by (auto simp: bulk_value_def Let_def)
      then show ?thesis using known e b 3 by (auto simp: step)
    next
      case (4 n)
      have "2 * (length data - (e + 2)) + 2 \<le> f" using b 2(2) by linarith
      then have "\<exists>st c. parse_elements f data (nat n) (e + 2) = Some (st, c) \<and> (st = ReplyOk \<longrightarrow> e + 2 \<le> c \<and> c \<le> length data)"
        using 2(1) [OF _ refl _ e refl 4] known b by simp
      then show ?thesis using known e b 4 by (auto simp: step)
    qed (use known e b in \<open>auto simp: step\<close>)
  qed
next
  case (5 f data n cur)
  obtain st c where v: "parse_value f data cur = Some (st, c)" "st = ReplyOk \<longrightarrow> 3 \<le> c \<and> cur + c \<le> length data"
    using 5(1) 5(3) by auto
  show ?case
  proof (cases "st = ReplyOk")
    case True
    then show ?thesis using 5(2) [OF v(1) refl] v 5(3) by fastforce
  next
    case False
    then show ?thesis using v by simp
  qed
qed auto

lemma parse_reply_total: "\<exists>r. parse_reply data = Some r \<and> rp_consumed r \<le> length data"
  using parse_total(1) [of data 0 "2 * length data + 1"] by (auto simp: parse_reply_def)

section \<open>The parser recognises what the server writes\<close>

fun short :: "reply \<Rightarrow> bool" where
  "short (RSimple s) = (length s \<le> kMaxHeaderLineLen)"
| "short (RError s) = (length s \<le> kMaxHeaderLineLen)"
| "short (RInt n) = (length (int_to_string n) \<le> kMaxHeaderLineLen)"
| "short (RBulk s) = (in_i64 (int (length s)) \<and> length (nat_to_string (length s)) \<le> kMaxHeaderLineLen)"
| "short (RArray rs) = (in_i64 (int (length rs)) \<and> length (nat_to_string (length rs)) \<le> kMaxHeaderLineLen \<and> list_all short rs)"
| "short _ = True"

lemma lg_line:
  assumes "CR \<notin> set line" "length line \<le> kMaxHeaderLineLen"
  shows "lg_find_crlf (pre @ c # line @ CRLF @ post) (length pre + 1) = Some (length pre + 1 + length line)"
proof -
  have "take (kMaxHeaderLineLen + 2) (line @ CRLF @ post) = line @ CRLF @ take (kMaxHeaderLineLen - length line) post"
    using assms(2) by (simp add: CRLF_def Suc_diff_le)
  then show ?thesis using find_crlf_line [OF assms(1)] by (simp add: lg_find_crlf_def)
qed

lemma lg_i64: "in_i64 i \<Longrightarrow> lg_parse_i64 (int_to_string i) = Some i"
  using parse_int64_to_string by (simp add: parse_int64_def lg_parse_i64_def)

lemma lg_nat: "in_i64 (int n) \<Longrightarrow> lg_parse_i64 (nat_to_string n) = Some (int n)"
  using lg_i64 [of "int n"] by (simp add: int_to_string_def)

lemma types [simp]: "line_type (CHR ''+'')" "line_type (CHR ''-'')" "line_type (CHR '':'')" "\<not> line_type (CHR ''$'')" "\<not> line_type (CHR ''*'')"
  "known_type (CHR ''+'')" "known_type (CHR ''-'')" "known_type (CHR '':'')" "known_type (CHR ''$'')" "known_type (CHR ''*'')"
  by (simp_all add: line_type_def known_type_def)

lemma value_line:
  assumes "line_type c" "CR \<notin> set line" "length line \<le> kMaxHeaderLineLen"
  shows "parse_value (Suc f) (pre @ c # line @ CRLF @ post) (length pre) = Some (ReplyOk, length line + 3)"
  using lg_line [OF assms(2,3), of pre c post] assms(1) by (simp add: nth_append known_type_def)

text \<open>A value whose header line is a number.\<close>

lemma value_counted:
  assumes "known_type c" "\<not> line_type c" "CR \<notin> set line" "length line \<le> kMaxHeaderLineLen" "lg_parse_i64 line = Some n" "- 1 \<le> n"
  shows "parse_value (Suc f) (pre @ c # line @ CRLF @ post) (length pre) =
    (if n = - 1 then Some (ReplyOk, length line + 3)
     else if c = CHR ''$'' then Some (bulk_value (pre @ c # line @ CRLF @ post) (length pre) (length pre + 1 + length line) (nat n))
     else case parse_elements f (pre @ c # line @ CRLF @ post) (nat n) (Suc (Suc (Suc (length line + length pre)))) of
       None \<Rightarrow> None | Some (st, cursor) \<Rightarrow> if st = ReplyOk then Some (ReplyOk, cursor - length pre) else Some (st, 0))"
  using lg_line [OF assms(3,4), of pre c post] assms(1,2,5,6) by (simp add: nth_append Let_def add.commute add.left_commute)

lemma bulk_value_ok:
  "bulk_value (pre @ c # line @ CRLF @ s @ CRLF @ post) (length pre) (length pre + 1 + length line) (length s) = (ReplyOk, length line + length s + 5)"
proof -
  have "pre @ c # line @ CRLF @ s @ CRLF @ post = (pre @ c # line @ CRLF @ s) @ CRLF @ post" by simp
  moreover have "length (pre @ c # line @ CRLF @ s) = length pre + 3 + length line + length s" by (simp add: CRLF_def)
  ultimately have "(pre @ c # line @ CRLF @ s @ CRLF @ post) ! (length pre + 3 + length line + length s) = CR"
    "(pre @ c # line @ CRLF @ s @ CRLF @ post) ! (length pre + 3 + length line + length s + 1) = LF"
    by (metis CRLF_def append_Cons nth_append_length, metis CRLF_def append_Cons nth_append_length_plus nth_Cons_0 nth_Cons_Suc Suc_eq_plus1 add_0)
  then show ?thesis by (simp add: bulk_value_def CRLF_def Let_def add.commute add.left_commute numeral_eq_Suc)
qed

lemma encode_length: "3 \<le> length (encode r)"
  by (cases r) (simp_all add: CRLF_def)

lemma elements_recognised:
  assumes "\<And>r f pre post. r \<in> set rs \<Longrightarrow> 2 * length (encode r) + 1 \<le> f \<Longrightarrow>
      parse_value f (pre @ encode r @ post) (length pre) = Some (ReplyOk, length (encode r))"
    and "2 * length (concat (map encode rs)) + 2 \<le> f"
  shows "parse_elements f (pre @ concat (map encode rs) @ post) (length rs) (length pre) =
    Some (ReplyOk, length pre + length (concat (map encode rs)))"
  using assms
proof (induction rs arbitrary: f pre)
  case Nil
  then show ?case by (cases f) simp_all
next
  case (Cons r rs)
  obtain g where g: "f = Suc g" using Cons.prems(2) by (cases f) simp_all
  have v: "parse_value g (pre @ encode r @ concat (map encode rs) @ post) (length pre) = Some (ReplyOk, length (encode r))"
    using Cons.prems(1) [of r g pre "concat (map encode rs) @ post"] Cons.prems(2) g by simp
  have len: "2 * length (concat (map encode rs)) + 2 \<le> g" using Cons.prems(2) g encode_length [of r] by simp
  from Cons.IH [OF Cons.prems(1) len, of "pre @ encode r"] show ?case
    using v by (simp add: g add.assoc)
qed

lemma reply_recognised:
  "reply_ok r \<Longrightarrow> short r \<Longrightarrow> 2 * length (encode r) + 1 \<le> f \<Longrightarrow>
    parse_value f (pre @ encode r @ post) (length pre) = Some (ReplyOk, length (encode r))"
proof (induction r arbitrary: f pre post)
  case (RSimple s)
  then obtain g where "f = Suc g" by (cases f) simp_all
  then show ?case using RSimple value_line [of "CHR ''+''" s g pre post] by (simp add: CRLF_def)
next
  case (RError s)
  then obtain g where "f = Suc g" by (cases f) simp_all
  then show ?case using RError value_line [of "CHR ''-''" s g pre post] by (simp add: CRLF_def)
next
  case (RInt n)
  then obtain g where "f = Suc g" by (cases f) simp_all
  then show ?case using RInt value_line [of "CHR '':''" "int_to_string n" g pre post] by (simp add: CRLF_def)
next
  case (RBulk s)
  then obtain g where "f = Suc g" by (cases f) simp_all
  then show ?case
    using RBulk value_counted [of "CHR ''$''" "nat_to_string (length s)" "int (length s)" g pre "s @ CRLF @ post"] lg_nat [of "length s"]
      bulk_value_ok [of pre "CHR ''$''" "nat_to_string (length s)" s post] by (simp add: CRLF_def)
next
  case RNull
  then obtain g where "f = Suc g" by (cases f) simp_all
  moreover have "lg_parse_i64 ''-1'' = Some (- 1)" "CR \<notin> set ''-1''" by code_simp+
  ultimately show ?case
    using value_counted [of "CHR ''$''" "''-1''" "- 1" g pre post] by (simp add: CRLF_def kMaxHeaderLineLen_def)
next
  case (RArray rs)
  then obtain g where g: "f = Suc g" by (cases f) simp_all
  let ?line = "nat_to_string (length rs)" and ?body = "concat (map encode rs)"
  let ?pre = "pre @ CHR ''*'' # ?line @ CRLF"
  have "2 * length ?body + 2 \<le> g" using RArray.prems(3) g by (simp add: CRLF_def)
  then have pe: "parse_elements g (?pre @ ?body @ post) (length rs) (length ?pre) = Some (ReplyOk, length ?pre + length ?body)"
    using RArray.IH RArray.prems(1,2) by (intro elements_recognised) (auto simp: list_all_iff)
  have lp: "length ?pre = Suc (Suc (Suc (length ?line + length pre)))" by (simp add: CRLF_def)
  have "parse_elements g (pre @ CHR ''*'' # ?line @ CRLF @ ?body @ post) (length rs) (Suc (Suc (Suc (length ?line + length pre)))) =
    Some (ReplyOk, Suc (Suc (Suc (length ?line + length pre))) + length ?body)"
    using pe unfolding lp by simp
  then show ?case
    using value_counted [of "CHR ''*''" ?line "int (length rs)" g pre "?body @ post"] lg_nat [of "length rs"] RArray.prems(2) g by (simp add: CRLF_def)
next
  case RNullArray
  then obtain g where "f = Suc g" by (cases f) simp_all
  moreover have "lg_parse_i64 ''-1'' = Some (- 1)" "CR \<notin> set ''-1''" by code_simp+
  ultimately show ?case
    using value_counted [of "CHR ''*''" "''-1''" "- 1" g pre post] by (simp add: CRLF_def kMaxHeaderLineLen_def)
qed

text \<open>C39: the load generator recognises every reply the server writes. The parser is total; and on the bytes of any
  well-formed reply, nested arrays included, whose lines are within its limit, followed by anything, it reports
  exactly the bytes of that reply, and an error reply as such.\<close>
theorem reply_parser_recognises_replies:
  assumes "reply_ok r" "short r"
  shows "(\<forall>data. parse_reply data \<noteq> None) \<and>
    parse_reply (encode r @ post) = Some \<lparr>rp_status = ReplyOk, rp_consumed = length (encode r), rp_is_error = (\<exists>e. r = RError e)\<rparr>"
proof -
  have "hd (encode r @ post) = CHR ''-'' \<longleftrightarrow> (\<exists>e. r = RError e)" by (cases r) simp_all
  moreover have "encode r @ post \<noteq> []" using encode_length [of r] by auto
  moreover have "parse_value (2 * length (encode r @ post) + 1) (encode r @ post) 0 = Some (ReplyOk, length (encode r))"
    using reply_recognised [OF assms, of "2 * length (encode r @ post) + 1" "[]" post] by simp
  ultimately show ?thesis
    using parse_reply_total by (fastforce simp: parse_reply_def)
qed

theorem reply_parser_recognises_replies_witness:
  "(\<forall>data. parse_reply data \<noteq> None) \<and> parse_reply (encode (RArray [RBulk ''a'', RNull, RError ''e'']) @ ''+'') =
    Some \<lparr>rp_status = ReplyOk, rp_consumed = length (encode (RArray [RBulk ''a'', RNull, RError ''e''])), rp_is_error = (\<exists>e. RArray [RBulk ''a'', RNull, RError ''e''] = RError e)\<rparr>"
  by (rule reply_parser_recognises_replies) (simp_all add: kMaxHeaderLineLen_def nat_to_string.simps i64_defs CR_def LF_def)

text \<open>A long line stalls the load generator. A reply whose line is longer than the limit is reported as incomplete however
  many bytes follow it, so the client waits for ever, although the server may send error texts of any length.\<close>
theorem long_line_is_never_complete:
  assumes "kMaxHeaderLineLen < length s" "no_crlf s"
  shows "parse_reply (encode (RError s) @ post) = Some \<lparr>rp_status = ReplyIncomplete, rp_consumed = 0, rp_is_error = False\<rparr>"
proof -
  obtain c where c: "take (kMaxHeaderLineLen + 2) (s @ CRLF @ post) = take (kMaxHeaderLineLen + 2) s @ c" "length c \<le> 1" "set c \<subseteq> {CR}"
  proof -
    have "take (kMaxHeaderLineLen + 2 - length s) (CRLF @ post) = (if length s = kMaxHeaderLineLen + 1 then [CR] else [])"
      using assms(1) by (auto simp: CRLF_def take_Cons' )
    then show ?thesis by (intro that [of "take (kMaxHeaderLineLen + 2 - length s) (CRLF @ post)"]) auto
  qed
  have none: "find_crlf w = None" if "LF \<notin> set w" for w
    using that by (induction w rule: find_crlf.induct) auto
  have "LF \<notin> set (take (kMaxHeaderLineLen + 2) (s @ CRLF @ post))"
    using c(1,3) assms(2) set_take_subset [of "kMaxHeaderLineLen + 2" s] by (auto simp: CR_def LF_def)
  then have "lg_find_crlf (encode (RError s) @ post) 1 = None"
    using none by (simp add: lg_find_crlf_def)
  then show ?thesis by (simp add: parse_reply_def)
qed

theorem long_line_is_never_complete_witness:
  "parse_reply (encode (RError (replicate 600 (CHR ''x''))) @ ''+OK'') = Some \<lparr>rp_status = ReplyIncomplete, rp_consumed = 0, rp_is_error = False\<rparr>"
  by (rule long_line_is_never_complete) (simp_all add: kMaxHeaderLineLen_def CR_def LF_def)

end
