(* ===== verification/Histogram.thy ===== *)
theory Histogram
  imports Float64 Complex_Main "HOL-Library.Multiset"
begin

text \<open>
  The latency histogram of the load generator, \<^verbatim>\<open>bench/loadgen/histogram.cpp\<close>. Values up to \<^verbatim>\<open>kMaxTrackedUs\<close> stay
  below \<open>2 ^ 45\<close> in every intermediate result, so the shifts of the code are exact multiplications and divisions. The
  rank of \<^verbatim>\<open>percentile\<close> is computed from the double \<open>p\<close> as in the code, with the roundings of the conversion and of the
  product. The sum is a signed 64-bit integer: once an addition has overflowed, which is undefined, it has no value. The theory
  shows which rank a percentile asks for, and that it is read off with a relative error below one in thirty-two.
\<close>

section \<open>Doubles\<close>

text \<open>The operations of \<^verbatim>\<open>percentile\<close>: comparison, conversion of a count, product, and the integer that \<^verbatim>\<open>std::ceil\<close> returns.\<close>

definition f64_le :: "f64 \<Rightarrow> f64 \<Rightarrow> bool" where
  "f64_le a b \<longleftrightarrow> f64_lt a b \<or> f64_eq a b"

definition f64_one :: f64 where "f64_one = 0x3FF0000000000000"

definition f64_of_nat :: "nat \<Rightarrow> f64" where
  "f64_of_nat n = f64_make False (round_mag (n * 2 ^ 1074) 1)"

definition f64_mul :: "f64 \<Rightarrow> f64 \<Rightarrow> f64" where
  "f64_mul a b =
    (if f64_isnan a \<or> f64_isnan b then f64_nan False
     else let neg = (f64_neg a \<noteq> f64_neg b) in
       if f64_isinf a \<or> f64_isinf b then (if f64_mag a = 0 \<or> f64_mag b = 0 then f64_nan True else f64_inf neg)
       else f64_make neg (round_mag (mag_scaled (f64_mag a) * mag_scaled (f64_mag b)) (2 ^ 1074)))"

definition f64_ceil :: "f64 \<Rightarrow> int" where
  "f64_ceil x = - ((- f64_scaled x) div 2 ^ 1074)"

text \<open>The number a double stands for.\<close>

definition f64_value :: "f64 \<Rightarrow> real" where
  "f64_value x = real_of_int (f64_scaled x) / 2 ^ 1074"

section \<open>The code\<close>

definition kSubBucketCount :: nat where "kSubBucketCount = 32"
definition kMaxExponent :: nat where "kMaxExponent = 40"
definition kBucketCount :: nat where "kBucketCount = kMaxExponent * kSubBucketCount"
definition kMaxTrackedUs :: int where "kMaxTrackedUs = 2 ^ kMaxExponent - 1"

record histogram =
  hbuckets :: "nat list"
  hcount :: nat
  hmin_us :: int
  hmax_us :: int
  hsum_us :: "int ub"

definition hist_init :: histogram where
  "hist_init = \<lparr>hbuckets = replicate kBucketCount 0, hcount = 0, hmin_us = 0, hmax_us = 0, hsum_us = Some 0\<rparr>"

text \<open>The position of the highest bit; of 0 it would be undefined.\<close>

fun highest_bit :: "nat \<Rightarrow> nat" where
  "highest_bit v = (if v < 2 then 0 else Suc (highest_bit (v div 2)))"

declare highest_bit.simps [simp del]

definition lat_bucket :: "nat \<Rightarrow> nat" where
  "lat_bucket v = (let e = highest_bit v; sub = (v - 2 ^ e) * kSubBucketCount div 2 ^ e in e * kSubBucketCount + sub)"

definition bucket_lower_bound :: "nat \<Rightarrow> nat" where
  "bucket_lower_bound b =
    (let e = b div kSubBucketCount; sub = b mod kSubBucketCount; octave_base = 2 ^ e in
     octave_base + octave_base * sub div kSubBucketCount)"

definition clamp :: "int \<Rightarrow> nat" where
  "clamp v = nat (max 1 (min v kMaxTrackedUs))"

definition add_i64 :: "int ub \<Rightarrow> int \<Rightarrow> int ub" where
  "add_i64 a b = do { x \<leftarrow> a; if in_i64 (x + b) then Some (x + b) else None }"

definition hist_record :: "int \<Rightarrow> histogram \<Rightarrow> histogram" where
  "hist_record us h =
    (let b = lat_bucket (clamp us) in
     h\<lparr>hmin_us := (if hcount h = 0 \<or> us < hmin_us h then us else hmin_us h),
       hmax_us := (if hcount h = 0 \<or> hmax_us h < us then us else hmax_us h),
       hsum_us := add_i64 (hsum_us h) us, hcount := hcount h + 1,
       hbuckets := (hbuckets h)[b := hbuckets h ! b + 1]\<rparr>)"

fun find_bucket :: "nat \<Rightarrow> nat \<Rightarrow> nat list \<Rightarrow> nat \<Rightarrow> nat option" where
  "find_bucket cumulative b [] target = None"
| "find_bucket cumulative b (n # ns) target =
    (if target \<le> cumulative + n then Some b else find_bucket (cumulative + n) (b + 1) ns target)"

text \<open>\<^verbatim>\<open>max(1.0, ceil(p * count))\<close>; the maximum of 1 and a NaN is 1.\<close>

definition rank_target :: "f64 \<Rightarrow> nat \<Rightarrow> nat" where
  "rank_target p n =
    (let x = f64_mul p (f64_of_nat n) in if f64_isnan x then 1 else nat (max 1 (f64_ceil x)))"

definition percentile :: "f64 \<Rightarrow> histogram \<Rightarrow> int" where
  "percentile p h =
    (if hcount h = 0 then 0
     else if f64_le p 0 then hmin_us h
     else if f64_le f64_one p then hmax_us h
     else case find_bucket 0 0 (hbuckets h) (rank_target p (hcount h)) of
       Some b \<Rightarrow> int (bucket_lower_bound b)
     | None \<Rightarrow> hmax_us h)"

section \<open>Rounding\<close>

lemma nbits_bounds: "n < 2 ^ nbits n \<and> (0 < n \<longrightarrow> 2 ^ (nbits n - 1) \<le> n)"
proof (induction n rule: nbits.induct)
  case (1 n)
  show ?case
  proof (cases "n = 0")
    case False
    have h: "n div 2 < 2 ^ nbits (n div 2)" "0 < n div 2 \<longrightarrow> 2 ^ (nbits (n div 2) - 1) \<le> n div 2" using 1 False by auto
    have "n < 2 * 2 ^ nbits (n div 2)" using h(1) by linarith
    moreover have "2 ^ nbits (n div 2) \<le> n"
    proof (cases "n div 2 = 0")
      case True
      then show ?thesis using False by (simp add: nbits.simps [of 0])
    next
      case p: False
      then have "nbits (n div 2) = Suc (nbits (n div 2) - 1)" by (simp add: nbits.simps [of "n div 2"])
      then have "(2::nat) ^ nbits (n div 2) = 2 * 2 ^ (nbits (n div 2) - 1)" by (metis power_Suc)
      then show ?thesis using h(2) p by linarith
    qed
    ultimately show ?thesis using False by (simp add: nbits.simps [of n])
  qed (simp add: nbits.simps [of n])
qed

lemma mag_scaled_parts:
  assumes "s = 0 \<or> 2 ^ 52 \<le> m" "m \<le> 2 ^ 53"
  shows "mag_scaled (s * 2 ^ 52 + m) = m * 2 ^ s"
proof -
  consider "m < 2 ^ 52" "s = 0" | "2 ^ 52 \<le> m" "m < 2 ^ 53" | "m = 2 ^ 53" using assms by linarith
  then show ?thesis
  proof cases
    case 1
    then show ?thesis by (simp add: mag_scaled_def)
  next
    case 2
    then obtain f where f: "m = 2 ^ 52 + f" "f < 2 ^ 52" using le_Suc_ex [of "2 ^ 52" m] by auto
    have e: "s * 2 ^ 52 + m = f + Suc s * 2 ^ 52" using f(1) by simp
    have "(f + Suc s * 2 ^ 52) div 2 ^ 52 = Suc s" "(f + Suc s * 2 ^ 52) mod 2 ^ 52 = f"
      using f(2) by (simp_all only: div_mult_self1 mod_mult_self1 div_less mod_less power_not_zero) simp_all
    then show ?thesis unfolding e using f(1) by (simp add: mag_scaled_def Let_def)
  next
    case 3
    then have e: "s * 2 ^ 52 + m = (s + 2) * 2 ^ 52" by simp
    show ?thesis unfolding e using 3 by (simp add: mag_scaled_def Let_def)
  qed
qed

text \<open>Rounding to nearest: the result is a multiple of the spacing, off by at most half of it, and it never crosses a
  whole number, as these are doubles themselves.\<close>

lemma round_mag_spec:
  assumes d: "0 < den" and big: "num div den < 2 ^ 1127"
  obtains s m where "mag_scaled (round_mag num den) = m * 2 ^ s" "s \<le> 1074" "s = 0 \<longrightarrow> num div den < 2 ^ 53"
    "2 * num \<le> 2 * (m * 2 ^ s) * den + den * 2 ^ s" "s = 0 \<or> den * 2 ^ (s + 52) \<le> num" "round_mag num den < F64_INF"
    "m = num div (den * 2 ^ s) \<or> (m = num div (den * 2 ^ s) + 1 \<and> num mod (den * 2 ^ s) \<noteq> 0)"
proof -
  let ?q = "num div den"
  define s where "s = nbits ?q - 53"
  define ulp where "ulp = den * 2 ^ s"
  define m where "m = num div ulp"
  define r where "r = num mod ulp"
  define m' where "m' = (if 2 * r > ulp \<or> (2 * r = ulp \<and> odd m) then m + 1 else m)"
  have u: "0 < ulp" using d by (simp add: ulp_def)
  have num: "num = m * ulp + r" "r < ulp" using u by (simp_all add: m_def r_def)
  have mq: "m = ?q div 2 ^ s" by (simp add: m_def ulp_def div_mult2_eq)
  have nb: "?q < 2 ^ nbits ?q" "0 < ?q \<longrightarrow> 2 ^ (nbits ?q - 1) \<le> ?q" using nbits_bounds [of ?q] by simp_all
  have "nbits ?q \<le> 1127"
  proof (rule ccontr)
    assume n: "\<not> ?thesis"
    then have "0 < ?q" by (cases "?q = 0") (simp_all add: nbits.simps [of 0])
    then have "(2::nat) ^ (nbits ?q - 1) < 2 ^ 1127" using nb(2) big by linarith
    then have "nbits ?q - 1 < 1127" by (rule power_less_imp_less_exp [rotated]) simp
    then show False using n by simp
  qed
  then have s: "s \<le> 1074" by (simp add: s_def)
  have "(2::nat) ^ nbits ?q \<le> 2 ^ (53 + s)" by (rule power_increasing) (simp_all add: s_def)
  then have "?q < 2 ^ (53 + s)" using nb(1) by (rule less_le_trans [rotated])
  then have mlt: "m < 2 ^ 53" by (simp add: mq less_mult_imp_div_less power_add)
  have lo: "s = 0 \<or> 2 ^ (s + 52) \<le> ?q"
    using nb(2) by (cases "?q = 0"; cases "s = 0") (simp_all add: s_def nbits.simps [of 0])
  then have mge: "s = 0 \<or> 2 ^ 52 \<le> m"
    by (auto simp: mq power_add less_eq_div_iff_mult_less_eq mult.commute)
  have m': "m' = m \<or> (m' = m + 1 \<and> r \<noteq> 0)" "m' \<le> 2 ^ 53" "s = 0 \<or> 2 ^ 52 \<le> m'"
    using mlt mge u by (auto simp: m'_def)
  have "s * 2 ^ 52 \<le> 1074 * (2::nat) ^ 52" using s by (rule mult_le_mono1)
  then have fin: "s * 2 ^ 52 + m' < F64_INF" using m'(2) by (simp add: F64_INF_def)
  have "round_mag num den = min (s * 2 ^ 52 + m') F64_INF"
    unfolding round_mag_def Let_def m'_def m_def r_def ulp_def s_def by (rule refl)
  then have rm: "round_mag num den = s * 2 ^ 52 + m'" using fin by (simp only: min.absorb1 less_imp_le)
  show ?thesis
  proof (rule that [of m' s])
    show "mag_scaled (round_mag num den) = m' * 2 ^ s" unfolding rm by (rule mag_scaled_parts [OF m'(3,2)])
    show "s \<le> 1074" by (rule s)
    show "s = 0 \<longrightarrow> num div den < 2 ^ 53" using \<open>?q < 2 ^ (53 + s)\<close> by auto
    have "2 * num \<le> 2 * (m' * ulp) + ulp" using num by (auto simp: m'_def algebra_simps)
    then show "2 * num \<le> 2 * (m' * 2 ^ s) * den + den * 2 ^ s" by (simp add: ulp_def ac_simps)
    show "s = 0 \<or> den * 2 ^ (s + 52) \<le> num"
      using lo d by (auto simp: less_eq_div_iff_mult_less_eq mult.commute)
    show "round_mag num den < F64_INF" using fin rm by simp
    show "m' = num div (den * 2 ^ s) \<or> (m' = num div (den * 2 ^ s) + 1 \<and> num mod (den * 2 ^ s) \<noteq> 0)"
      using m'(1) by (simp add: m_def r_def ulp_def)
  qed
qed

lemma round_between:
  assumes d: "0 < den" and lo: "a * 2 ^ 1074 * den \<le> num" and hi: "num \<le> b * 2 ^ 1074 * den" and b: "b \<le> 2 ^ 52"
  shows "a * 2 ^ 1074 \<le> mag_scaled (round_mag num den)" "mag_scaled (round_mag num den) \<le> b * 2 ^ 1074" "round_mag num den < F64_INF"
proof -
  have "num div den \<le> b * 2 ^ 1074" using div_le_mono [OF hi, of den] d by simp
  also have "\<dots> \<le> 2 ^ 52 * 2 ^ 1074" using b by (rule mult_le_mono1)
  also have "\<dots> < 2 ^ 1127" by simp
  finally obtain s m where S: "mag_scaled (round_mag num den) = m * 2 ^ s" "s \<le> 1074" "round_mag num den < F64_INF"
    "m = num div (den * 2 ^ s) \<or> (m = num div (den * 2 ^ s) + 1 \<and> num mod (den * 2 ^ s) \<noteq> 0)"
    by (rule round_mag_spec [OF d]) blast
  define c where "c = (2::nat) ^ (1074 - s)"
  have c: "(2::nat) ^ 1074 = c * 2 ^ s" using S(2) by (simp add: c_def flip: power_add)
  let ?u = "den * 2 ^ s"
  have u: "0 < ?u" using d by simp
  have "a * c * ?u \<le> num" using lo unfolding c by (simp add: ac_simps)
  then have "a * c \<le> num div ?u" using u by (simp add: less_eq_div_iff_mult_less_eq)
  then have "a * c \<le> m" using S(4) by auto
  then show "a * 2 ^ 1074 \<le> mag_scaled (round_mag num den)" unfolding S(1) c by (simp add: mult.assoc [symmetric])
  have le: "num \<le> b * c * ?u" using hi unfolding c by (simp add: ac_simps)
  have "m \<le> b * c"
  proof (cases "num mod ?u = 0")
    case True
    then have "m = num div ?u" using S(4) by simp
    then show ?thesis using div_le_mono [OF le, of ?u] u by simp
  next
    case False
    then have "num < b * c * ?u" using le by (metis le_neq_implies_less mod_mult_self2_is_0)
    then have "num div ?u < b * c" by (simp add: less_mult_imp_div_less)
    then show ?thesis using S(4) by auto
  qed
  then show "mag_scaled (round_mag num den) \<le> b * 2 ^ 1074" unfolding S(1) c by (simp add: mult.assoc [symmetric])
  show "round_mag num den < F64_INF" by (rule S(3))
qed

lemma f64_of_nat_exact:
  assumes "n \<le> 2 ^ 52"
  shows "f64_mag (f64_of_nat n) < F64_INF" "\<not> f64_neg (f64_of_nat n)" "mag_scaled (f64_mag (f64_of_nat n)) = n * 2 ^ 1074"
proof -
  have "mag_scaled (round_mag (n * 2 ^ 1074) 1) = n * 2 ^ 1074" "round_mag (n * 2 ^ 1074) 1 < F64_INF"
    using round_between [of 1 n "n * 2 ^ 1074" n] assms by simp_all
  moreover have "F64_INF < 2 ^ 63" by (simp add: F64_INF_def)
  ultimately show "f64_mag (f64_of_nat n) < F64_INF" "\<not> f64_neg (f64_of_nat n)" "mag_scaled (f64_mag (f64_of_nat n)) = n * 2 ^ 1074"
    using f64_make_neg_mag [of "round_mag (n * 2 ^ 1074) 1" False] by (simp_all add: f64_of_nat_def)
qed

lemma fraction_parts:
  assumes "\<not> f64_isnan p" "\<not> f64_le p 0" "\<not> f64_le f64_one p"
  shows "\<not> f64_neg p" "f64_mag p < F64_INF" "0 < mag_scaled (f64_mag p)" "mag_scaled (f64_mag p) < 2 ^ 1074"
proof -
  have zero: "f64_key 0 = 0" "\<not> f64_isnan 0" by (simp_all add: f64_key_def f64_mag_def f64_neg_def f64_isnan_def)
  have one: "\<not> f64_isnan f64_one" "f64_scaled f64_one = 2 ^ 1074"
    by (simp_all add: f64_one_def f64_isnan_def f64_mag_def f64_neg_def F64_INF_def f64_scaled_def mag_scaled_def Let_def)
  have pos: "0 < f64_key p" using assms(1,2) zero by (auto simp: f64_le_def f64_lt_def f64_eq_def)
  then show n: "\<not> f64_neg p" by (auto simp: f64_key_def split: if_splits)
  have "f64_lt p f64_one" using f64_trichotomy assms(1,3) one(1) by (auto simp: f64_le_def)
  then have "f64_scaled p < 2 ^ 1074" using f64_lt_scaled assms(1) one by metis
  then show "mag_scaled (f64_mag p) < 2 ^ 1074" using n by (simp add: f64_scaled_def)
  have "0 < f64_mag p" using pos n by (simp add: f64_key_def)
  then show "0 < mag_scaled (f64_mag p)" using mag_scaled_less [of 0 "f64_mag p"] by simp
  have "f64_mag p < f64_mag f64_one" using \<open>f64_lt p f64_one\<close> n by (simp add: f64_lt_def f64_key_def f64_one_def f64_neg_def)
  then show "f64_mag p < F64_INF" by (simp add: f64_one_def f64_mag_def F64_INF_def)
qed

lemma ceil_div_bounds:
  assumes "0 < (d::int)"
  shows "a \<le> - ((- a) div d) * d" "- ((- a) div d) * d < a + d"
proof -
  have "- a = (- a) div d * d + (- a) mod d" by (rule div_mult_mod_eq [symmetric])
  moreover have "0 \<le> (- a) mod d" "(- a) mod d < d" using assms by simp_all
  ultimately show "a \<le> - ((- a) div d) * d" "- ((- a) div d) * d < a + d" by (simp_all only: mult_minus_left)
qed

lemma half_spacing:
  assumes "2 * a \<le> 2 * f + (u::nat)" "u * 2 ^ 52 \<le> a"
  shows "real a - real a / 2 ^ 53 \<le> real f"
proof -
  have "real (2 * a) \<le> real (2 * f + u)" "real (u * 2 ^ 52) \<le> real a" using assms by (simp_all only: of_nat_le_iff)
  then show ?thesis by simp
qed

text \<open>The rank lies between the exact one and what its product, a rounding error smaller, asks for.\<close>

lemma rank_target_spec:
  assumes p: "\<not> f64_isnan p" "\<not> f64_le p 0" "\<not> f64_le f64_one p" and n: "0 < n" "n \<le> 2 ^ 52"
  shows "1 \<le> rank_target p n" "rank_target p n \<le> n" "real (rank_target p n) < f64_value p * real n + 1"
    "f64_value p * real n * (1 - 1 / 2 ^ 53) \<le> real (rank_target p n)"
proof -
  define D where "D = (2::nat) ^ 1074"
  define S where "S = mag_scaled (f64_mag p)"
  define F where "F = mag_scaled (round_mag (S * (n * D)) D)"
  note P = fraction_parts [OF p, folded D_def S_def]
  note N = f64_of_nat_exact [OF n(2), folded D_def]
  have D: "0 < D" "2 ^ 53 \<le> D" by (simp_all add: D_def)
  have val: "f64_value p = real S / real D" using P(1) by (simp add: f64_value_def f64_scaled_def S_def D_def)
  define b where "b = (S * n + (D - 1)) div D"
  have bD: "S * n \<le> b * D" "b * D < S * n + D"
  proof -
    have "S * n + (D - 1) = b * D + (S * n + (D - 1)) mod D" by (simp add: b_def)
    moreover have "(S * n + (D - 1)) mod D \<le> D - 1" using D(1) by (simp add: Suc_leI less_Suc_eq_le [symmetric])
    ultimately show "S * n \<le> b * D" "b * D < S * n + D" using D(1) by linarith+
  qed
  have "S * n < n * D" using P(4) n(1) by (simp add: mult.commute)
  then have "b * D < n * D + D" using bD(2) by linarith
  then have "b * D < (n + 1) * D" by (simp only: add_mult_distrib mult_1)
  then have "b < n + 1" by (simp only: mult_less_cancel2)
  then have bn: "b \<le> n" by simp
  have "S * (n * D) \<le> b * D * D" using bD(1) mult_le_mono1 [of "S * n" "b * D" D] by (simp add: ac_simps)
  then have F: "F \<le> b * D" "round_mag (S * (n * D)) D < F64_INF"
    using round_between [of D 0 "S * (n * D)" b, folded D_def] D(1) bn n(2) by (simp_all add: F_def)
  let ?x = "f64_mul p (f64_of_nat n)"
  have x: "?x = f64_make False (round_mag (S * (n * D)) D)"
    unfolding f64_mul_def Let_def D_def [symmetric] S_def [symmetric] N(3) using P(1,2) N(1,2)
    by (simp add: f64_isnan_def f64_isinf_def)
  have "F64_INF < 2 ^ 63" by (simp add: F64_INF_def)
  then have "f64_scaled ?x = int F" "\<not> f64_isnan ?x"
    using F(2) f64_make_neg_mag [of "round_mag (S * (n * D)) D" False] f64_make_not_nan [of _ False] unfolding x
    by (simp_all add: f64_scaled_def F_def less_imp_le)
  then have t: "rank_target p n = nat (max 1 (- ((- int F) div int D)))" by (simp add: rank_target_def f64_ceil_def D_def)
  define c where "c = - ((- int F) div int D)"
  have c: "int F \<le> c * int D" "c * int D < int F + int D" unfolding c_def using D(1) by (simp_all only: ceil_div_bounds of_nat_0_less_iff)
  have "c * int D < (int b + 1) * int D" using c(2) F(1) by (simp add: algebra_simps flip: of_nat_mult)
  then have cb: "c \<le> int b" using D(1) by (simp add: mult_less_cancel_right)
  show one: "1 \<le> rank_target p n" by (simp add: t)
  show "rank_target p n \<le> n" using cb bn n(1) by (simp add: t flip: c_def)
  have pn: "f64_value p * real n = real (S * n) / real D" by (simp add: val)
  have Sn: "0 < S * n" using P(3) n(1) by simp
  have rt: "real (rank_target p n) = max 1 (real_of_int c)" by (simp add: t flip: c_def)
  have "real (b * D) < real (S * n + D)" using bD(2) by (simp only: of_nat_less_iff)
  then have "real b < real (S * n) / real D + 1" using D(1) by (simp add: field_simps)
  moreover have "real_of_int c \<le> real b" using cb by linarith
  moreover have "0 < real (S * n) / real D" using Sn D(1) by simp
  ultimately show "real (rank_target p n) < f64_value p * real n + 1" unfolding pn rt by simp
  obtain s m where R: "F = m * 2 ^ s" "s = 0 \<longrightarrow> S * (n * D) div D < 2 ^ 53" "2 * (S * (n * D)) \<le> 2 * (m * 2 ^ s) * D + D * 2 ^ s"
    "s = 0 \<or> D * 2 ^ (s + 52) \<le> S * (n * D)"
  proof -
    have "S * (n * D) div D = S * n" using D(1) by simp
    also have "\<dots> < n * D" by (rule \<open>S * n < n * D\<close>)
    also have "\<dots> \<le> 2 ^ 52 * 2 ^ 1074" unfolding D_def using n(2) by (rule mult_le_mono1)
    also have "\<dots> < 2 ^ 1127" by simp
    finally show ?thesis by (rule round_mag_spec [OF D(1)]) (use that in \<open>simp add: F_def\<close>)
  qed
  show "f64_value p * real n * (1 - 1 / 2 ^ 53) \<le> real (rank_target p n)"
  proof (cases "s = 0")
    case True
    then have "S * n < D" using R(2) D by simp
    then have "real (S * n) / real D < 1" using D(1) by (simp only: of_nat_less_iff divide_less_eq_1_pos of_nat_0_less_iff)
    then have "f64_value p * real n * (1 - 1 / 2 ^ 53) < 1" unfolding pn by (simp add: mult_le_one mult_less_le_imp_less) 
    then show ?thesis unfolding rt by simp
  next
    case False
    have "2 * (S * n) * D \<le> (2 * F + 2 ^ s) * D" using R(3) by (simp add: R(1) algebra_simps)
    then have "2 * (S * n) \<le> 2 * F + 2 ^ s" using D(1) by (simp only: mult_le_cancel2)
    moreover have "2 ^ s * 2 ^ 52 * D \<le> S * n * D" using R(4) False by (simp only: power_add ac_simps) simp
    then have "2 ^ s * 2 ^ 52 \<le> S * n" using D(1) by (simp only: mult_le_cancel2)
    ultimately have "real (S * n) - real (S * n) / 2 ^ 53 \<le> real F" 
      by (rule half_spacing)
    also have "real F \<le> real_of_int c * real D" using c(1) by (metis of_int_le_iff of_int_mult of_int_of_nat_eq)
    finally have "(real (S * n) - real (S * n) / 2 ^ 53) / real D \<le> real_of_int c" using D(1) by (simp only: pos_divide_le_eq of_nat_0_less_iff)
    then show ?thesis unfolding pn rt by (simp add: algebra_simps diff_divide_distrib)
  qed
qed

section \<open>Buckets\<close>

lemma highest_bit_bounds: "0 < v \<Longrightarrow> 2 ^ highest_bit v \<le> v \<and> v < 2 ^ (highest_bit v + 1)"
proof (induction v rule: highest_bit.induct)
  case (1 v)
  show ?case
  proof (cases "v < 2")
    case True
    then show ?thesis using 1(2) by (simp add: highest_bit.simps [of v])
  next
    case False
    then have "2 ^ highest_bit (v div 2) \<le> v div 2" "v div 2 < 2 ^ (highest_bit (v div 2) + 1)" using 1(1) by simp_all
    then show ?thesis using False by (simp add: highest_bit.simps [of v]) linarith
  qed
qed

lemma highest_bit_mono: "0 < v \<Longrightarrow> v \<le> w \<Longrightarrow> highest_bit v \<le> highest_bit w"
proof -
  assume "0 < v" "v \<le> w"
  then have "(2::nat) ^ highest_bit v < 2 ^ (highest_bit w + 1)"
    using highest_bit_bounds [of v] highest_bit_bounds [of w] by linarith
  then show ?thesis by (simp add: power_strict_increasing_iff [of 2] del: power_Suc)
qed

lemma octave_offset: "0 < v \<Longrightarrow> v - 2 ^ highest_bit v < 2 ^ highest_bit v"
proof -
  assume "0 < v"
  then have "v < 2 * 2 ^ highest_bit v" "2 ^ highest_bit v \<le> v" using highest_bit_bounds [of v] by simp_all
  then show ?thesis by linarith
qed

lemma sub_bucket_small:
  assumes "0 < v"
  shows "(v - 2 ^ highest_bit v) * kSubBucketCount div 2 ^ highest_bit v < kSubBucketCount"
proof -
  have "v - 2 ^ highest_bit v < 2 ^ highest_bit v" by (rule octave_offset [OF assms])
  then show ?thesis by (simp add: div_less_iff_less_mult kSubBucketCount_def mult.commute)
qed

lemma lat_bucket_mono:
  assumes "0 < v" "v \<le> w"
  shows "lat_bucket v \<le> lat_bucket w"
proof (cases "highest_bit v = highest_bit w")
  case True
  then show ?thesis using assms by (auto simp: lat_bucket_def Let_def intro!: div_le_mono mult_le_mono1 diff_le_mono)
next
  case False
  then have "highest_bit v * kSubBucketCount + kSubBucketCount \<le> highest_bit w * kSubBucketCount"
    using highest_bit_mono [OF assms] by (metis Suc_leI add.commute le_neq_implies_less mult_Suc mult_le_mono1)
  then show ?thesis using sub_bucket_small [OF assms(1)] by (simp add: lat_bucket_def Let_def)
qed

lemma lat_bucket_range:
  assumes "0 < v" "v < 2 ^ kMaxExponent"
  shows "lat_bucket v < kBucketCount"
proof -
  have "(2::nat) ^ highest_bit v < 2 ^ kMaxExponent" using highest_bit_bounds [OF assms(1)] assms(2) by linarith
  then have "highest_bit v < kMaxExponent" by simp
  then have "highest_bit v * kSubBucketCount + kSubBucketCount \<le> kBucketCount"
    by (metis Suc_leI add.commute kBucketCount_def mult_Suc mult_le_mono1)
  then show ?thesis using sub_bucket_small [OF assms(1)] by (simp add: lat_bucket_def Let_def)
qed

lemma close_arith: "(d::nat) * 32 < x + p \<Longrightarrow> 32 * q = x \<Longrightarrow> q \<le> d \<Longrightarrow> d = v - p \<Longrightarrow> p \<le> v \<Longrightarrow> 32 * (v - (p + q)) < p + q"
  by linarith

text \<open>The lower bound of a value's bucket is within one part in thirty-two of the value.\<close>

lemma lower_bound_close:
  assumes "0 < v"
  shows "bucket_lower_bound (lat_bucket v) \<le> v" "32 * (v - bucket_lower_bound (lat_bucket v)) < bucket_lower_bound (lat_bucket v)"
proof -
  let ?e = "highest_bit v" let ?d = "v - 2 ^ ?e" let ?s = "?d * 32 div 2 ^ ?e"
  have v: "2 ^ ?e \<le> v" "?d < 2 ^ ?e" using highest_bit_bounds [OF assms] octave_offset [OF assms] by simp_all
  have s: "?s < 32" using sub_bucket_small [OF assms] by (simp add: kSubBucketCount_def)
  have lb: "bucket_lower_bound (lat_bucket v) = 2 ^ ?e + 2 ^ ?e * ?s div 32"
    using s by (simp add: bucket_lower_bound_def lat_bucket_def Let_def kSubBucketCount_def)
  have "2 ^ ?e * ?s \<le> ?d * 32" by (metis div_times_less_eq_dividend mult.commute)
  then have le: "2 ^ ?e * ?s div 32 \<le> ?d" using div_le_mono [of "2 ^ ?e * ?s" "?d * 32" 32] by (simp del: diff_mult_distrib)
  then show "bucket_lower_bound (lat_bucket v) \<le> v" using v(1) by (simp add: lb)
  have exact: "32 * (2 ^ ?e * ?s div 32) = 2 ^ ?e * ?s"
  proof (cases "?e \<le> 5")
    case True
    then have k: "(2::nat) ^ ?e * 2 ^ (5 - ?e) = 32" by (simp flip: power_add)
    have d: "?d * 2 ^ (5 - ?e) * 2 ^ ?e = ?d * 32" unfolding k [symmetric] by (simp add: ac_simps del: diff_mult_distrib)
    have "?s = ?d * 2 ^ (5 - ?e)" unfolding d [symmetric] by simp
    then have "2 ^ ?e * ?s = ?d * 32" using d by (metis mult.commute)
    then show ?thesis by simp
  next
    case False
    then have "(2::nat) ^ ?e = 32 * 2 ^ (?e - 5)" using power_add [of "2::nat" 5 "?e - 5"] by simp
    then show ?thesis by (simp add: mult.assoc del: diff_mult_distrib)
  qed
  have "?d * 32 < 2 ^ ?e * ?s + 2 ^ ?e"
    using dividend_less_div_times [of "2 ^ ?e" "?d * 32"] by (simp add: ac_simps del: diff_mult_distrib)
  then show "32 * (v - bucket_lower_bound (lat_bucket v)) < bucket_lower_bound (lat_bucket v)"
    unfolding lb by (rule close_arith [OF _ exact le refl v(1)])
qed

section \<open>Recording and reading\<close>

definition hist_of :: "int list \<Rightarrow> histogram" where
  "hist_of xs = fold hist_record xs hist_init"

definition in_bucket :: "int list \<Rightarrow> nat \<Rightarrow> nat" where
  "in_bucket xs b = length (filter (\<lambda>x. lat_bucket (clamp x) = b) xs)"

lemma clamp_range: "0 < clamp x" "clamp x < 2 ^ kMaxExponent"
  by (auto simp: clamp_def kMaxTrackedUs_def kMaxExponent_def)

lemma hist_snoc: "hist_of (xs @ [x]) = hist_record x (hist_of xs)"
  by (simp add: hist_of_def)

lemma record_fields:
  "hmin_us (hist_record x h) = (if hcount h = 0 then x else min x (hmin_us h))"
  "hmax_us (hist_record x h) = (if hcount h = 0 then x else max x (hmax_us h))"
  "hcount (hist_record x h) = hcount h + 1" "hsum_us (hist_record x h) = add_i64 (hsum_us h) x"
  "hbuckets (hist_record x h) = (hbuckets h)[lat_bucket (clamp x) := hbuckets h ! lat_bucket (clamp x) + 1]"
  by (simp_all add: hist_record_def Let_def min_def max_def)

lemma hist_of_spec:
  "length (hbuckets (hist_of xs)) = kBucketCount \<and> hcount (hist_of xs) = length xs \<and>
   (\<forall>b < kBucketCount. hbuckets (hist_of xs) ! b = in_bucket xs b) \<and>
   (xs \<noteq> [] \<longrightarrow> hmin_us (hist_of xs) = Min (set xs) \<and> hmax_us (hist_of xs) = Max (set xs))"
proof (induction xs rule: rev_induct)
  case Nil
  then show ?case by (simp add: hist_of_def hist_init_def in_bucket_def)
next
  case (snoc x xs)
  have b: "lat_bucket (clamp x) < kBucketCount" by (rule lat_bucket_range [OF clamp_range])
  have "xs \<noteq> [] \<Longrightarrow> Min (set (xs @ [x])) = min x (Min (set xs)) \<and> Max (set (xs @ [x])) = max x (Max (set xs))" by simp
  moreover have "\<forall>b < kBucketCount. hbuckets (hist_of (xs @ [x])) ! b = in_bucket (xs @ [x]) b"
    using snoc.IH b by (auto simp: hist_snoc record_fields nth_list_update in_bucket_def)
  ultimately show ?case
    using snoc.IH by (cases "xs = []") (simp_all add: hist_snoc hist_snoc [of "[]", simplified] record_fields)
qed

lemma hist_of_sum:
  "hsum_us (hist_of xs) = (if \<forall>i \<le> length xs. in_i64 (sum_list (take i xs)) then Some (sum_list xs) else None)"
proof (induction xs rule: rev_induct)
  case Nil
  then show ?case by (simp add: hist_of_def hist_init_def in_i64_def INT64_MIN_def INT64_MAX_def)
next
  case (snoc x xs)
  have "(\<forall>i \<le> length (xs @ [x]). in_i64 (sum_list (take i (xs @ [x])))) \<longleftrightarrow>
    (\<forall>i \<le> length xs. in_i64 (sum_list (take i xs))) \<and> in_i64 (sum_list xs + x)"
    by (auto simp: le_Suc_eq)
  then show ?case using snoc.IH by (simp add: hist_snoc record_fields add_i64_def)
qed

lemma find_bucket_spec:
  assumes "cumulative < target" "target \<le> cumulative + sum_list ns"
  shows "\<exists>i. find_bucket cumulative b ns target = Some (b + i) \<and> i < length ns \<and>
    cumulative + sum_list (take i ns) < target \<and> target \<le> cumulative + sum_list (take (Suc i) ns)"
  using assms
proof (induction ns arbitrary: cumulative b)
  case Nil
  then show ?case by simp
next
  case (Cons n ns)
  show ?case
  proof (cases "target \<le> cumulative + n")
    case True
    then show ?thesis using Cons.prems by (auto intro!: exI [of _ 0])
  next
    case False
    then obtain i where "find_bucket (cumulative + n) (b + 1) ns target = Some (b + 1 + i)" "i < length ns"
      "cumulative + n + sum_list (take i ns) < target" "target \<le> cumulative + n + sum_list (take (Suc i) ns)"
      using Cons.IH [of "cumulative + n" "b + 1"] Cons.prems by auto
    then show ?thesis using False by (intro exI [of _ "Suc i"]) (simp add: add.assoc)
  qed
qed

lemma cumulative_count:
  "b \<le> kBucketCount \<Longrightarrow> sum_list (take b (hbuckets (hist_of xs))) = length (filter (\<lambda>x. lat_bucket (clamp x) < b) xs)"
proof (induction b)
  case 0
  then show ?case by simp
next
  case (Suc b)
  have H: "length (hbuckets (hist_of xs)) = kBucketCount" "hbuckets (hist_of xs) ! b = in_bucket xs b" using hist_of_spec [of xs] Suc.prems by auto
  have "length (filter (\<lambda>x. lat_bucket (clamp x) < Suc b) xs) = length (filter (\<lambda>x. lat_bucket (clamp x) < b) xs) + in_bucket xs b"
    unfolding in_bucket_def by (induction xs) auto
  then show ?case using Suc H by (simp add: take_Suc_conv_app_nth)
qed

lemma int_close: "b \<le> v \<Longrightarrow> 32 * (v - b) < b \<Longrightarrow> 32 * (int v - int b) < int b"
  by (auto simp: le_iff_add)

text \<open>The bucket that is found holds the sample of the target rank.\<close>

lemma filter_split: "length (filter P ys) = length (filter P (take n ys)) + length (filter P (drop n ys))"
  by (metis append_take_drop_id filter_append length_append)

lemma rank_bucket:
  assumes t: "0 < target" "target \<le> length xs"
    and lo: "length (filter (\<lambda>x. lat_bucket (clamp x) < b) xs) < target"
    and hi: "target \<le> length (filter (\<lambda>x. lat_bucket (clamp x) < Suc b) xs)"
  shows "b = lat_bucket (sort (map clamp xs) ! (target - 1))"
proof -
  let ?ys = "sort (map clamp xs)" let ?v = "?ys ! (target - 1)"
  have len: "length (filter (\<lambda>x. P (clamp x)) xs) = length (filter P ?ys)" for P
  proof -
    have "length (filter P ?ys) = length (filter P (map clamp xs))" by (metis mset_filter mset_sort size_mset)
    then show ?thesis by (simp add: filter_map o_def)
  qed
  have pos: "0 < y" if "y \<in> set ?ys" for y using that clamp_range by auto
  have mono: "lat_bucket (?ys ! i) \<le> lat_bucket (?ys ! j)" if "i \<le> j" "j < length ?ys" for i j
  proof (rule lat_bucket_mono)
    show "0 < ?ys ! i" using that by (intro pos nth_mem) simp
    show "?ys ! i \<le> ?ys ! j" using that by (intro sorted_nth_mono) simp_all
  qed
  have tl: "target - 1 < length ?ys" using t by simp
  have le: "lat_bucket ?v \<le> b"
  proof (rule ccontr)
    assume big: "\<not> ?thesis"
    have "\<not> lat_bucket y < Suc b" if y: "y \<in> set (drop (target - 1) ?ys)" for y
    proof -
      obtain i where "i < length (drop (target - 1) ?ys)" "y = drop (target - 1) ?ys ! i" using y by (metis in_set_conv_nth)
      then have "y = ?ys ! (target - 1 + i)" "target - 1 + i < length ?ys" by auto
      then show ?thesis using mono [of "target - 1" "target - 1 + i"] big by simp
    qed
    then have "filter (\<lambda>y. lat_bucket y < Suc b) (drop (target - 1) ?ys) = []" by (simp add: filter_empty_conv)
    then have "length (filter (\<lambda>y. lat_bucket y < Suc b) ?ys) \<le> target - 1"
      using filter_split [of "\<lambda>y. lat_bucket y < Suc b" ?ys "target - 1"] length_filter_le [of "\<lambda>y. lat_bucket y < Suc b" "take (target - 1) ?ys"] by simp
    then show False using hi len [of "\<lambda>y. lat_bucket y < Suc b"] t by simp
  qed
  have ge: "b \<le> lat_bucket ?v"
  proof (rule ccontr)
    assume small: "\<not> ?thesis"
    have "lat_bucket y < b" if y: "y \<in> set (take target ?ys)" for y
    proof -
      obtain i where "i < length (take target ?ys)" "y = take target ?ys ! i" using y by (metis in_set_conv_nth)
      then have "y = ?ys ! i" "i \<le> target - 1" by auto
      then show ?thesis using mono [of i "target - 1"] tl small by simp
    qed
    then have "filter (\<lambda>y. lat_bucket y < b) (take target ?ys) = take target ?ys" by (simp add: filter_id_conv)
    then have "target \<le> length (filter (\<lambda>y. lat_bucket y < b) ?ys)"
      using filter_split [of "\<lambda>y. lat_bucket y < b" ?ys target] t by simp
    then show False using lo len [of "\<lambda>y. lat_bucket y < b"] by simp
  qed
  show ?thesis using le ge by simp
qed

lemma percentile_bucket:
  assumes t: "1 \<le> target" "target \<le> length xs"
  shows "find_bucket 0 0 (hbuckets (hist_of xs)) target = Some (lat_bucket (sort (map clamp xs) ! (target - 1)))"
proof -
  note H = hist_of_spec [of xs]
  have all: "filter (\<lambda>x. lat_bucket (clamp x) < kBucketCount) xs = xs"
    using lat_bucket_range [OF clamp_range] by (simp add: filter_id_conv)
  have "sum_list (hbuckets (hist_of xs)) = length xs"
    using cumulative_count [of kBucketCount xs] all H by simp
  then obtain b where b: "find_bucket 0 0 (hbuckets (hist_of xs)) target = Some b" "b < kBucketCount"
    "sum_list (take b (hbuckets (hist_of xs))) < target" "target \<le> sum_list (take (Suc b) (hbuckets (hist_of xs)))"
    using find_bucket_spec [of 0 target "hbuckets (hist_of xs)" 0] t H by auto
  have "b = lat_bucket (sort (map clamp xs) ! (target - 1))"
    using t b(2-4) cumulative_count [of b xs] cumulative_count [of "Suc b" xs] by (intro rank_bucket [of target]) simp_all
  then show ?thesis using b(1) by simp
qed

text \<open>C40: a percentile is the right sample to one part in thirty-two. Up to \<open>2 ^ 52\<close> samples have been recorded and \<open>p\<close> is a
  double strictly between 0 and 1. The rank the code computes for \<open>p\<close> and the count \<open>n\<close> is one of the ranks 1 to \<open>n\<close>,
  less than one above the exact product of \<open>p\<close> and \<open>n\<close> and below that product by at most one rounding of the multiplication.
  With the samples clamped to the range 1 to \<open>2 ^ 40 - 1\<close> that is tracked, what is reported is at most the sample of that
  rank in ascending order and falls short of it by less than a thirty-second of what is reported. For a \<open>p\<close> of at most 0 or
  at least 1 the exact minimum and maximum are reported, not clamped. The count is exact; so is the sum exactly when no partial sum
  leaves the range of a 64-bit integer.\<close>
theorem percentile_is_accurate:
  assumes xs: "xs \<noteq> []" "length xs \<le> 2 ^ 52"
    and p: "\<not> f64_isnan p" "\<not> f64_le p 0" "\<not> f64_le f64_one p" and ends: "f64_le p0 0" "\<not> f64_le p1 0" "f64_le f64_one p1"
  shows "let h = hist_of xs; n = length xs; t = rank_target p n; v = int (sort (map clamp xs) ! (t - 1)); r = percentile p h in
    1 \<le> t \<and> t \<le> n \<and> real t < f64_value p * real n + 1 \<and> f64_value p * real n * (1 - 1 / 2 ^ 53) \<le> real t \<and>
    r \<le> v \<and> 32 * (v - r) < r \<and> percentile p0 h = Min (set xs) \<and> percentile p1 h = Max (set xs) \<and> hcount h = n \<and>
    hsum_us h = (if \<forall>i \<le> n. in_i64 (sum_list (take i xs)) then Some (sum_list xs) else None)"
proof -
  let ?t = "rank_target p (length xs)" let ?v = "sort (map clamp xs) ! (?t - 1)"
  have n: "0 < length xs" using xs by simp
  note R = rank_target_spec [OF p n xs(2)]
  note H = hist_of_spec [of xs]
  have r: "percentile p (hist_of xs) = int (bucket_lower_bound (lat_bucket ?v))"
    using percentile_bucket [OF R(1,2)] H xs p by (simp add: percentile_def)
  have "?v \<in> set (sort (map clamp xs))" using R by (intro nth_mem) simp
  then have "0 < ?v" using clamp_range by auto
  note c = lower_bound_close [OF this]
  have "32 * (int ?v - int (bucket_lower_bound (lat_bucket ?v))) < int (bucket_lower_bound (lat_bucket ?v))" by (rule int_close [OF c])
  moreover have "percentile p0 (hist_of xs) = Min (set xs)" "percentile p1 (hist_of xs) = Max (set xs)"
    using H xs ends by (simp_all add: percentile_def)
  ultimately show ?thesis unfolding Let_def r using R H c(1) hist_of_sum [of xs] by simp
qed

theorem percentile_is_accurate_witness:
  "let h = hist_of [1000, 7, 2 ^ 50]; n = length [1000, 7, 2 ^ 50 :: int]; t = rank_target 0x3FE0000000000000 n;
       v = int (sort (map clamp [1000, 7, 2 ^ 50]) ! (t - 1)); r = percentile 0x3FE0000000000000 h in
    1 \<le> t \<and> t \<le> n \<and> real t < f64_value 0x3FE0000000000000 * real n + 1 \<and>
    f64_value 0x3FE0000000000000 * real n * (1 - 1 / 2 ^ 53) \<le> real t \<and> r \<le> v \<and> 32 * (v - r) < r \<and>
    percentile 0 h = Min (set [1000, 7, 2 ^ 50]) \<and> percentile f64_one h = Max (set [1000, 7, 2 ^ 50]) \<and> hcount h = n \<and>
    hsum_us h = Some (sum_list [1000, 7, 2 ^ 50])"
proof -
  have half: "\<not> f64_isnan 0x3FE0000000000000" "\<not> f64_le 0x3FE0000000000000 0" "\<not> f64_le f64_one 0x3FE0000000000000"
    and ends: "f64_le 0 0" "\<not> f64_le f64_one 0" "f64_le f64_one f64_one"
    by (simp_all add: f64_le_def f64_lt_def f64_eq_def f64_key_def f64_mag_def f64_neg_def f64_isnan_def f64_one_def F64_INF_def)
  have fits: "\<forall>i \<le> length [1000, 7, 2 ^ 50 :: int]. in_i64 (sum_list (take i [1000, 7, 2 ^ 50]))"
    by (auto simp: le_Suc_eq i64_defs)
  have len: "[1000, 7, 2 ^ 50 :: int] \<noteq> []" "length [1000, 7, 2 ^ 50 :: int] \<le> 2 ^ 52" by simp_all
  show ?thesis using percentile_is_accurate [OF len half ends] unfolding Let_def if_P [OF fits] by (simp only:)
qed

end
