(* ===== verification/Loadgen.thy ===== *)
theory Loadgen
  imports Server Reply_Parser Histogram
begin

text \<open>
  The load generator, \<^verbatim>\<open>bench/loadgen/loadgen.cpp\<close>: its options, issuing requests up to the pipeline depth,
  reading, matching replies with the requests in flight, counting, and the event loop over all connections. Results
  of \<^verbatim>\<open>connect\<close>, \<^verbatim>\<open>recv\<close>, \<^verbatim>\<open>send\<close>, \<^verbatim>\<open>epoll_wait\<close> and \<^verbatim>\<open>strtod\<close>, clock readings and the draws of the generator are
  arguments. The theory shows that the client speaks the server's protocol in both directions and
  that no request is lost from its accounts.
\<close>

section \<open>Options\<close>

record lg_options =
  o_host :: string
  o_port :: int
  o_connections :: int
  o_pipeline :: int
  o_keyspace :: int
  o_value_size :: int
  o_get_pct :: int
  o_expire_ms :: int
  o_duration_sec :: f64
  o_requests :: int
  o_seed :: int

definition lg_defaults :: lg_options where
  "lg_defaults = \<lparr>o_host = ''127.0.0.1'', o_port = 6380, o_connections = 50, o_pipeline = 1, o_keyspace = 10000, o_value_size = 3,
     o_get_pct = 50, o_expire_ms = 0, o_duration_sec = 0x4024000000000000, o_requests = 0, o_seed = 1\<rparr>"

text \<open>The process exits with a message and a code from within, or the options are returned or found invalid.\<close>

datatype lg_args = LgOptions lg_options | LgInvalid | LgExit string nat

definition lg_bad_value :: "string \<Rightarrow> string \<Rightarrow> lg_args" where
  "lg_bad_value name s = LgExit (''loadgen: invalid value for '' @ name @ '': '' @ quote s) 2"

definition require_int :: "string \<Rightarrow> string \<Rightarrow> lg_args + int" where
  "require_int s name = (case parse_int64 s of None \<Rightarrow> Inl (lg_bad_value name s) | Some v \<Rightarrow> Inr v)"

text \<open>\<^verbatim>\<open>strtod\<close> answers the value, the rest it did not read and whether it set \<^verbatim>\<open>errno\<close>.\<close>

type_synonym strtod_fun = "string \<Rightarrow> f64 \<times> string \<times> bool"

definition require_double :: "strtod_fun \<Rightarrow> string \<Rightarrow> string \<Rightarrow> lg_args + f64" where
  "require_double strtod s name =
    (case strtod s of (v, rest, err) \<Rightarrow> if err \<or> rest = s \<or> rest \<noteq> [] then Inl (lg_bad_value name s) else Inr v)"

definition to_u32 :: "int \<Rightarrow> int" where "to_u32 n = uint (word_of_int n :: u32)"

text \<open>One option that takes a value; the short names are reported under the long ones.\<close>

definition lg_set_int :: "string \<Rightarrow> string \<Rightarrow> (int \<Rightarrow> lg_options) \<Rightarrow> lg_args + lg_options" where
  "lg_set_int name v store = (case require_int v name of Inl e \<Rightarrow> Inl e | Inr n \<Rightarrow> Inr (store n))"

definition lg_set_option :: "strtod_fun \<Rightarrow> string \<Rightarrow> string \<Rightarrow> lg_options \<Rightarrow> lg_args + lg_options" where
  "lg_set_option strtod a v opts =
    (if a = ''--host'' then Inr (opts\<lparr>o_host := v\<rparr>)
     else if a = ''--port'' then lg_set_int ''--port'' v (\<lambda>n. opts\<lparr>o_port := to_u16 n\<rparr>)
     else if a = ''--connections'' \<or> a = ''-c'' then lg_set_int ''--connections'' v (\<lambda>n. opts\<lparr>o_connections := to_i32 n\<rparr>)
     else if a = ''--pipeline'' \<or> a = ''-P'' then lg_set_int ''--pipeline'' v (\<lambda>n. opts\<lparr>o_pipeline := to_i32 n\<rparr>)
     else if a = ''--keyspace'' \<or> a = ''-r'' then lg_set_int ''--keyspace'' v (\<lambda>n. opts\<lparr>o_keyspace := to_i32 n\<rparr>)
     else if a = ''--value-size'' \<or> a = ''-d'' then lg_set_int ''--value-size'' v (\<lambda>n. opts\<lparr>o_value_size := to_i32 n\<rparr>)
     else if a = ''--get-pct'' then lg_set_int ''--get-pct'' v (\<lambda>n. opts\<lparr>o_get_pct := to_i32 n\<rparr>)
     else if a = ''--expire-ms'' then lg_set_int ''--expire-ms'' v (\<lambda>n. opts\<lparr>o_expire_ms := to_i32 n\<rparr>)
     else if a = ''--duration-sec'' then
       (case require_double strtod v ''--duration-sec'' of Inl e \<Rightarrow> Inl e | Inr d \<Rightarrow> Inr (opts\<lparr>o_duration_sec := d\<rparr>))
     else if a = ''--requests'' then lg_set_int ''--requests'' v (\<lambda>n. opts\<lparr>o_requests := n\<rparr>)
     else lg_set_int ''--seed'' v (\<lambda>n. opts\<lparr>o_seed := to_u32 n\<rparr>))"

definition lg_known_options :: "string list" where
  "lg_known_options = [''--host'', ''--port'', ''--connections'', ''-c'', ''--pipeline'', ''-P'', ''--keyspace'', ''-r'', ''--value-size'', ''-d'',
     ''--get-pct'', ''--expire-ms'', ''--duration-sec'', ''--requests'', ''--seed'']"

text \<open>\<^verbatim>\<open>duration_sec <= 0\<close> on doubles is false for a NaN.\<close>

definition lg_check_options :: "lg_options \<Rightarrow> lg_args" where
  "lg_check_options opts =
    (if o_connections opts \<le> 0 \<or> o_pipeline opts \<le> 0 \<or> o_keyspace opts \<le> 0 \<or> o_value_size opts < 0 \<or>
        o_get_pct opts < 0 \<or> 100 < o_get_pct opts \<or> o_expire_ms opts < 0 \<or> f64_le (o_duration_sec opts) 0
     then LgInvalid else LgOptions opts)"

fun lg_parse_options :: "strtod_fun \<Rightarrow> string list \<Rightarrow> lg_options \<Rightarrow> lg_args" where
  "lg_parse_options strtod [] opts = lg_check_options opts"
| "lg_parse_options strtod (a # rest) opts =
    (if a = ''--help'' \<or> a = ''-h'' then LgExit [] 0
     else if a \<notin> set lg_known_options then LgExit (''loadgen: unknown option '' @ quote a) 2
     else case rest of
       [] \<Rightarrow> LgExit [] 2
     | v # rest' \<Rightarrow> (case lg_set_option strtod a v opts of Inl e \<Rightarrow> e | Inr opts' \<Rightarrow> lg_parse_options strtod rest' opts'))"

definition lg_parse_args :: "strtod_fun \<Rightarrow> string list \<Rightarrow> lg_args" where
  "lg_parse_args strtod args = lg_parse_options strtod args lg_defaults"

section \<open>State\<close>

record lg_state =
  g_opts :: lg_options
  g_value :: string
  g_issued :: int
  g_completed :: int
  g_errors :: int
  g_connect_failures :: int
  g_hist :: histogram

record lg_conn =
  c_fd :: int
  c_primed :: bool
  c_closed :: bool
  c_out :: buffer
  c_in :: buffer
  c_inflight :: "int list"

text \<open>What the outside world answers during one call of a handler: the draws of the \<open>i\<close>-th request (a key and a percentage), the seconds elapsed
  before it, the clock at its issue and at the \<open>i\<close>-th reply in microseconds, and the socket.\<close>

record lg_world =
  lw_draw :: "nat \<Rightarrow> int \<times> int"
  lw_elapsed :: "nat \<Rightarrow> f64"
  lw_issue_clock :: "nat \<Rightarrow> int"
  lw_reply_clock :: "nat \<Rightarrow> int"
  lw_rx :: "nat \<Rightarrow> recv_result"
  lw_tx :: "nat \<Rightarrow> nat \<Rightarrow> send_result"
  lw_so_error :: bool

section \<open>Requests\<close>

definition append_request :: "lg_options \<Rightarrow> string \<Rightarrow> int \<times> int \<Rightarrow> buffer \<Rightarrow> buffer" where
  "append_request opts value draw b =
    (let key = ''key:'' @ int_to_string (fst draw) in
     if snd draw \<le> o_get_pct opts then resp_bulk key (resp_bulk ''GET'' (resp_array_header 2 b))
     else if 0 < o_expire_ms opts
     then resp_bulk (int_to_string (o_expire_ms opts)) (resp_bulk ''PX'' (resp_bulk value (resp_bulk key (resp_bulk ''SET'' (resp_array_header 5 b)))))
     else resp_bulk value (resp_bulk key (resp_bulk ''SET'' (resp_array_header 3 b))))"

definition stop_issuing :: "lg_world \<Rightarrow> nat \<Rightarrow> lg_state \<Rightarrow> bool" where
  "stop_issuing w i g = (if 0 < o_requests (g_opts g) then o_requests (g_opts g) \<le> g_issued g else f64_le (o_duration_sec (g_opts g)) (lw_elapsed w i))"

function top_up_pipeline :: "lg_world \<Rightarrow> nat \<Rightarrow> lg_conn \<times> lg_state \<Rightarrow> lg_conn \<times> lg_state" where
  "top_up_pipeline w i (c, g) =
    (if length (c_inflight c) < to_size_t (o_pipeline (g_opts g)) \<and> \<not> stop_issuing w i g
     then top_up_pipeline w (i + 1)
       (c\<lparr>c_out := append_request (g_opts g) (g_value g) (lw_draw w i) (c_out c), c_inflight := c_inflight c @ [lw_issue_clock w i]\<rparr>,
        g\<lparr>g_issued := g_issued g + 1\<rparr>)
     else (c, g))"
  by pat_completeness auto
termination
  by (relation "measure (\<lambda>(w, i, (c, g)). to_size_t (o_pipeline (g_opts g)) - length (c_inflight c))") auto

declare top_up_pipeline.simps [simp del]

section \<open>Replies\<close>

text \<open>The receive loop; the flag tells whether \<^verbatim>\<open>on_readable\<close> goes on to parse.\<close>

fun lg_read :: "lg_world \<Rightarrow> nat \<Rightarrow> nat \<Rightarrow> lg_conn \<Rightarrow> lg_conn \<times> bool" where
  "lg_read w i 0 c = (c, True)"
| "lg_read w i (Suc left) c =
    (case lw_rx w i of
       Received bytes \<Rightarrow>
         let c' = c\<lparr>c_in := receive bytes (c_in c)\<rparr> in
         if length bytes < kReadChunkSize then (c', True) else lg_read w (i + 1) left c'
     | RecvEof \<Rightarrow> (c\<lparr>c_in := receive [] (c_in c), c_closed := True\<rparr>, False)
     | RecvAgain \<Rightarrow> (c\<lparr>c_in := receive [] (c_in c)\<rparr>, True)
     | RecvIntr \<Rightarrow> lg_read w (i + 1) left (c\<lparr>c_in := receive [] (c_in c)\<rparr>)
     | RecvError \<Rightarrow> (c\<lparr>c_in := receive [] (c_in c), c_closed := True\<rparr>, False))"

lemma parse_reply_progress:
  "parse_reply data = Some r \<Longrightarrow> rp_status r = ReplyOk \<Longrightarrow> 0 < rp_consumed r \<and> rp_consumed r \<le> length data"
  using parse_total(1) [of data 0 "2 * length data + 1"] by (auto simp: parse_reply_def split: if_splits)

lemma reply_shorter:
  assumes "parse_reply (buf_readable b) = Some r" "rp_status r \<noteq> ReplyIncomplete" "rp_status r \<noteq> ReplyError"
  shows "length (buf_readable (buf_consume (rp_consumed r) b)) < length (buf_readable b)"
proof -
  have "rp_status r = ReplyOk" using assms(2,3) by (cases "rp_status r") simp_all
  from parse_reply_progress [OF assms(1) this] show ?thesis by (auto intro: consume_shorter)
qed

text \<open>The parse loop; \<open>j\<close> counts the replies of this call.\<close>

function lg_replies :: "lg_world \<Rightarrow> nat \<Rightarrow> lg_conn \<times> lg_state \<Rightarrow> (lg_conn \<times> lg_state) option" where
  "lg_replies w j (c, g) =
    (case parse_reply (buf_readable (c_in c)) of
       None \<Rightarrow> None
     | Some r \<Rightarrow>
         if rp_status r = ReplyIncomplete then Some (c, g)
         else if rp_status r = ReplyError then Some (c\<lparr>c_closed := True\<rparr>, g)
         else let c1 = c\<lparr>c_in := buf_consume (rp_consumed r) (c_in c)\<rparr> in
           (case c_inflight c of
              [] \<Rightarrow> Some (c1\<lparr>c_closed := True\<rparr>, g)
            | t0 # rest \<Rightarrow>
                lg_replies w (j + 1) (c1\<lparr>c_inflight := rest\<rparr>,
                  g\<lparr>g_hist := hist_record (lw_reply_clock w j - t0) (g_hist g), g_completed := g_completed g + 1,
                    g_errors := (if rp_is_error r then g_errors g + 1 else g_errors g)\<rparr>)))"
  by pat_completeness auto
termination
  by (relation "measure (\<lambda>(w, j, (c, g)). length (buf_readable (c_in c)))") (auto intro: reply_shorter)

declare lg_replies.simps [simp del]

text \<open>After the two loops the pipeline is topped up, unless the connection was closed on the way.\<close>

definition on_readable :: "lg_world \<Rightarrow> lg_conn \<times> lg_state \<Rightarrow> (lg_conn \<times> lg_state) option" where
  "on_readable w cg =
    (case lg_read w 0 kMaxRecvsPerWakeup (fst cg) of
       (c, False) \<Rightarrow> Some (c, snd cg)
     | (c, True) \<Rightarrow>
         (case lg_replies w 0 (c, snd cg) of
            None \<Rightarrow> None
          | Some (c', g') \<Rightarrow> if c_closed c' then Some (c', g') else Some (top_up_pipeline w 0 (c', g'))))"

partial_function (option) lg_write :: "lg_world \<Rightarrow> nat \<Rightarrow> lg_conn \<Rightarrow> lg_conn option" where
  "lg_write w i c =
    (if buf_empty (c_out c) then Some c
     else case lw_tx w i (buf_size (c_out c)) of
       Sent n \<Rightarrow> if 0 < n then lg_write w (i + 1) (c\<lparr>c_out := buf_consume n (c_out c)\<rparr>) else Some (c\<lparr>c_closed := True\<rparr>)
     | SendAgain \<Rightarrow> Some c
     | SendIntr \<Rightarrow> lg_write w (i + 1) c
     | SendError \<Rightarrow> Some (c\<lparr>c_closed := True\<rparr>))"

definition on_writable :: "lg_world \<Rightarrow> lg_conn \<times> lg_state \<Rightarrow> (lg_conn \<times> lg_state) option" where
  "on_writable w cg =
    (case cg of (c, g) \<Rightarrow>
       if \<not> c_primed c \<and> lw_so_error w then Some (c\<lparr>c_closed := True\<rparr>, g\<lparr>g_connect_failures := g_connect_failures g + 1\<rparr>)
       else let (c', g') = (if c_primed c then (c, g) else top_up_pipeline w 0 (c\<lparr>c_primed := True\<rparr>, g)) in
         (case lg_write w 0 c' of None \<Rightarrow> None | Some c'' \<Rightarrow> Some (c'', g')))"

section \<open>The main loop\<close>

text \<open>The connections in their vector, the index of each descriptor, and the interest registered with epoll.
  A failing \<^verbatim>\<open>epoll_ctl\<close> ends the process.\<close>

record lg_main =
  m_gen :: lg_state
  m_conns :: "lg_conn list"
  m_by_fd :: "(int \<times> nat) list"
  m_epoll :: "(int \<times> bool \<times> bool) list"

definition ep_add :: "int \<Rightarrow> bool \<Rightarrow> bool \<Rightarrow> lg_main \<Rightarrow> lg_main ub" where
  "ep_add fd r w m = (if map_of (m_epoll m) fd = None then Some (m\<lparr>m_epoll := m_epoll m @ [(fd, r, w)]\<rparr>) else None)"

definition ep_modify :: "int \<Rightarrow> bool \<Rightarrow> bool \<Rightarrow> lg_main \<Rightarrow> lg_main ub" where
  "ep_modify fd r w m = (if map_of (m_epoll m) fd = None then None else Some (m\<lparr>m_epoll := AList.update fd (r, w) (m_epoll m)\<rparr>))"

definition ep_remove :: "int \<Rightarrow> lg_main \<Rightarrow> lg_main" where
  "ep_remove fd m = m\<lparr>m_epoll := AList.delete fd (m_epoll m)\<rparr>"

definition lg_conn_init :: lg_conn where
  "lg_conn_init = \<lparr>c_fd = -1, c_primed = False, c_closed = False, c_out = buf_init, c_in = buf_init, c_inflight = []\<rparr>"

definition lg_state_init :: "lg_options \<Rightarrow> lg_state" where
  "lg_state_init opts = \<lparr>g_opts = opts, g_value = replicate (to_size_t (o_value_size opts)) CHR ''x'', g_issued = 0, g_completed = 0,
     g_errors = 0, g_connect_failures = 0, g_hist = hist_init\<rparr>"

text \<open>The sockets that \<^verbatim>\<open>connect_nonblocking\<close> returns are given; when it fails the process has exited.\<close>

fun connect_all :: "nat \<Rightarrow> int list \<Rightarrow> lg_main \<Rightarrow> lg_main ub" where
  "connect_all i [] m = Some m"
| "connect_all i (fd # fds) m =
    do {
      m1 \<leftarrow> ep_add fd False True (m\<lparr>m_conns := (m_conns m)[i := (m_conns m ! i)\<lparr>c_fd := fd\<rparr>]\<rparr>);
      connect_all (i + 1) fds (m1\<lparr>m_by_fd := AList.update fd i (m_by_fd m1)\<rparr>)
    }"

definition lg_start :: "lg_options \<Rightarrow> int list \<Rightarrow> lg_main ub" where
  "lg_start opts fds = connect_all 0 fds
     \<lparr>m_gen = lg_state_init opts, m_conns = replicate (to_size_t (o_connections opts)) lg_conn_init, m_by_fd = [], m_epoll = []\<rparr>"

definition conn_active :: "lg_conn \<Rightarrow> bool" where
  "conn_active c \<longleftrightarrow> \<not> c_closed c \<and> (\<not> c_primed c \<or> c_inflight c \<noteq> [])"

definition any_active :: "lg_main \<Rightarrow> bool" where
  "any_active m \<longleftrightarrow> list_ex conn_active (m_conns m)"

definition update_interest :: "lg_conn \<Rightarrow> lg_main \<Rightarrow> lg_main ub" where
  "update_interest c m = (if c_closed c then Some m else ep_modify (c_fd c) (c_primed c) (\<not> buf_empty (c_out c)) m)"

text \<open>One event with what the world answers to its two handlers.\<close>

record lg_event =
  le_fd :: int
  le_readable :: bool
  le_writable :: bool
  le_read :: lg_world
  le_write :: lg_world

definition lg_handle :: "lg_event \<Rightarrow> lg_conn \<times> lg_state \<Rightarrow> (lg_conn \<times> lg_state) option" where
  "lg_handle e cg =
    do {
      cg1 \<leftarrow> (if le_readable e then on_readable (le_read e) cg else Some cg);
      (if \<not> c_closed (fst cg1) \<and> le_writable e then on_writable (le_write e) cg1 else Some cg1)
    }"

definition lg_on_event :: "lg_event \<Rightarrow> lg_main \<Rightarrow> lg_main option" where
  "lg_on_event e m =
    (case map_of (m_by_fd m) (le_fd e) of
       None \<Rightarrow> Some m
     | Some i \<Rightarrow>
         if c_closed (m_conns m ! i) then Some m
         else do {
           (c, g) \<leftarrow> lg_handle e (m_conns m ! i, m_gen m);
           (if c_closed c
            then (let m1 = ep_remove (le_fd e) (m\<lparr>m_gen := g\<rparr>) in Some (m1\<lparr>m_conns := (m_conns m1)[i := c\<lparr>c_fd := -1\<rparr>]\<rparr>))
            else update_interest c (m\<lparr>m_gen := g, m_conns := (m_conns m)[i := c]\<rparr>))
         })"

fun lg_batch :: "lg_event list \<Rightarrow> lg_main \<Rightarrow> lg_main option" where
  "lg_batch [] m = Some m"
| "lg_batch (e # es) m = (case lg_on_event e m of None \<Rightarrow> None | Some m' \<Rightarrow> lg_batch es m')"

text \<open>The loop over the batches \<^verbatim>\<open>epoll_wait\<close> returns; the flag tells whether it has ended.\<close>

fun lg_loop :: "lg_event list list \<Rightarrow> lg_main \<Rightarrow> (lg_main \<times> bool) option" where
  "lg_loop [] m = Some (m, \<not> any_active m)"
| "lg_loop (b # bs) m =
    (if any_active m then (case lg_batch b m of None \<Rightarrow> None | Some m' \<Rightarrow> lg_loop bs m') else Some (m, True))"

definition lg_exit_code :: "lg_main \<Rightarrow> nat" where
  "lg_exit_code m = (if 0 < g_errors (m_gen m) \<or> g_connect_failures (m_gen m) = o_connections (g_opts (m_gen m)) then 1 else 0)"

section \<open>What is issued\<close>

definition request_args :: "lg_options \<Rightarrow> string \<Rightarrow> int \<times> int \<Rightarrow> string list" where
  "request_args opts value draw =
    (let key = ''key:'' @ int_to_string (fst draw) in
     if snd draw \<le> o_get_pct opts then [''GET'', key]
     else if 0 < o_expire_ms opts then [''SET'', key, value, ''PX'', int_to_string (o_expire_ms opts)]
     else [''SET'', key, value])"

lemma append_request_spec:
  assumes "buf_invar b"
  shows "buf_invar (append_request opts value draw b)"
    "buf_readable (append_request opts value draw b) = buf_readable b @ encode_command (request_args opts value draw)"
  using assms by (simp_all add: append_request_def request_args_def Let_def encode_command_def encode_bulk_def)



section \<open>What is counted\<close>

fun is_error :: "reply \<Rightarrow> bool" where
  "is_error (RError e) = True" | "is_error _ = False"

lemma is_error_iff: "is_error r \<longleftrightarrow> (\<exists>e. r = RError e)"
  by (cases r) simp_all

lemma hcount_record: "hcount (hist_record x h) = hcount h + 1"
  by (rule record_fields)




definition demo_world :: lg_world where
  "demo_world = \<lparr>lw_draw = \<lambda>_. (7, 10), lw_elapsed = \<lambda>_. 0, lw_issue_clock = \<lambda>_. 2000, lw_reply_clock = \<lambda>_. 1500,
     lw_rx = \<lambda>_. Received (concat (map encode [RError ''e''])), lw_tx = \<lambda>_ len. Sent len, lw_so_error = False\<rparr>"




section \<open>What a handler keeps\<close>

text \<open>Whatever the socket does, a handler may only move requests: from unissued to in flight, from in flight to
  completed with one latency recorded. A connection whose pipeline runs empty means that the budget is spent.\<close>

definition budget_spent :: "lg_state \<Rightarrow> bool" where
  "budget_spent g \<longleftrightarrow> (0 < o_requests (g_opts g) \<longrightarrow> o_requests (g_opts g) \<le> g_issued g)"

definition idle_done :: "lg_conn \<Rightarrow> lg_state \<Rightarrow> bool" where
  "idle_done c g \<longleftrightarrow> (\<not> c_closed c \<and> c_primed c \<and> c_inflight c = [] \<longrightarrow> budget_spent g)"

definition lg_conn_ok :: "lg_conn \<Rightarrow> bool" where
  "lg_conn_ok c \<longleftrightarrow> buf_invar (c_out c) \<and> buf_invar (c_in c)"

definition refused :: "lg_conn \<Rightarrow> bool" where
  "refused c \<longleftrightarrow> c_closed c \<and> \<not> c_primed c"

definition in_budget :: "lg_state \<Rightarrow> bool" where
  "in_budget g \<longleftrightarrow> (0 < o_requests (g_opts g) \<longrightarrow> g_issued g \<le> o_requests (g_opts g))"

definition lg_kept :: "lg_conn \<times> lg_state \<Rightarrow> lg_conn \<times> lg_state \<Rightarrow> bool" where
  "lg_kept cg cg' = (case (cg, cg') of ((c, g), (c', g')) \<Rightarrow>
     g_opts g' = g_opts g \<and> c_fd c' = c_fd c \<and> (lg_conn_ok c \<longrightarrow> lg_conn_ok c') \<and> (in_budget g \<longrightarrow> in_budget g') \<and>
     g_issued g' - g_completed g' - int (length (c_inflight c')) = g_issued g - g_completed g - int (length (c_inflight c)) \<and>
     int (hcount (g_hist g')) - g_completed g' = int (hcount (g_hist g)) - g_completed g \<and>
     g_issued g \<le> g_issued g' \<and> g_errors g \<le> g_errors g' \<and> g_errors g' - g_completed g' \<le> g_errors g - g_completed g \<and>
     length (c_inflight c') \<le> max (length (c_inflight c)) (to_size_t (o_pipeline (g_opts g))) \<and>
     g_connect_failures g' + of_bool (refused c) \<le> g_connect_failures g + of_bool (refused c'))"

lemma lg_kept_refl [simp]: "lg_kept cg cg"
  by (simp add: lg_kept_def split: prod.split)

lemma lg_kept_trans: "lg_kept a b \<Longrightarrow> lg_kept b c \<Longrightarrow> lg_kept a c"
  by (cases a; cases b; cases c; simp only: lg_kept_def prod.case; elim conjE; intro conjI; (blast | linarith | simp only: max_def split: if_splits))

lemma top_up_kept:
  assumes "0 < to_size_t (o_pipeline (g_opts g))" "top_up_pipeline w i (c, g) = (c', g')"
  shows "lg_kept (c, g) (c', g') \<and> c_closed c' = c_closed c \<and> c_primed c' = c_primed c \<and> idle_done c' g'"
  using assms
proof (induction w i "(c, g)" arbitrary: c g rule: top_up_pipeline.induct)
  case (1 w i c g)
  show ?case
  proof (cases "length (c_inflight c) < to_size_t (o_pipeline (g_opts g)) \<and> \<not> stop_issuing w i g")
    case True
    let ?c = "c\<lparr>c_out := append_request (g_opts g) (g_value g) (lw_draw w i) (c_out c), c_inflight := c_inflight c @ [lw_issue_clock w i]\<rparr>"
    let ?g = "g\<lparr>g_issued := g_issued g + 1\<rparr>"
    have "top_up_pipeline w (i + 1) (?c, ?g) = (c', g')" using 1(3) True by (simp add: top_up_pipeline.simps [of w i c g])
    then have I: "lg_kept (?c, ?g) (c', g') \<and> c_closed c' = c_closed c \<and> c_primed c' = c_primed c \<and> idle_done c' g'" using 1(1) [OF True] 1(2) by simp
    have "lg_kept (c, g) (?c, ?g)"
      using True append_request_spec(1) by (auto simp: lg_kept_def lg_conn_ok_def refused_def in_budget_def stop_issuing_def)
    then show ?thesis using I lg_kept_trans by blast
  next
    case False
    then have "(c', g') = (c, g)" using 1(3) by (auto simp: top_up_pipeline.simps [of w i c g])
    moreover have "idle_done c g" using False 1(2) by (auto simp: idle_done_def budget_spent_def stop_issuing_def)
    ultimately show ?thesis by simp
  qed
qed

text \<open>What a socket may answer: at most what was asked for, and not interrupted for ever.\<close>

definition lg_sockets_ok :: "lg_world \<Rightarrow> bool" where
  "lg_sockets_ok w \<longleftrightarrow> (\<forall>i bytes. lw_rx w i = Received bytes \<longrightarrow> bytes \<noteq> [] \<and> length bytes \<le> kReadChunkSize) \<and>
     (\<forall>i len n. lw_tx w i len = Sent n \<longrightarrow> n \<le> len) \<and> (\<forall>i. \<exists>j \<ge> i. \<forall>len. lw_tx w j len \<noteq> SendIntr)"

lemma lg_read_kept:
  assumes "lg_sockets_ok w" "lg_read w i n c = (c', go)"
  shows "lg_kept (c, g) (c', g) \<and> c_primed c' = c_primed c \<and> c_inflight c' = c_inflight c \<and> (if go then c_closed c' = c_closed c else c_closed c')"
  using assms
proof (induction w i n c rule: lg_read.induct)
  case (2 w i left c)
  have in_only: "lg_kept (c, g) (c\<lparr>c_in := receive bytes (c_in c)\<rparr>, g)" if "length bytes \<le> kReadChunkSize" for bytes
    using that receive_spec(1) by (auto simp: lg_kept_def lg_conn_ok_def refused_def in_budget_def)
  have closing: "lg_kept (c, g) (c\<lparr>c_in := receive [] (c_in c), c_closed := True\<rparr>, g)"
    using receive_spec(1) by (auto simp: lg_kept_def lg_conn_ok_def refused_def in_budget_def)
  show ?case
  proof (cases "lw_rx w i")
    case (Received bytes)
    then have len: "length bytes \<le> kReadChunkSize" using 2(3) by (simp add: lg_sockets_ok_def)
    show ?thesis
    proof (cases "length bytes < kReadChunkSize")
      case True
      then show ?thesis using in_only [OF len] 2(4) Received by (auto simp: Let_def)
    next
      case False
      then show ?thesis using in_only [OF len] 2(1) [OF Received refl False] 2(3,4) Received lg_kept_trans by (auto simp: Let_def)
    qed
  next
    case RecvIntr
    then show ?thesis using in_only [of "[]"] 2(2) [OF RecvIntr] 2(3,4) lg_kept_trans by auto
  qed (use 2(4) in_only [of "[]"] closing in auto)
qed simp

lemma lg_replies_kept:
  "\<exists>c' g'. lg_replies w j (c, g) = Some (c', g') \<and> lg_kept (c, g) (c', g') \<and> c_primed c' = c_primed c"
proof (induction w j "(c, g)" arbitrary: c g rule: lg_replies.induct)
  case (1 w j c g)
  obtain r where p: "parse_reply (buf_readable (c_in c)) = Some r"
    using parse_total(1) [of "buf_readable (c_in c)" 0 "2 * length (buf_readable (c_in c)) + 1"] by (auto simp: parse_reply_def)
  note step = lg_replies.simps [of w j c g]
  have closing: "lg_kept (c, g) (c\<lparr>c_closed := True\<rparr>, g)"
    by (auto simp: lg_kept_def lg_conn_ok_def refused_def in_budget_def)
  show ?case
  proof (cases "rp_status r")
    case ReplyOk
    then have n: "rp_status r \<noteq> ReplyIncomplete" "rp_status r \<noteq> ReplyError" by simp_all
    let ?c = "c\<lparr>c_in := buf_consume (rp_consumed r) (c_in c)\<rparr>"
    have b: "buf_invar (c_in ?c)" if "buf_invar (c_in c)"
      using that parse_reply_progress [OF p ReplyOk] buf_consume_spec(1) [OF that, of "rp_consumed r"] buf_size_readable [OF that] by simp
    show ?thesis
    proof (cases "c_inflight c")
      case Nil
      then have "lg_kept (c, g) (?c\<lparr>c_closed := True\<rparr>, g)" using b by (auto simp: lg_kept_def lg_conn_ok_def refused_def in_budget_def)
      then show ?thesis using n p Nil by (simp add: step Let_def)
    next
      case (Cons t0 rest)
      let ?c1 = "?c\<lparr>c_inflight := rest\<rparr>"
      let ?g1 = "g\<lparr>g_hist := hist_record (lw_reply_clock w j - t0) (g_hist g), g_completed := g_completed g + 1,
        g_errors := (if rp_is_error r then g_errors g + 1 else g_errors g)\<rparr>"
      have k: "lg_kept (c, g) (?c1, ?g1)"
        using b Cons by (simp add: lg_kept_def lg_conn_ok_def refused_def in_budget_def hcount_record)
      obtain c' g' where I: "lg_replies w (j + 1) (?c1, ?g1) = Some (c', g')" "lg_kept (?c1, ?g1) (c', g')" "c_primed c' = c_primed ?c1"
        using 1(1) [OF p n refl Cons] by blast
      have "lg_replies w j (c, g) = Some (c', g')" using n p Cons I(1) by (simp add: step Let_def)
      then show ?thesis using lg_kept_trans [OF k I(2)] I(3) by simp
    qed
  qed (use p closing in \<open>simp_all add: step\<close>)
qed

lemma on_readable_kept:
  assumes "lg_sockets_ok w" "0 < to_size_t (o_pipeline (g_opts g))"
  shows "\<exists>c' g'. on_readable w (c, g) = Some (c', g') \<and> lg_kept (c, g) (c', g') \<and> idle_done c' g'"
proof -
  obtain c1 go where R: "lg_read w 0 kMaxRecvsPerWakeup c = (c1, go)" by fastforce
  note k1 = lg_read_kept [OF assms(1) R, of g]
  show ?thesis
  proof (cases go)
    case False
    then show ?thesis using R k1 by (simp add: on_readable_def idle_done_def)
  next
    case True
    obtain c2 g2 where P: "lg_replies w 0 (c1, g) = Some (c2, g2)" "lg_kept (c1, g) (c2, g2)" using lg_replies_kept by blast
    have k2: "lg_kept (c, g) (c2, g2)" using k1 P(2) lg_kept_trans by blast
    show ?thesis
    proof (cases "c_closed c2")
      case True
      then show ?thesis using R \<open>go\<close> P(1) k2 by (simp add: on_readable_def idle_done_def)
    next
      case False
      obtain c3 g3 where T: "top_up_pipeline w 0 (c2, g2) = (c3, g3)" by fastforce
      have "0 < to_size_t (o_pipeline (g_opts g2))" using k2 assms(2) by (simp add: lg_kept_def)
      from top_up_kept [OF this T] show ?thesis using R \<open>go\<close> P(1) False T lg_kept_trans [OF k2] by (simp add: on_readable_def)
    qed
  qed
qed

lemma lg_write_kept:
  assumes "lg_sockets_ok w" "buf_invar (c_out c)"
  shows "\<exists>c'. lg_write w i c = Some c' \<and> lg_kept (c, g) (c', g) \<and> c_primed c' = c_primed c \<and> c_inflight c' = c_inflight c \<and> (c_closed c' \<or> c_closed c' = c_closed c)"
  using assms(2)
proof (induction "length (buf_readable (c_out c))" arbitrary: i c rule: less_induct)
  case (less c i)
  let ?claim = "\<lambda>i. \<exists>c'. lg_write w i c = Some c' \<and> lg_kept (c, g) (c', g) \<and> c_primed c' = c_primed c \<and> c_inflight c' = c_inflight c \<and> (c_closed c' \<or> c_closed c' = c_closed c)"
  note step = lg_write.simps [of w _ c]
  have closing: "lg_kept (c, g) (c\<lparr>c_closed := True\<rparr>, g)"
    by (auto simp: lg_kept_def lg_conn_ok_def refused_def in_budget_def)
  have now: "?claim i" if ni: "lw_tx w i (buf_size (c_out c)) \<noteq> SendIntr \<or> buf_empty (c_out c)" for i
  proof (cases "buf_empty (c_out c)")
    case ne: False
    show ?thesis
    proof (cases "lw_tx w i (buf_size (c_out c))")
      case (Sent n)
      let ?c = "c\<lparr>c_out := buf_consume n (c_out c)\<rparr>"
      have n: "n \<le> buf_size (c_out c)" using assms(1) Sent by (simp add: lg_sockets_ok_def)
      note b = buf_consume_spec [OF less.prems n]
      have k: "lg_kept (c, g) (?c, g)" using b(1) by (auto simp: lg_kept_def lg_conn_ok_def refused_def in_budget_def)
      show ?thesis
      proof (cases "0 < n")
        case True
        have "length (buf_readable (c_out ?c)) < length (buf_readable (c_out c))"
          using True ne b(2) buf_empty_readable [OF less.prems] by simp
        then show ?thesis using less.hyps [of ?c "i + 1"] b(1) ne Sent True lg_kept_trans [OF k] by (auto simp: step)
      qed (use ne Sent closing in \<open>simp add: step\<close>)
    qed (use ne ni closing in \<open>simp_all add: step\<close>)
  qed (simp add: step)
  obtain j where j: "i \<le> j" "\<forall>len. lw_tx w j len \<noteq> SendIntr" using assms(1) unfolding lg_sockets_ok_def by blast
  have "?claim i'" if "i' + n = j" for i' n
    using that
  proof (induction n arbitrary: i')
    case 0
    then show ?case using now [of i'] j(2) by simp
  next
    case (Suc n)
    show ?case
    proof (cases "lw_tx w i' (buf_size (c_out c)) = SendIntr \<and> \<not> buf_empty (c_out c)")
      case True
      then show ?thesis using Suc.IH [of "i' + 1"] Suc.prems by (simp add: step [of i'])
    qed (use now in blast)
  qed
  then show ?case using j(1) by (metis le_add_diff_inverse)
qed

lemma on_writable_kept:
  assumes "lg_sockets_ok w" "0 < to_size_t (o_pipeline (g_opts g))" "lg_conn_ok c" "idle_done c g" "\<not> c_closed c"
  shows "\<exists>c' g'. on_writable w (c, g) = Some (c', g') \<and> lg_kept (c, g) (c', g') \<and> idle_done c' g'"
proof (cases "\<not> c_primed c \<and> lw_so_error w")
  case True
  then show ?thesis
    using assms(5) by (auto simp: on_writable_def lg_kept_def lg_conn_ok_def refused_def in_budget_def idle_done_def)
next
  case False
  obtain c1 g1 where T: "(if c_primed c then (c, g) else top_up_pipeline w 0 (c\<lparr>c_primed := True\<rparr>, g)) = (c1, g1)" by fastforce
  have p: "lg_kept (c, g) (c\<lparr>c_primed := True\<rparr>, g)" using assms(5) by (auto simp: lg_kept_def lg_conn_ok_def refused_def in_budget_def)
  have k: "lg_kept (c, g) (c1, g1) \<and> idle_done c1 g1"
  proof (cases "c_primed c")
    case False
    then show ?thesis using T top_up_kept [OF assms(2), of w 0 "c\<lparr>c_primed := True\<rparr>" c1 g1] lg_kept_trans [OF p] by simp
  qed (use T assms(4) in simp)
  then have "buf_invar (c_out c1)" using assms(3) by (simp add: lg_kept_def lg_conn_ok_def)
  from lg_write_kept [OF assms(1) this, of 0 g1] obtain c2 where W: "lg_write w 0 c1 = Some c2" "lg_kept (c1, g1) (c2, g1)"
    "c_primed c2 = c_primed c1" "c_inflight c2 = c_inflight c1" "c_closed c2 \<or> c_closed c2 = c_closed c1" by blast
  have "idle_done c2 g1" using k W(3-5) by (auto simp: idle_done_def)
  moreover have "on_writable w (c, g) = Some (c2, g1)" using False T W(1) by (auto simp: on_writable_def)
  ultimately show ?thesis using k W(2) lg_kept_trans by blast
qed

lemma lg_handle_kept:
  assumes "lg_sockets_ok (le_read e)" "lg_sockets_ok (le_write e)" "0 < to_size_t (o_pipeline (g_opts g))" "lg_conn_ok c" "idle_done c g"
  shows "\<exists>c' g'. lg_handle e (c, g) = Some (c', g') \<and> lg_kept (c, g) (c', g') \<and> idle_done c' g'"
proof -
  obtain c1 g1 where R: "(if le_readable e then on_readable (le_read e) (c, g) else Some (c, g)) = Some (c1, g1)" "lg_kept (c, g) (c1, g1)" "idle_done c1 g1"
    using on_readable_kept [OF assms(1,3), of c] assms(5) by (cases "le_readable e") auto
  have c1: "lg_conn_ok c1" "0 < to_size_t (o_pipeline (g_opts g1))" using R(2) assms(3,4) by (simp_all add: lg_kept_def)
  obtain c2 g2 where W: "(if \<not> c_closed c1 \<and> le_writable e then on_writable (le_write e) (c1, g1) else Some (c1, g1)) = Some (c2, g2)"
    "lg_kept (c1, g1) (c2, g2)" "idle_done c2 g2"
    using on_writable_kept [OF assms(2) c1(2,1) R(3)] R(3) by (cases "\<not> c_closed c1 \<and> le_writable e") auto
  have "lg_handle e (c, g) = Some (c2, g2)" using R(1) W(1) by (simp add: lg_handle_def)
  then show ?thesis using lg_kept_trans [OF R(2) W(2)] W(3) by blast
qed

section \<open>The whole run\<close>

definition in_flight :: "lg_conn list \<Rightarrow> nat" where
  "in_flight cs = sum_list (map (\<lambda>c. length (c_inflight c)) cs)"

definition lg_counts :: "lg_state \<Rightarrow> lg_conn list \<Rightarrow> bool" where
  "lg_counts g cs \<longleftrightarrow> g_issued g = g_completed g + int (in_flight cs) \<and> int (hcount (g_hist g)) = g_completed g \<and>
     0 \<le> g_errors g \<and> g_errors g \<le> g_completed g \<and> in_budget g \<and> g_connect_failures g \<le> int (length (filter refused cs)) \<and>
     (\<forall>c \<in> set cs. lg_conn_ok c \<and> idle_done c g \<and> length (c_inflight c) \<le> to_size_t (o_pipeline (g_opts g)))"

lemma length_filter_update:
  assumes "i < length xs"
  shows "int (length (filter P (xs[i := x]))) = int (length (filter P xs)) - of_bool (P (xs ! i)) + of_bool (P x)"
proof -
  have "length (filter P (xs[i := x])) + of_bool (P (xs ! i)) = length (filter P xs) + of_bool (P x)"
    using assms
  proof (induction xs arbitrary: i)
    case (Cons a xs)
    then show ?case by (cases i) (use Cons.IH in fastforce)+
  qed simp
  then show ?thesis by (cases "P (xs ! i)"; cases "P x") simp_all
qed

lemma in_flight_update:
  assumes "i < length cs"
  shows "int (in_flight (cs[i := c])) = int (in_flight cs) - int (length (c_inflight (cs ! i))) + int (length (c_inflight c))"
proof -
  have "length (c_inflight (cs ! i)) \<le> in_flight cs" using assms elem_le_sum_list [of i "map (\<lambda>c. length (c_inflight c)) cs"] by (simp add: in_flight_def)
  then show ?thesis using assms sum_list_update [of i "map (\<lambda>c. length (c_inflight c)) cs" "length (c_inflight c)"] by (simp add: in_flight_def map_update)
qed

lemma idle_done_later: "idle_done c g \<Longrightarrow> g_opts g' = g_opts g \<Longrightarrow> g_issued g \<le> g_issued g' \<Longrightarrow> idle_done c g'"
  by (auto simp: idle_done_def budget_spent_def)

lemma lg_counts_update:
  assumes "lg_counts g cs" "i < length cs" "lg_kept (cs ! i, g) (c, g')" "idle_done c g'"
  shows "lg_counts g' (cs[i := c])"
proof -
  have k: "g_opts g' = g_opts g" "g_issued g \<le> g_issued g'" "lg_conn_ok (cs ! i) \<Longrightarrow> lg_conn_ok c" "in_budget g \<Longrightarrow> in_budget g'"
    "length (c_inflight c) \<le> max (length (c_inflight (cs ! i))) (to_size_t (o_pipeline (g_opts g)))"
    using assms(3) by (simp_all add: lg_kept_def)
  have e: "lg_conn_ok x \<and> idle_done x g' \<and> length (c_inflight x) \<le> to_size_t (o_pipeline (g_opts g'))" if x: "x \<in> set (cs[i := c])" for x
  proof -
    have "cs ! i \<in> set cs" using assms(2) by simp
    then have i: "lg_conn_ok c \<and> length (c_inflight c) \<le> to_size_t (o_pipeline (g_opts g))" using assms(1) k(3,5) by (auto simp: lg_counts_def max_def split: if_splits)
    consider "x = c" | "x \<in> set cs" using x set_update_subset_insert [of cs i c] by blast
    then show ?thesis using i assms(1,4) k(1,2) idle_done_later by cases (auto simp: lg_counts_def)
  qed
  have "g_issued g' = g_completed g' + int (in_flight (cs[i := c]))" "int (hcount (g_hist g')) = g_completed g'"
    "0 \<le> g_errors g'" "g_errors g' \<le> g_completed g'" "g_connect_failures g' \<le> int (length (filter refused (cs[i := c])))"
    using assms(1,3) in_flight_update [OF assms(2), of c] length_filter_update [OF assms(2), of refused c] by (simp_all add: lg_counts_def lg_kept_def)
  moreover have "in_budget g'" using assms(1) k(4) by (simp add: lg_counts_def)
  ultimately show ?thesis using e by (auto simp: lg_counts_def)
qed

lemma lg_counts_fd:
  assumes "lg_counts g cs" "i < length cs"
  shows "lg_counts g (cs[i := (cs ! i)\<lparr>c_fd := fd\<rparr>])"
proof -
  let ?c = "(cs ! i)\<lparr>c_fd := fd\<rparr>"
  have "cs ! i \<in> set cs" using assms(2) by simp
  then have "\<forall>c \<in> insert ?c (set cs). lg_conn_ok c \<and> idle_done c g \<and> length (c_inflight c) \<le> to_size_t (o_pipeline (g_opts g))"
    using assms(1) by (auto simp: lg_counts_def lg_conn_ok_def idle_done_def)
  then show ?thesis
    using assms(1) in_flight_update [OF assms(2), of ?c] length_filter_update [OF assms(2), of refused ?c] set_update_subset_insert [of cs i ?c]
    by (auto simp: lg_counts_def refused_def)
qed

text \<open>Each open connection is found under its descriptor and registered; a primed one is always read from, and written to while there is output.\<close>

definition lg_listed :: "lg_main \<Rightarrow> nat \<Rightarrow> bool" where
  "lg_listed m i \<longleftrightarrow> (let c = m_conns m ! i in \<not> c_closed c \<longrightarrow> map_of (m_by_fd m) (c_fd c) = Some i \<and>
     (\<exists>r w. map_of (m_epoll m) (c_fd c) = Some (r, w) \<and> (c_primed c \<longrightarrow> r \<and> (w \<longleftrightarrow> \<not> buf_empty (c_out c)))))"

definition lg_inv :: "lg_main \<Rightarrow> bool" where
  "lg_inv m \<longleftrightarrow> lg_counts (m_gen m) (m_conns m) \<and> (\<forall>i < length (m_conns m). lg_listed m i) \<and>
     (\<forall>fd i. map_of (m_by_fd m) fd = Some i \<longrightarrow> i < length (m_conns m) \<and> (c_closed (m_conns m ! i) \<or> c_fd (m_conns m ! i) = fd))"

definition event_ok :: "lg_event \<Rightarrow> bool" where
  "event_ok e \<longleftrightarrow> lg_sockets_ok (le_read e) \<and> lg_sockets_ok (le_write e)"

lemma listed_other:
  assumes "lg_listed m j" "m_by_fd m' = m_by_fd m" "m_conns m' ! j = m_conns m ! j"
    and "\<And>fd. fd \<noteq> fd0 \<Longrightarrow> map_of (m_epoll m') fd = map_of (m_epoll m) fd" "map_of (m_by_fd m) fd0 \<noteq> Some j"
  shows "lg_listed m' j"
proof -
  have "map_of (m_epoll m') (c_fd (m_conns m ! j)) = map_of (m_epoll m) (c_fd (m_conns m ! j))" if "\<not> c_closed (m_conns m ! j)"
    using assms(1,4) that assms(5) by (metis lg_listed_def)
  then show ?thesis using assms(1-3) by (auto simp: lg_listed_def Let_def)
qed

lemma lg_on_event_inv:
  assumes inv: "lg_inv m" and e: "event_ok e" and pl: "0 < to_size_t (o_pipeline (g_opts (m_gen m)))"
  shows "\<exists>m'. lg_on_event e m = Some m' \<and> lg_inv m' \<and> g_opts (m_gen m') = g_opts (m_gen m)"
proof (cases "map_of (m_by_fd m) (le_fd e)")
  case None
  then show ?thesis using inv by (simp add: lg_on_event_def)
next
  case (Some i)
  let ?c = "m_conns m ! i"
  have i: "i < length (m_conns m)" "c_closed ?c \<or> c_fd ?c = le_fd e" using inv Some by (auto simp: lg_inv_def)
  show ?thesis
  proof (cases "c_closed ?c")
    case True
    then show ?thesis using inv Some by (simp add: lg_on_event_def)
  next
    case open_c: False
    then have fd: "c_fd ?c = le_fd e" using i(2) by simp
    have counts: "lg_counts (m_gen m) (m_conns m)" and "lg_listed m i" using inv i(1) by (simp_all add: lg_inv_def)
    then have reg: "map_of (m_epoll m) (le_fd e) \<noteq> None" using open_c fd by (auto simp: lg_listed_def Let_def)
    have "lg_conn_ok ?c" "idle_done ?c (m_gen m)" using counts i(1) by (simp_all add: lg_counts_def)
    then obtain c g where H: "lg_handle e (?c, m_gen m) = Some (c, g)" "lg_kept (?c, m_gen m) (c, g)" "idle_done c g"
      using lg_handle_kept e pl unfolding event_ok_def by blast
    have k: "c_fd c = le_fd e" "g_opts g = g_opts (m_gen m)" using H(2) fd by (simp_all add: lg_kept_def)
    have other: "map_of (m_by_fd m) (le_fd e) \<noteq> Some j" if "j \<noteq> i" for j using that Some by simp
    have others: "lg_inv m'" if new: "m_by_fd m' = m_by_fd m" "m_gen m' = g" "m_conns m' = (m_conns m)[i := c']" "lg_listed m' i"
      "lg_counts g ((m_conns m)[i := c'])" "c_closed c' \<or> c_fd c' = le_fd e"
      and frame: "\<And>fd. fd \<noteq> le_fd e \<Longrightarrow> map_of (m_epoll m') fd = map_of (m_epoll m) fd" for m' c'
    proof -
      have "lg_listed m' j" if j: "j < length (m_conns m)" for j
      proof (cases "j = i")
        case False
        then show ?thesis using inv j other new(3) by (intro listed_other [OF _ new(1) _ frame]) (auto simp: lg_inv_def)
      qed (use new(4) in simp)
      moreover have "j < length (m_conns m) \<and> (c_closed (m_conns m' ! j) \<or> c_fd (m_conns m' ! j) = f)" if j: "map_of (m_by_fd m) f = Some j" for f j
      proof (cases "j = i")
        case True
        then have "f = le_fd e" using inv j i open_c fd by (auto simp: lg_inv_def)
        then show ?thesis using True i(1) new(3,6) by simp
      qed (use inv j new(3) in \<open>auto simp: lg_inv_def\<close>)
      ultimately show ?thesis using new(1-3,5) by (simp add: lg_inv_def)
    qed
    have after: "lg_counts g ((m_conns m)[i := c])" by (rule lg_counts_update [OF counts i(1) H(2,3)])
    show ?thesis
    proof (cases "c_closed c")
      case True
      let ?m = "m\<lparr>m_gen := g, m_epoll := AList.delete (le_fd e) (m_epoll m), m_conns := (m_conns m)[i := c\<lparr>c_fd := -1\<rparr>]\<rparr>"
      have "lg_on_event e m = Some ?m" using Some open_c H(1) True by (simp add: lg_on_event_def ep_remove_def Let_def)
      moreover have "lg_inv ?m"
        by (rule others [of _ "c\<lparr>c_fd := -1\<rparr>"]) (use True i(1) lg_counts_fd [OF after, of i "-1"] in \<open>simp_all add: lg_listed_def delete_conv'\<close>)
      ultimately show ?thesis using k(2) by auto
    next
      case False
      let ?m = "m\<lparr>m_gen := g, m_conns := (m_conns m)[i := c], m_epoll := AList.update (le_fd e) (c_primed c, \<not> buf_empty (c_out c)) (m_epoll m)\<rparr>"
      have "lg_on_event e m = Some ?m" using Some open_c H(1) False k(1) reg by (auto simp: lg_on_event_def update_interest_def ep_modify_def)
      moreover have "lg_inv ?m"
        by (rule others [of _ c]) (use False i(1) Some k(1) after in \<open>simp_all add: lg_listed_def Let_def update_conv'\<close>)
      ultimately show ?thesis using k(2) by auto
    qed
  qed
qed

lemma lg_batch_inv:
  assumes "lg_inv m" "list_all event_ok es" "0 < to_size_t (o_pipeline (g_opts (m_gen m)))"
  shows "\<exists>m'. lg_batch es m = Some m' \<and> lg_inv m' \<and> g_opts (m_gen m') = g_opts (m_gen m)"
  using assms
proof (induction es arbitrary: m)
  case (Cons e es)
  then obtain m1 where m1: "lg_on_event e m = Some m1" "lg_inv m1" "g_opts (m_gen m1) = g_opts (m_gen m)"
    using lg_on_event_inv [of m e] by auto
  then show ?case using Cons.IH [of m1] Cons.prems by auto
qed simp

lemma lg_loop_inv:
  assumes "lg_inv m" "list_all (list_all event_ok) bs" "0 < to_size_t (o_pipeline (g_opts (m_gen m)))"
  shows "\<exists>m' fin. lg_loop bs m = Some (m', fin) \<and> lg_inv m' \<and> g_opts (m_gen m') = g_opts (m_gen m) \<and> (fin \<longleftrightarrow> \<not> any_active m')"
  using assms
proof (induction bs arbitrary: m)
  case (Cons b bs)
  show ?case
  proof (cases "any_active m")
    case True
    obtain m1 where "lg_batch b m = Some m1" "lg_inv m1" "g_opts (m_gen m1) = g_opts (m_gen m)"
      using lg_batch_inv [of m b] Cons.prems by auto
    then show ?thesis using Cons.IH [of m1] Cons.prems True by auto
  qed (use Cons.prems in simp)
qed simp

text \<open>After \<open>i\<close> connections have been set up.\<close>

definition connected :: "nat \<Rightarrow> lg_main \<Rightarrow> bool" where
  "connected i m \<longleftrightarrow> i \<le> length (m_conns m) \<and> (\<forall>k < length (m_conns m). \<exists>fd. m_conns m ! k = lg_conn_init\<lparr>c_fd := fd\<rparr>) \<and>
     (\<forall>k < i. map_of (m_by_fd m) (c_fd (m_conns m ! k)) = Some k \<and> map_of (m_epoll m) (c_fd (m_conns m ! k)) = Some (False, True)) \<and>
     (\<forall>fd k. map_of (m_by_fd m) fd = Some k \<longrightarrow> k < i \<and> c_fd (m_conns m ! k) = fd)"

lemma connect_all_connected:
  assumes "connected i m" "i + length fds = length (m_conns m)" "distinct fds" "\<forall>fd \<in> set fds. map_of (m_epoll m) fd = None"
  shows "\<exists>m'. connect_all i fds m = Some m' \<and> connected (length (m_conns m)) m' \<and> length (m_conns m') = length (m_conns m) \<and> m_gen m' = m_gen m"
  using assms
proof (induction fds arbitrary: i m)
  case (Cons fd fds)
  let ?c = "(m_conns m ! i)\<lparr>c_fd := fd\<rparr>"
  let ?m = "m\<lparr>m_conns := (m_conns m)[i := ?c], m_epoll := m_epoll m @ [(fd, False, True)], m_by_fd := AList.update fd i (m_by_fd m)\<rparr>"
  have i: "i < length (m_conns m)" "map_of (m_epoll m) fd = None" using Cons.prems(2,4) by auto
  obtain f where f: "m_conns m ! i = lg_conn_init\<lparr>c_fd := f\<rparr>" using Cons.prems(1) i(1) unfolding connected_def by blast
  have old: "map_of (m_by_fd m) (c_fd (m_conns m ! k)) = Some k \<and> map_of (m_epoll m) (c_fd (m_conns m ! k)) = Some (False, True)" if "k < i" for k
    using Cons.prems(1) that by (simp add: connected_def)
  have fresh: "c_fd (m_conns m ! k) \<noteq> fd" if "k < i" for k using old [OF that] i(2) by auto
  have "connected (i + 1) ?m"
    unfolding connected_def
  proof (intro conjI allI impI)
    fix k assume k: "k < i + 1"
    show "map_of (m_by_fd ?m) (c_fd (m_conns ?m ! k)) = Some k" "map_of (m_epoll ?m) (c_fd (m_conns ?m ! k)) = Some (False, True)"
      using k i old [of k] fresh [of k] by (cases "k = i"; simp add: update_conv' map_add_def)+
  next
    fix x k assume x: "map_of (m_by_fd ?m) x = Some k"
    have "k < i \<and> c_fd (m_conns m ! k) = x" if "x \<noteq> fd"
      using Cons.prems(1) x that by (simp add: connected_def update_conv')
    moreover have "k = i" if "x = fd" using x that by (simp add: update_conv')
    ultimately show "k < i + 1" "c_fd (m_conns ?m ! k) = x"
      using i(1) by (cases "x = fd"; fastforce)+
  next
    fix k assume k: "k < length (m_conns ?m)"
    show "\<exists>g. m_conns ?m ! k = lg_conn_init\<lparr>c_fd := g\<rparr>"
      using Cons.prems(1) k f by (cases "k = i") (auto simp: connected_def)
  qed (use i(1) in simp)
  moreover have "\<forall>x \<in> set fds. map_of (m_epoll ?m) x = None" using Cons.prems(3,4) by (auto simp: map_add_def)
  ultimately have "\<exists>m'. connect_all (i + 1) fds ?m = Some m' \<and> connected (length (m_conns m)) m' \<and> length (m_conns m') = length (m_conns m) \<and> m_gen m' = m_gen m"
    using Cons.IH [of "i + 1" ?m] Cons.prems(2,3) by simp
  then show ?case using i(2) by (simp add: ep_add_def)
qed (auto simp: connected_def)

lemma lg_start_inv:
  assumes "distinct fds" "length fds = to_size_t (o_connections opts)"
  shows "\<exists>m. lg_start opts fds = Some m \<and> lg_inv m \<and> g_opts (m_gen m) = opts \<and> length (m_conns m) = to_size_t (o_connections opts)"
proof -
  let ?m = "\<lparr>m_gen = lg_state_init opts, m_conns = replicate (to_size_t (o_connections opts)) lg_conn_init, m_by_fd = [], m_epoll = []\<rparr>"
  have ci: "lg_conn_init = lg_conn_init\<lparr>c_fd := -1\<rparr>" by (simp add: lg_conn_init_def)
  have "connected 0 ?m" unfolding connected_def using exI [of "\<lambda>fd. lg_conn_init = lg_conn_init\<lparr>c_fd := fd\<rparr>", OF ci] by simp
  then obtain m where m: "lg_start opts fds = Some m" "connected (length (m_conns m)) m" "length (m_conns m) = to_size_t (o_connections opts)" "m_gen m = lg_state_init opts"
    using connect_all_connected [of 0 ?m fds] assms unfolding lg_start_def by auto
  have fresh: "\<exists>fd. c = lg_conn_init\<lparr>c_fd := fd\<rparr>" if "c \<in> set (m_conns m)" for c
    using that m(2) unfolding connected_def by (metis in_set_conv_nth)
  have e: "lg_conn_ok c \<and> idle_done c (m_gen m) \<and> c_inflight c = []" if "c \<in> set (m_conns m)" for c
    using fresh [OF that] by (auto simp: lg_conn_init_def lg_conn_ok_def idle_done_def buf_init_spec)
  then have "in_flight (m_conns m) = 0" by (simp add: in_flight_def)
  moreover have "hcount hist_init = 0" by (simp add: hist_init_def)
  ultimately have "lg_counts (m_gen m) (m_conns m)"
    using e m(4) by (auto simp: lg_counts_def lg_state_init_def in_budget_def)
  moreover have "lg_listed m i" if i: "i < length (m_conns m)" for i
  proof -
    obtain fd where "m_conns m ! i = lg_conn_init\<lparr>c_fd := fd\<rparr>" using fresh [OF nth_mem [OF i]] by auto
    then have "\<not> c_primed (m_conns m ! i)" by (simp add: lg_conn_init_def)
    moreover have "map_of (m_by_fd m) (c_fd (m_conns m ! i)) = Some i" "map_of (m_epoll m) (c_fd (m_conns m ! i)) = Some (False, True)"
      using m(2) i by (simp_all add: connected_def)
    ultimately show ?thesis unfolding lg_listed_def Let_def by auto
  qed
  ultimately have "lg_inv m" using m(2) by (auto simp: lg_inv_def connected_def)
  then show ?thesis using m by (simp add: lg_state_init_def)
qed

section \<open>Accepted options\<close>

lemma lg_set_int_Inr: "lg_set_int name v store = Inr opts \<Longrightarrow> \<exists>n. opts = store n"
  by (auto simp: lg_set_int_def split: sum.splits)

definition lg_ints_ok :: "lg_options \<Rightarrow> bool" where
  "lg_ints_ok opts \<longleftrightarrow> int32 (o_connections opts) \<and> int32 (o_pipeline opts) \<and> int32 (o_keyspace opts) \<and> int32 (o_value_size opts)"

lemma lg_set_option_ok: "lg_ints_ok opts \<Longrightarrow> lg_set_option strtod a v opts = Inr opts' \<Longrightarrow> lg_ints_ok opts'"
  unfolding lg_set_option_def
  by (elim if_cases; (drule lg_set_int_Inr)?) (auto simp: lg_ints_ok_def to_i32_range split: sum.splits)

definition lg_options_ok :: "lg_options \<Rightarrow> bool" where
  "lg_options_ok opts \<longleftrightarrow> lg_ints_ok opts \<and> lg_check_options opts = LgOptions opts"

lemma lg_set_option_no_options: "lg_set_option strtod a v opts = Inl r \<Longrightarrow> r \<noteq> LgOptions x"
  unfolding lg_set_option_def
  by (elim if_cases) (auto simp: lg_set_int_def require_int_def require_double_def lg_bad_value_def split: sum.splits option.splits prod.splits if_splits)

lemma lg_parse_options_ok: "lg_ints_ok opts \<Longrightarrow> lg_parse_options strtod args opts = LgOptions opts' \<Longrightarrow> lg_options_ok opts'"
proof (induction strtod args opts rule: lg_parse_options.induct)
  case (1 strtod opts)
  then show ?case by (auto simp: lg_options_ok_def lg_check_options_def split: if_splits)
next
  case (2 strtod a rest opts)
  then show ?case
    by (auto split: if_splits list.splits sum.splits dest: lg_set_option_ok lg_set_option_no_options)
qed

lemma lg_parse_args_ok:
  assumes "lg_parse_args strtod args = LgOptions opts"
  shows "0 < to_size_t (o_pipeline opts)" "int (to_size_t (o_pipeline opts)) = o_pipeline opts" "int (to_size_t (o_connections opts)) = o_connections opts" "0 < o_connections opts"
proof -
  have "lg_ints_ok lg_defaults" by (simp add: lg_ints_ok_def lg_defaults_def int32_def)
  then have "lg_options_ok opts" using assms lg_parse_options_ok by (simp add: lg_parse_args_def)
  then have "0 < o_pipeline opts" "o_pipeline opts < 2 ^ 31" "0 < o_connections opts" "o_connections opts < 2 ^ 31"
    by (auto simp: lg_options_ok_def lg_ints_ok_def lg_check_options_def int32_def split: if_splits)
  then show "0 < to_size_t (o_pipeline opts)" "int (to_size_t (o_pipeline opts)) = o_pipeline opts" "int (to_size_t (o_connections opts)) = o_connections opts" "0 < o_connections opts"
    by (simp_all add: to_size_t_def)
qed

lemma in_flight_closed:
  "\<not> list_ex conn_active cs \<Longrightarrow> in_flight cs = in_flight (filter c_closed cs)"
  by (induction cs) (auto simp: in_flight_def conn_active_def)

lemma inactive_budget:
  assumes "lg_counts g cs" "\<not> list_ex conn_active cs" "c \<in> set cs" "\<not> c_closed c" "0 < o_requests (g_opts g)"
  shows "g_issued g = o_requests (g_opts g)"
proof -
  have "\<not> conn_active c" using assms(2,3) by (auto simp: list_ex_iff)
  then show ?thesis using assms by (auto simp: lg_counts_def conn_active_def idle_done_def budget_spent_def in_budget_def)
qed

lemma listed_registered:
  assumes "lg_inv m" "c \<in> set (m_conns m)" "\<not> c_closed c" "c_primed c"
  shows "map_of (m_epoll m) (c_fd c) = Some (True, \<not> buf_empty (c_out c))"
proof -
  obtain i where "i < length (m_conns m)" "c = m_conns m ! i" using assms(2) by (auto simp: in_set_conv_nth)
  then have "lg_listed m i" using assms(1) by (simp add: lg_inv_def)
  then show ?thesis using assms(3,4) \<open>c = m_conns m ! i\<close> by (auto simp: lg_listed_def Let_def)
qed

text \<open>C37: the load generator accounts for every request of a run. With any accepted options and whatever the
  sockets answer and in whatever order events come, its loop does not fail; the issued requests are the completed ones and those in
  flight, one latency is recorded per completed request, errors and refused connections are not counted more than once,
  no pipeline exceeds its depth and the request budget is never exceeded. An open connection that has been primed is always registered for reading,
  and for writing exactly while it has output. When the loop ends, only requests on connections
  that were closed have gone without a reply, and as long as one connection is left the whole budget was issued.\<close>
theorem loadgen_accounts_for_every_request:
  assumes opts: "lg_parse_args strtod args = LgOptions opts" and fds: "distinct fds" "int (length fds) = o_connections opts"
    and bs: "list_all (list_all event_ok) bs"
  shows "\<exists>m0 m fin. lg_start opts fds = Some m0 \<and> lg_loop bs m0 = Some (m, fin) \<and>
    g_issued (m_gen m) = g_completed (m_gen m) + int (in_flight (m_conns m)) \<and> int (hcount (g_hist (m_gen m))) = g_completed (m_gen m) \<and>
    0 \<le> g_errors (m_gen m) \<and> g_errors (m_gen m) \<le> g_completed (m_gen m) \<and>
    g_connect_failures (m_gen m) \<le> int (length (filter refused (m_conns m))) \<and>
    (\<forall>c \<in> set (m_conns m). int (length (c_inflight c)) \<le> o_pipeline opts) \<and>
    (0 < o_requests opts \<longrightarrow> g_issued (m_gen m) \<le> o_requests opts) \<and>
    (\<forall>c \<in> set (m_conns m). \<not> c_closed c \<and> c_primed c \<longrightarrow> map_of (m_epoll m) (c_fd c) = Some (True, \<not> buf_empty (c_out c))) \<and>
    (fin \<longrightarrow> in_flight (m_conns m) = in_flight (filter c_closed (m_conns m))) \<and>
    (fin \<and> 0 < o_requests opts \<and> (\<exists>c \<in> set (m_conns m). \<not> c_closed c) \<longrightarrow> g_issued (m_gen m) = o_requests opts)"
proof -
  note p = lg_parse_args_ok [OF opts]
  have "length fds = to_size_t (o_connections opts)" using fds(2) p(3) by simp
  then obtain m0 where m0: "lg_start opts fds = Some m0" "lg_inv m0" "g_opts (m_gen m0) = opts" using lg_start_inv [OF fds(1)] by blast
  obtain m fin where m: "lg_loop bs m0 = Some (m, fin)" "lg_inv m" "g_opts (m_gen m) = opts" "fin \<longleftrightarrow> \<not> any_active m"
    using lg_loop_inv [OF m0(2) bs] m0(3) p(1) by auto
  have c: "lg_counts (m_gen m) (m_conns m)" using m(2) by (simp add: lg_inv_def)
  have n: "g_issued (m_gen m) = g_completed (m_gen m) + int (in_flight (m_conns m))" "int (hcount (g_hist (m_gen m))) = g_completed (m_gen m)"
    "0 \<le> g_errors (m_gen m)" "g_errors (m_gen m) \<le> g_completed (m_gen m)" "g_connect_failures (m_gen m) \<le> int (length (filter refused (m_conns m)))"
    "0 < o_requests opts \<longrightarrow> g_issued (m_gen m) \<le> o_requests opts" "\<forall>c \<in> set (m_conns m). length (c_inflight c) \<le> to_size_t (o_pipeline opts)"
    using c m(3) by (auto simp: lg_counts_def in_budget_def)
  moreover have "\<forall>c \<in> set (m_conns m). int (length (c_inflight c)) \<le> o_pipeline opts" using n(7) p(2) by fastforce
  moreover have "\<forall>c \<in> set (m_conns m). \<not> c_closed c \<and> c_primed c \<longrightarrow> map_of (m_epoll m) (c_fd c) = Some (True, \<not> buf_empty (c_out c))"
    using listed_registered [OF m(2)] by blast
  moreover have "fin \<longrightarrow> in_flight (m_conns m) = in_flight (filter c_closed (m_conns m))"
    using in_flight_closed m(4) by (auto simp: any_active_def)
  moreover have "fin \<and> 0 < o_requests opts \<and> (\<exists>c \<in> set (m_conns m). \<not> c_closed c) \<longrightarrow> g_issued (m_gen m) = o_requests opts"
    using inactive_budget [OF c] m(3,4) unfolding any_active_def by blast
  ultimately show ?thesis using m0(1) m(1) by (intro exI [of _ m0] exI [of _ m] exI [of _ fin] conjI)
qed

definition demo_events :: "lg_event list list" where
  "demo_events = [[\<lparr>le_fd = 5, le_readable = False, le_writable = True, le_read = demo_world, le_write = demo_world\<rparr>],
     [\<lparr>le_fd = 5, le_readable = True, le_writable = False, le_read = demo_world, le_write = demo_world\<rparr>]]"

theorem loadgen_accounts_for_every_request_witness:
  "\<exists>opts m0 m fin. lg_parse_args (\<lambda>s. (0, s, True)) [''-c'', ''1'', ''--requests'', ''1''] = LgOptions opts \<and> lg_start opts [5] = Some m0 \<and>
     lg_loop demo_events m0 = Some (m, fin) \<and> g_issued (m_gen m) = g_completed (m_gen m) + int (in_flight (m_conns m)) \<and> g_issued (m_gen m) \<le> 1"
proof -
  let ?opts = "lg_defaults\<lparr>o_connections := 1, o_requests := 1\<rparr>"
  have one: "parse_int64 ''1'' = Some 1" by code_simp
  have long_run: "\<not> f64_le 0x4024000000000000 0" by (simp add: f64_le_def f64_lt_def f64_eq_def f64_key_def f64_mag_def f64_neg_def)
  have p: "lg_parse_args (\<lambda>s. (0, s, True)) [''-c'', ''1'', ''--requests'', ''1''] = LgOptions ?opts"
    using one long_run by (simp add: lg_parse_args_def lg_known_options_def lg_set_option_def lg_set_int_def require_int_def lg_check_options_def lg_defaults_def to_i32_fits int32_def)
  have "lg_sockets_ok demo_world" by (auto simp: lg_sockets_ok_def demo_world_def kReadChunkSize_def CRLF_def CR_def LF_def)
  then have e: "list_all (list_all event_ok) demo_events" by (simp add: demo_events_def event_ok_def)
  show ?thesis
    using loadgen_accounts_for_every_request [OF p, of "[5]" demo_events] e p by (auto simp: lg_defaults_def)
qed

text \<open>With a NaN as duration the checks of the options pass, since comparisons with it are false, and issuing never stops: \<^verbatim>\<open>--duration-sec nan\<close> runs for ever.\<close>
theorem nan_duration_never_stops:
  assumes "strtod ''nan'' = (f64_nan False, [], False)"
  shows "lg_parse_args strtod [''--duration-sec'', ''nan''] = LgOptions (lg_defaults\<lparr>o_duration_sec := f64_nan False\<rparr>)"
    "g_opts g = lg_defaults\<lparr>o_duration_sec := f64_nan False\<rparr> \<Longrightarrow> \<not> stop_issuing w i g"
proof -
  have nan: "\<not> f64_le (f64_nan False) x" for x
    using f64_nan_isnan [of False] by (simp add: f64_le_def f64_lt_def f64_eq_def)
  then show "lg_parse_args strtod [''--duration-sec'', ''nan''] = LgOptions (lg_defaults\<lparr>o_duration_sec := f64_nan False\<rparr>)"
    using assms by (simp add: lg_parse_args_def lg_known_options_def lg_set_option_def require_double_def lg_check_options_def lg_defaults_def)
  show "g_opts g = lg_defaults\<lparr>o_duration_sec := f64_nan False\<rparr> \<Longrightarrow> \<not> stop_issuing w i g"
    using nan by (simp add: stop_issuing_def lg_defaults_def)
qed

end
