(* ===== verification/Type_Safety.thy ===== *)
theory Type_Safety
  imports Dispatcher
begin

text \<open>
  Values keep their types. Every command that works on a value of one type, the key being its first argument,
  refuses a value of another type with an error and without any effect, creates only values of its own type, and never
  turns a value into one of another type. \<open>SET\<close> and \<open>MSET\<close>, which overwrite whatever is there, and the
  commands for keys of any type are not in the table; \<open>MGET\<close> shows a value of another type as missing and \<open>SINTER\<close> reads several keys.
\<close>

section \<open>The types commands work on\<close>

definition kKeyTypes :: "(string \<times> string option) list" where
  "kKeyTypes = [
    (''ping'', None), (''echo'', None), (''quit'', None), (''command'', None), (''config'', None), (''hello'', None), (''dbsize'', None),
    (''flushall'', None), (''get'', Some ''string''), (''set'', None), (''mget'', None), (''mset'', None), (''incr'', Some ''string''),
    (''decr'', Some ''string''), (''incrby'', Some ''string''), (''decrby'', Some ''string''), (''append'', Some ''string''),
    (''strlen'', Some ''string''), (''del'', None), (''unlink'', None), (''exists'', None), (''type'', None), (''expire'', None),
    (''pexpire'', None), (''expireat'', None), (''pexpireat'', None), (''ttl'', None), (''pttl'', None), (''persist'', None),
    (''hset'', Some ''hash''), (''hget'', Some ''hash''), (''hmget'', Some ''hash''), (''hdel'', Some ''hash''),
    (''hexists'', Some ''hash''), (''hlen'', Some ''hash''), (''hgetall'', Some ''hash''), (''hkeys'', Some ''hash''),
    (''hvals'', Some ''hash''), (''hincrby'', Some ''hash''), (''lpush'', Some ''list''), (''rpush'', Some ''list''),
    (''lpop'', Some ''list''), (''rpop'', Some ''list''), (''llen'', Some ''list''), (''lrange'', Some ''list''),
    (''lindex'', Some ''list''), (''sadd'', Some ''set''), (''srem'', Some ''set''), (''sismember'', Some ''set''),
    (''smembers'', Some ''set''), (''scard'', Some ''set''), (''spop'', Some ''set''), (''sinter'', None), (''zadd'', Some ''zset''),
    (''zrem'', Some ''zset''), (''zscore'', Some ''zset''), (''zincrby'', Some ''zset''), (''zcard'', Some ''zset''),
    (''zrank'', Some ''zset''), (''zrevrank'', Some ''zset''), (''zrange'', Some ''zset''), (''zrevrange'', Some ''zset''),
    (''zrangebyscore'', Some ''zset''), (''zcount'', Some ''zset''), (''zpopmin'', Some ''zset''), (''save'', None), (''bgsave'', None),
    (''lastsave'', None)]"

definition type_step :: "string \<Rightarrow> string \<Rightarrow> amap \<Rightarrow> reply \<Rightarrow> amap \<Rightarrow> bool" where
  "type_step ty key M r M' \<longleftrightarrow>
     (\<forall>k a' d'. M' k = Some (a', d') \<longrightarrow>
        (case M k of None \<Rightarrow> k = key \<and> a_type_name a' = ty | Some (a, d) \<Rightarrow> a_type_name a' = a_type_name a)) \<and>
     (\<forall>a d. M key = Some (a, d) \<and> a_type_name a \<noteq> ty \<longrightarrow> (\<exists>e. r = RError e) \<and> M' = M)"

section \<open>One type\<close>

text \<open>A step on a key that is missing or of the right type: other keys stay, and this one gets no other type.\<close>

definition own_type :: "string \<Rightarrow> string \<Rightarrow> amap \<Rightarrow> bool" where
  "own_type ty key M \<longleftrightarrow> (\<forall>a d. M key = Some (a, d) \<longrightarrow> a_type_name a = ty)"

definition own_step :: "string \<Rightarrow> string \<Rightarrow> amap \<Rightarrow> amap \<Rightarrow> bool" where
  "own_step ty key M M' \<longleftrightarrow> (\<forall>k. k \<noteq> key \<longrightarrow> M' k = M k) \<and> own_type ty key M'"

lemma type_step_error [simp]: "type_step ty key M (RError e) M"
  by (auto simp: type_step_def split: option.split)

lemma type_step_own:
  assumes "own_type ty key M" "own_step ty key M M'"
  shows "type_step ty key M r M'"
proof -
  have "case M k of None \<Rightarrow> k = key \<and> a_type_name a' = ty | Some (a, d) \<Rightarrow> a_type_name a' = a_type_name a" if "M' k = Some (a', d')" for k a' d'
    using assms that by (cases "k = key"; cases "M k") (auto simp: own_step_def own_type_def)
  then show ?thesis using assms(1) by (auto simp: type_step_def own_type_def)
qed

lemma own_step_same [simp]: "own_step ty key M M \<longleftrightarrow> own_type ty key M"
  by (simp add: own_step_def)

lemma own_step_put [simp]: "a_type_name a = ty \<Longrightarrow> own_step ty key M (put key a M)"
  by (auto simp: own_step_def own_type_def put_def split: if_splits)

lemma own_step_put_string [simp]: "own_step ''string'' key M (put_string key s M)"
  by (auto simp: own_step_def own_type_def put_string_def)

lemma own_step_created: "own_step ty key (M(key \<mapsto> e)) M' \<Longrightarrow> own_step ty key M M'"
  by (auto simp: own_step_def)

locale value_type =
  fixes aget :: "aval \<Rightarrow> 'b option" and amk :: "'b \<Rightarrow> aval" and ty :: string
  assumes aget_Some: "aget a = Some y \<Longrightarrow> a = amk y" and aget_None: "aget a = None \<longleftrightarrow> a_type_name a \<noteq> ty"
begin

lemma amk_type: "aget a = Some y \<Longrightarrow> a_type_name a = ty"
  by (metis aget_None option.distinct(1))

lemma allows_value_typed:
  assumes "allows_value aget key missing found M r M'"
    and "own_type ty key M \<Longrightarrow> missing r M' \<Longrightarrow> own_step ty key M M'"
    and "\<And>y. own_type ty key M \<Longrightarrow> found y r M' \<Longrightarrow> own_step ty key M M'"
  shows "type_step ty key M r M'"
proof (cases "own_type ty key M")
  case True
  then have "own_step ty key M M'"
    using assms by (auto simp: allows_value_def own_type_def aget_None split: option.splits)
  with True show ?thesis by (rule type_step_own)
next
  case False
  then obtain a d where "M key = Some (a, d)" "aget a = None" by (auto simp: own_type_def aget_None)
  then show ?thesis using assms(1) by (auto simp: allows_value_def)
qed

lemma spec_value_typed:
  assumes "spec_value aget key missing found M = (r, M')"
    and "own_type ty key M \<Longrightarrow> missing = (r, M') \<Longrightarrow> own_step ty key M M'"
    and "\<And>y. own_type ty key M \<Longrightarrow> found y = (r, M') \<Longrightarrow> own_step ty key M M'"
  shows "type_step ty key M r M'"
proof (rule allows_value_typed)
  show "allows_value aget key (\<lambda>r M'. missing = (r, M')) (\<lambda>y r M'. found y = (r, M')) M r M'"
    using assms(1) by (auto simp: spec_value_def allows_value_def split: option.splits)
qed (use assms(2,3) in auto)

lemma spec_create_typed:
  assumes "spec_create aget amk y0 key found M = (r, M')" "aget (amk y0) \<noteq> None"
    and "\<And>y M0. own_type ty key M0 \<Longrightarrow> found y M0 = (r, M') \<Longrightarrow> own_step ty key M0 M'"
  shows "type_step ty key M r M'"
proof (rule spec_value_typed [OF assms(1) [unfolded spec_create_def]])
  assume "found y0 (M(key \<mapsto> (amk y0, None))) = (r, M')"
  moreover have "own_type ty key (M(key \<mapsto> (amk y0, None)))" using assms(2) amk_type by (auto simp: own_type_def)
  ultimately show "own_step ty key M M'" using assms(3) own_step_created by blast
qed (use assms(3) in blast)

end

interpretation st: value_type a_string AString "''string''"
proof
  show "a_string a = Some y \<Longrightarrow> a = AString y" for a y by (cases a) simp_all
  show "(a_string a = None) = (a_type_name a \<noteq> ''string'')" for a by (cases a) simp_all
qed

interpretation ha: value_type a_hash AHash "''hash''"
proof
  show "a_hash a = Some y \<Longrightarrow> a = AHash y" for a y by (cases a) simp_all
  show "(a_hash a = None) = (a_type_name a \<noteq> ''hash'')" for a by (cases a) simp_all
qed

interpretation li: value_type a_list AList "''list''"
proof
  show "a_list a = Some y \<Longrightarrow> a = AList y" for a y by (cases a) simp_all
  show "(a_list a = None) = (a_type_name a \<noteq> ''list'')" for a by (cases a) simp_all
qed

interpretation se: value_type a_set ASet "''set''"
proof
  show "a_set a = Some y \<Longrightarrow> a = ASet y" for a y by (cases a) simp_all
  show "(a_set a = None) = (a_type_name a \<noteq> ''set'')" for a by (cases a) simp_all
qed

interpretation zs: value_type a_zset AZSet "''zset''"
proof
  show "a_zset a = Some y \<Longrightarrow> a = AZSet y" for a y by (cases a) simp_all
  show "(a_zset a = None) = (a_type_name a \<noteq> ''zset'')" for a by (cases a) simp_all
qed

section \<open>Every command of the table\<close>

definition typed_meaning :: "string \<Rightarrow> meaning \<Rightarrow> bool" where
  "typed_meaning ty s \<longleftrightarrow> (\<forall>argv c r M'. s argv c r M' \<longrightarrow> type_step ty (argv ! 1) (view c) r M')"

lemma typed_incr: "spec_incr key delta M = (r, M') \<Longrightarrow> type_step ''string'' key M r M'"
  unfolding spec_incr_def
  by (erule st.spec_value_typed) (auto simp: spec_incr_finish_def split: if_splits option.splits)

lemma typed_string:
  "typed_meaning ''string'' (\<lambda>argv c. exactly (spec_get (argv ! 1) (view c)))"
  "typed_meaning ''string'' (\<lambda>argv c. exactly (spec_incr (argv ! 1) delta (view c)))"
  "typed_meaning ''string'' (\<lambda>argv c. exactly (spec_incrby (argv ! 1) (argv ! 2) (view c)))"
  "typed_meaning ''string'' (\<lambda>argv c. exactly (spec_decrby (argv ! 1) (argv ! 2) (view c)))"
  "typed_meaning ''string'' (\<lambda>argv c. exactly (spec_append (argv ! 1) (argv ! 2) (view c)))"
  "typed_meaning ''string'' (\<lambda>argv c. exactly (spec_strlen (argv ! 1) (view c)))"
  unfolding typed_meaning_def exactly_def spec_get_def spec_incrby_def spec_decrby_def spec_append_def spec_strlen_def
  by (auto elim!: st.spec_value_typed intro: typed_incr split: option.splits if_splits)

lemma typed_hash:
  "typed_meaning ''hash'' (\<lambda>argv c. exactly (if odd (length argv) then (RError (sanitize_error_text (wrong_arity (argv ! 0))), view c) else spec_hset (argv ! 1) (arg_pairs (drop 2 argv)) (view c)))"
  "typed_meaning ''hash'' (\<lambda>argv c. exactly (spec_hget (argv ! 1) (argv ! 2) (view c)))"
  "typed_meaning ''hash'' (\<lambda>argv c. exactly (spec_hmget (argv ! 1) (drop 2 argv) (view c)))"
  "typed_meaning ''hash'' (\<lambda>argv c. exactly (spec_hdel (argv ! 1) (drop 2 argv) (view c)))"
  "typed_meaning ''hash'' (\<lambda>argv c. exactly (spec_hexists (argv ! 1) (argv ! 2) (view c)))"
  "typed_meaning ''hash'' (\<lambda>argv c. exactly (spec_hlen (argv ! 1) (view c)))"
  "typed_meaning ''hash'' (\<lambda>argv c. allows_entries f (argv ! 1) (view c))"
  unfolding typed_meaning_def exactly_def spec_hset_def spec_hget_def spec_hmget_def spec_hdel_def spec_hexists_def spec_hlen_def allows_entries_def
  by (auto elim!: ha.spec_value_typed ha.spec_create_typed ha.allows_value_typed split: if_splits)

lemma typed_hincrby: "typed_meaning ''hash'' (\<lambda>argv c. exactly (spec_hincrby (argv ! 1) (argv ! 2) (argv ! 3) (view c)))"
  unfolding typed_meaning_def exactly_def spec_hincrby_def
  by (auto elim!: ha.spec_create_typed split: if_splits option.splits)

lemma typed_list:
  "typed_meaning ''list'' (\<lambda>argv c. exactly (spec_push front (argv ! 1) (drop 2 argv) (view c)))"
  "typed_meaning ''list'' (\<lambda>argv c. exactly (spec_pop front argv (view c)))"
  "typed_meaning ''list'' (\<lambda>argv c. exactly (spec_llen (argv ! 1) (view c)))"
  "typed_meaning ''list'' (\<lambda>argv c. exactly (spec_lrange argv (view c)))"
  "typed_meaning ''list'' (\<lambda>argv c. exactly (spec_lindex argv (view c)))"
  unfolding typed_meaning_def exactly_def spec_push_def spec_pop_def spec_llen_def spec_lrange_def spec_lindex_def
  by (auto elim!: li.spec_value_typed li.spec_create_typed split: sum.splits option.splits)

lemma typed_set:
  "typed_meaning ''set'' (\<lambda>argv c. exactly (spec_sadd (argv ! 1) (drop 2 argv) (view c)))"
  "typed_meaning ''set'' (\<lambda>argv c. exactly (spec_srem (argv ! 1) (drop 2 argv) (view c)))"
  "typed_meaning ''set'' (\<lambda>argv c. exactly (spec_sismember (argv ! 1) (argv ! 2) (view c)))"
  "typed_meaning ''set'' (\<lambda>argv c. allows_smembers (argv ! 1) (view c))"
  "typed_meaning ''set'' (\<lambda>argv c. exactly (spec_scard (argv ! 1) (view c)))"
  "typed_meaning ''set'' (\<lambda>argv c. allows_spop argv (view c))"
  unfolding typed_meaning_def exactly_def spec_sadd_def spec_srem_def spec_sismember_def allows_smembers_def spec_scard_def allows_spop_def
  by (auto elim!: se.spec_value_typed se.spec_create_typed se.allows_value_typed split: sum.splits option.splits)

lemma typed_zset:
  "typed_meaning ''zset'' (\<lambda>argv c. exactly (spec_zrem (argv ! 1) (drop 2 argv) (view c)))"
  "typed_meaning ''zset'' (\<lambda>argv c. exactly (spec_zscore (argv ! 1) (argv ! 2) (view c)))"
  "typed_meaning ''zset'' (\<lambda>argv c. exactly (spec_zincrby argv (view c)))"
  "typed_meaning ''zset'' (\<lambda>argv c. exactly (spec_zcard (argv ! 1) (view c)))"
  "typed_meaning ''zset'' (\<lambda>argv c. exactly (spec_zrank b (argv ! 1) (argv ! 2) (view c)))"
  "typed_meaning ''zset'' (\<lambda>argv c. allows_zrange b argv (view c))"
  "typed_meaning ''zset'' (\<lambda>argv c. allows_zrangebyscore argv (view c))"
  "typed_meaning ''zset'' (\<lambda>argv c. exactly (spec_zcount argv (view c)))"
  "typed_meaning ''zset'' (\<lambda>argv c. allows_zpopmin argv (view c))"
  unfolding typed_meaning_def exactly_def spec_zrem_def spec_zscore_def spec_zincrby_def spec_zcard_def spec_zrank_def
    allows_zrange_def allows_zrangebyscore_def spec_zcount_def allows_zpopmin_def
  by (auto simp: Let_def elim!: zs.spec_value_typed zs.spec_create_typed zs.allows_value_typed split: sum.splits option.splits if_splits)

lemma typed_zadd: "typed_meaning ''zset'' (\<lambda>argv c. exactly (spec_zadd argv (view c)))"
proof -
  have "type_step ''zset'' key M (RInt 0) M" if "M key = None" for key and M :: amap
    using that by (auto intro: type_step_own simp: own_type_def)
  then show ?thesis
    unfolding typed_meaning_def exactly_def spec_zadd_def
    by (auto elim!: zs.spec_create_typed split: sum.splits option.splits if_splits prod.splits)
qed

lemma kKeyTypes_typed: "list_all2 (\<lambda>(n, t) (n', s). n' = n \<and> (\<forall>ty. t = Some ty \<longrightarrow> typed_meaning ty s)) kKeyTypes kMeanings"
  using typed_string typed_hash typed_hincrby typed_list typed_set typed_zset typed_zadd
  by (simp add: kKeyTypes_def kMeanings_def del: One_nat_def)

lemma dispatch_typed:
  assumes "map_of kKeyTypes (map tolower (hd argv)) = Some (Some ty)" "dispatch_allows argv c r M"
  shows "type_step ty (argv ! 1) (view c) r M"
proof -
  obtain s where "map_of kMeanings (map tolower (hd argv)) = Some s" "typed_meaning ty s"
    using map_of_tables [OF kKeyTypes_typed, of "map tolower (hd argv)"] assms(1) by auto
  then show ?thesis
    using assms(2) by (auto simp: dispatch_allows_def typed_meaning_def exactly_def split: option.splits if_splits)
qed

lemma type_step_purged:
  assumes "type_step ty key (view c) r M" "view c' = purge (clk_mono c) M"
  shows "type_step ty key (view c) r (view c')"
proof -
  have "M k = Some (a, d)" if "view c' k = Some (a, d)" for k a d
    using that assms(2) by (auto simp: purge_def split: option.splits if_splits)
  moreover have "view c' = view c" if "M = view c" using that assms(2) by simp
  ultimately show ?thesis
    using assms(1) unfolding type_step_def by (metis (lifting))
qed

text \<open>C4: values keep their types. Dispatching any command that works on values of one type never changes the type of any value in the
  keyspace and creates at most the value at its own key, of its own type; if the value at that key is of
  another type, the reply is an error and the keyspace stays exactly as it was.\<close>
theorem commands_respect_types:
  assumes "ctx_ok c" "argv \<noteq> []" "call_ok (map tolower (hd argv)) argv c" "map_of kKeyTypes (map tolower (hd argv)) = Some (Some ty)"
  shows "\<exists>c' r. dispatch argv c = Some c' \<and> buf_readable (out c') = buf_readable (out c) @ encode r \<and>
    (\<forall>k a' d'. view c' k = Some (a', d') \<longrightarrow>
       (case view c k of None \<Rightarrow> k = argv ! 1 \<and> a_type_name a' = ty | Some (a, d) \<Rightarrow> a_type_name a' = a_type_name a)) \<and>
    (\<forall>a d. view c (argv ! 1) = Some (a, d) \<and> a_type_name a \<noteq> ty \<longrightarrow> (\<exists>e. r = RError e) \<and> view c' = view c)"
proof -
  obtain c' r M where D: "dispatch argv c = Some c'" "view c' = purge (clk_mono c) M" "buf_readable (out c') = buf_readable (out c) @ encode r" "dispatch_allows argv c r M"
    using dispatch_spec [OF assms(1-3)] by blast
  note step = type_step_purged [OF dispatch_typed [OF assms(4) D(4)] D(2), unfolded type_step_def]
  show ?thesis by (rule exI [of _ c'], rule exI [of _ r], rule conjI [OF D(1) conjI [OF D(3) step]])
qed

theorem commands_respect_types_witness:
  "\<exists>c1 c2 e. dispatch [''SET'', ''k'', ''v''] (ctx_on db_empty_init) = Some c1 \<and> dispatch [''LPUSH'', ''k'', ''x''] c1 = Some c2 \<and>
    buf_readable (out c2) = buf_readable (out c1) @ encode (RError e) \<and> view c2 = view c1 \<and> view c2 ''k'' = Some (AString ''v'', None)"
proof -
  let ?c = "ctx_on db_empty_init"
  have low: "tolower CHR ''S'' = CHR ''s''" "tolower CHR ''E'' = CHR ''e''" "tolower CHR ''T'' = CHR ''t''" "tolower CHR ''L'' = CHR ''l''" "tolower CHR ''P'' = CHR ''p''" "tolower CHR ''U'' = CHR ''u''" "tolower CHR ''H'' = CHR ''h''" by code_simp+
  have ok: "ctx_ok ?c" by (rule ctx_on_ok) (rule db_reset_spec(1))
  obtain c1 r M where D: "dispatch [''SET'', ''k'', ''v''] ?c = Some c1" "ctx_ok c1" "view c1 = purge (clk_mono ?c) M" "dispatch_allows [''SET'', ''k'', ''v''] ?c r M"
    using dispatch_spec [OF ok, of "[''SET'', ''k'', ''v'']"] by (auto simp: low call_ok_def)
  have "(r, M) = spec_set_args ''k'' ''v'' [] (clk_mono ?c) (view ?c)"
    using D(4) by (simp add: dispatch_allows_def low command_table_def kCommands_def kMeanings_def exactly_def arity_ok_def)
  then have "M ''k'' = Some (AString ''v'', None)"
    by (simp add: spec_set_args_def spec_set_def set_options_init_def)
  then have k: "view c1 ''k'' = Some (AString ''v'', None)" by (simp add: D(3) purge_def)
  have "\<exists>c2 r. dispatch [''LPUSH'', ''k'', ''x''] c1 = Some c2 \<and> buf_readable (out c2) = buf_readable (out c1) @ encode r \<and>
    (\<forall>k a' d'. view c2 k = Some (a', d') \<longrightarrow>
       (case view c1 k of None \<Rightarrow> k = [''LPUSH'', ''k'', ''x''] ! 1 \<and> a_type_name a' = ''list'' | Some (a, d) \<Rightarrow> a_type_name a' = a_type_name a)) \<and>
    (\<forall>a d. view c1 ([''LPUSH'', ''k'', ''x''] ! 1) = Some (a, d) \<and> a_type_name a \<noteq> ''list'' \<longrightarrow> (\<exists>e. r = RError e) \<and> view c2 = view c1)"
    by (rule commands_respect_types [OF D(2)]) (simp_all add: low call_ok_def kKeyTypes_def)
  then show ?thesis using D(1) k by fastforce
qed

end
