(* ===== verification/Fd_Handle.thy ===== *)
theory Fd_Handle
  imports Prelude
begin

text \<open>
  The owning handle of a file descriptor, \<^verbatim>\<open>util/fd.cpp\<close> and \<^verbatim>\<open>util/fd.h\<close>: constructors, moves, \<^verbatim>\<open>release\<close>, \<^verbatim>\<open>reset\<close> and the destructor,
  over a kernel that knows which descriptors are open. The kernel reuses numbers, so closing twice would close
  someone else's descriptor. The theory shows that every descriptor is closed exactly once.
\<close>

section \<open>State and operations\<close>

text \<open>The value of \<^verbatim>\<open>fd_\<close> in each live handle, the kernel's open descriptors, the raw descriptors the program is responsible for
  itself, and the history of the kernel.\<close>

record fds =
  fd_of :: "nat \<rightharpoonup> int"
  k_open :: "int list"
  loose :: "int list"
  k_opened :: "int list"
  k_closed :: "int list"

definition fds_init :: fds where
  "fds_init = \<lparr>fd_of = Map.empty, k_open = [], loose = [], k_opened = [], k_closed = []\<rparr>"

text \<open>Closing what is not open is an error, using a handle that is not alive is undefined.\<close>

definition close_fd :: "int \<Rightarrow> fds \<Rightarrow> fds ub" where
  "close_fd f s = (if f \<in> set (k_open s) then Some (s\<lparr>k_open := remove1 f (k_open s), k_closed := k_closed s @ [f]\<rparr>) else None)"

definition fd_make :: "nat \<Rightarrow> int \<Rightarrow> fds \<Rightarrow> fds" where
  "fd_make x n s = s\<lparr>fd_of := (fd_of s)(x \<mapsto> n)\<rparr>"

definition fd_reset :: "nat \<Rightarrow> int \<Rightarrow> fds \<Rightarrow> fds ub" where
  "fd_reset x n s =
    do {
      f \<leftarrow> fd_of s x;
      s1 \<leftarrow> (if 0 \<le> f then close_fd f s else Some s);
      Some (fd_make x n s1)
    }"

definition fd_move_construct :: "nat \<Rightarrow> nat \<Rightarrow> fds \<Rightarrow> fds ub" where
  "fd_move_construct x y s =
    do {
      f \<leftarrow> fd_of s y;
      Some (fd_make y (-1) (fd_make x f s))
    }"

definition fd_move_assign :: "nat \<Rightarrow> nat \<Rightarrow> fds \<Rightarrow> fds ub" where
  "fd_move_assign x y s =
    (if x \<noteq> y
     then do {
       s1 \<leftarrow> fd_reset x (-1) s;
       f \<leftarrow> fd_of s1 y;
       Some (fd_make y (-1) (fd_make x f s1))
     }
     else Some s)"

definition fd_destroy :: "nat \<Rightarrow> fds \<Rightarrow> fds ub" where
  "fd_destroy x s =
    do {
      s1 \<leftarrow> fd_reset x (-1) s;
      Some (s1\<lparr>fd_of := (fd_of s1)(x := None)\<rparr>)
    }"

definition fd_release :: "nat \<Rightarrow> fds \<Rightarrow> (int \<times> fds) ub" where
  "fd_release x s =
    do {
      f \<leftarrow> fd_of s x;
      Some (f, fd_make x (-1) s)
    }"

section \<open>Programs that use handles\<close>

text \<open>A system call hands out a new descriptor; a raw descriptor may be given to a handle; \<open>release\<close> gives one back.\<close>

datatype fd_op = OpenFd int | Default nat | Wrap nat int | MoveConstruct nat nat | MoveAssign nat nat | Destroy nat | Release nat | Reset nat int

definition give :: "int \<Rightarrow> fds \<Rightarrow> fds" where
  "give n s = (if 0 \<le> n then s\<lparr>loose := remove1 n (loose s)\<rparr> else s)"

fun fd_exec :: "fd_op \<Rightarrow> fds \<Rightarrow> fds ub" where
  "fd_exec (OpenFd n) s = Some (s\<lparr>k_open := n # k_open s, loose := n # loose s, k_opened := k_opened s @ [n]\<rparr>)"
| "fd_exec (Default x) s = Some (fd_make x (-1) s)"
| "fd_exec (Wrap x n) s = Some (fd_make x n (give n s))"
| "fd_exec (MoveConstruct x y) s = fd_move_construct x y s"
| "fd_exec (MoveAssign x y) s = fd_move_assign x y s"
| "fd_exec (Destroy x) s = fd_destroy x s"
| "fd_exec (Release x) s = map_option (\<lambda>(f, s'). if 0 \<le> f then s'\<lparr>loose := f # loose s'\<rparr> else s') (fd_release x s)"
| "fd_exec (Reset x n) s = fd_reset x n (give n s)"

text \<open>What the language and the kernel demand: handles are constructed once and used while alive, the kernel hands out numbers that are not
  open, and a program gives away only a descriptor it holds, or the result of a failed call.\<close>

fun fd_legal :: "fd_op \<Rightarrow> fds \<Rightarrow> bool" where
  "fd_legal (OpenFd n) s \<longleftrightarrow> 0 \<le> n \<and> n \<notin> set (k_open s)"
| "fd_legal (Default x) s \<longleftrightarrow> fd_of s x = None"
| "fd_legal (Wrap x n) s \<longleftrightarrow> fd_of s x = None \<and> (0 \<le> n \<longrightarrow> n \<in> set (loose s))"
| "fd_legal (MoveConstruct x y) s \<longleftrightarrow> fd_of s x = None \<and> fd_of s y \<noteq> None"
| "fd_legal (MoveAssign x y) s \<longleftrightarrow> fd_of s x \<noteq> None \<and> fd_of s y \<noteq> None"
| "fd_legal (Destroy x) s \<longleftrightarrow> fd_of s x \<noteq> None"
| "fd_legal (Release x) s \<longleftrightarrow> fd_of s x \<noteq> None"
| "fd_legal (Reset x n) s \<longleftrightarrow> fd_of s x \<noteq> None \<and> (0 \<le> n \<longrightarrow> n \<in> set (loose s))"

fun fd_run :: "fd_op list \<Rightarrow> fds \<Rightarrow> fds ub" where
  "fd_run [] s = Some s"
| "fd_run (p # ps) s = (case fd_exec p s of None \<Rightarrow> None | Some s' \<Rightarrow> fd_run ps s')"

fun fd_program :: "fd_op list \<Rightarrow> fds \<Rightarrow> bool" where
  "fd_program [] s \<longleftrightarrow> True"
| "fd_program (p # ps) s \<longleftrightarrow> fd_legal p s \<and> (case fd_exec p s of None \<Rightarrow> True | Some s' \<Rightarrow> fd_program ps s')"

section \<open>Each open descriptor has one owner\<close>

definition owner :: "fds \<Rightarrow> nat \<Rightarrow> int \<Rightarrow> bool" where
  "owner s x f \<longleftrightarrow> fd_of s x = Some f \<and> 0 \<le> f"

definition fd_inv :: "fds \<Rightarrow> bool" where
  "fd_inv s \<longleftrightarrow> distinct (k_open s) \<and> distinct (loose s) \<and> set (loose s) \<subseteq> set (k_open s) \<and>
     (\<forall>x f. owner s x f \<longrightarrow> f \<in> set (k_open s) \<and> f \<notin> set (loose s)) \<and>
     (\<forall>x y f. owner s x f \<longrightarrow> owner s y f \<longrightarrow> x = y) \<and>
     (\<forall>f \<in> set (k_open s). 0 \<le> f \<and> (f \<in> set (loose s) \<or> (\<exists>x. owner s x f))) \<and>
     (\<forall>f. count_list (k_opened s) f = count_list (k_closed s) f + count_list (k_open s) f)"

lemma owner_make: "owner (fd_make x n s) y f \<longleftrightarrow> (if y = x then n = f \<and> 0 \<le> f else owner s y f)"
  by (auto simp: owner_def fd_make_def)

lemma fd_make_frame [simp]: "k_open (fd_make x n s) = k_open s" "loose (fd_make x n s) = loose s" "k_opened (fd_make x n s) = k_opened s"
  "k_closed (fd_make x n s) = k_closed s" "fd_of (fd_make x n s) = (fd_of s)(x \<mapsto> n)"
  by (simp_all add: fd_make_def)

lemma count_remove1: "f \<in> set xs \<Longrightarrow> count_list (remove1 f xs) g = count_list xs g - (if f = g then 1 else 0)"
  by (induction xs) (auto dest: count_notin)

lemma count_distinct: "distinct xs \<Longrightarrow> count_list xs f = of_bool (f \<in> set xs)"
  by (induction xs) (auto dest: count_notin)

text \<open>Emptying a handle: its descriptor, if it has one, is closed.\<close>

lemma fd_reset_empty:
  assumes "fd_inv s" "fd_of s x \<noteq> None"
  shows "\<exists>s'. fd_reset x (-1) s = Some s' \<and> fd_inv s' \<and> fd_of s' = (fd_of s)(x \<mapsto> -1) \<and> loose s' = loose s"
proof -
  obtain f where f: "fd_of s x = Some f" using assms(2) by blast
  show ?thesis
  proof (cases "0 \<le> f")
    case True
    then have ow: "owner s x f" using f by (simp add: owner_def)
    then have k: "f \<in> set (k_open s)" "f \<notin> set (loose s)" using assms(1) unfolding fd_inv_def by blast+
    have only: "y = x" if "owner s y f" for y using that ow assms(1) unfolding fd_inv_def by blast
    have one: "g = f" if "owner s x g" for g using that f by (simp add: owner_def)
    let ?s = "fd_make x (-1) (s\<lparr>k_open := remove1 f (k_open s), k_closed := k_closed s @ [f]\<rparr>)"
    have o: "owner ?s y g \<longleftrightarrow> owner s y g \<and> g \<noteq> f" for y g
      using only one by (auto simp: owner_make) (auto simp: owner_def f)
    have op: "set (k_open ?s) = set (k_open s) - {f}" using assms(1) by (simp add: fd_inv_def)
    have "0 < count_list (k_open s) f" using k(1) count_list_0_iff [of "k_open s" f] by blast
    then have "count_list (k_opened ?s) g = count_list (k_closed ?s) g + count_list (k_open ?s) g" for g
      using assms(1) k(1) by (auto simp: fd_inv_def count_remove1)
    moreover have "distinct (k_open ?s)" using assms(1) by (simp add: fd_inv_def)
    moreover have "distinct (loose ?s) \<and> set (loose ?s) \<subseteq> set (k_open ?s)" using assms(1) k(2) unfolding op by (auto simp: fd_inv_def)
    ultimately have "fd_inv ?s" using assms(1) unfolding fd_inv_def o op by auto
    then show ?thesis using f True k(1) by (simp add: fd_reset_def close_fd_def)
  next
    case False
    then have "owner (fd_make x (-1) s) y g \<longleftrightarrow> owner s y g" for y g using f by (auto simp: owner_make owner_def)
    then have "fd_inv (fd_make x (-1) s)" using assms(1) by (simp add: fd_inv_def)
    then show ?thesis using f False by (simp add: fd_reset_def)
  qed
qed

text \<open>An empty or new handle takes a raw descriptor.\<close>

lemma fd_take:
  assumes "fd_inv s" "\<And>f. \<not> owner s x f" "0 \<le> n \<longrightarrow> n \<in> set (loose s)"
  shows "fd_inv (fd_make x n (give n s))"
proof (cases "0 \<le> n")
  case True
  let ?s = "fd_make x n (give n s)"
  have n: "n \<in> set (loose s)" "n \<in> set (k_open s)" "\<And>y. \<not> owner s y n" using assms(1,3) True unfolding fd_inv_def by blast+
  have o: "owner ?s y f \<longleftrightarrow> owner s y f \<or> (y = x \<and> f = n)" for y f
    using True assms(2) by (auto simp: owner_make give_def) (auto simp: owner_def)
  have lo: "set (loose ?s) = set (loose s) - {n}" "distinct (loose ?s)" using assms(1) True by (simp_all add: fd_inv_def give_def)
  have k: "k_open ?s = k_open s" "k_opened ?s = k_opened s" "k_closed ?s = k_closed s" by (simp_all add: give_def)
  show ?thesis using assms(1,2) n lo unfolding fd_inv_def o k lo(1) by auto
next
  case False
  then have "owner (fd_make x n s) y f \<longleftrightarrow> owner s y f" for y f using assms(2) by (auto simp: owner_make)
  then show ?thesis using assms(1) False by (simp add: fd_inv_def give_def)
qed

text \<open>Descriptors may change hands: a handle that owns nothing takes over from one that is emptied.\<close>

lemma fd_hand_over:
  assumes "fd_inv s" "\<And>f. \<not> owner s x f" "fd_of s y = Some n" "x \<noteq> y"
  shows "fd_inv (fd_make y (-1) (fd_make x n s))"
proof -
  let ?s = "fd_make y (-1) (fd_make x n s)"
  have one: "g = n" if "owner s y g" for g using that assms(3) by (simp add: owner_def)
  have o: "owner ?s z f \<longleftrightarrow> (if z = y then False else if z = x then owner s y f else owner s z f)" for z f
    using assms(3) by (auto simp: owner_make owner_def)
  have "\<exists>z. owner ?s z f" if z: "owner s z f" for z f
  proof (cases "z = y")
    case True
    then show ?thesis using z assms(4) by (intro exI [of _ x]) (simp add: o)
  next
    case False
    moreover have "z \<noteq> x" using z assms(2) by blast
    ultimately show ?thesis using z by (intro exI [of _ z]) (simp add: o)
  qed
  then have "\<forall>f \<in> set (k_open s). 0 \<le> f \<and> (f \<in> set (loose s) \<or> (\<exists>z. owner ?s z f))" using assms(1) unfolding fd_inv_def by blast
  moreover have "\<forall>z f. owner ?s z f \<longrightarrow> f \<in> set (k_open s) \<and> f \<notin> set (loose s)" "\<forall>z w f. owner ?s z f \<longrightarrow> owner ?s w f \<longrightarrow> z = w"
    using assms(1) unfolding fd_inv_def o by (metis)+
  ultimately show ?thesis using assms(1) unfolding fd_inv_def by simp
qed

lemma not_owner_empty: "fd_of s x = None \<Longrightarrow> \<not> owner s x f" "fd_of s x = Some (-1) \<Longrightarrow> \<not> owner s x f"
  by (auto simp: owner_def)

lemma give_frame [simp]: "fd_of (give n s) = fd_of s" "k_open (give n s) = k_open s"
  by (simp_all add: give_def)

lemma fd_reset_give: "fd_reset x (-1) s = Some s1 \<Longrightarrow> fd_reset x n (give n s) = Some (fd_make x n (give n s1))"
  by (auto simp: fd_reset_def close_fd_def give_def fd_make_def split: if_splits bind_splits)

lemma fd_exec_inv:
  assumes "fd_inv s" "fd_legal p s"
  shows "\<exists>s'. fd_exec p s = Some s' \<and> fd_inv s'"
proof (cases p)
  case (OpenFd n)
  let ?s = "s\<lparr>k_open := n # k_open s, loose := n # loose s, k_opened := k_opened s @ [n]\<rparr>"
  have "owner ?s x f \<longleftrightarrow> owner s x f" for x f by (simp add: owner_def)
  then have "fd_inv ?s" using assms OpenFd unfolding fd_inv_def by auto
  then show ?thesis using OpenFd by simp
next
  case (Default x)
  then show ?thesis using assms fd_take [of s x "-1"] not_owner_empty by (simp add: give_def)
next
  case (Wrap x n)
  then show ?thesis using assms fd_take [of s x n] not_owner_empty by simp
next
  case (MoveConstruct x y)
  then obtain f where f: "fd_of s y = Some f" using assms(2) by auto
  moreover have "x \<noteq> y" using assms(2) MoveConstruct by auto
  ultimately show ?thesis using assms fd_hand_over [of s x y f] not_owner_empty MoveConstruct by (simp add: fd_move_construct_def)
next
  case (MoveAssign x y)
  show ?thesis
  proof (cases "x = y")
    case False
    obtain s1 where R: "fd_reset x (-1) s = Some s1" "fd_inv s1" "fd_of s1 = (fd_of s)(x \<mapsto> -1)" using fd_reset_empty assms MoveAssign by fastforce
    moreover obtain f where "fd_of s1 y = Some f" using assms(2) MoveAssign R(3) False by auto
    ultimately show ?thesis using fd_hand_over [of s1 x y f] not_owner_empty(2) [of s1 x] MoveAssign False by (simp add: fd_move_assign_def)
  qed (use assms MoveAssign in \<open>simp add: fd_move_assign_def\<close>)
next
  case (Destroy x)
  obtain s1 where R: "fd_reset x (-1) s = Some s1" "fd_inv s1" "fd_of s1 = (fd_of s)(x \<mapsto> -1)" using fd_reset_empty assms Destroy by fastforce
  have "owner (s1\<lparr>fd_of := (fd_of s1)(x := None)\<rparr>) y f \<longleftrightarrow> owner s1 y f" for y f using R(3) by (auto simp: owner_def)
  then have "fd_inv (s1\<lparr>fd_of := (fd_of s1)(x := None)\<rparr>)" using R(2) by (simp add: fd_inv_def)
  then show ?thesis using R(1) Destroy by (simp add: fd_destroy_def)
next
  case (Release x)
  then obtain f where f: "fd_of s x = Some f" using assms(2) by auto
  let ?s = "if 0 \<le> f then (fd_make x (-1) s)\<lparr>loose := f # loose s\<rparr> else fd_make x (-1) s"
  have o: "owner ?s y g \<longleftrightarrow> y \<noteq> x \<and> owner s y g" for y g by (auto simp: owner_def)
  have own: "owner s x g \<longleftrightarrow> g = f \<and> 0 \<le> f" for g using f by (auto simp: owner_def)
  have "fd_inv ?s"
  proof (cases "0 \<le> f")
    case True
    then have "owner s x f" using own by simp
    then have "f \<in> set (k_open s)" "f \<notin> set (loose s)" "\<And>y. owner s y f \<Longrightarrow> y = x" using assms(1) unfolding fd_inv_def by blast+
    then show ?thesis using assms(1) True own unfolding fd_inv_def o by (auto, metis)
  next
    case False
    then have "owner ?s y g \<longleftrightarrow> owner s y g" for y g using o own by auto
    then show ?thesis using assms(1) False by (simp add: fd_inv_def)
  qed
  then show ?thesis using Release f by (cases "0 \<le> f") (simp_all add: fd_release_def)
next
  case (Reset x n)
  obtain s1 where R: "fd_reset x (-1) s = Some s1" "fd_inv s1" "fd_of s1 = (fd_of s)(x \<mapsto> -1)" "loose s1 = loose s"
    using fd_reset_empty assms Reset by fastforce
  then have "fd_inv (fd_make x n (give n s1))" using fd_take [of s1 x n] not_owner_empty(2) [of s1 x] assms(2) Reset by simp
  then show ?thesis using fd_reset_give [OF R(1)] Reset by simp
qed

lemma fd_run_inv: "fd_inv s \<Longrightarrow> fd_program ps s \<Longrightarrow> \<exists>s'. fd_run ps s = Some s' \<and> fd_inv s'"
proof (induction ps arbitrary: s)
  case (Cons p ps)
  then obtain s1 where "fd_exec p s = Some s1" "fd_inv s1" using fd_exec_inv [of s p] by auto
  then show ?case using Cons by auto
qed simp

text \<open>C24: every descriptor is closed exactly once. Whatever a program does with handles within the rules of the
  language, no operation closes a descriptor that is not open, no two handles own the same one, and each open descriptor has been opened once
  more than it has been closed. Once all handles are gone and the program holds no raw descriptor,
  nothing is open, and each number was closed as often as it was opened.\<close>
theorem descriptors_closed_exactly_once:
  assumes "fd_program ps fds_init"
  shows "\<exists>s. fd_run ps fds_init = Some s \<and>
    (\<forall>x y f. fd_of s x = Some f \<and> fd_of s y = Some f \<and> 0 \<le> f \<longrightarrow> x = y \<and> f \<in> set (k_open s)) \<and>
    (\<forall>f. count_list (k_opened s) f = count_list (k_closed s) f + of_bool (f \<in> set (k_open s))) \<and>
    (fd_of s = Map.empty \<and> loose s = [] \<longrightarrow> k_open s = [] \<and> (\<forall>f. count_list (k_opened s) f = count_list (k_closed s) f))"
proof -
  have "fd_inv fds_init" by (simp add: fd_inv_def fds_init_def owner_def)
  then obtain s where s: "fd_run ps fds_init = Some s" "fd_inv s" using fd_run_inv assms by blast
  have "count_list (k_open s) f = of_bool (f \<in> set (k_open s))" for f
    by (rule count_distinct) (use s(2) in \<open>simp add: fd_inv_def\<close>)
  then have c: "count_list (k_opened s) f = count_list (k_closed s) f + of_bool (f \<in> set (k_open s))" for f using s(2) by (simp add: fd_inv_def)
  have u: "x = y \<and> f \<in> set (k_open s)" if "fd_of s x = Some f \<and> fd_of s y = Some f \<and> 0 \<le> f" for x y f
    using s(2) that unfolding fd_inv_def owner_def by blast
  have "k_open s = []" if "fd_of s = Map.empty" "loose s = []"
    using s(2) that unfolding fd_inv_def owner_def by (cases "k_open s") auto
  then show ?thesis using s(1) c u by (intro exI [of _ s]) auto
qed

definition demo_program :: "fd_op list" where
  "demo_program = [OpenFd 3, Wrap 0 3, OpenFd 4, Default 1, Reset 1 4, MoveAssign 1 0, Destroy 0, OpenFd 4, Wrap 2 4, Destroy 2, Destroy 1]"

theorem descriptors_closed_exactly_once_witness:
  "\<exists>s. fd_run demo_program fds_init = Some s \<and> k_closed s = [4, 4, 3] \<and> k_open s = [] \<and> count_list (k_opened s) 4 = 2"
proof -
  have p: "fd_program demo_program fds_init" by code_simp
  have r: "map_option k_closed (fd_run demo_program fds_init) = Some [4, 4, 3]" "map_option k_open (fd_run demo_program fds_init) = Some []"
    by code_simp+
  obtain s where s: "fd_run demo_program fds_init = Some s" "\<forall>f. count_list (k_opened s) f = count_list (k_closed s) f + of_bool (f \<in> set (k_open s))"
    using descriptors_closed_exactly_once [OF p] by blast
  then show ?thesis using r by simp
qed

end
