(* ===== verification/Spec2Isabelle.thy ===== *)
theory Spec2Isabelle
  imports Server Thread_Pool Loadgen Type_Safety Fd_Handle
begin

text \<open>
  A verification of gredis, a Redis-compatible in-memory server in C++ (the sources are under \<^verbatim>\<open>src/\<close>).

  \<^bold>\<open>The program.\<close> One thread runs an epoll loop (\<^verbatim>\<open>net/server.cpp\<close>, \<^verbatim>\<open>net/event_loop.cpp\<close>): it accepts clients, reads
  bytes into a buffer (\<^verbatim>\<open>net/buffer.cpp\<close>), cuts requests out of it (\<^verbatim>\<open>protocol/resp_parser.cpp\<close>), dispatches each to
  a handler (\<^verbatim>\<open>commands/\<close>), which works on the keyspace (\<^verbatim>\<open>storage/database.cpp\<close>) and writes its reply
  (\<^verbatim>\<open>protocol/resp_writer.cpp\<close>) to an output buffer that is sent when the socket takes it. The keyspace is a hash table
  with incremental rehashing (\<^verbatim>\<open>storage/hash_table.h\<close>) from keys to strings, hashes, lists, sets and sorted sets
  (\<^verbatim>\<open>storage/zset.h\<close> on the tree of \<^verbatim>\<open>storage/avl_tree.h\<close>), with a second table and a heap (\<^verbatim>\<open>storage/expiry.h\<close>) for
  deadlines. Timers (\<^verbatim>\<open>net/timer_queue.cpp\<close>) drive expiration, rehashing and the idle sweep. Snapshots
  (\<^verbatim>\<open>persistence/snapshot.cpp\<close>, \<^verbatim>\<open>util/crc32.cpp\<close>) are written by the loop or by a pool of workers (\<^verbatim>\<open>util/thread_pool.cpp\<close>)
  whose completions come back to the loop.

  \<^bold>\<open>The theories,\<close> from the bottom up.
    \<^item> \<open>Prelude\<close>: the collections of rewrite and introduction rules, \<open>'a ub\<close> (a result, or \<^term>\<open>None\<close> for undefined
      behaviour), 64-bit ranges, decimal numbers. \<open>Parse\<close>, \<open>Float64\<close>: \<^verbatim>\<open>util/parse.cpp\<close> with \<^verbatim>\<open>from_chars\<close> and \<^verbatim>\<open>to_chars\<close> of
      doubles as 64-bit patterns.
    \<^item> \<open>Hash_Table\<close>: chains, the two tables, migration; every history of operations refines a map (locale \<open>dict\<close>).
    \<^item> \<open>Avl_Tree\<close>: nodes with addresses and subtree sizes, parent pointers as paths; erasing keeps every other
      node where it is; rank, select and next agree (locales \<open>key_order\<close>, \<open>ordered_index\<close>).
    \<^item> \<open>Zset\<close>: the dictionary of node pointers and the tree together refine a map from members to scores, as long as
      no score is NaN; with one, a null pointer is stored.
    \<^item> \<open>Prio_Queue\<close> (locale \<open>prio_queue\<close>), \<open>Expiry\<close>, \<open>Value\<close>, \<open>Database\<close>: under an advancing clock the keyspace refines a map
      whose keys vanish at their deadlines (only deletions, the size and the cycle's count can tell whether a due key has been swept);
      the expiration cycle is bounded, invisible and complete.
    \<^item> \<open>Buffer\<close> (locale \<open>byte_queue\<close>), \<open>Resp_Writer\<close>, \<open>Resp_Parser\<close>: a written reply reads back as that reply; the request
      parser is total, bounded and stable under more bytes, and reads back every encoded command.
    \<^item> \<open>Command\<close> and \<open>Cmd_String\<close>, \<open>Cmd_Keys\<close>, \<open>Cmd_Hash\<close>, \<open>Cmd_List\<close>, \<open>Cmd_Set\<close>, \<open>Cmd_Zset\<close>, \<open>Cmd_Server\<close>, \<open>Cmd_Persist\<close>: every handler with
      all its branches, and what it does to the visible keyspace (locale \<open>value_kind\<close>, interpreted for the five types).
      \<open>Dispatcher\<close>: the command table, a table of meanings, and that dispatching implements the meanings.
    \<^item> \<open>Crc32\<close>, \<open>Snapshot\<close>, \<open>Snapshot_File\<close>: the codec reads back what it wrote and rejects any change of one byte; the
      file is replaced atomically at whatever system call the writer stops; two writers at once can tear it.
    \<^item> \<open>Timer_Queue\<close>, \<open>Thread_Pool\<close>, \<open>Config\<close>: due timers run once and in order, callbacks that arm timers for later included; no task of the pool is lost, run
      twice or left without a worker, in any interleaving; what an accepted command line guarantees.
    \<^item> \<open>Connection\<close>: the requests of one client, however its bytes arrive. \<open>Server\<close>: connections and the event loop as a
      state machine whose events are within \<open>event_ok\<close>; in every reachable state the parts are consistent, no admitted step fails, no connection is
      forgotten, no event reaches a reused descriptor; what a connection that is to be closed still does with its input; leaving the
      loop, the save at shutdown and the tasks the thread pool still finishes (\<open>server_exit\<close>).
    \<^item> \<open>Type_Safety\<close>: the commands that work on one type of value never change a type and refuse the others without effect
      (locale \<open>value_type\<close>, interpreted for the five types).
    \<^item> \<open>Fd_Handle\<close>: the handles of \<^verbatim>\<open>util/fd.cpp\<close> close every descriptor exactly once, whatever a program does with them.
    \<^item> \<open>Reply_Parser\<close>, \<open>Histogram\<close>, \<open>Loadgen\<close>: the load generator (\<^verbatim>\<open>bench/loadgen/\<close>). The parser of replies recognises what the
      server writes unless a line is too long; the histogram of latencies has a stated accuracy, the rounding of the rank to a double included; options, connections
      and event loop: in every run each request is accounted for, and what is sent is what the server's parser reads.
    \<^item> This theory: from the bytes of a client to its replies, and the keyspace across a restart.

  \<^bold>\<open>How the code is represented.\<close> A struct or class is a record with the members of the code, an operation a function from
  the old to the new state; out-of-range accesses, null and dangling pointers, signed overflow and calls outside a
  precondition yield \<^term>\<open>None\<close>, and so does a loop that does not end. In \<open>Server\<close> the exit of the process on a failed \<^verbatim>\<open>epoll_ctl\<close> is
  \<^term>\<open>None\<close> too. Errors that the code reports are values. What lies outside the sources is an argument: the results of
  \<^verbatim>\<open>recv\<close>, \<^verbatim>\<open>send\<close>, \<^verbatim>\<open>accept4\<close>, \<^verbatim>\<open>connect\<close>, \<^verbatim>\<open>strtod\<close> and of the file system calls, the readings of the clocks, the draws of the random
  generator. What is assumed of them is named: \<open>sockets_ok\<close> and \<open>lg_sockets_ok\<close> (no more bytes than asked for, no endless
  interruption), \<open>ticks\<close> (the monotonic clock does not go back), \<open>fresh_fds\<close> (the kernel hands out no descriptor that is open),
  \<open>rng_fair\<close>, \<open>clock_ok\<close>, \<open>can_save\<close>. \<open>call_ok\<close> excludes three uses of commands on which the code goes wrong: a NaN in
  disguise, equal keys of \<^verbatim>\<open>SINTER\<close>, and saves that cannot run to their end, as with deadlines too large for a snapshot. It is a hypothesis of
  \<open>Dispatcher\<close> and \<open>Connection\<close>, and part of \<open>event_ok\<close>, so the reachable states of the server are those reached by clients that respect it. The shutdown is
  followed by whatever tasks the pool has not finished; that none of them is a background save is a hypothesis of the restart.

  \<^bold>\<open>Bounds and fuel.\<close> Loops with a bound in the code (reads and accepts per wakeup) count it down. The walk along the tree
  takes the tree's size as fuel, and the parser of replies twice the length of its input, which is shown to be enough. \<open>run_due\<close>, \<open>attempt_write\<close>, \<open>lg_write\<close>, the writer and the reader of files
  and the draws of \<^verbatim>\<open>random_entry\<close> need not end; their theorems say when they return, and one says when \<open>run_due\<close> does not.

  \<^bold>\<open>Not modelled.\<close> Allocation failure; logging (\<^verbatim>\<open>util/log.cpp\<close>), the usage text, \<^verbatim>\<open>main.cpp\<close> but for its last lines, and the thin wrappers of system
  calls in \<^verbatim>\<open>net/socket_util.cpp\<close> and \<^verbatim>\<open>util/clock.cpp\<close>, which hold no state; moving and destroying containers, which frees memory; failures of \<^verbatim>\<open>epoll_ctl\<close> for
  want of memory; the result line the load generator prints, the benchmark of the hash table, which has no logic of its own, and the tests. A worker's effect on the server is the completion it posts;
  the steps of its writing are in \<open>Snapshot_File\<close>, and the pool's own steps in \<open>Thread_Pool\<close>.
\<close>

section \<open>From the socket to the keyspace and back\<close>





section \<open>Across a restart\<close>

text \<open>C34: a graceful shutdown keeps the keyspace. From any reachable state in which a save can run to its end (\<open>can_save\<close>), and
  with no background save still queued or running among the tasks that the thread pool has to finish, the process
  leaves with no connection left; if the save of the shutdown succeeds, a server started later on the same file, whatever
  the clocks say by then, comes up with exactly the keys that were visible and have not expired meanwhile;
  if it fails, the old file is untouched. (A background save that is still queued would be written afterwards and win:
  \<open>queued_bgsave_replaces_final_save\<close>; one that is running shares the temporary file, see \<open>Snapshot_File\<close>.)\<close>
theorem graceful_restart_restores_keyspace:
  assumes reach: "server_reach p t s" and path: "snapshot_path (ssave s) \<noteq> []"
    and clk: "clock_ok (final_ctx m u s)" and can: "can_save (final_ctx m u s)"
    and pool: "list_all (\<lambda>task. \<not> writes_snapshot task) unfinished"
  shows "\<exists>e s'. server_exit unfinished m u s = Some (e, s') \<and> conns s' = [] \<and> idle_list s' = [] \<and>
    (e \<noteq> None \<longrightarrow> file_at (disk (ssave s')) (snapshot_path (ssave s)) = file_at (disk (ssave s)) (snapshot_path (ssave s))) \<and>
    (e = None \<longrightarrow> (\<exists>bytes. file_at (disk (ssave s')) (snapshot_path (ssave s)) = Some (bytes, True) \<and>
       (\<forall>m' u' rs d0. in_i64 m' \<and> in_i64 u' \<and> list_all gives_bytes rs \<and> length bytes + 3 \<le> length rs \<longrightarrow>
         (\<exists>d rest. load_snapshot_at_startup (snapshot_path (ssave s)) m' u' rs (disk (ssave s')) d0 = Some (Inr d, rest) \<and> db_invar d \<and>
           (\<forall>k. db_view d m' k = Option.bind (db_view (sdb s) m k) (\<lambda>e. restored m' u' (on_disk m u e)))))))"
proof -
  let ?c = "final_ctx m u s"
  have fc: "final_ctx m u (loop_remove (listener s) s) = ?c" "psave ?c = ssave s" "clk_mono ?c = m" "clk_unix ?c = u" "view ?c = db_view (sdb s) m"
    by (simp_all add: final_ctx_def loop_remove_def view_def)
  have "ctx_ok ?c"
    using reach_inv [OF reach] clk by (simp add: ctx_ok_def final_ctx_def srv_inv_def base_inv_def buf_init_spec)
  note core = save_survives_restart_core [OF this can, unfolded fc]
  obtain e c' where S: "save_snapshot ?c = Some (e, c')"
    "e \<noteq> None \<longrightarrow> lastsave_unix_ms (psave c') = lastsave_unix_ms (ssave s) \<and>
      file_at (disk (psave c')) (snapshot_path (ssave s)) = file_at (disk (ssave s)) (snapshot_path (ssave s))"
    "e = None \<longrightarrow> lastsave_unix_ms (psave c') = u \<and> (\<exists>bytes. file_at (disk (psave c')) (snapshot_path (ssave s)) = Some (bytes, True) \<and>
       (\<forall>m' u' rs d0. in_i64 m' \<and> in_i64 u' \<and> list_all gives_bytes rs \<and> length bytes + 3 \<le> length rs \<longrightarrow>
         (\<exists>d rest. load_snapshot_at_startup (snapshot_path (ssave s)) m' u' rs (disk (psave c')) d0 = Some (Inr d, rest) \<and> db_invar d \<and>
           (\<forall>k. db_view d m' k = Option.bind (db_view (sdb s) m k) (\<lambda>e. restored m' u' (on_disk m u e))))))"
    using core by blast
  have "shut_down m u s = Some (e, (loop_remove (listener s) s)\<lparr>sdb := db c', ssave := psave c', conns := [], idle_list := []\<rparr>)"
    unfolding shut_down_def Let_def fc(1) using path S(1) by (simp add: loop_remove_def)
  then have "server_exit unfinished m u s = Some (e, (loop_remove (listener s) s)\<lparr>sdb := db c', ssave := psave c', conns := [], idle_list := [], stasks := []\<rparr>)"
    using drain_without_saves [OF pool] by (simp add: server_exit_def)
  then show ?thesis using S(2,3) by (intro exI conjI) (assumption | simp)+
qed

definition demo_saving :: server where
  "demo_saving = demo_start\<lparr>sdb := demo_db, ssave := psave demo_save_ctx\<rparr>"

lemma demo_saving_reach: "server_reach Poll 1000 demo_saving"
proof -
  let ?s = "server_init demo_config demo_db \<lparr>draws = \<lambda>q. q, dpos = 0\<rparr> (psave demo_save_ctx)"
  have "start_loop 3 4 5 1000 ?s = Some demo_saving"
    by (simp add: start_loop_def loop_add_def demo_saving_def demo_start_def demo_init_def server_init_def)
  moreover have "limits_ok demo_config" by (simp add: limits_ok_def demo_config_def default_config_def)
  ultimately have "started 1000 demo_saving"
    unfolding started_def using demo_db_ok(1) rng_fair_id by (intro exI conjI) (auto simp: i64_defs)
  then show ?thesis by (rule RStart)
qed

theorem graceful_restart_restores_keyspace_witness:
  "\<exists>e s'. server_exit [FreeValue (VString ''v'')] 1000 9000 demo_saving = Some (e, s') \<and> conns s' = []"
proof -
  have fc: "final_ctx 1000 9000 demo_saving = demo_save_ctx"
    by (simp add: final_ctx_def demo_saving_def demo_start_def demo_init_def server_init_def demo_save_ctx_def ctx_on_def)
  have "snapshot_path (ssave demo_saving) \<noteq> []" by (simp add: demo_saving_def demo_save_ctx_def ctx_on_def)
  moreover have "clock_ok demo_save_ctx" using demo_save_ctx_ok(1) by (simp add: ctx_ok_def)
  moreover have "list_all (\<lambda>task. \<not> writes_snapshot task) [FreeValue (VString ''v'')]" by (simp add: writes_snapshot_def)
  ultimately show ?thesis
    using graceful_restart_restores_keyspace [OF demo_saving_reach, of 1000 9000] demo_save_ctx_ok(2) unfolding fc by blast
qed

end
